(* ===== verification/Netty_Prelude.thy ===== *)
theory Netty_Prelude
  imports Main "HOL-Library.Word"
begin

text \<open>
  Shared vocabulary of the development: bytes and machine integers, the outcome of a poll, I/O
  errors as values, and the parts of the Rust standard library that the modelled sources use
  (checked arithmetic, \<^verbatim>\<open>str::split\<close>, \<^verbatim>\<open>str::trim\<close>, ASCII case folding, decimal and
  hexadecimal formatting).  The generic lemmas the component theories share follow the
  definitions.

  Conventions.  A \<^verbatim>\<open>u8\<close> is an 8-bit word, a \<^verbatim>\<open>u64\<close> a 64-bit word, byte buffers
  (\<^verbatim>\<open>Bytes\<close>, \<^verbatim>\<open>BytesMut\<close>, \<^verbatim>\<open>Vec<u8>\<close>, \<^verbatim>\<open>&[u8]\<close>) are lists of bytes, and a
  \<^verbatim>\<open>usize\<close> that measures such a buffer is a natural number.  The target is 64-bit, so
  \<^verbatim>\<open>usize::try_from\<close> of a \<^verbatim>\<open>u64\<close> never fails.  Plain \<^verbatim>\<open>+\<close> and \<^verbatim>\<open>-\<close> on words
  wrap, as they do in a release build; \<^verbatim>\<open>debug_assert!\<close> is not executed.
\<close>

section \<open>Machine types and outcomes\<close>

type_synonym byte = "8 word"
type_synonym u16 = "16 word"
type_synonym u32 = "32 word"
type_synonym u64 = "64 word"

abbreviation usize_max :: nat where
  "usize_max \<equiv> 2 ^ 64 - 1"

text \<open>
  A poll is not ready, ready with a value, or it unwound: a Rust panic is the third outcome, so
  that its absence is a property to prove.
\<close>

datatype 'a poll = Pending | Ready 'a | Panicked

datatype io_error_kind =
    UnexpectedEof
  | InvalidData
  | InvalidInput
  | WriteZero
  | TransportError nat

datatype io_error = IoError io_error_kind string

type_synonym 'a io_result = "io_error + 'a"

section \<open>Standard library\<close>

text \<open>Byte string literals: \<^verbatim>\<open>b"..."\<close>.\<close>

definition ascii :: "string \<Rightarrow> byte list" where
  "ascii s = map of_char s"

definition CRLF :: "byte list" where
  "CRLF = [13, 10]"

text \<open>\<^verbatim>\<open>checked_mul\<close>, \<^verbatim>\<open>checked_add\<close> and the saturating operations of \<^verbatim>\<open>usize\<close>.\<close>

definition checked_mul :: "'a::len word \<Rightarrow> 'a word \<Rightarrow> 'a word option" where
  "checked_mul x y = (if unat x * unat y < 2 ^ LENGTH('a) then Some (x * y) else None)"

definition checked_add :: "'a::len word \<Rightarrow> 'a word \<Rightarrow> 'a word option" where
  "checked_add x y = (if unat x + unat y < 2 ^ LENGTH('a) then Some (x + y) else None)"

definition saturating_mul :: "nat \<Rightarrow> nat \<Rightarrow> nat" where
  "saturating_mul x y = min (x * y) usize_max"

definition saturating_add :: "nat \<Rightarrow> nat \<Rightarrow> nat" where
  "saturating_add x y = min (x + y) usize_max"

text \<open>\<^verbatim>\<open>split(sep)\<close> of strings and slices: always at least one piece.\<close>

fun split_on :: "'a \<Rightarrow> 'a list \<Rightarrow> 'a list list" where
  "split_on s [] = [[]]"
| "split_on s (x # xs) =
     (if x = s then [] # split_on s xs
      else (x # hd (split_on s xs)) # tl (split_on s xs))"

text \<open>
  The ASCII part of \<^verbatim>\<open>char::is_whitespace\<close>, which \<^verbatim>\<open>str::trim\<close> uses, and
  \<^verbatim>\<open>u8::is_ascii_whitespace\<close>, which does not contain the vertical tab.
\<close>

definition is_char_whitespace :: "byte \<Rightarrow> bool" where
  "is_char_whitespace b = (b = 32 \<or> (9 \<le> b \<and> b \<le> 13))"

definition is_ascii_whitespace :: "byte \<Rightarrow> bool" where
  "is_ascii_whitespace b = (b = 32 \<or> b = 9 \<or> b = 10 \<or> b = 12 \<or> b = 13)"

definition trim_start_by :: "('a \<Rightarrow> bool) \<Rightarrow> 'a list \<Rightarrow> 'a list" where
  "trim_start_by p xs = dropWhile p xs"

definition trim_end_by :: "('a \<Rightarrow> bool) \<Rightarrow> 'a list \<Rightarrow> 'a list" where
  "trim_end_by p xs = rev (dropWhile p (rev xs))"

definition str_trim :: "byte list \<Rightarrow> byte list" where
  "str_trim s = trim_start_by is_char_whitespace (trim_end_by is_char_whitespace s)"

definition to_ascii_lowercase :: "byte \<Rightarrow> byte" where
  "to_ascii_lowercase b = (if 65 \<le> b \<and> b \<le> 90 then b + 32 else b)"

definition eq_ignore_ascii_case :: "byte list \<Rightarrow> byte list \<Rightarrow> bool" where
  "eq_ignore_ascii_case a b = (map to_ascii_lowercase a = map to_ascii_lowercase b)"

text \<open>Decimal and upper-case hexadecimal formatting (\<^verbatim>\<open>{}\<close> and \<^verbatim>\<open>{:X}\<close>).\<close>

definition hex_digit :: "nat \<Rightarrow> byte" where
  "hex_digit d = (if d < 10 then 48 + of_nat d else 55 + of_nat d)"

fun decimal :: "nat \<Rightarrow> byte list" where
  "decimal n = (if n < 10 then [48 + of_nat n] else decimal (n div 10) @ [48 + of_nat (n mod 10)])"

fun hex_upper :: "nat \<Rightarrow> byte list" where
  "hex_upper n =
     (if n < 16 then [hex_digit n] else hex_upper (n div 16) @ [hex_digit (n mod 16)])"

declare decimal.simps [simp del] hex_upper.simps [simp del]

section \<open>Shared lemmas\<close>

named_theorems word_nat \<open>moves statements on machine words to natural numbers\<close>

text \<open>The definitions a concrete input unfolds to, for evaluation by the simplifier.\<close>

lemmas std_eval =
  ascii_def checked_mul_def checked_add_def is_char_whitespace_def is_ascii_whitespace_def
  trim_start_by_def trim_end_by_def str_trim_def to_ascii_lowercase_def
  eq_ignore_ascii_case_def hex_digit_def

lemma checked_mul_Some:
  "checked_mul x y = Some z \<longleftrightarrow> unat x * unat y < 2 ^ LENGTH('a) \<and> z = x * y"
  for x y z :: "'a::len word"
  by (auto simp: checked_mul_def)

lemma checked_add_Some:
  "checked_add x y = Some z \<longleftrightarrow> unat x + unat y < 2 ^ LENGTH('a) \<and> z = x + y"
  for x y z :: "'a::len word"
  by (auto simp: checked_add_def)

lemma checked_mul_unat [word_nat]:
  "checked_mul x y = Some z \<Longrightarrow> unat z = unat x * unat y"
  by (auto simp: checked_mul_Some unat_word_ariths)

lemma checked_add_unat [word_nat]:
  "checked_add x y = Some z \<Longrightarrow> unat z = unat x + unat y"
  by (auto simp: checked_add_Some unat_word_ariths)

lemma unat_minus_le [word_nat]: "y \<le> x \<Longrightarrow> unat (x - y) = unat x - unat y"
  for x y :: "'a::len word"
  by (simp add: unat_sub)

lemma unat_less_pow: "unat x < 2 ^ LENGTH('a)"
  for x :: "'a::len word"
  by (rule unsigned_less)

lemma unat_u64_less [simp]: "unat (x :: u64) < 18446744073709551616"
  using unat_less_pow [of x] by simp

lemma unat_byte_less [simp]: "unat (b :: byte) < 256"
  using unat_less_pow [of b] by simp

lemma unat_of_nat_u64: "n < 2 ^ 64 \<Longrightarrow> unat (of_nat n :: u64) = n"
  by (simp add: unat_of_nat)

lemma unat_ucast_byte_u64 [simp]: "unat (ucast (b :: byte) :: u64) = unat b"
proof -
  have "unat b < 2 ^ 64" using unat_byte_less [of b] by (simp del: unat_byte_less)
  then show ?thesis by (simp add: unsigned_ucast_eq take_bit_nat_eq_self)
qed

lemma split_on_not_Nil [simp]: "split_on s xs \<noteq> []"
  by (induction xs) auto

lemma split_on_no_sep: "s \<notin> set xs \<Longrightarrow> split_on s xs = [xs]"
  by (induction xs) auto

lemma split_on_pieces_no_sep: "p \<in> set (split_on s xs) \<Longrightarrow> s \<notin> set p"
proof (induction xs arbitrary: p)
  case (Cons x xs)
  have "hd (split_on s xs) \<in> set (split_on s xs)" by simp
  moreover have "set (tl (split_on s xs)) \<subseteq> set (split_on s xs)"
    by (meson list.set_sel(2) split_on_not_Nil subsetI)
  ultimately show ?case using Cons by (auto split: if_splits)
qed simp

lemma split_on_append_sep: "split_on s (xs @ s # ys) = split_on s xs @ split_on s ys"
  by (induction xs) auto

text \<open>The last piece of a split string, which is what \<^verbatim>\<open>rsplit(sep).next()\<close> yields.\<close>

lemma last_split_on_append_sep: "last (split_on s (xs @ s # ys)) = last (split_on s ys)"
  by (simp add: split_on_append_sep)

lemma sum_list_split_on:
  "sum_list (map length (split_on s xs)) + length (split_on s xs) = Suc (length xs)"
proof (induction xs)
  case (Cons x xs)
  then show ?case
    by (cases "split_on s xs") auto
qed simp

lemma length_trim_start_by [simp]: "length (trim_start_by p xs) \<le> length xs"
  by (simp add: trim_start_by_def length_dropWhile_le)

lemma length_trim_end_by [simp]: "length (trim_end_by p xs) \<le> length xs"
  using length_dropWhile_le [of p "rev xs"] by (simp add: trim_end_by_def)

lemma set_trim_start_by: "set (trim_start_by p xs) \<subseteq> set xs"
  by (auto simp: trim_start_by_def dest: set_dropWhileD)

lemma set_trim_end_by: "set (trim_end_by p xs) \<subseteq> set xs"
  by (auto simp: trim_end_by_def dest: set_dropWhileD)

lemma length_ascii [simp]: "length (ascii s) = length s"
  by (simp add: ascii_def)

lemma decimal_not_Nil [simp]: "decimal n \<noteq> []"
  by (subst decimal.simps) simp

lemma hex_upper_not_Nil [simp]: "hex_upper n \<noteq> []"
  by (subst hex_upper.simps) simp

lemma unat_of_nat_byte: "n < 256 \<Longrightarrow> unat (of_nat n :: byte) = n"
  by (simp add: unat_of_nat)

end
