(* ===== verification/Http1_Buf.thy ===== *)
theory Http1_Buf
  imports Netty_Prelude
begin

text \<open>
  The write side buffers: \<^verbatim>\<open>BufList\<close> (\<^verbatim>\<open>src/src/proto/http1/buf.rs\<close>), \<^verbatim>\<open>Cursor\<close> and \<^verbatim>\<open>WriteBuf\<close>
  (\<^verbatim>\<open>src/src/proto/http1/io.rs\<close>).  They implement the trait \<^verbatim>\<open>Buf\<close> of the crate \<^verbatim>\<open>bytes\<close> over
  buffers that implement it themselves, so the methods of the inner buffer are a parameter,
  the record \<open>buf_api\<close>, and the documented behaviour of the trait is the locale \<open>byte_buf\<close>.  A panic is
  \<open>None\<close>.
\<close>

section \<open>The trait Buf\<close>

text \<open>
  \<open>bf_chunks_vectored b n\<close> are the slices written to an array of \<open>n\<close> entries; \<open>bf_copy_to_bytes b
  n\<close> are the bytes taken and the buffer left.
\<close>

record 'b buf_api =
  bf_remaining :: "'b \<Rightarrow> nat"
  bf_chunk :: "'b \<Rightarrow> byte list"
  bf_advance :: "'b \<Rightarrow> nat \<Rightarrow> 'b option"
  bf_chunks_vectored :: "'b \<Rightarrow> nat \<Rightarrow> byte list list"
  bf_copy_to_bytes :: "'b \<Rightarrow> nat \<Rightarrow> (byte list \<times> 'b) option"

text \<open>
  The documented contract: the contents are a byte sequence, the current chunk is a prefix of it
  that is empty only at the end, and advancing drops a prefix.  The slices are a prefix of the
  contents, and all of it when they do not fill the array.
\<close>

locale byte_buf =
  fixes B :: "'b buf_api"
    and contents :: "'b \<Rightarrow> byte list"
    and ok :: "'b \<Rightarrow> bool"
  assumes remaining_contents: "ok b \<Longrightarrow> bf_remaining B b = length (contents b)"
    and chunk_prefix: "ok b \<Longrightarrow> \<exists>ys. contents b = bf_chunk B b @ ys"
    and chunk_empty: "ok b \<Longrightarrow> bf_chunk B b = [] \<longleftrightarrow> contents b = []"
    and advance_drop: "\<lbrakk>ok b; n \<le> length (contents b)\<rbrakk> \<Longrightarrow>
          \<exists>b'. bf_advance B b n = Some b' \<and> ok b' \<and> contents b' = drop n (contents b)"
    and vectored_prefix: "ok b \<Longrightarrow> \<exists>ys. contents b = concat (bf_chunks_vectored B b n) @ ys"
    and vectored_length: "ok b \<Longrightarrow> length (bf_chunks_vectored B b n) \<le> n"
    and vectored_all: "\<lbrakk>ok b; length (bf_chunks_vectored B b n) < n\<rbrakk> \<Longrightarrow>
          concat (bf_chunks_vectored B b n) = contents b"
    and copy_take: "\<lbrakk>ok b; n \<le> length (contents b)\<rbrakk> \<Longrightarrow>
          \<exists>b'. bf_copy_to_bytes B b n = Some (take n (contents b), b') \<and> ok b' \<and>
               contents b' = drop n (contents b)"

section \<open>BufList\<close>

record 'b buf_list =
  bl_bufs :: "'b list"
  bl_left :: nat

definition bl_new :: "'b buf_list" where
  "bl_new = \<lparr>bl_bufs = [], bl_left = 0\<rparr>"

definition bl_push :: "'b buf_api \<Rightarrow> 'b buf_list \<Rightarrow> 'b \<Rightarrow> 'b buf_list" where
  "bl_push B l b = l\<lparr>bl_left := bl_left l + bf_remaining B b, bl_bufs := bl_bufs l @ [b]\<rparr>"

definition bl_bufs_cnt :: "'b buf_list \<Rightarrow> nat" where
  "bl_bufs_cnt l = length (bl_bufs l)"

definition bl_remaining :: "'b buf_list \<Rightarrow> nat" where
  "bl_remaining l = bl_left l"

definition bl_chunk :: "'b buf_api \<Rightarrow> 'b buf_list \<Rightarrow> byte list" where
  "bl_chunk B l = (case bl_bufs l of [] \<Rightarrow> [] | b # _ \<Rightarrow> bf_chunk B b)"

text \<open>The loop of \<^verbatim>\<open>advance\<close>; \<^verbatim>\<open>self.bufs[0]\<close> panics on an empty deque.\<close>

fun bl_advance_loop :: "'b buf_api \<Rightarrow> nat \<Rightarrow> 'b list \<Rightarrow> 'b list option" where
  "bl_advance_loop B cnt bufs =
     (if cnt = 0 then Some bufs
      else
        (case bufs of
           [] \<Rightarrow> None
         | front # bs \<Rightarrow>
             (let rem = bf_remaining B front in
              if rem > cnt then map_option (\<lambda>f. f # bs) (bf_advance B front cnt)
              else
                (case bf_advance B front rem of
                   None \<Rightarrow> None
                 | Some _ \<Rightarrow> bl_advance_loop B (cnt - rem) bs))))"

declare bl_advance_loop.simps [simp del]

definition bl_advance :: "'b buf_api \<Rightarrow> 'b buf_list \<Rightarrow> nat \<Rightarrow> 'b buf_list option" where
  "bl_advance B l cnt =
     (if cnt \<le> bl_left l then
        map_option (\<lambda>bufs. \<lparr>bl_bufs = bufs, bl_left = bl_left l - cnt\<rparr>)
          (bl_advance_loop B cnt (bl_bufs l))
      else None)"

text \<open>The loop of \<^verbatim>\<open>chunks_vectored\<close>, by the room left in the array.\<close>

fun bl_vectored_loop :: "'b buf_api \<Rightarrow> 'b list \<Rightarrow> nat \<Rightarrow> byte list list" where
  "bl_vectored_loop B [] n = []"
| "bl_vectored_loop B (b # bs) n =
     (let vs = bf_chunks_vectored B b n in
      if length vs = n then vs else vs @ bl_vectored_loop B bs (n - length vs))"

definition bl_chunks_vectored :: "'b buf_api \<Rightarrow> 'b buf_list \<Rightarrow> nat \<Rightarrow> byte list list" where
  "bl_chunks_vectored B l n = (if n = 0 then [] else bl_vectored_loop B (bl_bufs l) n)"

text \<open>
  \<^verbatim>\<open>copy_to_bytes\<close>.  The last arm calls \<^verbatim>\<open>BytesMut::put(self.take(len))\<close> of the crate \<^verbatim>\<open>bytes\<close>,
  the parameter \<open>put_take\<close>, which transfers \<open>len\<close> bytes and advances the list.
\<close>

definition bl_copy_to_bytes ::
    "'b buf_api \<Rightarrow> ('b buf_list \<Rightarrow> nat \<Rightarrow> (byte list \<times> 'b buf_list) option) \<Rightarrow>
     'b buf_list \<Rightarrow> nat \<Rightarrow> (byte list \<times> 'b buf_list) option" where
  "bl_copy_to_bytes B put_take l len =
     (case bl_bufs l of
        front # bs \<Rightarrow>
          (if bf_remaining B front = len then
             map_option (\<lambda>(b, _). (b, \<lparr>bl_bufs = bs, bl_left = bl_left l - len\<rparr>))
               (bf_copy_to_bytes B front len)
           else if bf_remaining B front > len then
             map_option (\<lambda>(b, f). (b, \<lparr>bl_bufs = f # bs, bl_left = bl_left l - len\<rparr>))
               (bf_copy_to_bytes B front len)
           else if len \<le> bl_remaining l then put_take l len else None)
      | [] \<Rightarrow> if len \<le> bl_remaining l then put_take l len else None)"

section \<open>Cursor\<close>

text \<open>\<^verbatim>\<open>Cursor<Vec<u8>>\<close>; the capacity of the vector decides \<^verbatim>\<open>maybe_unshift\<close>.\<close>

record cursor =
  cu_bytes :: "byte list"
  cu_cap :: nat
  cu_pos :: nat

text \<open>\<^verbatim>\<open>Vec::extend_from_slice\<close> with the amortised growth of the standard library.\<close>

definition vec_extend :: "cursor \<Rightarrow> byte list \<Rightarrow> cursor" where
  "vec_extend c bs =
     (let need = length (cu_bytes c) + length bs in
      c\<lparr>cu_bytes := cu_bytes c @ bs,
        cu_cap := (if need \<le> cu_cap c then cu_cap c else max 8 (max (2 * cu_cap c) need))\<rparr>)"

definition cursor_new :: "nat \<Rightarrow> cursor" where
  "cursor_new cap = \<lparr>cu_bytes = [], cu_cap = cap, cu_pos = 0\<rparr>"

definition maybe_unshift :: "cursor \<Rightarrow> nat \<Rightarrow> cursor" where
  "maybe_unshift c additional =
     (if cu_pos c = 0 then c
      else if cu_cap c - length (cu_bytes c) \<ge> additional then c
      else c\<lparr>cu_bytes := drop (cu_pos c) (cu_bytes c), cu_pos := 0\<rparr>)"

definition cursor_reset :: "cursor \<Rightarrow> cursor" where
  "cursor_reset c = c\<lparr>cu_pos := 0, cu_bytes := []\<rparr>"

definition cursor_remaining :: "cursor \<Rightarrow> nat" where
  "cursor_remaining c = length (cu_bytes c) - cu_pos c"

definition cursor_chunk :: "cursor \<Rightarrow> byte list" where
  "cursor_chunk c = drop (cu_pos c) (cu_bytes c)"

definition cursor_advance :: "cursor \<Rightarrow> nat \<Rightarrow> cursor" where
  "cursor_advance c cnt = c\<lparr>cu_pos := cu_pos c + cnt\<rparr>"

section \<open>WriteBuf\<close>

definition INIT_BUFFER_SIZE :: nat where
  "INIT_BUFFER_SIZE = 8192"

definition DEFAULT_MAX_BUFFER_SIZE :: nat where
  "DEFAULT_MAX_BUFFER_SIZE = 8192 + 4096 * 100"

definition MAX_BUF_LIST_BUFFERS :: nat where
  "MAX_BUF_LIST_BUFFERS = 16"

datatype write_strategy = Flatten | Queue

record 'b write_buf =
  wb_headers :: cursor
  wb_max_buf_size :: nat
  wb_queue :: "'b buf_list"
  wb_strategy :: write_strategy

definition wb_new :: "write_strategy \<Rightarrow> 'b write_buf" where
  "wb_new strategy =
     \<lparr>wb_headers = cursor_new INIT_BUFFER_SIZE, wb_max_buf_size = DEFAULT_MAX_BUFFER_SIZE,
      wb_queue = bl_new, wb_strategy = strategy\<rparr>"

definition set_strategy :: "'b write_buf \<Rightarrow> write_strategy \<Rightarrow> 'b write_buf" where
  "set_strategy w strategy = w\<lparr>wb_strategy := strategy\<rparr>"

text \<open>
  The loop of \<^verbatim>\<open>buffer\<close> that copies a buffer chunk by chunk.  The outer option is \<open>None\<close> where the
  loop does not end.
\<close>

partial_function (option) flatten_loop ::
    "'c buf_api \<Rightarrow> cursor \<Rightarrow> 'c \<Rightarrow> cursor option option" where
  "flatten_loop C head b =
     (let bytes = bf_chunk C b in
      if bytes = [] then Some (Some head)
      else
        (case bf_advance C b (length bytes) of
           None \<Rightarrow> Some None
         | Some b' \<Rightarrow> flatten_loop C (vec_extend head bytes) b'))"

declare flatten_loop.simps [code]

text \<open>\<^verbatim>\<open>buffer<BB: Buf + Into<B>>\<close>: the methods \<open>C\<close> of \<^verbatim>\<open>BB\<close> and the conversion \<open>into\<close>.\<close>

definition wb_buffer ::
    "'b buf_api \<Rightarrow> 'c buf_api \<Rightarrow> ('c \<Rightarrow> 'b) \<Rightarrow> 'b write_buf \<Rightarrow> 'c \<Rightarrow> 'b write_buf option option" where
  "wb_buffer B C into w b =
     (case wb_strategy w of
        Flatten \<Rightarrow>
          map_option (map_option (\<lambda>h. w\<lparr>wb_headers := h\<rparr>))
            (flatten_loop C (maybe_unshift (wb_headers w) (bf_remaining C b)) b)
      | Queue \<Rightarrow> Some (Some (w\<lparr>wb_queue := bl_push B (wb_queue w) (into b)\<rparr>)))"

definition wb_remaining :: "'b write_buf \<Rightarrow> nat" where
  "wb_remaining w = cursor_remaining (wb_headers w) + bl_remaining (wb_queue w)"

definition wb_can_buffer :: "'b write_buf \<Rightarrow> bool" where
  "wb_can_buffer w =
     (case wb_strategy w of
        Flatten \<Rightarrow> wb_remaining w < wb_max_buf_size w
      | Queue \<Rightarrow> bl_bufs_cnt (wb_queue w) < MAX_BUF_LIST_BUFFERS \<and>
                 wb_remaining w < wb_max_buf_size w)"

definition wb_chunk :: "'b buf_api \<Rightarrow> 'b write_buf \<Rightarrow> byte list" where
  "wb_chunk B w =
     (let headers = cursor_chunk (wb_headers w) in
      if headers \<noteq> [] then headers else bl_chunk B (wb_queue w))"

definition wb_advance :: "'b buf_api \<Rightarrow> 'b write_buf \<Rightarrow> nat \<Rightarrow> 'b write_buf option" where
  "wb_advance B w cnt =
     (let hrem = cursor_remaining (wb_headers w) in
      if hrem = cnt then Some (w\<lparr>wb_headers := cursor_reset (wb_headers w)\<rparr>)
      else if hrem > cnt then Some (w\<lparr>wb_headers := cursor_advance (wb_headers w) cnt\<rparr>)
      else
        map_option (\<lambda>q. w\<lparr>wb_headers := cursor_reset (wb_headers w), wb_queue := q\<rparr>)
          (bl_advance B (wb_queue w) (cnt - hrem)))"

text \<open>\<^verbatim>\<open>Cursor\<close> has the default \<^verbatim>\<open>chunks_vectored\<close>: its one chunk, if there is room and it is not empty.\<close>

definition wb_chunks_vectored :: "'b buf_api \<Rightarrow> 'b write_buf \<Rightarrow> nat \<Rightarrow> byte list list" where
  "wb_chunks_vectored B w n =
     (let hs = (if n = 0 \<or> cursor_remaining (wb_headers w) = 0 then []
                else [cursor_chunk (wb_headers w)]) in
      hs @ bl_chunks_vectored B (wb_queue w) (n - length hs))"

section \<open>Contents and invariants\<close>

definition bl_contents :: "('b \<Rightarrow> byte list) \<Rightarrow> 'b buf_list \<Rightarrow> byte list" where
  "bl_contents contents l = concat (map contents (bl_bufs l))"

text \<open>The queued buffers are not empty, and the count of the bytes left is exact.\<close>

definition bl_ok :: "('b \<Rightarrow> byte list) \<Rightarrow> ('b \<Rightarrow> bool) \<Rightarrow> 'b buf_list \<Rightarrow> bool" where
  "bl_ok contents ok l \<longleftrightarrow>
     list_all (\<lambda>b. ok b \<and> contents b \<noteq> []) (bl_bufs l) \<and> bl_left l = length (bl_contents contents l)"

definition cursor_ok :: "cursor \<Rightarrow> bool" where
  "cursor_ok c \<longleftrightarrow> cu_pos c \<le> length (cu_bytes c) \<and> length (cu_bytes c) \<le> cu_cap c"

definition wb_contents :: "('b \<Rightarrow> byte list) \<Rightarrow> 'b write_buf \<Rightarrow> byte list" where
  "wb_contents contents w = cursor_chunk (wb_headers w) @ bl_contents contents (wb_queue w)"

definition wb_ok :: "('b \<Rightarrow> byte list) \<Rightarrow> ('b \<Rightarrow> bool) \<Rightarrow> 'b write_buf \<Rightarrow> bool" where
  "wb_ok contents ok w \<longleftrightarrow> cursor_ok (wb_headers w) \<and> bl_ok contents ok (wb_queue w) \<and>
     (wb_strategy w = Flatten \<longrightarrow> bl_bufs (wb_queue w) = [])"

text \<open>The methods of the two lists, as buffers again.\<close>

definition bl_api ::
    "'b buf_api \<Rightarrow> ('b buf_list \<Rightarrow> nat \<Rightarrow> (byte list \<times> 'b buf_list) option) \<Rightarrow> 'b buf_list buf_api" where
  "bl_api B put_take =
     \<lparr>bf_remaining = bl_remaining, bf_chunk = bl_chunk B, bf_advance = bl_advance B,
      bf_chunks_vectored = bl_chunks_vectored B, bf_copy_to_bytes = bl_copy_to_bytes B put_take\<rparr>"

text \<open>\<^verbatim>\<open>WriteBuf\<close> leaves \<^verbatim>\<open>copy_to_bytes\<close> to the default of the trait, the parameter \<open>copy\<close>.\<close>

definition wb_api ::
    "'b buf_api \<Rightarrow> ('b write_buf \<Rightarrow> nat \<Rightarrow> (byte list \<times> 'b write_buf) option) \<Rightarrow>
     'b write_buf buf_api" where
  "wb_api B copy =
     \<lparr>bf_remaining = wb_remaining, bf_chunk = wb_chunk B, bf_advance = wb_advance B,
      bf_chunks_vectored = wb_chunks_vectored B, bf_copy_to_bytes = copy\<rparr>"

text \<open>A byte slice as a buffer.\<close>

definition slice_api :: "byte list buf_api" where
  "slice_api =
     \<lparr>bf_remaining = length, bf_chunk = (\<lambda>b. b),
      bf_advance = (\<lambda>b n. if n \<le> length b then Some (drop n b) else None),
      bf_chunks_vectored = (\<lambda>b n. if n = 0 \<or> b = [] then [] else [b]),
      bf_copy_to_bytes = (\<lambda>b n. if n \<le> length b then Some (take n b, drop n b) else None)\<rparr>"

text \<open>A copying method by way of \<^verbatim>\<open>advance\<close>.\<close>

definition copy_by_advance ::
    "('x \<Rightarrow> nat \<Rightarrow> 'x option) \<Rightarrow> ('x \<Rightarrow> byte list) \<Rightarrow> 'x \<Rightarrow> nat \<Rightarrow> (byte list \<times> 'x) option" where
  "copy_by_advance adv contents x n = map_option (\<lambda>x'. (take n (contents x), x')) (adv x n)"

section \<open>The lists implement the contract\<close>

interpretation slice_buf: byte_buf slice_api "\<lambda>b. b" "\<lambda>b. True"
  by unfold_locales (auto simp: slice_api_def)

lemma cursor_chunk_advance: "cursor_chunk (cursor_advance c n) = drop n (cursor_chunk c)"
  by (simp add: cursor_chunk_def cursor_advance_def add.commute)

lemma cursor_chunk_unshift: "cursor_chunk (maybe_unshift c n) = cursor_chunk c"
  by (simp add: cursor_chunk_def maybe_unshift_def)

lemma cursor_chunk_extend:
  "cu_pos c \<le> length (cu_bytes c) \<Longrightarrow> cursor_chunk (vec_extend c bs) = cursor_chunk c @ bs"
  by (simp add: cursor_chunk_def vec_extend_def Let_def)

lemma cursor_chunk_reset [simp]: "cursor_chunk (cursor_reset c) = []"
  by (simp add: cursor_chunk_def cursor_reset_def)

lemma cursor_remaining_chunk: "cursor_remaining c = length (cursor_chunk c)"
  by (simp add: cursor_remaining_def cursor_chunk_def)

lemma cursor_ok_ops:
  assumes "cursor_ok c"
  shows "cursor_ok (vec_extend c bs)" "cursor_ok (maybe_unshift c n)" "cursor_ok (cursor_reset c)"
    "n \<le> cursor_remaining c \<Longrightarrow> cursor_ok (cursor_advance c n)"
  using assms
  by (auto simp: cursor_ok_def vec_extend_def maybe_unshift_def cursor_reset_def cursor_advance_def
      cursor_remaining_def Let_def)

context byte_buf
begin

lemma contents_chunk: "ok b \<Longrightarrow> take (length (bf_chunk B b)) (contents b) = bf_chunk B b"
  using chunk_prefix by force

lemma bl_advance_loop_ok:
  assumes "list_all (\<lambda>b. ok b \<and> contents b \<noteq> []) bs" "n \<le> length (concat (map contents bs))"
  shows "\<exists>bs'. bl_advance_loop B n bs = Some bs' \<and>
    list_all (\<lambda>b. ok b \<and> contents b \<noteq> []) bs' \<and>
    concat (map contents bs') = drop n (concat (map contents bs))"
  using assms
proof (induction bs arbitrary: n)
  case Nil
  then show ?case by (simp add: bl_advance_loop.simps)
next
  case (Cons b bs)
  have ok: "ok b" and rem: "bf_remaining B b = length (contents b)"
    using Cons.prems remaining_contents by auto
  consider "n = 0" | "0 < n" "n < length (contents b)" | "0 < n" "length (contents b) \<le> n" by linarith
  then show ?case
  proof cases
    case 1
    then show ?thesis using Cons.prems by (simp add: bl_advance_loop.simps)
  next
    case 2
    obtain b' where "bf_advance B b n = Some b'" "ok b'" "contents b' = drop n (contents b)"
      using advance_drop [OF ok, of n] 2 by auto
    then show ?thesis using 2 Cons.prems rem by (simp add: bl_advance_loop.simps)
  next
    case 3
    obtain b' where "bf_advance B b (length (contents b)) = Some b'"
      using advance_drop [OF ok, of "length (contents b)"] by auto
    then show ?thesis
      using 3 Cons.IH [of "n - length (contents b)"] Cons.prems rem
      by (subst bl_advance_loop.simps) (simp add: Let_def)
  qed
qed

lemma bl_vectored_loop_ok:
  assumes "list_all ok bs" "0 < n"
  shows "length (bl_vectored_loop B bs n) \<le> n \<and>
    (\<exists>ys. concat (map contents bs) = concat (bl_vectored_loop B bs n) @ ys) \<and>
    (length (bl_vectored_loop B bs n) < n \<longrightarrow>
       concat (bl_vectored_loop B bs n) = concat (map contents bs))"
  using assms
proof (induction bs arbitrary: n)
  case (Cons b bs)
  let ?vs = "bf_chunks_vectored B b n"
  have ok: "ok b" using Cons.prems by simp
  show ?case
  proof (cases "length ?vs = n")
    case True
    then show ?thesis using vectored_prefix [OF ok, of n] by (auto simp: Let_def)
  next
    case False
    then have lt: "length ?vs < n" using vectored_length [OF ok, of n] by simp
    then have "concat ?vs = contents b" using vectored_all [OF ok] by blast
    then show ?thesis using Cons.IH [of "n - length ?vs"] Cons.prems lt by (auto simp: Let_def)
  qed
qed simp

lemma flatten_loop_ok:
  assumes "ok b" "cursor_ok c"
  shows "\<exists>c'. flatten_loop B c b = Some (Some c') \<and> cursor_ok c' \<and>
    cursor_chunk c' = cursor_chunk c @ contents b"
  using assms
proof (induction "length (contents b)" arbitrary: b c rule: less_induct)
  case less
  show ?case
  proof (cases "bf_chunk B b = []")
    case True
    then show ?thesis using less.prems chunk_empty by (subst flatten_loop.simps) simp
  next
    case False
    let ?k = "bf_chunk B b"
    have le: "length ?k \<le> length (contents b)" using chunk_prefix [OF less.prems(1)] by auto
    obtain b' where b': "bf_advance B b (length ?k) = Some b'" "ok b'"
        "contents b' = drop (length ?k) (contents b)"
      using advance_drop [OF less.prems(1) le] by blast
    have "length (contents b') < length (contents b)" using b'(3) False le by (cases ?k) auto
    then obtain c' where c': "flatten_loop B (vec_extend c ?k) b' = Some (Some c')" "cursor_ok c'"
        "cursor_chunk c' = cursor_chunk (vec_extend c ?k) @ contents b'"
      using less.hyps [of b' "vec_extend c ?k"] b'(2) less.prems(2) cursor_ok_ops by blast
    have "cursor_chunk c' = cursor_chunk c @ contents b"
      using c'(3) b'(3) less.prems contents_chunk
      by (metis append.assoc append_take_drop_id cursor_chunk_extend cursor_ok_def)
    then show ?thesis using c' b' False by (subst flatten_loop.simps) (simp add: Let_def)
  qed
qed

lemma bl_contents_Nil_iff: "bl_ok contents ok l \<Longrightarrow> bl_contents contents l = [] \<longleftrightarrow> bl_bufs l = []"
  by (cases "bl_bufs l") (auto simp: bl_ok_def bl_contents_def)

lemma bl_chunk_prefix:
  assumes "bl_ok contents ok l"
  shows "\<exists>ys. bl_contents contents l = bl_chunk B l @ ys"
    "bl_chunk B l = [] \<longleftrightarrow> bl_contents contents l = []"
proof -
  show "\<exists>ys. bl_contents contents l = bl_chunk B l @ ys"
    using assms chunk_prefix [of "hd (bl_bufs l)"]
    by (cases "bl_bufs l") (auto simp: bl_ok_def bl_contents_def bl_chunk_def)
  show "bl_chunk B l = [] \<longleftrightarrow> bl_contents contents l = []"
    using assms chunk_empty [of "hd (bl_bufs l)"]
    by (cases "bl_bufs l") (auto simp: bl_ok_def bl_contents_def bl_chunk_def)
qed

lemma bl_advance_ok:
  assumes "bl_ok contents ok l" "n \<le> length (bl_contents contents l)"
  shows "\<exists>l'. bl_advance B l n = Some l' \<and> bl_ok contents ok l' \<and>
    bl_contents contents l' = drop n (bl_contents contents l)"
proof -
  have bs: "list_all (\<lambda>b. ok b \<and> contents b \<noteq> []) (bl_bufs l)"
    "n \<le> length (concat (map contents (bl_bufs l)))"
    using assms by (simp_all add: bl_ok_def bl_contents_def)
  show ?thesis
    using bl_advance_loop_ok [OF bs] assms by (auto simp: bl_advance_def bl_ok_def bl_contents_def)
qed

lemma bl_vectored_ok:
  assumes "bl_ok contents ok l"
  shows "\<exists>ys. bl_contents contents l = concat (bl_chunks_vectored B l n) @ ys"
    "length (bl_chunks_vectored B l n) \<le> n"
    "length (bl_chunks_vectored B l n) < n \<Longrightarrow>
       concat (bl_chunks_vectored B l n) = bl_contents contents l"
proof -
  have "list_all ok (bl_bufs l)" using assms by (simp add: bl_ok_def list_all_iff)
  note v = bl_vectored_loop_ok [OF this, of n]
  show "\<exists>ys. bl_contents contents l = concat (bl_chunks_vectored B l n) @ ys"
    "length (bl_chunks_vectored B l n) \<le> n"
    "length (bl_chunks_vectored B l n) < n \<Longrightarrow>
       concat (bl_chunks_vectored B l n) = bl_contents contents l"
    using v by (cases "n = 0"; auto simp: bl_chunks_vectored_def bl_contents_def)+
qed

lemma bl_push_ok:
  assumes "bl_ok contents ok l" "ok b" "contents b \<noteq> []"
  shows "bl_ok contents ok (bl_push B l b)"
    "bl_contents contents (bl_push B l b) = bl_contents contents l @ contents b"
  using assms remaining_contents by (auto simp: bl_ok_def bl_push_def bl_contents_def)

lemma wb_chunk_prefix:
  assumes "wb_ok contents ok w"
  shows "\<exists>ys. wb_contents contents w = wb_chunk B w @ ys"
    "wb_chunk B w = [] \<longleftrightarrow> wb_contents contents w = []"
  using bl_chunk_prefix [of "wb_queue w"] assms
  by (auto simp: wb_ok_def wb_chunk_def wb_contents_def Let_def)

lemma wb_advance_ok:
  assumes "wb_ok contents ok w" "n \<le> length (wb_contents contents w)"
  shows "\<exists>w'. wb_advance B w n = Some w' \<and> wb_ok contents ok w' \<and>
    wb_contents contents w' = drop n (wb_contents contents w) \<and> wb_strategy w' = wb_strategy w"
proof (cases "cursor_remaining (wb_headers w) < n")
  case True
  let ?q = "wb_queue w" and ?k = "n - cursor_remaining (wb_headers w)"
  have "bl_ok contents ok ?q" "?k \<le> length (bl_contents contents ?q)"
    using assms True by (auto simp: wb_ok_def wb_contents_def cursor_remaining_chunk)
  from bl_advance_ok [OF this] obtain q where q: "bl_advance B ?q ?k = Some q"
      "bl_ok contents ok q" "bl_contents contents q = drop ?k (bl_contents contents ?q)"
    by blast
  have "bl_bufs q = []" if "wb_strategy w = Flatten"
    using that assms q bl_contents_Nil_iff [of q] by (simp add: wb_ok_def bl_contents_def)
  then show ?thesis
    using True q assms cursor_ok_ops
    by (auto simp: wb_advance_def Let_def wb_ok_def wb_contents_def cursor_remaining_chunk)
next
  case False
  then show ?thesis
    using assms cursor_ok_ops cursor_chunk_advance
    by (auto simp: wb_advance_def Let_def wb_ok_def wb_contents_def cursor_remaining_chunk)
qed

lemma wb_vectored_ok:
  assumes "wb_ok contents ok w"
  shows "\<exists>ys. wb_contents contents w = concat (wb_chunks_vectored B w n) @ ys"
    "length (wb_chunks_vectored B w n) \<le> n"
    "length (wb_chunks_vectored B w n) < n \<Longrightarrow>
       concat (wb_chunks_vectored B w n) = wb_contents contents w"
proof -
  have q: "bl_ok contents ok (wb_queue w)" using assms by (simp add: wb_ok_def)
  note v = bl_vectored_ok [OF q]
  consider "n = 0" | "cursor_chunk (wb_headers w) = []"
    | m where "n = Suc m" "cursor_chunk (wb_headers w) \<noteq> []"
    by (cases n) auto
  then show "\<exists>ys. wb_contents contents w = concat (wb_chunks_vectored B w n) @ ys"
    "length (wb_chunks_vectored B w n) \<le> n"
    "length (wb_chunks_vectored B w n) < n \<Longrightarrow>
       concat (wb_chunks_vectored B w n) = wb_contents contents w"
    using v [of n] v [of "n - 1"]
    by (cases; simp add: wb_chunks_vectored_def wb_contents_def Let_def cursor_remaining_chunk
        bl_chunks_vectored_def [of B _ 0])+
qed

lemma bl_remaining_ok:
  "bl_ok contents ok l \<Longrightarrow> bl_remaining l = length (bl_contents contents l)"
  by (simp add: bl_remaining_def bl_ok_def)

lemma wb_remaining_ok:
  "wb_ok contents ok w \<Longrightarrow> wb_remaining w = length (wb_contents contents w)"
  by (simp add: wb_remaining_def wb_ok_def wb_contents_def cursor_remaining_chunk bl_remaining_ok)

end

text \<open>
  A buffer whose lists are buffers again: \<open>put_take\<close> and \<open>copy\<close> stand for the copying methods the
  lists leave to the crate \<^verbatim>\<open>bytes\<close>.
\<close>

locale buf_queue = byte_buf +
  fixes put_take :: "'a buf_list \<Rightarrow> nat \<Rightarrow> (byte list \<times> 'a buf_list) option"
    and copy :: "'a write_buf \<Rightarrow> nat \<Rightarrow> (byte list \<times> 'a write_buf) option"
  assumes put_take_ok: "\<lbrakk>bl_ok contents ok l; n \<le> length (bl_contents contents l)\<rbrakk> \<Longrightarrow>
      \<exists>l'. put_take l n = Some (take n (bl_contents contents l), l') \<and> bl_ok contents ok l' \<and>
           bl_contents contents l' = drop n (bl_contents contents l)"
    and copy_ok: "\<lbrakk>wb_ok contents ok w; n \<le> length (wb_contents contents w)\<rbrakk> \<Longrightarrow>
      \<exists>w'. copy w n = Some (take n (wb_contents contents w), w') \<and> wb_ok contents ok w' \<and>
           wb_contents contents w' = drop n (wb_contents contents w)"
begin

lemma bl_copy_ok:
  assumes "bl_ok contents ok l" "n \<le> length (bl_contents contents l)"
  shows "\<exists>l'. bl_copy_to_bytes B put_take l n = Some (take n (bl_contents contents l), l') \<and>
    bl_ok contents ok l' \<and> bl_contents contents l' = drop n (bl_contents contents l)"
proof (cases "bl_bufs l")
  case Nil
  then show ?thesis
    using put_take_ok [OF assms] assms
    by (auto simp: bl_copy_to_bytes_def bl_remaining_def bl_ok_def)
next
  case (Cons b bs)
  have ok: "ok b" "bf_remaining B b = length (contents b)"
    using assms Cons remaining_contents by (auto simp: bl_ok_def)
  show ?thesis
  proof (cases "n \<le> length (contents b)")
    case True
    then show ?thesis
      using copy_take [OF ok(1) True] assms Cons ok
      by (auto simp: bl_copy_to_bytes_def bl_ok_def bl_contents_def)
  next
    case False
    then show ?thesis
      using put_take_ok [OF assms] assms Cons ok
      by (auto simp: bl_copy_to_bytes_def bl_remaining_def bl_ok_def)
  qed
qed

end

sublocale buf_queue \<subseteq> bl: byte_buf "bl_api B put_take" "bl_contents contents" "bl_ok contents ok"
  by unfold_locales
     (simp_all add: bl_api_def bl_remaining_ok bl_chunk_prefix bl_advance_ok bl_vectored_ok bl_copy_ok)

sublocale buf_queue \<subseteq> wb: byte_buf "wb_api B copy" "wb_contents contents" "wb_ok contents ok"
  using wb_advance_ok
  by unfold_locales
     (simp_all add: wb_api_def wb_remaining_ok wb_chunk_prefix wb_vectored_ok copy_ok, blast)

text \<open>Queues and write buffers of byte slices.\<close>

interpretation slice_queue: buf_queue slice_api "\<lambda>b. b" "\<lambda>b. True"
  "copy_by_advance (bl_advance slice_api) (bl_contents (\<lambda>b. b))"
  "copy_by_advance (wb_advance slice_api) (wb_contents (\<lambda>b. b))"
  using slice_buf.bl_advance_ok slice_buf.wb_advance_ok
  by unfold_locales (fastforce simp: copy_by_advance_def)+

context byte_buf
begin

lemma wb_buffer_ok:
  assumes "byte_buf C ccontents cok" "cok b" "ccontents b \<noteq> []" "wb_ok contents ok w"
    and "ok (into b)" "contents (into b) = ccontents b"
  shows "\<exists>w'. wb_buffer B C into w b = Some (Some w') \<and> wb_ok contents ok w' \<and>
    wb_contents contents w' = wb_contents contents w @ ccontents b \<and> wb_strategy w' = wb_strategy w"
proof (cases "wb_strategy w")
  case Flatten
  let ?h = "maybe_unshift (wb_headers w) (bf_remaining C b)"
  have "cursor_ok ?h" using assms(4) cursor_ok_ops by (simp add: wb_ok_def)
  then obtain h where "flatten_loop C ?h b = Some (Some h)" "cursor_ok h"
      "cursor_chunk h = cursor_chunk (wb_headers w) @ ccontents b"
    using byte_buf.flatten_loop_ok [OF assms(1,2)] cursor_chunk_unshift by metis
  then show ?thesis
    using Flatten assms(4) by (auto simp: wb_buffer_def wb_ok_def wb_contents_def bl_contents_def)
next
  case Queue
  then show ?thesis
    using assms bl_push_ok [of "wb_queue w" "into b"]
    by (auto simp: wb_buffer_def wb_ok_def wb_contents_def)
qed

end

section \<open>Properties\<close>

text \<open>
  Over buffers that meet the contract of \<^verbatim>\<open>Buf\<close>, the list of buffers behaves as the
  concatenation of its members: \<^verbatim>\<open>remaining\<close> is exact, \<^verbatim>\<open>advance\<close> drops a prefix across members,
  empties none it keeps and panics exactly past the end, and the vectored slices are a prefix.
\<close>

theorem buf_list_concatenation:
  assumes "byte_buf B contents ok" "bl_ok contents ok l"
  shows "bl_remaining l = length (bl_contents contents l) \<and>
    (\<exists>ys. bl_contents contents l = concat (bl_chunks_vectored B l k) @ ys) \<and>
    (case bl_advance B l n of
       Some l' \<Rightarrow> n \<le> length (bl_contents contents l) \<and> bl_ok contents ok l' \<and>
                  bl_contents contents l' = drop n (bl_contents contents l)
     | None \<Rightarrow> length (bl_contents contents l) < n)"
proof (cases "n \<le> length (bl_contents contents l)")
  case True
  then show ?thesis
    using byte_buf.bl_advance_ok [OF assms True] byte_buf.bl_vectored_ok(1) [OF assms]
      byte_buf.bl_remaining_ok [OF assms] by auto
next
  case False
  then have "bl_advance B l n = None" using assms(2) by (simp add: bl_advance_def bl_ok_def)
  then show ?thesis
    using False byte_buf.bl_vectored_ok(1) [OF assms] byte_buf.bl_remaining_ok [OF assms] by simp
qed

theorem buf_list_concatenation_witness:
  "case bl_advance slice_api \<lparr>bl_bufs = [[1, 2], [3], [4, 5]], bl_left = 5\<rparr> 4 of
     Some l' \<Rightarrow> bl_contents (\<lambda>b. b) l' = [5] | None \<Rightarrow> False"
  using buf_list_concatenation [OF slice_buf.byte_buf_axioms,
      of "\<lparr>bl_bufs = [[1, 2], [3], [4, 5]], bl_left = 5\<rparr>" 2 4]
  by (simp add: bl_ok_def bl_contents_def split: option.splits)

text \<open>
  The write buffer is a queue of bytes under both strategies: buffering a non-empty buffer
  ends, does not panic and appends exactly its bytes, whether they are flattened into the header
  vector or queued, and advancing by what a write accepted drops exactly that prefix.
\<close>

theorem write_buf_fifo:
  assumes "byte_buf B contents ok" "byte_buf C ccontents cok" "wb_ok contents ok w"
    and "cok b" "ccontents b \<noteq> []" "ok (into b)" "contents (into b) = ccontents b"
    and "n \<le> length (wb_contents contents w) + length (ccontents b)"
  shows "\<exists>w' w''. wb_buffer B C into w b = Some (Some w') \<and> wb_ok contents ok w' \<and>
    wb_contents contents w' = wb_contents contents w @ ccontents b \<and>
    wb_advance B w' n = Some w'' \<and> wb_ok contents ok w'' \<and>
    wb_contents contents w'' = drop n (wb_contents contents w @ ccontents b)"
proof -
  obtain w' where w': "wb_buffer B C into w b = Some (Some w')" "wb_ok contents ok w'"
      "wb_contents contents w' = wb_contents contents w @ ccontents b"
    using byte_buf.wb_buffer_ok [where into = into and b = b, OF assms(1,2,4,5,3,6,7)] by blast
  then show ?thesis using byte_buf.wb_advance_ok [OF assms(1) w'(2), of n] assms(8) by auto
qed

theorem write_buf_fifo_witness:
  "\<exists>w' w''. wb_buffer slice_api slice_api id (wb_new Flatten) [1, 2, 3] = Some (Some w') \<and>
     wb_ok (\<lambda>b. b) (\<lambda>b. True) w' \<and>
     wb_contents (\<lambda>b. b) w' = wb_contents (\<lambda>b. b) (wb_new Flatten) @ [1, 2, 3] \<and>
     wb_advance slice_api w' 2 = Some w'' \<and> wb_ok (\<lambda>b. b) (\<lambda>b. True) w'' \<and>
     wb_contents (\<lambda>b. b) w'' = drop 2 (wb_contents (\<lambda>b. b) (wb_new Flatten) @ [1, 2, 3])"
  by (rule write_buf_fifo [OF slice_buf.byte_buf_axioms slice_buf.byte_buf_axioms])
     (simp_all add: wb_ok_def wb_new_def cursor_new_def bl_new_def cursor_ok_def bl_ok_def bl_contents_def)

end
