(* ===== verification/Http_Types.thy ===== *)
theory Http_Types
  imports Netty_Prelude
begin

text \<open>
  The message types of \<^verbatim>\<open>src/src/proto.rs\<close>, the parse errors of \<^verbatim>\<open>src/src/error.rs\<close>, and
  the interface of the third-party crate \<^verbatim>\<open>http\<close>.  The crate is not part of the repository, so
  its header map and its header name and value conversions are a parameter of every definition
  that uses them: a value of the record \<open>http_api\<close>.  What the code relies on is
  the locale \<open>http_crate\<close>, whose assumptions are the documented behaviour of the crate.
  \<open>assoc_api\<close>, an association list, is an instance of it.
\<close>

section \<open>Messages\<close>

datatype version = HTTP_09 | HTTP_10 | HTTP_11 | HTTP_2 | HTTP_3

datatype req_method =
    GET | HEAD | POST | PUT | DELETE | CONNECT | OPTIONS | TRACE | PATCH
  | ExtensionMethod "byte list"

type_synonym status_code = u16
type_synonym header_name = "byte list"
type_synonym header_value = "byte list"

text \<open>\<^verbatim>\<open>error::Header\<close> and \<^verbatim>\<open>error::Parse\<close>.\<close>

datatype header_error = Token | ContentLengthInvalid | TransferEncodingUnexpected

datatype parse_error =
    ParseMethod
  | ParseVersion
  | ParseVersionH2
  | ParseUri
  | ParseHeader header_error
  | TooLarge
  | ParseStatus
  | ParseInternal

text \<open>\<^verbatim>\<open>proto::BodyLength\<close>.\<close>

datatype body_length = Known u64 | Unknown

text \<open>
  \<^verbatim>\<open>proto::MessageHead<S>\<close>.  Of the extensions the head carries, HTTP/1 writes the reason phrase and
  reads the callback \<^verbatim>\<open>OnPreserveHeader\<close>, which visits the header lines in an order of its own,
  and whether there is a callback \<^verbatim>\<open>OnInformational\<close>.
\<close>

record ('s, 'm) message_head =
  mh_version :: version
  mh_subject :: 's
  mh_headers :: 'm
  mh_reason :: "byte list option"
  mh_preserve :: "('m \<Rightarrow> (byte list \<times> header_value) list) option"
  mh_on_informational :: bool

text \<open>\<^verbatim>\<open>proto::RequestLine\<close>: a method and a request target.\<close>

datatype request_line = RequestLine req_method "byte list"

type_synonym 'm request_head = "(request_line, 'm) message_head"
type_synonym 'm response_head = "(status_code, 'm) message_head"

section \<open>Header names\<close>

definition CONNECTION :: header_name where "CONNECTION = ascii ''connection''"
definition CONTENT_LENGTH :: header_name where "CONTENT_LENGTH = ascii ''content-length''"
definition CONTENT_TYPE :: header_name where "CONTENT_TYPE = ascii ''content-type''"
definition TRANSFER_ENCODING :: header_name where "TRANSFER_ENCODING = ascii ''transfer-encoding''"
definition TRAILER :: header_name where "TRAILER = ascii ''trailer''"
definition UPGRADE :: header_name where "UPGRADE = ascii ''upgrade''"
definition TE :: header_name where "TE = ascii ''te''"
definition KEEP_ALIVE :: header_name where "KEEP_ALIVE = ascii ''keep-alive''"
definition PROXY_CONNECTION :: header_name where "PROXY_CONNECTION = ascii ''proxy-connection''"
definition AUTHORIZATION :: header_name where "AUTHORIZATION = ascii ''authorization''"
definition CACHE_CONTROL :: header_name where "CACHE_CONTROL = ascii ''cache-control''"
definition CONTENT_ENCODING :: header_name where "CONTENT_ENCODING = ascii ''content-encoding''"
definition CONTENT_RANGE :: header_name where "CONTENT_RANGE = ascii ''content-range''"
definition HOST :: header_name where "HOST = ascii ''host''"
definition MAX_FORWARDS :: header_name where "MAX_FORWARDS = ascii ''max-forwards''"
definition SET_COOKIE :: header_name where "SET_COOKIE = ascii ''set-cookie''"

lemmas header_name_defs =
  CONNECTION_def CONTENT_LENGTH_def CONTENT_TYPE_def TRANSFER_ENCODING_def TRAILER_def
  UPGRADE_def TE_def KEEP_ALIVE_def PROXY_CONNECTION_def AUTHORIZATION_def CACHE_CONTROL_def
  CONTENT_ENCODING_def CONTENT_RANGE_def HOST_def MAX_FORWARDS_def SET_COOKIE_def ascii_def

section \<open>The http crate\<close>

record 'm http_api =
  hm_empty :: 'm
  hm_get_all :: "'m \<Rightarrow> header_name \<Rightarrow> header_value list"
  hm_remove :: "'m \<Rightarrow> header_name \<Rightarrow> 'm"
  hm_remove_str :: "'m \<Rightarrow> byte list \<Rightarrow> 'm"
  hm_insert :: "'m \<Rightarrow> header_name \<Rightarrow> header_value \<Rightarrow> 'm"
  hm_append :: "'m \<Rightarrow> header_name \<Rightarrow> header_value \<Rightarrow> 'm"
  hm_set_last :: "'m \<Rightarrow> header_name \<Rightarrow> header_value \<Rightarrow> 'm"
  hm_iter :: "'m \<Rightarrow> (header_name \<times> header_value) list"
  hm_into_iter :: "'m \<Rightarrow> (header_name option \<times> header_value) list"
  hv_to_str :: "header_value \<Rightarrow> byte list option"
  hv_from_u64 :: "u64 \<Rightarrow> header_value"
  hv_from_bytes :: "byte list \<Rightarrow> header_value option"
  hn_from_bytes :: "byte list \<Rightarrow> header_name option"
  sc_from_u16 :: "u16 \<Rightarrow> status_code option"
  sc_canonical_reason :: "status_code \<Rightarrow> byte list option"

text \<open>\<^verbatim>\<open>contains_key\<close> and \<^verbatim>\<open>get\<close>, which read the same values as \<^verbatim>\<open>get_all\<close>.\<close>

definition hm_contains_key :: "'m http_api \<Rightarrow> 'm \<Rightarrow> header_name \<Rightarrow> bool" where
  "hm_contains_key A m k = (hm_get_all A m k \<noteq> [])"

definition hm_get :: "'m http_api \<Rightarrow> 'm \<Rightarrow> header_name \<Rightarrow> header_value option" where
  "hm_get A m k = (case hm_get_all A m k of [] \<Rightarrow> None | v # _ \<Rightarrow> Some v)"

text \<open>
  The names of an owning iteration: an entry without a name has that of the entry before it.
\<close>

fun resolve_names ::
    "header_name option \<Rightarrow> (header_name option \<times> header_value) list \<Rightarrow>
     (header_name \<times> header_value) list option" where
  "resolve_names cur [] = Some []"
| "resolve_names cur ((n, v) # es) =
     (case (if n = None then cur else n) of
        None \<Rightarrow> None
      | Some k \<Rightarrow> map_option ((#) (k, v)) (resolve_names (Some k) es))"

text \<open>The bytes \<^verbatim>\<open>HeaderValue::to_str\<close> documents as visible ASCII.\<close>

definition is_visible_ascii :: "byte \<Rightarrow> bool" where
  "is_visible_ascii b = ((32 \<le> b \<and> b < 127) \<or> b = 9)"

locale http_crate =
  fixes A :: "'m http_api"
  assumes get_all_empty: "hm_get_all A (hm_empty A) k = []"
    and get_all_remove:
      "hm_get_all A (hm_remove A m k) k' = (if k' = k then [] else hm_get_all A m k')"
    and get_all_remove_str:
      "hm_get_all A (hm_remove_str A m s) k' =
         (if hn_from_bytes A s = Some k' then [] else hm_get_all A m k')"
    and get_all_insert:
      "hm_get_all A (hm_insert A m k v) k' = (if k' = k then [v] else hm_get_all A m k')"
    and get_all_append:
      "hm_get_all A (hm_append A m k v) k' =
         (if k' = k then hm_get_all A m k @ [v] else hm_get_all A m k')"
    and get_all_set_last:
      "hm_get_all A m k \<noteq> [] \<Longrightarrow>
       hm_get_all A (hm_set_last A m k v) k' =
         (if k' = k then butlast (hm_get_all A m k) @ [v] else hm_get_all A m k')"
    and iter_get_all: "map snd (filter (\<lambda>(n, v). n = k) (hm_iter A m)) = hm_get_all A m k"
    and into_iter: "resolve_names None (hm_into_iter A m) = Some (hm_iter A m)"
    and to_str: "hv_to_str A v = (if list_all is_visible_ascii v then Some v else None)"
    and from_u64: "hv_from_u64 A x = decimal (unat x)"
    and hv_from_bytes_id: "hv_from_bytes A v = Some w \<Longrightarrow> w = v"
    and hv_from_bytes_visible: "list_all is_visible_ascii v \<Longrightarrow> hv_from_bytes A v = Some v"
    and hv_from_bytes_append:
      "hv_from_bytes A u = Some u \<Longrightarrow> hv_from_bytes A v = Some v \<Longrightarrow>
       hv_from_bytes A (u @ v) = Some (u @ v)"
    and hn_from_bytes_lower:
      "hn_from_bytes A s = Some n \<Longrightarrow> n = map to_ascii_lowercase s"
    and status_range: "sc_from_u16 A c = (if 100 \<le> c \<and> c < 1000 then Some c else None)"
begin

lemmas header_map_laws =
  get_all_empty get_all_remove get_all_remove_str get_all_insert get_all_append get_all_set_last

lemma contains_key_remove:
  "hm_contains_key A (hm_remove A m k) k' = (k' \<noteq> k \<and> hm_contains_key A m k')"
  by (auto simp: hm_contains_key_def get_all_remove)

lemma contains_key_insert:
  "hm_contains_key A (hm_insert A m k v) k' = (k' = k \<or> hm_contains_key A m k')"
  by (auto simp: hm_contains_key_def get_all_insert)

lemma contains_key_iter: "hm_contains_key A m k \<longleftrightarrow> k \<in> fst ` set (hm_iter A m)"
proof -
  have "hm_contains_key A m k \<longleftrightarrow> filter (\<lambda>(n, v). n = k) (hm_iter A m) \<noteq> []"
    using iter_get_all [of k m] by (metis hm_contains_key_def list.map_disc_iff)
  also have "\<dots> \<longleftrightarrow> k \<in> fst ` set (hm_iter A m)"
    by (force simp: filter_empty_conv)
  finally show ?thesis .
qed

lemma iter_mem: "(n, v) \<in> set (hm_iter A m) \<longleftrightarrow> v \<in> set (hm_get_all A m n)"
  unfolding iter_get_all [symmetric] by force

end

section \<open>An association list as a header map\<close>

text \<open>
  An instance of the interface: the entries in insertion order, with the byte classes of the
  crate's documentation.
\<close>

type_synonym assoc_map = "(header_name \<times> header_value) list"

definition assoc_get_all :: "assoc_map \<Rightarrow> header_name \<Rightarrow> header_value list" where
  "assoc_get_all m k = map snd (filter (\<lambda>(n, v). n = k) m)"

definition assoc_remove :: "assoc_map \<Rightarrow> header_name \<Rightarrow> assoc_map" where
  "assoc_remove m k = filter (\<lambda>(n, v). n \<noteq> k) m"

fun assoc_set_last :: "assoc_map \<Rightarrow> header_name \<Rightarrow> header_value \<Rightarrow> assoc_map" where
  "assoc_set_last [] k v = []"
| "assoc_set_last ((n, w) # m) k v =
     (if n = k \<and> assoc_get_all m k = [] then (n, v) # m else (n, w) # assoc_set_last m k v)"

definition is_header_value_byte :: "byte \<Rightarrow> bool" where
  "is_header_value_byte b = ((32 \<le> b \<and> b \<noteq> 127) \<or> b = 9)"

definition is_token_byte :: "byte \<Rightarrow> bool" where
  "is_token_byte b =
     ((48 \<le> b \<and> b \<le> 57) \<or> (65 \<le> b \<and> b \<le> 90) \<or> (97 \<le> b \<and> b \<le> 122) \<or>
      b = 39 \<or> b = 96 \<or> b \<in> set (ascii ''!#$%&*+-.^_|~''))"

definition assoc_name :: "byte list \<Rightarrow> header_name option" where
  "assoc_name s =
     (if s \<noteq> [] \<and> list_all is_token_byte s then Some (map to_ascii_lowercase s) else None)"

definition assoc_api :: "assoc_map http_api" where
  "assoc_api = \<lparr>
     hm_empty = [],
     hm_get_all = assoc_get_all,
     hm_remove = assoc_remove,
     hm_remove_str = (\<lambda>m s. case assoc_name s of None \<Rightarrow> m | Some n \<Rightarrow> assoc_remove m n),
     hm_insert = (\<lambda>m k v. assoc_remove m k @ [(k, v)]),
     hm_append = (\<lambda>m k v. m @ [(k, v)]),
     hm_set_last = assoc_set_last,
     hm_iter = (\<lambda>m. m),
     hm_into_iter = map (\<lambda>(n, v). (Some n, v)),
     hv_to_str = (\<lambda>v. if list_all is_visible_ascii v then Some v else None),
     hv_from_u64 = (\<lambda>n. decimal (unat n)),
     hv_from_bytes = (\<lambda>v. if list_all is_header_value_byte v then Some v else None),
     hn_from_bytes = assoc_name,
     sc_from_u16 = (\<lambda>c. if 100 \<le> c \<and> c < 1000 then Some c else None),
     sc_canonical_reason = (\<lambda>c. if c = 200 then Some (ascii ''OK'') else None) \<rparr>"

lemmas assoc_api_simps = assoc_api_def assoc_get_all_def assoc_remove_def assoc_name_def

lemma assoc_api_sel [simp]:
  "hm_empty assoc_api = []"
  "hm_get_all assoc_api = assoc_get_all"
  "hm_remove assoc_api = assoc_remove"
  "hm_append assoc_api m k v = m @ [(k, v)]"
  "hm_insert assoc_api m k v = assoc_remove m k @ [(k, v)]"
  "hm_set_last assoc_api = assoc_set_last"
  "hm_iter assoc_api m = m"
  "hm_into_iter assoc_api m = map (\<lambda>(n, v). (Some n, v)) m"
  "hv_to_str assoc_api w = (if list_all is_visible_ascii w then Some w else None)"
  "hv_from_u64 assoc_api x = decimal (unat x)"
  "hv_from_bytes assoc_api w = (if list_all is_header_value_byte w then Some w else None)"
  "hn_from_bytes assoc_api = assoc_name"
  "sc_from_u16 assoc_api c = (if 100 \<le> c \<and> c < 1000 then Some c else None)"
  "hm_remove_str assoc_api m s = (case assoc_name s of None \<Rightarrow> m | Some n \<Rightarrow> assoc_remove m n)"
  by (simp_all add: assoc_api_def)

lemmas assoc_eval =
  assoc_get_all_def assoc_remove_def assoc_name_def is_visible_ascii_def is_token_byte_def
  is_header_value_byte_def hm_get_def hm_contains_key_def header_name_defs

lemma assoc_get_all_remove:
  "assoc_get_all (assoc_remove m k) k' = (if k' = k then [] else assoc_get_all m k')"
  by (induction m) (auto simp: assoc_get_all_def assoc_remove_def)

lemma assoc_get_all_set_last:
  "assoc_get_all m k \<noteq> [] \<Longrightarrow>
   assoc_get_all (assoc_set_last m k v) k' =
     (if k' = k then butlast (assoc_get_all m k) @ [v] else assoc_get_all m k')"
proof (induction m)
  case (Cons e m)
  obtain n w where e: "e = (n, w)" by (cases e)
  show ?case
  proof (cases "assoc_get_all m k = []")
    case True
    with Cons.prems e show ?thesis
      by (auto simp: assoc_get_all_def split: if_splits)
  next
    case False
    with Cons e show ?thesis
      by (auto simp: assoc_get_all_def)
  qed
qed (simp add: assoc_get_all_def)

lemma visible_header_value_byte: "is_visible_ascii b \<Longrightarrow> is_header_value_byte b"
  by (auto simp: is_visible_ascii_def is_header_value_byte_def)

lemma resolve_names_Some: "resolve_names cur (map (\<lambda>(n, v). (Some n, v)) m) = Some m"
  by (induction m arbitrary: cur) auto

interpretation assoc: http_crate assoc_api
proof
  fix m k v k' s u w
  show "hm_get_all assoc_api (hm_remove_str assoc_api m s) k' =
         (if hn_from_bytes assoc_api s = Some k' then [] else hm_get_all assoc_api m k')"
    by (auto simp: assoc_api_def assoc_get_all_remove split: option.split)
  show "hm_get_all assoc_api (hm_append assoc_api m k v) k' =
         (if k' = k then hm_get_all assoc_api m k @ [v] else hm_get_all assoc_api m k')"
    by (auto simp: assoc_api_simps)
  show "hm_get_all assoc_api (hm_insert assoc_api m k v) k' =
         (if k' = k then [v] else hm_get_all assoc_api m k')"
    using assoc_get_all_remove [of m k k'] by (auto simp: assoc_api_def assoc_get_all_def)
  show "list_all is_visible_ascii v \<Longrightarrow> hv_from_bytes assoc_api v = Some v"
    by (auto simp: assoc_api_def list_all_iff visible_header_value_byte)
  show "hm_get_all assoc_api (hm_remove assoc_api m k) k' =
         (if k' = k then [] else hm_get_all assoc_api m k')"
    by (simp add: assoc_api_def assoc_get_all_remove)
  show "hm_get_all assoc_api m k \<noteq> [] \<Longrightarrow>
       hm_get_all assoc_api (hm_set_last assoc_api m k v) k' =
         (if k' = k then butlast (hm_get_all assoc_api m k) @ [v] else hm_get_all assoc_api m k')"
    by (simp add: assoc_api_def assoc_get_all_set_last)
qed (auto simp: assoc_api_simps resolve_names_Some split: if_splits)

end
