(* ===== verification/Headers.thy ===== *)
theory Headers
  imports Http_Types
begin

text \<open>
  Header field rules: \<^verbatim>\<open>src/src/proto/headers.rs\<close> (connection options, content-length,
  transfer-encoding) and \<^verbatim>\<open>src/src/proto/headers/multiplexed.rs\<close> (the fields HTTP/2 and
  HTTP/3 forbid).
\<close>

section \<open>Connection options\<close>

definition connection_has :: "'m http_api \<Rightarrow> header_value \<Rightarrow> byte list \<Rightarrow> bool" where
  "connection_has A value needle =
     (case hv_to_str A value of
        Some s \<Rightarrow> list_ex (\<lambda>val. eq_ignore_ascii_case (str_trim val) needle) (split_on 44 s)
      | None \<Rightarrow> False)"

definition connection_keep_alive :: "'m http_api \<Rightarrow> header_value \<Rightarrow> bool" where
  "connection_keep_alive A value = connection_has A value (ascii ''keep-alive'')"

definition connection_close :: "'m http_api \<Rightarrow> header_value \<Rightarrow> bool" where
  "connection_close A value = connection_has A value (ascii ''close'')"

definition connection_any_close :: "'m http_api \<Rightarrow> 'm \<Rightarrow> bool" where
  "connection_any_close A headers =
     list_ex (connection_close A) (hm_get_all A headers CONNECTION)"

section \<open>Content-Length\<close>

fun from_digits_loop :: "u64 \<Rightarrow> byte list \<Rightarrow> u64 option" where
  "from_digits_loop result [] = Some result"
| "from_digits_loop result (b # bs) =
     (if 48 \<le> b \<and> b \<le> 57 then
        (case checked_mul result 10 of
           None \<Rightarrow> None
         | Some r \<Rightarrow>
             (case checked_add r (ucast (b - 48)) of
                None \<Rightarrow> None
              | Some r' \<Rightarrow> from_digits_loop r' bs))
      else None)"

definition from_digits :: "byte list \<Rightarrow> u64 option" where
  "from_digits bytes = (if bytes = [] then None else from_digits_loop 0 bytes)"

text \<open>
  The two nested loops: \<open>None\<close> is the early return of \<^verbatim>\<open>None\<close>, \<open>Some acc\<close> the value
  of \<^verbatim>\<open>content_length\<close> after the loop.
\<close>

fun content_length_pieces :: "u64 option \<Rightarrow> byte list list \<Rightarrow> u64 option option" where
  "content_length_pieces acc [] = Some acc"
| "content_length_pieces acc (v # vs) =
     (case from_digits (str_trim v) of
        None \<Rightarrow> None
      | Some n \<Rightarrow>
          (if acc = None then content_length_pieces (Some n) vs
           else if acc \<noteq> Some n then None
           else content_length_pieces acc vs))"

fun content_length_lines ::
    "'m http_api \<Rightarrow> u64 option \<Rightarrow> header_value list \<Rightarrow> u64 option option" where
  "content_length_lines A acc [] = Some acc"
| "content_length_lines A acc (h # hs) =
     (case hv_to_str A h of
        None \<Rightarrow> None
      | Some line \<Rightarrow>
          (case content_length_pieces acc (split_on 44 line) of
             None \<Rightarrow> None
           | Some acc' \<Rightarrow> content_length_lines A acc' hs))"

definition content_length_parse_all_values ::
    "'m http_api \<Rightarrow> header_value list \<Rightarrow> u64 option" where
  "content_length_parse_all_values A values =
     (case content_length_lines A None values of None \<Rightarrow> None | Some acc \<Rightarrow> acc)"

definition content_length_parse_all :: "'m http_api \<Rightarrow> 'm \<Rightarrow> u64 option" where
  "content_length_parse_all A headers =
     content_length_parse_all_values A (hm_get_all A headers CONTENT_LENGTH)"

section \<open>Transfer-Encoding\<close>

definition is_chunked :: "'m http_api \<Rightarrow> header_value list \<Rightarrow> bool" where
  "is_chunked A encodings =
     (if encodings = [] then False
      else case hv_to_str A (last encodings) of
          Some s \<Rightarrow> eq_ignore_ascii_case (str_trim (last (split_on 44 s))) (ascii ''chunked'')
        | None \<Rightarrow> False)"

definition transfer_encoding_is_chunked :: "'m http_api \<Rightarrow> 'm \<Rightarrow> bool" where
  "transfer_encoding_is_chunked A headers =
     is_chunked A (hm_get_all A headers TRANSFER_ENCODING)"

text \<open>
  \<^verbatim>\<open>add_chunked\<close> on the occupied \<^verbatim>\<open>Transfer-Encoding\<close> entry.  \<open>None\<close> is the panic of
  \<^verbatim>\<open>expect("original header value plus ascii is valid")\<close>.
\<close>

definition add_chunked :: "'m http_api \<Rightarrow> 'm \<Rightarrow> 'm option" where
  "add_chunked A headers =
     (let values = hm_get_all A headers TRANSFER_ENCODING in
      if values \<noteq> [] then
        (case hv_from_bytes A (last values @ ascii '', '' @ ascii ''chunked'') of
           None \<Rightarrow> None
         | Some line \<Rightarrow> Some (hm_set_last A headers TRANSFER_ENCODING line))
      else Some (hm_insert A headers TRANSFER_ENCODING (ascii ''chunked'')))"

section \<open>Fields of multiplexed protocols\<close>

definition CONNECTION_HEADERS :: "header_name list" where
  "CONNECTION_HEADERS = [KEEP_ALIVE, PROXY_CONNECTION, TRANSFER_ENCODING, UPGRADE]"

definition strip_connection_headers :: "'m http_api \<Rightarrow> 'm \<Rightarrow> bool \<Rightarrow> 'm" where
  "strip_connection_headers A headers is_request =
     (let h1 = fold (\<lambda>name h. hm_remove A h name) CONNECTION_HEADERS headers;
          h2 = (if is_request then
                  (case hm_get A h1 TE of
                     Some te \<Rightarrow> if te \<noteq> ascii ''trailers'' then hm_remove A h1 TE else h1
                   | None \<Rightarrow> h1)
                else hm_remove A h1 TE)
      in case hm_get A h2 CONNECTION of
           None \<Rightarrow> h2
         | Some header \<Rightarrow>
             (let h3 = hm_remove A h2 CONNECTION in
              case hv_to_str A header of
                None \<Rightarrow> h3
              | Some contents \<Rightarrow>
                  fold (\<lambda>name h. hm_remove_str A h (str_trim name)) (split_on 44 contents) h3))"

definition breaks_capsule_protocol :: "'m http_api \<Rightarrow> status_code \<Rightarrow> 'm \<Rightarrow> bool" where
  "breaks_capsule_protocol A status headers =
     ((204 \<le> status \<and> status \<le> 206) \<or>
      list_ex (hm_contains_key A headers) [CONTENT_LENGTH, CONTENT_TYPE, TRANSFER_ENCODING])"

fun method_has_defined_payload_semantics :: "req_method \<Rightarrow> bool" where
  "method_has_defined_payload_semantics m = (m \<notin> {GET, HEAD, DELETE, CONNECT, OPTIONS})"

definition set_content_length_if_missing :: "'m http_api \<Rightarrow> 'm \<Rightarrow> u64 \<Rightarrow> 'm" where
  "set_content_length_if_missing A headers len =
     (if hm_contains_key A headers CONTENT_LENGTH then headers
      else hm_insert A headers CONTENT_LENGTH (hv_from_u64 A len))"

text \<open>
  The names a \<^verbatim>\<open>Connection\<close> field nominates: those of its first line.
\<close>

definition named_by_connection :: "'m http_api \<Rightarrow> 'm \<Rightarrow> header_name \<Rightarrow> bool" where
  "named_by_connection A h k =
     (case hm_get A h CONNECTION of
        None \<Rightarrow> False
      | Some v \<Rightarrow>
          (case hv_to_str A v of
             None \<Rightarrow> False
           | Some s \<Rightarrow> list_ex (\<lambda>p. hn_from_bytes A (str_trim p) = Some k) (split_on 44 s)))"

section \<open>Decimal numbers\<close>

text \<open>The number a string of decimal digits denotes, unbounded.\<close>

definition is_digit :: "byte \<Rightarrow> bool" where
  "is_digit b = (48 \<le> b \<and> b \<le> 57)"

definition dec_value :: "byte list \<Rightarrow> nat" where
  "dec_value bs = foldl (\<lambda>acc b. acc * 10 + (unat b - 48)) 0 bs"

lemma unat_digit: "is_digit b \<Longrightarrow> unat (ucast (b - 48) :: u64) = unat b - 48 \<and> unat b - 48 < 10"
proof -
  assume d: "is_digit b"
  then have "48 \<le> unat b" "unat b \<le> 57"
    by (auto simp: is_digit_def word_le_nat_alt)
  moreover have "unat (b - 48) = unat b - 48"
    using d by (simp add: is_digit_def word_nat)
  ultimately show ?thesis by simp
qed

lemma dec_value_ge: "a \<le> foldl (\<lambda>acc b. acc * 10 + (unat b - 48)) a (bs :: byte list)"
proof (induction bs arbitrary: a)
  case (Cons b bs)
  show ?case using Cons [of "a * 10 + (unat b - 48)"] by simp
qed simp

lemma from_digits_loop_iff:
  "from_digits_loop r bs = Some n \<longleftrightarrow>
     list_all is_digit bs \<and>
     foldl (\<lambda>acc b. acc * 10 + (unat b - 48)) (unat r) bs = unat n"
proof (induction bs arbitrary: r)
  case Nil
  then show ?case by (auto simp: word_unat_eq_iff)
next
  case (Cons b bs)
  let ?f = "foldl (\<lambda>acc b. acc * 10 + (unat b - 48))"
  show ?case
  proof (cases "is_digit b")
    case False
    then show ?thesis by (auto simp: is_digit_def)
  next
    case True
    define d where "d = (ucast (b - 48) :: u64)"
    have d: "unat d = unat b - 48" and small: "unat d < 10"
      using unat_digit [OF True] by (auto simp: d_def)
    have guard: "48 \<le> b \<and> b \<le> 57" using True by (simp add: is_digit_def)
    show ?thesis
    proof (cases "unat r * 10 + unat d < 2 ^ 64")
      case fits: True
      then have mul: "checked_mul r 10 = Some (r * 10)"
        by (simp add: checked_mul_def)
      then have um: "unat (r * 10) = unat r * 10"
        using checked_mul_unat [OF mul] by simp
      have add: "checked_add (r * 10) d = Some (r * 10 + d)"
        using fits um by (simp add: checked_add_def)
      then have "unat (r * 10 + d) = unat r * 10 + (unat b - 48)"
        using checked_add_unat [OF add] um d by simp
      then show ?thesis
        using mul add guard Cons.IH [of "r * 10 + d"] True by (simp add: d_def)
    next
      case over: False
      have "from_digits_loop r (b # bs) = None"
      proof (cases "checked_mul r 10")
        case (Some m)
        then have "unat m = unat r * 10" using checked_mul_unat [OF Some] by simp
        then have "checked_add m d = None"
          using over by (simp add: checked_add_def)
        with Some guard show ?thesis by (simp add: d_def)
      qed (use guard in simp)
      moreover have "?f (unat r) (b # bs) \<noteq> unat n"
        using dec_value_ge [of "unat r * 10 + (unat b - 48)" bs] over d unat_u64_less [of n]
        by (simp del: unat_u64_less)
      ultimately show ?thesis by simp
    qed
  qed
qed

lemma dec_value_snoc: "dec_value (bs @ [b]) = dec_value bs * 10 + (unat b - 48)"
  by (simp add: dec_value_def)

lemma decimal_digit: "d < 10 \<Longrightarrow> is_digit (48 + of_nat d) \<and> unat (48 + of_nat d :: byte) - 48 = d"
  by (auto simp: is_digit_def word_le_nat_alt unat_word_ariths unat_of_nat)

lemma decimal_value: "list_all is_digit (decimal n) \<and> dec_value (decimal n) = n"
proof (induction n rule: decimal.induct)
  case (1 n)
  show ?case
  proof (cases "n < 10")
    case True
    then show ?thesis
      using decimal_digit [of n] by (subst (1 2) decimal.simps) (simp add: dec_value_def)
  next
    case False
    then show ?thesis
      using 1 decimal_digit [of "n mod 10"]
      by (subst (1 2) decimal.simps) (simp add: dec_value_snoc)
  qed
qed


section \<open>Properties\<close>

text \<open>
  \<^verbatim>\<open>from_digits\<close> accepts exactly the non-empty strings of ASCII digits whose value fits a
  \<^verbatim>\<open>u64\<close>, and returns that value: no sign, no blank, and an overflow is refused instead of
  wrapping.
\<close>

theorem from_digits_correct:
  "from_digits bs = Some n \<longleftrightarrow> bs \<noteq> [] \<and> list_all is_digit bs \<and> dec_value bs = unat n"
  by (auto simp: from_digits_def from_digits_loop_iff dec_value_def)

lemma from_digits_decimal: "n < 2 ^ 64 \<Longrightarrow> from_digits (decimal n) = Some (of_nat n)"
  using decimal_value [of n]
  by (simp add: from_digits_def from_digits_loop_iff dec_value_def unat_of_nat)

lemma content_length_pieces_Some:
  "content_length_pieces (Some m) ps =
     (if list_all (\<lambda>p. from_digits (str_trim p) = Some m) ps then Some (Some m) else None)"
  by (induction ps) (auto split: option.splits)

lemma content_length_pieces_None:
  "content_length_pieces None ps = Some r \<longleftrightarrow>
     (ps = [] \<and> r = None) \<or>
     (ps \<noteq> [] \<and> (\<exists>n. r = Some n \<and> list_all (\<lambda>p. from_digits (str_trim p) = Some n) ps))"
  by (cases ps) (auto simp: content_length_pieces_Some split: option.splits if_splits)

context http_crate
begin

lemma content_length_lines_Some:
  "content_length_lines A (Some m) vs =
     (if list_all (\<lambda>v. list_all is_visible_ascii v \<and>
                   list_all (\<lambda>p. from_digits (str_trim p) = Some m) (split_on 44 v)) vs
      then Some (Some m) else None)"
  by (induction vs) (auto simp: to_str content_length_pieces_Some split: option.splits if_splits)

lemma content_length_values_iff:
  "content_length_parse_all_values A vs = Some n \<longleftrightarrow>
     vs \<noteq> [] \<and>
     list_all (\<lambda>v. list_all is_visible_ascii v \<and>
                   list_all (\<lambda>p. from_digits (str_trim p) = Some n) (split_on 44 v)) vs"
proof (cases vs)
  case Nil
  then show ?thesis by (simp add: content_length_parse_all_values_def)
next
  case (Cons v vs')
  show ?thesis
  proof (cases "content_length_lines A None vs")
    case None
    then have "\<not> list_all (\<lambda>v. list_all is_visible_ascii v \<and>
                   list_all (\<lambda>p. from_digits (str_trim p) = Some n) (split_on 44 v)) vs"
      using Cons content_length_pieces_None [of "split_on 44 v" "Some n"]
        content_length_lines_Some [of n vs']
      by (auto simp: to_str split: option.splits if_splits)
    with None show ?thesis by (simp add: content_length_parse_all_values_def)
  next
    case (Some r)
    with Cons obtain acc where v: "list_all is_visible_ascii v"
      and p: "content_length_pieces None (split_on 44 v) = Some acc"
      and l: "content_length_lines A acc vs' = Some r"
      by (auto simp: to_str split: option.splits if_splits)
    then obtain m where m: "acc = Some m"
      "list_all (\<lambda>p. from_digits (str_trim p) = Some m) (split_on 44 v)"
      by (auto simp: content_length_pieces_None)
    have "\<exists>q. q \<in> set (split_on 44 v)"
      using split_on_not_Nil [of 44 v] by (meson list.set_sel(1))
    then show ?thesis
      using Some Cons v m l
      by (auto simp: content_length_parse_all_values_def content_length_lines_Some list_all_iff
          split: if_splits)
  qed
qed

lemma get_all_fold_remove:
  "hm_get_all A (fold (\<lambda>name h. hm_remove A h name) ns h) k =
     (if k \<in> set ns then [] else hm_get_all A h k)"
  by (induction ns arbitrary: h) (auto simp: get_all_remove)

lemma get_all_fold_remove_str:
  "hm_get_all A (fold (\<lambda>name h. hm_remove_str A h (str_trim name)) ns h) k =
     (if (\<exists>p \<in> set ns. hn_from_bytes A (str_trim p) = Some k) then [] else hm_get_all A h k)"
  by (induction ns arbitrary: h) (auto simp: get_all_remove_str)

lemma strip_exact:
  "hm_get_all A (strip_connection_headers A h is_request) k =
     (if k \<in> set (CONNECTION # CONNECTION_HEADERS) \<or>
         (k = TE \<and> \<not> (is_request \<and> hm_get A h TE = Some (ascii ''trailers''))) \<or>
         named_by_connection A h k
      then [] else hm_get_all A h k)"
proof -
  define h1 where "h1 = fold (\<lambda>name h. hm_remove A h name) CONNECTION_HEADERS h"
  define h2 where "h2 =
    (if is_request then
       (case hm_get A h1 TE of
          Some te \<Rightarrow> if te \<noteq> ascii ''trailers'' then hm_remove A h1 TE else h1
        | None \<Rightarrow> h1)
     else hm_remove A h1 TE)"
  have ne: "TE \<notin> set CONNECTION_HEADERS" "CONNECTION \<notin> set CONNECTION_HEADERS" "CONNECTION \<noteq> TE"
    by (simp_all add: CONNECTION_HEADERS_def header_name_defs)
  have h1: "hm_get_all A h1 k = (if k \<in> set CONNECTION_HEADERS then [] else hm_get_all A h k)" for k
    by (simp add: h1_def get_all_fold_remove)
  then have te1: "hm_get A h1 TE = hm_get A h TE"
    using ne by (simp add: hm_get_def)
  have h2: "hm_get_all A h2 k =
     (if k = TE \<and> \<not> (is_request \<and> hm_get A h TE = Some (ascii ''trailers'')) then []
      else hm_get_all A h1 k)" for k
    by (cases "hm_get_all A h1 TE")
      (auto simp: h2_def get_all_remove hm_get_def te1 [unfolded hm_get_def, symmetric])
  then have c2: "hm_get A h2 CONNECTION = hm_get A h CONNECTION"
    using ne h1 by (simp add: hm_get_def)
  have strip: "strip_connection_headers A h is_request =
     (case hm_get A h2 CONNECTION of None \<Rightarrow> h2
      | Some header \<Rightarrow> (case hv_to_str A header of None \<Rightarrow> hm_remove A h2 CONNECTION
        | Some s \<Rightarrow> fold (\<lambda>name h. hm_remove_str A h (str_trim name)) (split_on 44 s)
                     (hm_remove A h2 CONNECTION)))"
    unfolding strip_connection_headers_def Let_def h1_def [symmetric] h2_def [symmetric]
    by (rule refl)
  show ?thesis
  proof (cases "hm_get A h CONNECTION")
    case None
    then have "hm_get_all A h CONNECTION = []"
      by (auto simp: hm_get_def split: list.splits)
    with None show ?thesis
      by (auto simp: strip c2 h2 h1 named_by_connection_def)
  next
    case (Some v)
    then show ?thesis
      by (auto simp: strip c2 h2 h1 named_by_connection_def get_all_fold_remove_str get_all_remove
          list_ex_iff split: option.splits)
  qed
qed

end

text \<open>
  Several \<^verbatim>\<open>Content-Length\<close> fields, or several comma-separated values in one, are accepted
  only when every one of them is a valid decimal number and all of them are the same number; that
  number is the result.  Any field with bytes outside visible ASCII makes the whole set invalid.
\<close>

theorem content_length_all_agree:
  assumes "http_crate A"
  shows "content_length_parse_all_values A vs = Some n \<longleftrightarrow>
     vs \<noteq> [] \<and>
     list_all (\<lambda>v. list_all is_visible_ascii v \<and>
                   list_all (\<lambda>p. from_digits (str_trim p) = Some n) (split_on 44 v)) vs"
  by (rule http_crate.content_length_values_iff [OF assms])

theorem content_length_all_agree_witness:
  "content_length_parse_all_values assoc_api [ascii ''42'', ascii ''42, 42''] = Some 42"
  unfolding content_length_all_agree [OF assoc.http_crate_axioms]
  by (simp add: std_eval is_visible_ascii_def from_digits_def)

text \<open>
  What \<^verbatim>\<open>strip_connection_headers\<close> leaves of every field: the connection-specific fields,
  \<^verbatim>\<open>TE\<close> unless it is a request's \<^verbatim>\<open>trailers\<close>, and the fields that the first
  \<^verbatim>\<open>Connection\<close> line names are gone; every other field keeps all its values in order.
\<close>

theorem strip_connection_headers_exact:
  assumes "http_crate A"
  shows "hm_get_all A (strip_connection_headers A h is_request) k =
     (if k \<in> set (CONNECTION # CONNECTION_HEADERS) \<or>
         (k = TE \<and> \<not> (is_request \<and> hm_get A h TE = Some (ascii ''trailers''))) \<or>
         named_by_connection A h k
      then [] else hm_get_all A h k)"
  by (rule http_crate.strip_exact [OF assms])

theorem strip_connection_headers_exact_witness:
  "hm_get_all assoc_api
     (strip_connection_headers assoc_api
       [(CONNECTION, ascii ''close, X-Hop''), (ascii ''x-hop'', ascii ''1''),
        (ascii ''accept'', ascii ''2'')] True) (ascii ''accept'') = [ascii ''2'']"
  unfolding strip_connection_headers_exact [OF assoc.http_crate_axioms]
  by (simp add: std_eval assoc_eval CONNECTION_HEADERS_def named_by_connection_def)


end
