(* ===== verification/Body_Length.thy ===== *)
theory Body_Length
  imports Http_Types
begin

text \<open>
  \<^verbatim>\<open>src/src/body/length.rs\<close>: the length of an incoming body.  A \<^verbatim>\<open>u64\<close> whose two largest
  values are the sentinels for chunked and close-delimited bodies.
\<close>

datatype decoded_length = DecodedLength u64

definition U64_MAX :: u64 where
  "U64_MAX = 18446744073709551615"

definition MAX_LEN :: u64 where
  "MAX_LEN = U64_MAX - 2"

definition CLOSE_DELIMITED :: decoded_length where
  "CLOSE_DELIMITED = DecodedLength U64_MAX"

definition CHUNKED :: decoded_length where
  "CHUNKED = DecodedLength (U64_MAX - 1)"

definition ZERO :: decoded_length where
  "ZERO = DecodedLength 0"

fun danger_len :: "decoded_length \<Rightarrow> u64" where
  "danger_len (DecodedLength n) = n"

definition into_opt :: "decoded_length \<Rightarrow> u64 option" where
  "into_opt d = (if d = CHUNKED \<or> d = CLOSE_DELIMITED then None else Some (danger_len d))"

definition checked_new :: "u64 \<Rightarrow> parse_error + decoded_length" where
  "checked_new len = (if len \<le> MAX_LEN then Inr (DecodedLength len) else Inl TooLarge)"

definition sub_if :: "decoded_length \<Rightarrow> u64 \<Rightarrow> decoded_length" where
  "sub_if d amt =
     (if d = CHUNKED \<or> d = CLOSE_DELIMITED then d else DecodedLength (danger_len d - amt))"

definition is_exact :: "decoded_length \<Rightarrow> bool" where
  "is_exact d = (danger_len d \<le> MAX_LEN)"

definition decoded_length_from :: "u64 option \<Rightarrow> decoded_length" where
  "decoded_length_from len =
     (case len of
        None \<Rightarrow> CHUNKED
      | Some n \<Rightarrow> (case checked_new n of Inl _ \<Rightarrow> CHUNKED | Inr d \<Rightarrow> d))"

lemmas length_consts = U64_MAX_def MAX_LEN_def CLOSE_DELIMITED_def CHUNKED_def ZERO_def

lemma le_MAX_LEN: "n \<le> MAX_LEN \<longleftrightarrow> n \<noteq> U64_MAX \<and> n \<noteq> U64_MAX - 1"
proof -
  have "n \<le> MAX_LEN \<longleftrightarrow> unat n \<le> 18446744073709551613"
    by (simp add: word_le_nat_alt length_consts)
  also have "\<dots> \<longleftrightarrow> unat n \<noteq> 18446744073709551615 \<and> unat n \<noteq> 18446744073709551614"
    using unat_u64_less [of n] by linarith
  also have "\<dots> \<longleftrightarrow> n \<noteq> U64_MAX \<and> n \<noteq> U64_MAX - 1"
    by (simp add: word_unat_eq_iff length_consts)
  finally show ?thesis .
qed

lemma is_exact_iff: "is_exact d \<longleftrightarrow> into_opt d \<noteq> None"
  by (cases d) (auto simp: is_exact_def into_opt_def le_MAX_LEN CHUNKED_def CLOSE_DELIMITED_def)

text \<open>
  The sentinels cannot be forged by the peer: a \<^verbatim>\<open>Content-Length\<close> accepted by
  \<^verbatim>\<open>checked_new\<close> is never read back as chunked or close-delimited, it is reported unchanged by
  \<^verbatim>\<open>into_opt\<close>, and the only two values refused are the sentinels.
\<close>

theorem checked_new_not_sentinel:
  "case checked_new len of
     Inr d \<Rightarrow> d \<noteq> CHUNKED \<and> d \<noteq> CLOSE_DELIMITED \<and> is_exact d \<and> into_opt d = Some len
   | Inl e \<Rightarrow> e = TooLarge \<and> DecodedLength len \<in> {CHUNKED, CLOSE_DELIMITED}"
  by (auto simp: checked_new_def le_MAX_LEN is_exact_def into_opt_def CHUNKED_def
      CLOSE_DELIMITED_def)

text \<open>
  Consuming a body piece by piece: as long as the pieces do not exceed a known length,
  subtracting them one after the other leaves exactly the bytes that are still missing, without
  wrapping; an unknown length never changes.
\<close>

theorem sub_if_pieces:
  assumes "is_exact d \<longrightarrow> sum_list (map unat amts) \<le> unat (danger_len d)"
  shows "into_opt (fold (\<lambda>a d. sub_if d a) amts d) =
     map_option (\<lambda>n. of_nat (unat n - sum_list (map unat amts))) (into_opt d)"
  using assms
proof (induction amts arbitrary: d)
  case Nil
  then show ?case by (cases d) (auto simp: into_opt_def)
next
  case (Cons a as)
  show ?case
  proof (cases "is_exact d")
    case False
    then have "d = CHUNKED \<or> d = CLOSE_DELIMITED"
      by (auto simp: is_exact_iff into_opt_def split: if_splits)
    then have "sub_if d a = d" by (simp add: sub_if_def)
    with Cons False show ?thesis by (simp add: is_exact_iff)
  next
    case True
    define n where "n = danger_len d"
    have d: "d = DecodedLength n" by (cases d) (simp add: n_def)
    have le_n: "n \<le> MAX_LEN" using True by (simp add: is_exact_def n_def)
    have opt: "into_opt (DecodedLength k) = Some k" if "k \<le> MAX_LEN" for k
      using that by (simp add: into_opt_def le_MAX_LEN CHUNKED_def CLOSE_DELIMITED_def)
    have sum: "unat a + sum_list (map unat as) \<le> unat n"
      using Cons.prems True n_def by simp
    then have un: "unat (n - a) = unat n - unat a"
      by (simp add: unat_minus_le word_le_nat_alt)
    have sub: "sub_if d a = DecodedLength (n - a)"
      using le_n by (simp add: d sub_if_def le_MAX_LEN CHUNKED_def CLOSE_DELIMITED_def)
    have "unat (n - a) \<le> unat MAX_LEN"
      using le_n un by (simp only: word_le_nat_alt)
    then have ex: "into_opt (DecodedLength (n - a)) = Some (n - a)"
      by (intro opt) (simp only: word_le_nat_alt)
    have "into_opt (fold (\<lambda>a d. sub_if d a) as (DecodedLength (n - a))) =
        map_option (\<lambda>n. of_nat (unat n - sum_list (map unat as))) (into_opt (DecodedLength (n - a)))"
      by (rule Cons.IH) (use sum un in auto)
    then show ?thesis using sub ex un opt [OF le_n] d by simp
  qed
qed

theorem sub_if_pieces_witness:
  "into_opt (fold (\<lambda>a d. sub_if d a) [20, 5] (DecodedLength 30)) = Some 5"
proof -
  have h: "is_exact (DecodedLength 30) \<longrightarrow>
      sum_list (map unat [20, 5 :: u64]) \<le> unat (danger_len (DecodedLength 30))"
    by simp
  show ?thesis
    unfolding sub_if_pieces [OF h] by (simp add: into_opt_def length_consts)
qed

end
