(* ===== verification/Http1_Decode.thy ===== *)
theory Http1_Decode
  imports Headers Body_Length
begin

text \<open>
  \<^verbatim>\<open>src/src/proto/http1/decode.rs\<close>: the body decoder of an HTTP/1 connection.  The reader is the
  trait \<^verbatim>\<open>MemRead\<close> of \<^verbatim>\<open>src/src/proto/http1/io.rs\<close>; every definition takes its method as a
  parameter, the locale \<open>mem_read\<close> is its contract, and \<open>Http1_Io\<close> interprets it
  with the model of \<^verbatim>\<open>Buffered\<close>.  The functions of the state machine return the outcome of
  the poll, the new values of the fields they borrow mutably, and the reader.  The loop of
  \<^verbatim>\<open>decode\<close> has no bound of its own, so it is a partial function: \<open>None\<close> would be a poll
  that never returns, which the contract of the reader excludes.
\<close>

section \<open>Types\<close>

definition CHUNKED_EXTENSIONS_LIMIT :: u64 where
  "CHUNKED_EXTENSIONS_LIMIT = 1024 * 16"

definition TRAILER_LIMIT :: nat where
  "TRAILER_LIMIT = 1024 * 16"

definition DEFAULT_MAX_HEADERS :: nat where
  "DEFAULT_MAX_HEADERS = 100"

datatype chunked_state =
    Start
  | Size
  | SizeLws
  | Extension
  | SizeLf
  | Body
  | BodyCr
  | BodyLf
  | Trailer
  | TrailerLf
  | EndCr
  | EndLf
  | End

text \<open>The fields of \<^verbatim>\<open>Kind::Chunked\<close>.\<close>

record chunked =
  dk_state :: chunked_state
  dk_chunk_len :: u64
  dk_extensions_cnt :: u64
  dk_trailers_buf :: "byte list option"
  dk_trailers_cnt :: nat
  dk_max_headers :: "nat option"
  dk_max_header_size :: "nat option"

datatype decoder =
    Length u64
  | Chunked chunked
  | Eof bool

text \<open>\<^verbatim>\<open>StepArgs\<close>.\<close>

record step_args =
  sa_chunk_size :: u64
  sa_chunk_buf :: "byte list option"
  sa_extensions_cnt :: u64
  sa_trailers_buf :: "byte list option"
  sa_trailers_cnt :: nat
  sa_max_headers_cnt :: nat
  sa_max_headers_bytes :: nat

text \<open>\<^verbatim>\<open>http_body::Frame\<close>.\<close>

datatype 'm frame = Data "byte list" | Trailers 'm

text \<open>
  The method \<^verbatim>\<open>MemRead::read_mem\<close>: at most \<open>n\<close> bytes; an empty result is the end of the
  input.
\<close>

type_synonym 'r mem_reader = "'r \<Rightarrow> nat \<Rightarrow> byte list io_result poll \<times> 'r"

text \<open>
  The header parser of the crate \<^verbatim>\<open>httparse\<close>, a parameter: \<open>hp_parse_headers buf n\<close> is
  \<^verbatim>\<open>parse_headers\<close> with room for \<open>n\<close> headers.
\<close>

datatype httparse_error =
    HpHeaderName | HpHeaderValue | HpNewLine | HpStatus | HpToken | HpTooManyHeaders | HpVersion

datatype 'a httparse_status = HpComplete 'a | HpPartial | HpError httparse_error

record httparse_api =
  hp_parse_headers :: "byte list \<Rightarrow> nat \<Rightarrow> (byte list \<times> byte list) list httparse_status"
  hp_message :: "httparse_error \<Rightarrow> string"

section \<open>Decoder\<close>

definition chunked_decoder :: "nat option \<Rightarrow> nat option \<Rightarrow> decoder" where
  "chunked_decoder max_headers max_header_size =
     Chunked \<lparr>dk_state = Start, dk_chunk_len = 0, dk_extensions_cnt = 0, dk_trailers_buf = None,
       dk_trailers_cnt = 0, dk_max_headers = max_headers, dk_max_header_size = max_header_size\<rparr>"

definition decoder_new :: "decoded_length \<Rightarrow> nat option \<Rightarrow> nat option \<Rightarrow> decoder" where
  "decoder_new len max_headers max_header_size =
     (if len = CHUNKED then chunked_decoder max_headers max_header_size
      else if len = CLOSE_DELIMITED then Eof False
      else Length (danger_len len))"

fun decoder_is_eof :: "decoder \<Rightarrow> bool" where
  "decoder_is_eof (Length n) = (n = 0)"
| "decoder_is_eof (Chunked c) = (dk_state c = End)"
| "decoder_is_eof (Eof b) = b"

text \<open>The errors the machine reports, with their kinds and messages.\<close>

definition incomplete_body :: io_error where
  "incomplete_body = IoError UnexpectedEof ''end of file before message length reached''"

definition eof_in_line :: io_error where
  "eof_in_line = IoError UnexpectedEof ''unexpected EOF during chunk size line''"

definition size_overflow :: io_error where
  "size_overflow = IoError InvalidData ''invalid chunk size: overflow''"

definition trailers_over_limit :: io_error where
  "trailers_over_limit = IoError InvalidData ''chunk trailers bytes over limit''"

definition missing_size_digit :: io_error where
  "missing_size_digit = IoError InvalidInput ''Invalid chunk size line: missing size digit''"

definition invalid_size :: io_error where
  "invalid_size = IoError InvalidInput ''Invalid chunk size line: Invalid Size''"

definition invalid_size_lws :: io_error where
  "invalid_size_lws = IoError InvalidInput ''Invalid chunk size linear white space''"

definition extension_newline :: io_error where
  "extension_newline = IoError InvalidData ''invalid chunk extension contains newline''"

definition extensions_over_limit :: io_error where
  "extensions_over_limit = IoError InvalidData ''chunk extensions over limit''"

definition invalid_size_lf :: io_error where
  "invalid_size_lf = IoError InvalidInput ''Invalid chunk size LF''"

definition invalid_body_cr :: io_error where
  "invalid_body_cr = IoError InvalidInput ''Invalid chunk body CR''"

definition invalid_body_lf :: io_error where
  "invalid_body_lf = IoError InvalidInput ''Invalid chunk body LF''"

definition trailers_count_overflow :: io_error where
  "trailers_count_overflow = IoError InvalidData ''chunk trailers count overflow''"

definition invalid_trailer_lf :: io_error where
  "invalid_trailer_lf = IoError InvalidInput ''Invalid trailer end LF''"

definition invalid_end_lf :: io_error where
  "invalid_end_lf = IoError InvalidInput ''Invalid chunk end LF''"

text \<open>The macros \<^verbatim>\<open>byte!\<close>, \<^verbatim>\<open>or_overflow!\<close> and \<^verbatim>\<open>put_u8!\<close>, each with its early return.\<close>

definition byte_then ::
    "'r mem_reader \<Rightarrow> 'r \<Rightarrow> 's \<Rightarrow> (byte \<Rightarrow> 'r \<Rightarrow> 'o io_result poll \<times> 's \<times> 'r) \<Rightarrow>
     'o io_result poll \<times> 's \<times> 'r" where
  "byte_then rd r s k =
     (case rd r 1 of
        (Pending, r') \<Rightarrow> (Pending, s, r')
      | (Panicked, r') \<Rightarrow> (Panicked, s, r')
      | (Ready (Inl e), r') \<Rightarrow> (Ready (Inl e), s, r')
      | (Ready (Inr buf), r') \<Rightarrow>
          (case buf of
             b # _ \<Rightarrow> k b r'
           | [] \<Rightarrow> (Ready (Inl eof_in_line), s, r')))"

definition or_overflow ::
    "'v option \<Rightarrow> 's \<Rightarrow> 'r \<Rightarrow> ('v \<Rightarrow> 'o io_result poll \<times> 's \<times> 'r) \<Rightarrow> 'o io_result poll \<times> 's \<times> 'r" where
  "or_overflow e s r k =
     (case e of
        Some val \<Rightarrow> k val
      | None \<Rightarrow> (Ready (Inl size_overflow), s, r))"

definition put_u8 ::
    "byte list \<Rightarrow> byte \<Rightarrow> nat \<Rightarrow> 'r \<Rightarrow> chunked_state \<Rightarrow>
     chunked_state io_result poll \<times> byte list option \<times> 'r" where
  "put_u8 buf b limit r next =
     (let buf' = buf @ [b] in
      if length buf' \<ge> limit then
        (Ready (Inl trailers_over_limit), Some buf', r)
      else (Ready (Inr next), Some buf', r))"

text \<open>The value of a hexadecimal digit, as the three byte ranges of the match compute it.\<close>

definition hex_nibble :: "byte \<Rightarrow> u64 option" where
  "hex_nibble b =
     (if 48 \<le> b \<and> b \<le> 57 then Some (ucast (b - 48))
      else if 97 \<le> b \<and> b \<le> 102 then Some (ucast (b + 10 - 97))
      else if 65 \<le> b \<and> b \<le> 70 then Some (ucast (b + 10 - 65))
      else None)"

definition accumulate_digit :: "u64 \<Rightarrow> u64 \<Rightarrow> 'r \<Rightarrow> chunked_state io_result poll \<times> u64 \<times> 'r" where
  "accumulate_digit sz d r =
     or_overflow (checked_mul sz 16) sz r (\<lambda>size1.
       or_overflow (checked_add size1 d) size1 r (\<lambda>size2. (Ready (Inr Size), size2, r)))"

definition read_start :: "'r mem_reader \<Rightarrow> 'r \<Rightarrow> u64 \<Rightarrow> chunked_state io_result poll \<times> u64 \<times> 'r" where
  "read_start rd r sz = byte_then rd r sz (\<lambda>b r'.
     case hex_nibble b of
       Some d \<Rightarrow> accumulate_digit sz d r'
     | None \<Rightarrow> (Ready (Inl missing_size_digit), sz, r'))"

definition read_size :: "'r mem_reader \<Rightarrow> 'r \<Rightarrow> u64 \<Rightarrow> chunked_state io_result poll \<times> u64 \<times> 'r" where
  "read_size rd r sz = byte_then rd r sz (\<lambda>b r'.
     case hex_nibble b of
       Some d \<Rightarrow> accumulate_digit sz d r'
     | None \<Rightarrow>
         if b = 9 \<or> b = 32 then (Ready (Inr SizeLws), sz, r')
         else if b = 59 then (Ready (Inr Extension), sz, r')
         else if b = 13 then (Ready (Inr SizeLf), sz, r')
         else (Ready (Inl invalid_size), sz, r'))"

definition read_size_lws :: "'r mem_reader \<Rightarrow> 'r \<Rightarrow> chunked_state io_result poll \<times> unit \<times> 'r" where
  "read_size_lws rd r = byte_then rd r () (\<lambda>b r'.
     if b = 9 \<or> b = 32 then (Ready (Inr SizeLws), (), r')
     else if b = 59 then (Ready (Inr Extension), (), r')
     else if b = 13 then (Ready (Inr SizeLf), (), r')
     else (Ready (Inl invalid_size_lws), (), r'))"

definition read_extension ::
    "'r mem_reader \<Rightarrow> 'r \<Rightarrow> u64 \<Rightarrow> chunked_state io_result poll \<times> u64 \<times> 'r" where
  "read_extension rd r extensions_cnt = byte_then rd r extensions_cnt (\<lambda>b r'.
     if b = 13 then (Ready (Inr SizeLf), extensions_cnt, r')
     else if b = 10 then
       (Ready (Inl extension_newline),
        extensions_cnt, r')
     else
       (let cnt = extensions_cnt + 1 in
        if cnt \<ge> CHUNKED_EXTENSIONS_LIMIT then
          (Ready (Inl extensions_over_limit), cnt, r')
        else (Ready (Inr Extension), cnt, r')))"

definition read_size_lf ::
    "'r mem_reader \<Rightarrow> 'r \<Rightarrow> u64 \<Rightarrow> chunked_state io_result poll \<times> unit \<times> 'r" where
  "read_size_lf rd r sz = byte_then rd r () (\<lambda>b r'.
     if b = 10 then
       (if sz = 0 then (Ready (Inr EndCr), (), r') else (Ready (Inr Body), (), r'))
     else (Ready (Inl invalid_size_lf), (), r'))"

definition read_body ::
    "'r mem_reader \<Rightarrow> 'r \<Rightarrow> u64 \<Rightarrow> byte list option \<Rightarrow>
     chunked_state io_result poll \<times> (u64 \<times> byte list option) \<times> 'r" where
  "read_body rd r rem buf =
     (case rd r (unat rem) of
        (Pending, r') \<Rightarrow> (Pending, (rem, buf), r')
      | (Panicked, r') \<Rightarrow> (Panicked, (rem, buf), r')
      | (Ready (Inl e), r') \<Rightarrow> (Ready (Inl e), (rem, buf), r')
      | (Ready (Inr bytes_read), r') \<Rightarrow>
          (if length bytes_read = 0 then (Ready (Inl incomplete_body), (0, buf), r')
           else
             (let rem' = rem - of_nat (length bytes_read) in
              (Ready (Inr (if rem' > 0 then Body else BodyCr)), (rem', Some bytes_read), r'))))"

definition read_body_cr :: "'r mem_reader \<Rightarrow> 'r \<Rightarrow> chunked_state io_result poll \<times> unit \<times> 'r" where
  "read_body_cr rd r = byte_then rd r () (\<lambda>b r'.
     if b = 13 then (Ready (Inr BodyLf), (), r')
     else (Ready (Inl invalid_body_cr), (), r'))"

definition read_body_lf :: "'r mem_reader \<Rightarrow> 'r \<Rightarrow> chunked_state io_result poll \<times> unit \<times> 'r" where
  "read_body_lf rd r = byte_then rd r () (\<lambda>b r'.
     if b = 10 then (Ready (Inr Start), (), r')
     else (Ready (Inl invalid_body_lf), (), r'))"

definition read_trailer ::
    "'r mem_reader \<Rightarrow> 'r \<Rightarrow> byte list option \<Rightarrow> nat \<Rightarrow>
     chunked_state io_result poll \<times> byte list option \<times> 'r" where
  "read_trailer rd r trailers_buf max_header_size = byte_then rd r trailers_buf (\<lambda>b r'.
     case trailers_buf of
       None \<Rightarrow> (Panicked, trailers_buf, r')
     | Some buf \<Rightarrow> put_u8 buf b max_header_size r' (if b = 13 then TrailerLf else Trailer))"

definition read_trailer_lf ::
    "'r mem_reader \<Rightarrow> 'r \<Rightarrow> byte list option \<Rightarrow> nat \<Rightarrow> nat \<Rightarrow> nat \<Rightarrow>
     chunked_state io_result poll \<times> (byte list option \<times> nat) \<times> 'r" where
  "read_trailer_lf rd r trailers_buf trailers_cnt max_headers max_header_size =
     byte_then rd r (trailers_buf, trailers_cnt) (\<lambda>b r'.
       if b = 10 then
         (if trailers_cnt \<ge> max_headers then
            (Ready (Inl trailers_count_overflow),
             (trailers_buf, trailers_cnt), r')
          else
            (case trailers_buf of
               None \<Rightarrow> (Panicked, (trailers_buf, Suc trailers_cnt), r')
             | Some buf \<Rightarrow>
                 (case put_u8 buf b max_header_size r' EndCr of
                    (res, buf', r'') \<Rightarrow> (res, (buf', Suc trailers_cnt), r''))))
       else (Ready (Inl invalid_trailer_lf),
             (trailers_buf, trailers_cnt), r'))"

definition read_end_cr ::
    "'r mem_reader \<Rightarrow> 'r \<Rightarrow> byte list option \<Rightarrow> nat \<Rightarrow>
     chunked_state io_result poll \<times> byte list option \<times> 'r" where
  "read_end_cr rd r trailers_buf max_header_size = byte_then rd r trailers_buf (\<lambda>b r'.
     if b = 13 then
       (case trailers_buf of
          Some buf \<Rightarrow> put_u8 buf b max_header_size r' EndLf
        | None \<Rightarrow> (Ready (Inr EndLf), None, r'))
     else
       (case trailers_buf of
          None \<Rightarrow> (Ready (Inr Trailer), Some [b], r')
        | Some buf \<Rightarrow> put_u8 buf b max_header_size r' Trailer))"

definition read_end_lf ::
    "'r mem_reader \<Rightarrow> 'r \<Rightarrow> byte list option \<Rightarrow> nat \<Rightarrow>
     chunked_state io_result poll \<times> byte list option \<times> 'r" where
  "read_end_lf rd r trailers_buf max_header_size = byte_then rd r trailers_buf (\<lambda>b r'.
     if b = 10 then
       (case trailers_buf of
          Some buf \<Rightarrow> put_u8 buf b max_header_size r' End
        | None \<Rightarrow> (Ready (Inr End), None, r'))
     else (Ready (Inl invalid_end_lf), trailers_buf, r'))"

text \<open>\<^verbatim>\<open>ChunkedState::step\<close>: the borrowed fields of \<^verbatim>\<open>StepArgs\<close> are written back.\<close>

definition step ::
    "'r mem_reader \<Rightarrow> chunked_state \<Rightarrow> 'r \<Rightarrow> step_args \<Rightarrow>
     chunked_state io_result poll \<times> step_args \<times> 'r" where
  "step rd st r a =
     (case st of
        Start \<Rightarrow> (case read_start rd r (sa_chunk_size a) of
                    (res, n, r') \<Rightarrow> (res, a\<lparr>sa_chunk_size := n\<rparr>, r'))
      | Size \<Rightarrow> (case read_size rd r (sa_chunk_size a) of
                    (res, n, r') \<Rightarrow> (res, a\<lparr>sa_chunk_size := n\<rparr>, r'))
      | SizeLws \<Rightarrow> (case read_size_lws rd r of (res, _, r') \<Rightarrow> (res, a, r'))
      | Extension \<Rightarrow> (case read_extension rd r (sa_extensions_cnt a) of
                    (res, n, r') \<Rightarrow> (res, a\<lparr>sa_extensions_cnt := n\<rparr>, r'))
      | SizeLf \<Rightarrow> (case read_size_lf rd r (sa_chunk_size a) of (res, _, r') \<Rightarrow> (res, a, r'))
      | Body \<Rightarrow> (case read_body rd r (sa_chunk_size a) (sa_chunk_buf a) of
                    (res, (n, buf), r') \<Rightarrow> (res, a\<lparr>sa_chunk_size := n, sa_chunk_buf := buf\<rparr>, r'))
      | BodyCr \<Rightarrow> (case read_body_cr rd r of (res, _, r') \<Rightarrow> (res, a, r'))
      | BodyLf \<Rightarrow> (case read_body_lf rd r of (res, _, r') \<Rightarrow> (res, a, r'))
      | Trailer \<Rightarrow> (case read_trailer rd r (sa_trailers_buf a) (sa_max_headers_bytes a) of
                    (res, tb, r') \<Rightarrow> (res, a\<lparr>sa_trailers_buf := tb\<rparr>, r'))
      | TrailerLf \<Rightarrow> (case read_trailer_lf rd r (sa_trailers_buf a) (sa_trailers_cnt a)
                            (sa_max_headers_cnt a) (sa_max_headers_bytes a) of
                    (res, (tb, n), r') \<Rightarrow> (res, a\<lparr>sa_trailers_buf := tb, sa_trailers_cnt := n\<rparr>, r'))
      | EndCr \<Rightarrow> (case read_end_cr rd r (sa_trailers_buf a) (sa_max_headers_bytes a) of
                    (res, tb, r') \<Rightarrow> (res, a\<lparr>sa_trailers_buf := tb\<rparr>, r'))
      | EndLf \<Rightarrow> (case read_end_lf rd r (sa_trailers_buf a) (sa_max_headers_bytes a) of
                    (res, tb, r') \<Rightarrow> (res, a\<lparr>sa_trailers_buf := tb\<rparr>, r'))
      | End \<Rightarrow> (Ready (Inr End), a, r))"

text \<open>
  \<^verbatim>\<open>decode_trailers\<close>: the loop over the parsed headers, with its two early returns.  The
  messages leave out the debug form of the header.
\<close>

fun append_trailers ::
    "'m http_api \<Rightarrow> (byte list \<times> byte list) list \<Rightarrow> 'm \<Rightarrow> 'm io_result" where
  "append_trailers A [] trailers = Inr trailers"
| "append_trailers A ((n, v) # hs) trailers =
     (case hn_from_bytes A n of
        None \<Rightarrow> Inl (IoError InvalidInput ''Invalid header name'')
      | Some name \<Rightarrow>
          (case hv_from_bytes A v of
             None \<Rightarrow> Inl (IoError InvalidInput ''Invalid header value'')
           | Some value \<Rightarrow> append_trailers A hs (hm_append A trailers name value)))"

definition decode_trailers ::
    "'m http_api \<Rightarrow> httparse_api \<Rightarrow> byte list \<Rightarrow> nat \<Rightarrow> 'm io_result" where
  "decode_trailers A P buf count =
     (case hp_parse_headers P buf count of
        HpComplete headers \<Rightarrow> append_trailers A headers (hm_empty A)
      | HpPartial \<Rightarrow> Inl (IoError InvalidInput ''Partial header'')
      | HpError e \<Rightarrow> Inl (IoError InvalidInput (hp_message P e)))"

text \<open>The arguments of a step, and the fields after it.\<close>

definition step_args_of :: "chunked \<Rightarrow> step_args" where
  "step_args_of c = \<lparr>sa_chunk_size = dk_chunk_len c, sa_chunk_buf = None,
     sa_extensions_cnt = dk_extensions_cnt c, sa_trailers_buf = dk_trailers_buf c,
     sa_trailers_cnt = dk_trailers_cnt c,
     sa_max_headers_cnt =
       (case dk_max_headers c of Some n \<Rightarrow> n | None \<Rightarrow> DEFAULT_MAX_HEADERS),
     sa_max_headers_bytes =
       (case dk_max_header_size c of Some n \<Rightarrow> n | None \<Rightarrow> TRAILER_LIMIT)\<rparr>"

definition write_back :: "chunked \<Rightarrow> step_args \<Rightarrow> chunked" where
  "write_back c a = c\<lparr>dk_chunk_len := sa_chunk_size a, dk_extensions_cnt := sa_extensions_cnt a,
     dk_trailers_buf := sa_trailers_buf a, dk_trailers_cnt := sa_trailers_cnt a\<rparr>"

text \<open>The loop of the chunked branch of \<^verbatim>\<open>Decoder::decode\<close>.\<close>

partial_function (option) chunked_loop ::
    "'m http_api \<Rightarrow> httparse_api \<Rightarrow> 'r mem_reader \<Rightarrow> chunked \<Rightarrow> 'r \<Rightarrow>
     ('m frame io_result poll \<times> chunked \<times> 'r) option" where
  "chunked_loop A P rd c r =
     (case step rd (dk_state c) r (step_args_of c) of
        (Pending, a, r') \<Rightarrow> Some (Pending, write_back c a, r')
      | (Panicked, a, r') \<Rightarrow> Some (Panicked, write_back c a, r')
      | (Ready (Inl e), a, r') \<Rightarrow> Some (Ready (Inl e), write_back c a, r')
      | (Ready (Inr st), a, r') \<Rightarrow>
          (let c' = (write_back c a)\<lparr>dk_state := st\<rparr> in
           if st = End then
             (case dk_trailers_buf c' of
                Some buf \<Rightarrow>
                  Some (Ready (map_sum id Trailers (decode_trailers A P buf (dk_trailers_cnt c'))),
                        c'\<lparr>dk_trailers_buf := None\<rparr>, r')
              | None \<Rightarrow> Some (Ready (Inr (Data [])), c', r'))
           else
             (case sa_chunk_buf a of
                Some buf \<Rightarrow> Some (Ready (Inr (Data buf)), c', r')
              | None \<Rightarrow> chunked_loop A P rd c' r')))"

declare chunked_loop.simps [code]

definition decode ::
    "'m http_api \<Rightarrow> httparse_api \<Rightarrow> 'r mem_reader \<Rightarrow> decoder \<Rightarrow> 'r \<Rightarrow>
     ('m frame io_result poll \<times> decoder \<times> 'r) option" where
  "decode A P rd d r =
     (case d of
        Length remaining \<Rightarrow>
          (if remaining = 0 then Some (Ready (Inr (Data [])), d, r)
           else
             (case rd r (unat remaining) of
                (Pending, r') \<Rightarrow> Some (Pending, d, r')
              | (Panicked, r') \<Rightarrow> Some (Panicked, d, r')
              | (Ready (Inl e), r') \<Rightarrow> Some (Ready (Inl e), d, r')
              | (Ready (Inr buf), r') \<Rightarrow>
                  (let num = of_nat (length buf) in
                   if num > remaining then Some (Ready (Inr (Data buf)), Length 0, r')
                   else if num = 0 then Some (Ready (Inl incomplete_body), d, r')
                   else Some (Ready (Inr (Data buf)), Length (remaining - num), r'))))
      | Chunked c \<Rightarrow>
          map_option (\<lambda>(res, c', r'). (res, Chunked c', r')) (chunked_loop A P rd c r)
      | Eof is_eof \<Rightarrow>
          (if is_eof then Some (Ready (Inr (Data [])), d, r)
           else
             (case rd r 8192 of
                (Pending, r') \<Rightarrow> Some (Pending, d, r')
              | (Panicked, r') \<Rightarrow> Some (Panicked, d, r')
              | (Ready (Inl e), r') \<Rightarrow> Some (Ready (Inl e), d, r')
              | (Ready (Inr bytes_read), r') \<Rightarrow>
                  Some (Ready (Inr (Data bytes_read)), Eof (bytes_read = []), r'))))"


section \<open>The contract of the reader\<close>

text \<open>
  \<open>stream r\<close> are the bytes still to come.  A ready read takes a prefix of at most \<open>n\<close> bytes and
  is empty at the end of the stream only; a pending or failed read takes nothing.
\<close>

locale mem_read =
  fixes rd :: "'r mem_reader"
    and stream :: "'r \<Rightarrow> byte list"
    and invar :: "'r \<Rightarrow> bool"
  assumes read_invar: "\<lbrakk>invar r; rd r n = (res, r')\<rbrakk> \<Longrightarrow> invar r'"
    and read_ready: "\<lbrakk>invar r; rd r n = (Ready (Inr bs), r')\<rbrakk> \<Longrightarrow>
          length bs \<le> n \<and> stream r = bs @ stream r'"
    and read_eof: "\<lbrakk>invar r; rd r n = (Ready (Inr []), r'); 0 < n\<rbrakk> \<Longrightarrow> stream r = []"
    and read_pending: "\<lbrakk>invar r; rd r n = (Pending, r')\<rbrakk> \<Longrightarrow> stream r' = stream r"
    and read_err: "\<lbrakk>invar r; rd r n = (Ready (Inl e), r')\<rbrakk> \<Longrightarrow> stream r' = stream r"
    and read_no_panic: "invar r \<Longrightarrow> fst (rd r n) \<noteq> Panicked"

text \<open>
  A reader that delivers its stream: it reports no error, and \<open>patience r\<close> bounds the polls
  that can still be pending.
\<close>

locale live_mem_read = mem_read +
  fixes patience :: "'a \<Rightarrow> nat"
  assumes pending_patience: "\<lbrakk>invar r; rd r n = (Pending, r')\<rbrakk> \<Longrightarrow> patience r' < patience r"
    and ready_patience: "\<lbrakk>invar r; rd r n = (Ready (Inr bs), r')\<rbrakk> \<Longrightarrow> patience r' \<le> patience r"
    and no_read_error: "invar r \<Longrightarrow> fst (rd r n) \<noteq> Ready (Inl e)"

text \<open>\<^verbatim>\<open>impl MemRead for &[u8]\<close>: a slice is read front to back and is always ready.\<close>

definition slice_read :: "byte list mem_reader" where
  "slice_read r len = (Ready (Inr (take len r)), drop len r)"

section \<open>The reference machine\<close>

text \<open>
  The machine one byte at a time, without a reader: \<open>byte_step\<close> runs \<open>step\<close> on a one-byte
  slice, \<open>run\<close> iterates it over a byte list up to the end of the message or the first error.
\<close>

definition byte_step ::
    "chunked \<Rightarrow> byte \<Rightarrow> chunked_state io_result poll \<times> chunked \<times> byte list option" where
  "byte_step c b =
     (case step slice_read (dk_state c) [b] (step_args_of c) of
        (Ready (Inr st), a, _) \<Rightarrow> (Ready (Inr st), (write_back c a)\<lparr>dk_state := st\<rparr>, sa_chunk_buf a)
      | (res, a, _) \<Rightarrow> (res, write_back c a, sa_chunk_buf a))"

datatype run_outcome =
    NeedMore chunked
  | Failed io_error
  | Finished "byte list option" nat "byte list"
  | Crashed

definition prep :: "byte list \<Rightarrow> byte list \<times> run_outcome \<Rightarrow> byte list \<times> run_outcome" where
  "prep d p = (d @ fst p, snd p)"

fun run :: "chunked \<Rightarrow> byte list \<Rightarrow> byte list \<times> run_outcome" where
  "run c [] = ([], NeedMore c)"
| "run c (b # bs) =
     (case byte_step c b of
        (Ready (Inr st), c', d) \<Rightarrow>
          (if st = End then ([], Finished (dk_trailers_buf c') (dk_trailers_cnt c') bs)
           else prep (case d of Some x \<Rightarrow> x | None \<Rightarrow> []) (run c' bs))
      | (Ready (Inl e), _, _) \<Rightarrow> ([], Failed e)
      | _ \<Rightarrow> ([], Crashed))"

text \<open>
  The invariant of a decoder that has not failed.  The length of the trailer buffer is bounded
  by the limit, except for the first byte, which is stored unchecked.
\<close>

definition max_headers_of :: "chunked \<Rightarrow> nat" where
  "max_headers_of c = sa_max_headers_cnt (step_args_of c)"

definition max_bytes_of :: "chunked \<Rightarrow> nat" where
  "max_bytes_of c = sa_max_headers_bytes (step_args_of c)"

definition trailers_inv :: "nat \<Rightarrow> byte list option \<Rightarrow> nat \<Rightarrow> bool" where
  "trailers_inv limit tb cnt =
     (case tb of None \<Rightarrow> cnt = 0 | Some buf \<Rightarrow> length buf < max 2 limit \<and> buf \<noteq> [])"

definition chunked_inv :: "chunked \<Rightarrow> bool" where
  "chunked_inv c \<longleftrightarrow>
     (dk_state c \<in> {Trailer, TrailerLf} \<longrightarrow> dk_trailers_buf c \<noteq> None) \<and>
     (dk_state c = Body \<longrightarrow> dk_chunk_len c \<noteq> 0) \<and>
     (dk_state c \<in> {Start, BodyCr, BodyLf, Trailer, TrailerLf, EndCr, EndLf, End} \<longrightarrow>
        dk_chunk_len c = 0) \<and>
     dk_extensions_cnt c < CHUNKED_EXTENSIONS_LIMIT \<and>
     trailers_inv (max_bytes_of c) (dk_trailers_buf c) (dk_trailers_cnt c) \<and>
     dk_trailers_cnt c \<le> max_headers_of c"

text \<open>What a step gives from a state that satisfies it.\<close>

definition step_good :: "chunked \<Rightarrow> chunked_state io_result poll \<times> chunked \<times> byte list option \<Rightarrow> bool" where
  "step_good c p = (case p of
      (Ready (Inl e), _, _) \<Rightarrow> True
    | (Ready (Inr st), c', _) \<Rightarrow> dk_state c' = st \<and> chunked_inv c' \<and>
        max_bytes_of c' = max_bytes_of c \<and> max_headers_of c' = max_headers_of c
    | _ \<Rightarrow> False)"

text \<open>The error at the end of the input, by the state the machine is in.\<close>

definition eof_error :: "chunked \<Rightarrow> io_error" where
  "eof_error c = (if dk_state c = Body then incomplete_body else eof_in_line)"

text \<open>
  What one poll of the chunked decoder returns, against the outcome of the reference machine on
  the stream before the poll.
\<close>

definition decode_post ::
    "'m http_api \<Rightarrow> httparse_api \<Rightarrow> 'r mem_reader \<Rightarrow> ('r \<Rightarrow> byte list) \<Rightarrow> ('r \<Rightarrow> bool) \<Rightarrow> 
     byte list \<times> run_outcome \<Rightarrow> 'm frame io_result poll \<times> chunked \<times> 'r \<Rightarrow> bool" where
  "decode_post A P rd stream invar expected out =
     (case out of
        (Panicked, _, _) \<Rightarrow> False
      | (Pending, c', r') \<Rightarrow>
          expected = run c' (stream r') \<and> chunked_inv c' \<and> dk_state c' \<noteq> End
      | (Ready (Inr (Data d)), c', r') \<Rightarrow>
          (if d = [] then
             dk_state c' = End \<and> (\<exists>n. expected = ([], Finished None n (stream r')))
           else expected = prep d (run c' (stream r')) \<and> chunked_inv c' \<and> dk_state c' \<noteq> End)
      | (Ready (Inr (Trailers t)), c', r') \<Rightarrow>
          dk_state c' = End \<and>
          (\<exists>tb n. expected = ([], Finished (Some tb) n (stream r')) \<and>
                  decode_trailers A P tb n = Inr t)
      | (Ready (Inl e), c', r') \<Rightarrow>
          expected = ([], Failed e) \<or>
          (\<exists>tb n. expected = ([], Finished (Some tb) n (stream r')) \<and>
                  decode_trailers A P tb n = Inl e) \<or>
          (\<exists>c''. stream r' = [] \<and> expected = ([], NeedMore c'') \<and> e = eof_error c'') \<or>
          (\<exists>s n. invar s \<and> rd s n = (Ready (Inl e), r')))"

text \<open>
  The way a connection reads a body: poll the decoder until it reports an error, trailers or its
  end, and collect the data.  \<open>body_of\<close> is the outcome the reference machine assigns to a
  byte stream, \<open>drained\<close> reads the result of a run the same way.
\<close>

fun drain ::
    "'m http_api \<Rightarrow> httparse_api \<Rightarrow> 'r mem_reader \<Rightarrow> nat \<Rightarrow> decoder \<Rightarrow> 'r \<Rightarrow>
     (byte list \<times> 'm option io_result \<times> 'r) option" where
  "drain A P rd 0 d r = None"
| "drain A P rd (Suc n) d r =
     (case decode A P rd d r of
        None \<Rightarrow> None
      | Some (Panicked, d', r') \<Rightarrow> None
      | Some (Pending, d', r') \<Rightarrow> drain A P rd n d' r'
      | Some (Ready (Inl e), d', r') \<Rightarrow> Some ([], Inl e, r')
      | Some (Ready (Inr (Trailers t)), d', r') \<Rightarrow> Some ([], Inr (Some t), r')
      | Some (Ready (Inr (Data b)), d', r') \<Rightarrow>
          (if decoder_is_eof d' then Some (b, Inr None, r')
           else map_option (\<lambda>(D, res, r''). (b @ D, res, r'')) (drain A P rd n d' r')))"

definition body_of ::
    "'m http_api \<Rightarrow> httparse_api \<Rightarrow> chunked \<Rightarrow> byte list \<Rightarrow>
     (byte list \<times> ('m option \<times> byte list) io_result) option" where
  "body_of A P c bs =
     (case run c bs of
        (D, Finished None n rest) \<Rightarrow> Some (D, Inr (None, rest))
      | (D, Finished (Some tb) n rest) \<Rightarrow>
          Some (D, map_sum id (\<lambda>t. (Some t, rest)) (decode_trailers A P tb n))
      | (D, Failed e) \<Rightarrow> Some (D, Inl e)
      | (D, NeedMore c') \<Rightarrow> Some (D, Inl (eof_error c'))
      | (D, Crashed) \<Rightarrow> None)"

definition drained ::
    "('r \<Rightarrow> byte list) \<Rightarrow> byte list \<times> 'm option io_result \<times> 'r \<Rightarrow>
     byte list \<times> ('m option \<times> byte list) io_result" where
  "drained stream out = (case out of (D, res, r) \<Rightarrow> (D, map_sum id (\<lambda>t. (t, stream r)) res))"

section \<open>The machine step by step\<close>

named_theorems dec_defs

lemmas [dec_defs] = byte_then_def read_start_def read_size_def read_size_lws_def
  read_extension_def read_size_lf_def read_body_def read_body_cr_def read_body_lf_def
  read_trailer_def read_trailer_lf_def read_end_cr_def read_end_lf_def accumulate_digit_def
  or_overflow_def put_u8_def

lemma slice_read_one [simp]: "slice_read [b] (Suc 0) = (Ready (Inr [b]), [])"
  by (simp add: slice_read_def)


lemma byte_then_no_byte:
  assumes "rd r 1 = (res, r')" "\<forall>b bs. res \<noteq> Ready (Inr (b # bs))"
  shows "byte_then rd r s k = ((case res of Ready (Inr v) \<Rightarrow> Ready (Inl eof_in_line)
    | Ready (Inl e) \<Rightarrow> Ready (Inl e) | Pending \<Rightarrow> Pending | Panicked \<Rightarrow> Panicked), s, r')"
  using assms by (auto simp: byte_then_def eof_in_line_def split: poll.splits sum.splits list.splits)

lemma byte_then_byte:
  assumes "rd r 1 = (Ready (Inr (b # bs)), r')"
  shows "byte_then rd r s k = k b r'"
  using assms by (simp add: byte_then_def)

lemma accumulate_digit_reader:
  "accumulate_digit sz d r' = (case accumulate_digit sz d r of (res, n, _) \<Rightarrow> (res, n, r'))"
  by (simp add: accumulate_digit_def or_overflow_def split: option.split)

lemmas read_defs = read_start_def read_size_def read_size_lws_def
  read_extension_def read_size_lf_def read_body_cr_def read_body_lf_def
  read_trailer_def read_trailer_lf_def read_end_cr_def read_end_lf_def

lemma step_no_byte:
  assumes "st \<noteq> Body" "st \<noteq> End" "rd r 1 = (res, r')" "\<forall>b bs. res \<noteq> Ready (Inr (b # bs))"
  shows "step rd st r a = ((case res of Ready (Inr v) \<Rightarrow> Ready (Inl eof_in_line)
    | Ready (Inl e) \<Rightarrow> Ready (Inl e) | Pending \<Rightarrow> Pending | Panicked \<Rightarrow> Panicked), a, r')"
  using assms(1,2)
  by (cases st; simp add: step_def read_defs byte_then_no_byte[where rd=rd and r=r and res=res and r'=r', OF assms(3,4)])


lemma case_prod_if: "(case (if P then x else y) of (a, b, c) \<Rightarrow> f a b c) = (if P then (case x of (a,b,c) \<Rightarrow> f a b c) else (case y of (a,b,c) \<Rightarrow> f a b c))"
  by simp

lemma case_prod2_if: "(case (if P then x else y) of (a, b) \<Rightarrow> f a b) = (if P then (case x of (a,b) \<Rightarrow> f a b) else (case y of (a,b) \<Rightarrow> f a b))"
  by simp

lemma read_one_byte:
  assumes  "rd r 1 = (Ready (Inr (b # bs)), r')"
  shows "\<And>a. read_start rd r a = (case read_start slice_read [b] a of (res, a', _) \<Rightarrow> (res, a', r'))"
   "\<And>a. read_size rd r a = (case read_size slice_read [b] a of (res, a', _) \<Rightarrow> (res, a', r'))"
   "\<And>a. read_extension rd r a = (case read_extension slice_read [b] a of (res, a', _) \<Rightarrow> (res, a', r'))"
   "\<And>a l. read_trailer rd r a l = (case read_trailer slice_read [b] a l of (res, a', _) \<Rightarrow> (res, a', r'))"
   "\<And>a n m l. read_trailer_lf rd r a n m l= (case read_trailer_lf slice_read [b] a n m l of (res, a', _) \<Rightarrow> (res, a', r'))"
   "read_size_lws rd r = (case read_size_lws slice_read [b] of (res, a', _) \<Rightarrow> (res, a', r'))"
   "\<And>a. read_size_lf rd r a = (case read_size_lf slice_read [b] a of (res, a', _) \<Rightarrow> (res, a', r'))"
   "read_body_cr rd r = (case read_body_cr slice_read [b] of (res, a', _) \<Rightarrow> (res, a', r'))"
   "read_body_lf rd r = (case read_body_lf slice_read [b] of (res, a', _) \<Rightarrow> (res, a', r'))"
   "\<And>a l. read_end_cr rd r a l = (case read_end_cr slice_read [b] a l of (res, a', _) \<Rightarrow> (res, a', r'))"
   "\<And>a l. read_end_lf rd r a l = (case read_end_lf slice_read [b] a l of (res, a', _) \<Rightarrow> (res, a', r'))"
  unfolding read_defs byte_then_byte[where rd=rd and r=r and b=b and bs=bs and r'=r', OF assms] byte_then_byte[where rd=slice_read and r="[b]" and b=b and bs="[]" and r'="[]", OF slice_read_one[unfolded One_nat_def[symmetric]]]
  by (cases "hex_nibble b";
      simp add: case_prod_if case_prod2_if Let_def put_u8_def accumulate_digit_reader[of _ _ r' "[]"]
        cong: if_cong split del: if_split split: option.split)+

lemma step_one_byte:
  assumes "st \<noteq> Body" "st \<noteq> End" "rd r 1 = (Ready (Inr (b # bs)), r')"
  shows "step rd st r a = (case step slice_read st [b] a of (res, a', _) \<Rightarrow> (res, a', r'))"
  using assms(1,2)
  by (cases st; simp add: step_def read_one_byte[where rd=rd and r=r and b=b and bs=bs and r'=r', OF assms(3)] split: prod.split)

lemma step_args_of_sel [simp]:
  "sa_chunk_size (step_args_of c) = dk_chunk_len c"
  "sa_chunk_buf (step_args_of c) = None"
  "sa_extensions_cnt (step_args_of c) = dk_extensions_cnt c"
  "sa_trailers_buf (step_args_of c) = dk_trailers_buf c"
  "sa_trailers_cnt (step_args_of c) = dk_trailers_cnt c"
  "sa_max_headers_cnt (step_args_of c) = max_headers_of c"
  "sa_max_headers_bytes (step_args_of c) = max_bytes_of c"
  by (simp_all add: step_args_of_def max_headers_of_def max_bytes_of_def)

lemma write_back_sel [simp]:
  "dk_state (write_back c a) = dk_state c"
  "dk_chunk_len (write_back c a) = sa_chunk_size a"
  "dk_extensions_cnt (write_back c a) = sa_extensions_cnt a"
  "dk_trailers_buf (write_back c a) = sa_trailers_buf a"
  "dk_trailers_cnt (write_back c a) = sa_trailers_cnt a"
  "dk_max_headers (write_back c a) = dk_max_headers c"
  "dk_max_header_size (write_back c a) = dk_max_header_size c"
  by (simp_all add: write_back_def)

lemma limits_update [simp]:
  "max_headers_of (write_back c a) = max_headers_of c"
  "max_bytes_of (write_back c a) = max_bytes_of c"
  "max_headers_of (c\<lparr>dk_state := st\<rparr>) = max_headers_of c"
  "max_bytes_of (c\<lparr>dk_state := st\<rparr>) = max_bytes_of c"
  by (simp_all add: max_headers_of_def max_bytes_of_def step_args_of_def)

lemma write_back_id [simp]: "write_back c (step_args_of c) = c"
  by (simp add: write_back_def)

lemmas slice_byte_then = byte_then_byte[where rd = slice_read and r = "[b]" and b = b and bs = "[]"
  and r' = "[]", OF slice_read_one[unfolded One_nat_def[symmetric]]] for b

lemma ext_cnt_no_wrap:
  assumes "n < CHUNKED_EXTENSIONS_LIMIT"
  shows "unat (n + 1) = Suc (unat n)"
proof -
  have "unat n < 16384" using assms by (simp add: CHUNKED_EXTENSIONS_LIMIT_def word_less_nat_alt)
  then show ?thesis by (simp add: unat_word_ariths)
qed


lemma step_good_if [simp]: "step_good c (if P then x else y) \<longleftrightarrow> (P \<longrightarrow> step_good c x) \<and> (\<not> P \<longrightarrow> step_good c y)"
  by simp

lemma byte_step_ok:
  assumes inv: "chunked_inv c" and "dk_state c \<noteq> End"
  shows "step_good c (byte_step c b)"
proof (cases "dk_state c")
  case Start then show ?thesis using inv
    by (cases "hex_nibble b"; simp add: step_good_def byte_step_def step_def read_defs slice_byte_then accumulate_digit_def or_overflow_def chunked_inv_def split: option.split)
next
  case Size then show ?thesis using inv
    by (cases "hex_nibble b"; simp add: step_good_def byte_step_def step_def read_defs slice_byte_then accumulate_digit_def or_overflow_def chunked_inv_def split: option.split)
next
  case SizeLws then show ?thesis using inv
    by (simp add: step_good_def byte_step_def step_def read_defs slice_byte_then chunked_inv_def)
next
  case Extension then show ?thesis using inv
    by (simp add: step_good_def byte_step_def step_def read_defs slice_byte_then chunked_inv_def Let_def not_le)
next
  case SizeLf then show ?thesis using inv
    by (simp add: step_good_def byte_step_def step_def read_defs slice_byte_then chunked_inv_def)
next
  case Body then show ?thesis using inv
    by (simp add: step_good_def byte_step_def step_def read_body_def slice_read_def chunked_inv_def Let_def unat_eq_0 word_gt_0)
next
  case BodyCr then show ?thesis using inv
    by (simp add: step_good_def byte_step_def step_def read_defs slice_byte_then chunked_inv_def)
next
  case BodyLf then show ?thesis using inv
    by (simp add: step_good_def byte_step_def step_def read_defs slice_byte_then chunked_inv_def)
next
  case Trailer then show ?thesis using inv
    by (cases "dk_trailers_buf c"; simp add: not_le less_max_iff_disj step_good_def byte_step_def step_def read_defs slice_byte_then chunked_inv_def put_u8_def trailers_inv_def Let_def)
next
  case TrailerLf then show ?thesis using inv
    by (cases "dk_trailers_buf c"; simp add: not_le less_max_iff_disj step_good_def byte_step_def step_def read_defs slice_byte_then chunked_inv_def put_u8_def trailers_inv_def Let_def)
next
  case EndCr then show ?thesis using inv
    by (cases "dk_trailers_buf c"; simp add: not_le less_max_iff_disj step_good_def byte_step_def step_def read_defs slice_byte_then chunked_inv_def put_u8_def trailers_inv_def Let_def)
next
  case EndLf then show ?thesis using inv
    by (cases "dk_trailers_buf c"; simp add: not_le less_max_iff_disj step_good_def byte_step_def step_def read_defs slice_byte_then chunked_inv_def put_u8_def trailers_inv_def Let_def)
qed (use assms in simp)

lemma prep_Nil [simp]: "prep [] p = p"
  by (simp add: prep_def)

lemma prep_prep [simp]: "prep xs (prep ys p) = prep (xs @ ys) p"
  by (simp add: prep_def)

lemma byte_step_no_data:
  assumes "dk_state c \<noteq> Body"
  shows "snd (snd (byte_step c b)) = None"
  using assms
  by (cases "dk_state c") (simp_all add: byte_step_def step_def split: prod.split poll.split sum.split)

lemma byte_step_Body:
  assumes "dk_state c = Body" "dk_chunk_len c \<noteq> 0"
  shows "byte_step c b =
    (let st = (if dk_chunk_len c = 1 then BodyCr else Body) in
     (Ready (Inr st), c\<lparr>dk_chunk_len := dk_chunk_len c - 1, dk_state := st\<rparr>, Some [b]))"
proof -
  have "Suc 0 \<le> unat (dk_chunk_len c)" using assms(2) by (simp add: Suc_le_eq unat_gt_0)
  then have "slice_read [b] (unat (dk_chunk_len c)) = (Ready (Inr [b]), [])"
    by (simp add: slice_read_def)
  then show ?thesis using assms
    by (simp add: byte_step_def step_def read_body_def Let_def write_back_def step_args_of_def
        word_gt_0)
qed

lemma run_body:
  assumes "dk_state c = Body" "bs \<noteq> []" "length bs \<le> unat (dk_chunk_len c)"
  shows "run c (bs @ rest) = prep bs (run (c\<lparr>dk_chunk_len := dk_chunk_len c - of_nat (length bs),
           dk_state := (if dk_chunk_len c = of_nat (length bs) then BodyCr else Body)\<rparr>) rest)"
  using assms
proof (induction bs arbitrary: c)
  case (Cons b bs)
  let ?n = "dk_chunk_len c"
  have n0: "?n \<noteq> 0" using Cons.prems by auto
  then have u: "unat (?n - 1) = unat ?n - 1" by (simp add: unat_minus_one)
  show ?case
  proof (cases "bs = []")
    case True
    then show ?thesis using Cons.prems n0 by (simp add: byte_step_Body Let_def)
  next
    case False
    let ?c = "c\<lparr>dk_chunk_len := ?n - 1, dk_state := Body\<rparr>"
    have "?n \<noteq> 1" using Cons.prems False by (cases bs) auto
    then have "run c ((b # bs) @ rest) = prep [b] (run ?c (bs @ rest))"
      using Cons.prems n0 by (simp add: byte_step_Body Let_def)
    also have "run ?c (bs @ rest) = prep bs (run (c\<lparr>dk_chunk_len := ?n - 1 - of_nat (length bs),
        dk_state := (if ?n - 1 = of_nat (length bs) then BodyCr else Body)\<rparr>) rest)"
      using Cons.IH [of ?c] Cons.prems False u by simp
    also have "?n - 1 - of_nat (length bs) = ?n - of_nat (length (b # bs))"
      by simp
    also have "?n - 1 = of_nat (length bs) \<longleftrightarrow> ?n = of_nat (length (b # bs))"
      by (auto simp: algebra_simps)
    finally show ?thesis by simp
  qed
qed simp

text \<open>One turn of the loop outside \<^verbatim>\<open>Body\<close> and \<^verbatim>\<open>End\<close>, with and without a byte.\<close>

lemma chunked_loop_no_byte:
  assumes "dk_state c \<noteq> Body" "dk_state c \<noteq> End" "rd r 1 = (res, r')"
    "\<forall>b bs. res \<noteq> Ready (Inr (b # bs))"
  shows "chunked_loop A P rd c r =
    Some ((case res of Ready (Inr v) \<Rightarrow> Ready (Inl eof_in_line) | Ready (Inl e) \<Rightarrow> Ready (Inl e)
             | Pending \<Rightarrow> Pending | Panicked \<Rightarrow> Panicked), c, r')"
  by (subst chunked_loop.simps)
     (simp add: step_no_byte [where rd=rd and r=r and res=res and r'=r', OF assms] split: poll.split sum.split)

lemma chunked_loop_byte:
  assumes "dk_state c \<noteq> Body" "dk_state c \<noteq> End" "rd r 1 = (Ready (Inr (b # bs)), r')"
  shows "chunked_loop A P rd c r =
    (case byte_step c b of
       (Ready (Inr st), c', _) \<Rightarrow>
         (if st = End then
            Some (case dk_trailers_buf c' of
                    Some buf \<Rightarrow> (Ready (map_sum id Trailers (decode_trailers A P buf (dk_trailers_cnt c'))),
                                 c'\<lparr>dk_trailers_buf := None\<rparr>, r')
                  | None \<Rightarrow> (Ready (Inr (Data [])), c', r'))
          else chunked_loop A P rd c' r')
     | (Ready (Inl e), c', _) \<Rightarrow> Some (Ready (Inl e), c', r')
     | (Pending, c', _) \<Rightarrow> Some (Pending, c', r')
     | (Panicked, c', _) \<Rightarrow> Some (Panicked, c', r'))"
proof -
  obtain res a q where st: "step slice_read (dk_state c) [b] (step_args_of c) = (res, a, q)"
    by (cases "step slice_read (dk_state c) [b] (step_args_of c)")
  have "sa_chunk_buf a = None" if "res = Ready (Inr x)" for x
    using byte_step_no_data [OF assms(1), of b] st that by (simp add: byte_step_def)
  then show ?thesis
    by (subst chunked_loop.simps)
       (simp add: byte_step_def st Let_def step_one_byte [where rd=rd and r=r and b=b and bs=bs and r'=r', OF assms]
          split: poll.split sum.split option.split)
qed

lemma chunked_loop_End:
  assumes "dk_state c = End"
  shows "chunked_loop A P rd c r =
    Some (case dk_trailers_buf c of
            Some buf \<Rightarrow> (Ready (map_sum id Trailers (decode_trailers A P buf (dk_trailers_cnt c))),
                         c\<lparr>dk_trailers_buf := None\<rparr>, r)
          | None \<Rightarrow> (Ready (Inr (Data [])), c, r))"
  by (subst chunked_loop.simps) (simp add: step_def assms Let_def split: option.split)

lemma chunked_loop_Body:
  assumes "dk_state c = Body" "rd r (unat (dk_chunk_len c)) = (res, r')"
  shows "chunked_loop A P rd c r =
    Some (case res of
       Pending \<Rightarrow> (Pending, c, r')
     | Panicked \<Rightarrow> (Panicked, c, r')
     | Ready (Inl e) \<Rightarrow> (Ready (Inl e), c, r')
     | Ready (Inr bs) \<Rightarrow>
         if bs = [] then (Ready (Inl incomplete_body), c\<lparr>dk_chunk_len := 0\<rparr>, r')
         else (Ready (Inr (Data bs)), c\<lparr>dk_chunk_len := dk_chunk_len c - of_nat (length bs),
           dk_state := (if dk_chunk_len c = of_nat (length bs) then BodyCr else Body)\<rparr>, r'))"
  by (subst chunked_loop.simps)
     (simp add: step_def read_body_def assms Let_def write_back_def step_args_of_def word_gt_0
       split: poll.split sum.split)

section \<open>Correctness over any reader\<close>

lemma no_byte_cases:
  assumes "\<forall>b bs. res \<noteq> Ready (Inr (b # bs))"
  obtains "res = Pending" | "res = Panicked" | e where "res = Ready (Inl e)" | "res = Ready (Inr [])"
  using assms by (metis list.exhaust poll.exhaust sum.exhaust)

context mem_read
begin

definition loop_ok :: "'m http_api \<Rightarrow> httparse_api \<Rightarrow> chunked \<Rightarrow> 'r \<Rightarrow> bool" where
  "loop_ok A P c r \<longleftrightarrow>
     (\<exists>out. chunked_loop A P rd c r = Some out \<and>
            decode_post A P rd stream invar (run c (stream r)) out \<and>
            invar (snd (snd out)) \<and>
            (\<exists>xs. stream r = xs @ stream (snd (snd out)) \<and>
                  (xs = [] \<longrightarrow> (\<forall>d. fst out = Ready (Inr (Data d)) \<longrightarrow> d = []))))"

lemma loop_okI:
  assumes "chunked_loop A P rd c r = Some (res, c', r')" "invar r'" "stream r = xs @ stream r'"
    "xs = [] \<longrightarrow> (\<forall>d. res = Ready (Inr (Data d)) \<longrightarrow> d = [])"
    "decode_post A P rd stream invar (run c (stream r)) (res, c', r')"
  shows "loop_ok A P c r"
  using assms by (fastforce simp: loop_ok_def)

lemma loop_ok_last_byte:
  assumes "chunked_inv c" "dk_state c \<noteq> Body" "dk_state c \<noteq> End" "invar r'"
    and rd: "rd r 1 = (Ready (Inr (b # bs)), r')" and rr: "stream r = b # stream r'"
    and bs: "byte_step c b = (bres, c', d)" "\<nexists>st. bres = Ready (Inr st) \<and> st \<noteq> End"
  shows "loop_ok A P c r"
proof -
  note loop = chunked_loop_byte [of c rd r b bs r' A P, OF assms(2,3) rd]
  have good: "step_good c (bres, c', d)"
    using byte_step_ok [OF assms(1,3), of b] bs by simp
  then consider e where "bres = Ready (Inl e)" | "bres = Ready (Inr End)" "dk_trailers_buf c' = None"
    | tb e where "bres = Ready (Inr End)" "dk_trailers_buf c' = Some tb"
        "decode_trailers A P tb (dk_trailers_cnt c') = Inl e"
    | tb t where "bres = Ready (Inr End)" "dk_trailers_buf c' = Some tb"
        "decode_trailers A P tb (dk_trailers_cnt c') = Inr t"
    using bs(2) unfolding step_good_def
    by (cases bres; cases "dk_trailers_buf c'"; cases "decode_trailers A P (the (dk_trailers_buf c')) (dk_trailers_cnt c')")
       (auto split: sum.splits)
  then show ?thesis
    using good assms(4) rr bs(1) loop
    by cases (auto intro!: loop_okI [where xs = "[b]"] simp: step_good_def decode_post_def)
qed

lemma loop_ok_Body:
  assumes inv: "invar r" and c: "chunked_inv c" "dk_state c = Body"
  shows "loop_ok A P c r"
proof -
  let ?n = "unat (dk_chunk_len c)"
  have n0: "0 < ?n" using c by (simp add: chunked_inv_def unat_gt_0)
  obtain res r' where rd: "rd r ?n = (res, r')" by force
  note loop = chunked_loop_Body [of c rd r res r' A P, OF c(2) rd]
  have invar': "invar r'" using read_invar [OF inv rd] .
  show ?thesis
  proof (cases "\<exists>b bs. res = Ready (Inr (b # bs))")
    case True
    then obtain b bs where res: "res = Ready (Inr (b # bs))" by blast
    let ?bs = "b # bs"
    have rr: "length ?bs \<le> ?n" "stream r = ?bs @ stream r'"
      using rd res read_ready [OF inv, of ?n ?bs r'] by auto
    moreover have "chunked_inv (c\<lparr>dk_chunk_len := dk_chunk_len c - of_nat (length ?bs),
       dk_state := (if dk_chunk_len c = of_nat (length ?bs) then BodyCr else Body)\<rparr>)"
      using c
      by (auto simp: chunked_inv_def max_bytes_of_def max_headers_of_def step_args_of_def)
    ultimately show ?thesis
      using res invar' run_body [OF c(2), of ?bs "stream r'"]
      by (simp add: loop_ok_def loop decode_post_def)
  next
    case False
    then have "\<forall>b bs. res \<noteq> Ready (Inr (b # bs))" by blast
    then show ?thesis
    proof (cases rule: no_byte_cases)
      case 1 then show ?thesis
        using rd read_pending [OF inv, of ?n r'] c invar'
        by (simp add: loop_ok_def loop decode_post_def)
    next
      case 2 then show ?thesis using rd read_no_panic [OF inv, of ?n] by simp
    next
      case (3 e) then show ?thesis
        using rd read_err [OF inv, of ?n e r'] inv invar'
        by (auto simp: loop_ok_def loop decode_post_def)
    next
      case 4 then show ?thesis
        using rd read_eof [OF inv, of ?n r'] read_ready [OF inv, of ?n "[]" r'] n0 c invar'
        by (simp add: loop_ok_def loop decode_post_def eof_error_def)
    qed
  qed
qed

lemma loop_ok_no_byte:
  assumes inv: "invar r" and c: "chunked_inv c" "dk_state c \<noteq> Body" "dk_state c \<noteq> End"
    and rd: "rd r 1 = (res, r')" and res: "\<forall>b bs. res \<noteq> Ready (Inr (b # bs))"
  shows "loop_ok A P c r"
proof -
  note loop = chunked_loop_no_byte [of c rd r res r' A P, OF c(2,3) rd res]
  have invar': "invar r'" using read_invar [OF inv rd] .
  from res show ?thesis
  proof (cases rule: no_byte_cases)
    case 1 then show ?thesis
      using rd read_pending [OF inv, of 1 r'] c invar' by (simp add: loop_ok_def loop decode_post_def)
  next
    case 2 then show ?thesis using rd read_no_panic [OF inv, of 1] by simp
  next
    case (3 e) then show ?thesis
      using rd read_err [OF inv, of 1 e r'] inv invar'
      by (auto simp: loop_ok_def loop decode_post_def)
  next
    case 4 then show ?thesis
      using rd read_eof [OF inv, of 1 r'] read_ready [OF inv, of 1 "[]" r'] c invar'
      by (simp add: loop_ok_def loop decode_post_def eof_error_def)
  qed
qed

lemma loop_correct:
  assumes "invar r" "chunked_inv c" "dk_state c \<noteq> End"
  shows "loop_ok A P c r"
  using assms
proof (induction "length (stream r)" arbitrary: r c rule: less_induct)
  case less
  note inv = less.prems(1)
  obtain res r' where rd: "rd r 1 = (res, r')" by force
  have invar': "invar r'" using read_invar [OF inv rd] .
  consider "dk_state c = Body" | "dk_state c \<noteq> Body" "\<forall>b bs. res \<noteq> Ready (Inr (b # bs))"
    | b bs where "dk_state c \<noteq> Body" "res = Ready (Inr (b # bs))"
    by blast
  then show ?case
  proof cases
    case 1 then show ?thesis using loop_ok_Body less.prems by blast
  next
    case 2 then show ?thesis using loop_ok_no_byte rd less.prems by blast
  next
    case (3 b bs)
    have rr: "stream r = b # stream r'"
      using read_ready [OF inv, of 1 "b # bs" r'] rd 3 by simp
    note loop = chunked_loop_byte [of c rd r b bs r' A P, OF 3(1) less.prems(3) rd [unfolded 3(2)]]
    obtain bres c' d where bs: "byte_step c b = (bres, c', d)" by (cases "byte_step c b")
    have d: "d = None" using byte_step_no_data [OF 3(1), of b] bs by simp
    have good: "step_good c (bres, c', d)"
      using byte_step_ok [OF less.prems(2,3), of b] bs by simp
    show ?thesis
    proof (cases "\<exists>st. bres = Ready (Inr st) \<and> st \<noteq> End")
      case True
      then obtain st where st: "bres = Ready (Inr st)" "st \<noteq> End" by blast
      then have "loop_ok A P c' r'"
        using less.hyps [of r' c'] rr invar' good by (simp add: step_good_def)
      moreover have "run c (stream r) = run c' (stream r')" using rr bs d st by simp
      moreover have "chunked_loop A P rd c r = chunked_loop A P rd c' r'" using loop bs st by simp
      ultimately show ?thesis using rr by (fastforce simp: loop_ok_def)
    next
      case False
      then show ?thesis
        using loop_ok_last_byte less.prems 3 invar' rd rr bs by blast
    qed
  qed
qed

end

context live_mem_read
begin

lemma loop_patience:
  assumes "invar r" "chunked_inv c" "dk_state c \<noteq> End"
    "chunked_loop A P rd c r = Some (res, c', r')"
  shows "patience r' \<le> patience r \<and> (res = Pending \<longrightarrow> patience r' < patience r)"
  using assms
proof (induction "length (stream r)" arbitrary: r c rule: less_induct)
  case less
  note inv = less.prems(1)
  have no_err: "rd r n \<noteq> (Ready (Inl e), q)" and no_panic: "rd r n \<noteq> (Panicked, q)" for n e q
    using no_read_error [OF inv, of n e] read_no_panic [OF inv, of n] by auto
  show ?case
  proof (cases "dk_state c = Body")
    case True
    obtain q s where rd: "rd r (unat (dk_chunk_len c)) = (q, s)" by force
    show ?thesis
      using chunked_loop_Body [of c rd r q s A P, OF True rd] less.prems(4) rd no_err no_panic
        pending_patience [OF inv] ready_patience [OF inv]
      by (auto split: poll.splits sum.splits if_splits intro: less_imp_le)
  next
    case False
    obtain q s where rd: "rd r 1 = (q, s)" by force
    show ?thesis
    proof (cases "\<exists>b bs. q = Ready (Inr (b # bs))")
      case True
      then obtain b bs where q: "q = Ready (Inr (b # bs))" by blast
      note loop = chunked_loop_byte [of c rd r b bs s A P, OF False less.prems(3) rd [unfolded q]]
      obtain bres c1 d where bs: "byte_step c b = (bres, c1, d)" by (cases "byte_step c b")
      have good: "step_good c (bres, c1, d)"
        using byte_step_ok [OF less.prems(2,3), of b] bs by simp
      have pat: "patience s \<le> patience r" using ready_patience [OF inv] rd q by blast
      have "patience r' \<le> patience s \<and> (res = Pending \<longrightarrow> patience r' < patience s)"
        if "bres = Ready (Inr st)" "st \<noteq> End" for st
        using less.hyps [of s c1] read_ready [OF inv, of 1 "b # bs" s] read_invar [OF inv rd]
          good loop bs that rd q less.prems(4) by (simp add: step_good_def)
      then show ?thesis
        using good loop bs less.prems(4) pat
        by (auto simp: step_good_def split: poll.splits sum.splits if_splits option.splits)
    next
      case no_byte: False
      then show ?thesis
        using chunked_loop_no_byte [of c rd r q s A P, OF False less.prems(3) rd] less.prems(4) rd
          no_err no_panic pending_patience [OF inv] ready_patience [OF inv]
        by (auto split: poll.splits sum.splits intro: less_imp_le)
    qed
  qed
qed

lemma drain_chunked:
  assumes "invar r" "chunked_inv c" "dk_state c \<noteq> End" "length (stream r) + patience r < fuel"
  shows "map_option (drained stream) (drain A P rd fuel (Chunked c) r) = body_of A P c (stream r)"
  using assms
proof (induction fuel arbitrary: r c)
  case (Suc fuel)
  obtain res c' r' where loop: "chunked_loop A P rd c r = Some (res, c', r')"
      and post: "decode_post A P rd stream invar (run c (stream r)) (res, c', r')"
      and invar': "invar r'" and pre: "\<exists>xs. stream r = xs @ stream r' \<and> (xs = [] \<longrightarrow> (\<forall>d. res = Ready (Inr (Data d)) \<longrightarrow> d = []))"
    using loop_correct [OF Suc.prems(1-3), of A P] by (fastforce simp: loop_ok_def)
  note pat = loop_patience [OF Suc.prems(1-3) loop]
  have len: "length (stream r') \<le> length (stream r)" using pre by auto
  have dec: "decode A P rd (Chunked c) r = Some (res, Chunked c', r')"
    by (simp add: decode_def loop)
  have no_err: "\<not> (\<exists>s n. invar s \<and> rd s n = (Ready (Inl e), r'))" for e
    using no_read_error by (metis fst_conv)
  consider "res = Pending" | d where "res = Ready (Inr (Data d))" "d \<noteq> []" | "res = Ready (Inr (Data []))"
    | t where "res = Ready (Inr (Trailers t))" | e where "res = Ready (Inl e)"
    using post by (auto simp: decode_post_def split: poll.splits sum.splits frame.splits)
  then show ?case
  proof cases
    case 1
    then show ?thesis
      using Suc.IH [of r' c'] invar' post dec len pat Suc.prems(4)
      by (simp add: decode_post_def body_of_def)
  next
    case (2 d)
    then have "run c (stream r) = prep d (run c' (stream r'))" "chunked_inv c'" "dk_state c' \<noteq> End"
      using post by (simp_all add: decode_post_def)
    moreover have "length (stream r') < length (stream r)" using pre 2 by auto
    ultimately show ?thesis
      using Suc.IH [of r' c'] invar' dec len pat Suc.prems(4) 2
      by (cases "drain A P rd fuel (Chunked c') r'"; cases "run c' (stream r')")
         (auto simp: body_of_def drained_def prep_def split: run_outcome.splits option.splits)
  next
    case 3
    then show ?thesis using post dec
      by (auto simp: decode_post_def body_of_def drained_def)
  next
    case (4 t)
    then show ?thesis using post dec
      by (auto simp: decode_post_def body_of_def drained_def)
  next
    case (5 e)
    then show ?thesis using post dec no_err
      by (auto simp: decode_post_def body_of_def drained_def)
  qed
qed simp
end

end
