(* ===== verification/Http1_Chunked.thy ===== *)
theory Http1_Chunked
  imports Http1_Decode
begin

text \<open>
  What the decoder of \<^verbatim>\<open>src/src/proto/http1/decode.rs\<close> accepts and returns: the messages of the
  chunked coding, the runs of the reference machine over them, and the bodies the three kinds
  of decoder read from any reader that delivers its stream.
\<close>

section \<open>The chunked coding\<close>

text \<open>
  The messages of the chunked transfer coding: a line is a hexadecimal size, white space and an
  optional extension; a message is a list of chunks, the last chunk and the trailer lines.
\<close>

record size_line =
  ln_digits :: "byte list"
  ln_lws :: "byte list"
  ln_ext :: "byte list option"

record chunked_message =
  cm_chunks :: "(size_line \<times> byte list) list"
  cm_last :: size_line
  cm_trailers :: "byte list list"

definition hex_nat :: "byte \<Rightarrow> nat" where
  "hex_nat b = (case hex_nibble b of Some d \<Rightarrow> unat d | None \<Rightarrow> 0)"

fun hex_val :: "nat \<Rightarrow> byte list \<Rightarrow> nat" where
  "hex_val v [] = v"
| "hex_val v (b # bs) = hex_val (16 * v + hex_nat b) bs"

definition ext_bytes :: "size_line \<Rightarrow> byte list" where
  "ext_bytes l = (case ln_ext l of None \<Rightarrow> [] | Some e \<Rightarrow> e)"

definition render_line :: "size_line \<Rightarrow> byte list" where
  "render_line l =
     ln_digits l @ ln_lws l @ (case ln_ext l of None \<Rightarrow> [] | Some e \<Rightarrow> 59 # e) @ [13, 10]"

definition render_chunk :: "size_line \<times> byte list \<Rightarrow> byte list" where
  "render_chunk c = render_line (fst c) @ snd c @ [13, 10]"

definition render_trailers :: "byte list list \<Rightarrow> byte list" where
  "render_trailers ts = concat (map (\<lambda>t. t @ [13, 10]) ts) @ [13, 10]"

definition render :: "chunked_message \<Rightarrow> byte list" where
  "render m = concat (map render_chunk (cm_chunks m)) @ render_line (cm_last m) @
     render_trailers (cm_trailers m)"

definition line_ok :: "size_line \<Rightarrow> nat \<Rightarrow> bool" where
  "line_ok l n \<longleftrightarrow> ln_digits l \<noteq> [] \<and> list_all (\<lambda>b. hex_nibble b \<noteq> None) (ln_digits l) \<and>
     hex_val 0 (ln_digits l) = n \<and> n < 2 ^ 64 \<and> list_all (\<lambda>b. b = 9 \<or> b = 32) (ln_lws l) \<and>
     list_all (\<lambda>b. b \<noteq> 10 \<and> b \<noteq> 13) (ext_bytes l)"

definition trailer_line_ok :: "byte list \<Rightarrow> bool" where
  "trailer_line_ok t \<longleftrightarrow> t \<noteq> [] \<and> list_all (\<lambda>b. b \<noteq> 13) t"

definition ext_total :: "chunked_message \<Rightarrow> nat" where
  "ext_total m = sum_list (map (\<lambda>c. length (ext_bytes (fst c))) (cm_chunks m)) +
     length (ext_bytes (cm_last m))"

text \<open>Well formed, and within the limits of a decoder.\<close>

definition message_ok :: "nat \<Rightarrow> nat \<Rightarrow> chunked_message \<Rightarrow> bool" where
  "message_ok max_headers max_bytes m \<longleftrightarrow>
     list_all (\<lambda>(l, d). line_ok l (length d) \<and> d \<noteq> []) (cm_chunks m) \<and> line_ok (cm_last m) 0 \<and>
     ext_total m < 16384 \<and>
     list_all trailer_line_ok (cm_trailers m) \<and> length (cm_trailers m) \<le> max_headers \<and>
     (cm_trailers m \<noteq> [] \<longrightarrow> length (render_trailers (cm_trailers m)) < max_bytes)"

definition message_data :: "chunked_message \<Rightarrow> byte list" where
  "message_data m = concat (map snd (cm_chunks m))"

definition trailer_section :: "byte list list \<Rightarrow> byte list option" where
  "trailer_section ts = (if ts = [] then None else Some (render_trailers ts))"

definition buffered :: "byte list option \<Rightarrow> byte list" where
  "buffered tb = (case tb of None \<Rightarrow> [] | Some b \<Rightarrow> b)"

text \<open>The state a chunked decoder starts in.\<close>

definition chunked_init :: "nat option \<Rightarrow> nat option \<Rightarrow> chunked" where
  "chunked_init mh mb = \<lparr>dk_state = Start, dk_chunk_len = 0, dk_extensions_cnt = 0,
     dk_trailers_buf = None, dk_trailers_cnt = 0, dk_max_headers = mh, dk_max_header_size = mb\<rparr>"

definition headers_limit :: "nat option \<Rightarrow> nat" where
  "headers_limit mh = (case mh of Some n \<Rightarrow> n | None \<Rightarrow> DEFAULT_MAX_HEADERS)"

definition bytes_limit :: "nat option \<Rightarrow> nat" where
  "bytes_limit mb = (case mb of Some n \<Rightarrow> n | None \<Rightarrow> TRAILER_LIMIT)"

text \<open>What a body of \<open>n\<close> bytes is of a stream.\<close>

definition length_outcome ::
    "nat \<Rightarrow> byte list \<Rightarrow> byte list \<times> ('m option \<times> byte list) io_result" where
  "length_outcome n s =
     (take n s, if n \<le> length s then Inr (None, drop n s) else Inl incomplete_body)"

definition finishes :: "chunked \<Rightarrow> byte list \<Rightarrow> bool" where
  "finishes c bs = (case snd (run c bs) of Finished _ _ _ \<Rightarrow> True | _ \<Rightarrow> False)"

text \<open>The trailers of a message, as the parser and the header map give them.\<close>

definition parsed_trailers ::
    "'m http_api \<Rightarrow> httparse_api \<Rightarrow> byte list list \<Rightarrow> 'm option io_result" where
  "parsed_trailers A P ts =
     (if ts = [] then Inr None
      else map_sum id Some (decode_trailers A P (render_trailers ts) (length ts)))"

definition decoder_inv :: "decoder \<Rightarrow> bool" where
  "decoder_inv d = (case d of Chunked c \<Rightarrow> dk_state c = End \<or> chunked_inv c | _ \<Rightarrow> True)"

text \<open>A parser and a message for the examples.\<close>

definition sample_httparse :: httparse_api where
  "sample_httparse = \<lparr>hp_parse_headers = \<lambda>buf n. HpPartial, hp_message = \<lambda>e. ''partial''\<rparr>"

definition sample_message :: chunked_message where
  "sample_message =
     \<lparr>cm_chunks = [(\<lparr>ln_digits = [48, 51], ln_lws = [32], ln_ext = Some [97]\<rparr>, [1, 2, 3])],
      cm_last = \<lparr>ln_digits = [48], ln_lws = [], ln_ext = None\<rparr>, cm_trailers = []\<rparr>"

section \<open>Runs of the machine over a message\<close>

lemma hex_nibble_le: "hex_nibble b = Some d \<Longrightarrow> unat d < 16"
proof -
  assume a: "hex_nibble b = Some d"
  consider "48 \<le> b" "b \<le> 57" "d = ucast (b - 48)" | "97 \<le> b" "b \<le> 102" "d = ucast (b + 10 - 97)"
    | "65 \<le> b" "b \<le> 70" "d = ucast (b + 10 - 65)"
    using a by (auto simp: hex_nibble_def split: if_splits)
  then show ?thesis
  proof cases
    case 1 then show ?thesis by (simp add: unat_minus_le word_le_nat_alt)
  next
    case 2
    then have "unat (b + 10 - 97) = unat b - 87" by (simp add: unat_minus_le word_le_nat_alt)
    then show ?thesis using 2 by (simp add: word_le_nat_alt)
  next
    case 3
    then have "unat (b + 10 - 65) = unat b - 55" by (simp add: unat_minus_le word_le_nat_alt)
    then show ?thesis using 3 by (simp add: word_le_nat_alt)
  qed
qed


lemma checked_word:
  fixes x y :: u64
  shows "checked_mul x y = (if unat x * unat y < 2 ^ 64 then Some (of_nat (unat x * unat y)) else None)"
    "checked_add x y = (if unat x + unat y < 2 ^ 64 then Some (of_nat (unat x + unat y)) else None)"
  by (simp_all add: checked_mul_def checked_add_def)

lemma accumulate_ok:
  assumes "16 * unat n + unat d < 2 ^ 64"
  shows "accumulate_digit n d r = (Ready (Inr Size), of_nat (16 * unat n + unat d), r)"
  using assms by (simp add: accumulate_digit_def or_overflow_def checked_word unat_word_ariths mult.commute)

lemma accumulate_overflow:
  assumes "\<not> 16 * unat n + unat d < 2 ^ 64"
  shows "fst (accumulate_digit n d r) = Ready (Inl size_overflow)"
  using assms by (simp add: accumulate_digit_def or_overflow_def checked_word unat_word_ariths mult.commute)

lemma write_back_update [simp]:
  "write_back c ((step_args_of c)\<lparr>sa_chunk_size := n\<rparr>) = c\<lparr>dk_chunk_len := n\<rparr>"
  "write_back c ((step_args_of c)\<lparr>sa_extensions_cnt := n\<rparr>) = c\<lparr>dk_extensions_cnt := n\<rparr>"
  "write_back c ((step_args_of c)\<lparr>sa_trailers_buf := tb\<rparr>) = c\<lparr>dk_trailers_buf := tb\<rparr>"
  "write_back c ((step_args_of c)\<lparr>sa_trailers_buf := tb, sa_trailers_cnt := k\<rparr>) =
     c\<lparr>dk_trailers_buf := tb, dk_trailers_cnt := k\<rparr>"
  by (simp_all add: write_back_def step_args_of_def)

lemma limits_fields [simp]:
  "max_bytes_of (c\<lparr>dk_trailers_buf := tb\<rparr>) = max_bytes_of c"
  "max_headers_of (c\<lparr>dk_trailers_buf := tb\<rparr>) = max_headers_of c"
  "max_bytes_of (c\<lparr>dk_trailers_cnt := k\<rparr>) = max_bytes_of c"
  "max_headers_of (c\<lparr>dk_trailers_cnt := k\<rparr>) = max_headers_of c"
  "max_bytes_of (c\<lparr>dk_chunk_len := n\<rparr>) = max_bytes_of c"
  "max_headers_of (c\<lparr>dk_chunk_len := n\<rparr>) = max_headers_of c"
  "max_bytes_of (c\<lparr>dk_extensions_cnt := n\<rparr>) = max_bytes_of c"
  "max_headers_of (c\<lparr>dk_extensions_cnt := n\<rparr>) = max_headers_of c"
  by (simp_all add: max_headers_of_def max_bytes_of_def step_args_of_def)

lemma state_update_id: "dk_state c = st \<Longrightarrow> c\<lparr>dk_state := st\<rparr> = c"
  by (cases c) simp

lemma run_digit:
  assumes "dk_state c \<in> {Start, Size}" "hex_nibble b = Some d"
  shows "run c (b # bs) =
    (let n = 16 * unat (dk_chunk_len c) + unat d in
     if n < 2 ^ 64 then run (c\<lparr>dk_chunk_len := of_nat n, dk_state := Size\<rparr>) bs
     else ([], Failed size_overflow))"
proof -
  let ?acc = "accumulate_digit (dk_chunk_len c) d ([] :: byte list)"
  have step: "step slice_read (dk_state c) [b] (step_args_of c) =
     (fst ?acc, (step_args_of c)\<lparr>sa_chunk_size := fst (snd ?acc)\<rparr>, snd (snd ?acc))"
    using assms by (cases "dk_state c"; simp add: step_def read_defs slice_byte_then case_prod_beta)
  show ?thesis
  proof (cases "16 * unat (dk_chunk_len c) + unat d < 2 ^ 64")
    case True
    then show ?thesis
      using accumulate_ok [OF True, of "[] :: byte list"]
      by (simp add: byte_step_def step)
  next
    case False
    then show ?thesis
      using accumulate_overflow [OF False, of "[] :: byte list"] by (simp add: byte_step_def step)
  qed
qed

lemma hex_val_ge: "v * 16 ^ length ds \<le> hex_val v ds"
proof (induction ds arbitrary: v)
  case (Cons b ds)
  have "v * 16 ^ length (b # ds) \<le> (16 * v + hex_nat b) * 16 ^ length ds" by simp
  also have "\<dots> \<le> hex_val v (b # ds)" using Cons.IH [of "16 * v + hex_nat b"] by simp
  finally show ?case .
qed simp

lemma hex_val_mono: "v \<le> hex_val v ds"
  using hex_val_ge [of v ds] by (metis le_trans mult.right_neutral mult_le_mono2 one_le_numeral one_le_power)

lemma run_digits:
  assumes "dk_state c \<in> {Start, Size}" "ds \<noteq> [] \<or> dk_state c = Size" "list_all (\<lambda>b. hex_nibble b \<noteq> None) ds"
  shows "run c (ds @ rest) =
    (let n = hex_val (unat (dk_chunk_len c)) ds in
     if n < 2 ^ 64 then run (c\<lparr>dk_chunk_len := of_nat n, dk_state := Size\<rparr>) rest
     else ([], Failed size_overflow))"
  using assms
proof (induction ds arbitrary: c)
  case Nil
  then show ?case by (simp add: state_update_id)
next
  case (Cons b ds)
  then obtain d where d: "hex_nibble b = Some d" by auto
  let ?n = "16 * unat (dk_chunk_len c) + unat d"
  show ?case
  proof (cases "?n < 2 ^ 64")
    case True
    then have "unat (16 * dk_chunk_len c + d) = ?n" by (simp add: unat_word_ariths)
    then show ?thesis
      using True Cons.IH [of "c\<lparr>dk_chunk_len := of_nat ?n, dk_state := Size\<rparr>"] Cons.prems d
      by (simp add: run_digit Let_def hex_nat_def del: run.simps)
  next
    case False
    moreover have "hex_val (unat (dk_chunk_len c)) (b # ds) \<ge> ?n"
      using hex_val_mono [of ?n ds] d by (simp add: hex_nat_def)
    ultimately show ?thesis
      using Cons.prems d by (simp add: run_digit Let_def del: run.simps)
  qed
qed

text \<open>The single bytes of a line and of the frame around a chunk.\<close>

lemma run_Size:
  assumes "dk_state c = Size"
  shows "b = 9 \<or> b = 32 \<Longrightarrow> run c (b # bs) = run (c\<lparr>dk_state := SizeLws\<rparr>) bs"
    "run c (59 # bs) = run (c\<lparr>dk_state := Extension\<rparr>) bs"
    "run c (13 # bs) = run (c\<lparr>dk_state := SizeLf\<rparr>) bs"
  using assms
  by (auto simp: byte_step_def step_def read_defs slice_byte_then hex_nibble_def state_update_id)

lemma run_SizeLws:
  assumes "dk_state c = SizeLws"
  shows "b = 9 \<or> b = 32 \<Longrightarrow> run c (b # bs) = run c bs"
    "run c (59 # bs) = run (c\<lparr>dk_state := Extension\<rparr>) bs"
    "run c (13 # bs) = run (c\<lparr>dk_state := SizeLf\<rparr>) bs"
  using assms
  by (simp_all add: byte_step_def step_def read_defs slice_byte_then state_update_id)

lemma run_SizeLf:
  assumes "dk_state c = SizeLf"
  shows "run c (10 # bs) = run (c\<lparr>dk_state := (if dk_chunk_len c = 0 then EndCr else Body)\<rparr>) bs"
  using assms by (simp add: byte_step_def step_def read_defs slice_byte_then)

lemma run_BodyCr:
  assumes "dk_state c = BodyCr"
  shows "run c (13 # 10 # bs) = run (c\<lparr>dk_state := Start\<rparr>) bs"
  using assms by (simp add: byte_step_def step_def read_defs slice_byte_then)

lemma run_lws:
  assumes "dk_state c = Size \<or> dk_state c = SizeLws" "list_all (\<lambda>b. b = 9 \<or> b = 32) lws"
  shows "run c (lws @ 13 # bs) = run (c\<lparr>dk_state := SizeLf\<rparr>) bs"
    "run c (lws @ 59 # bs) = run (c\<lparr>dk_state := Extension\<rparr>) bs"
  using assms
proof (induction lws arbitrary: c)
  case Nil
  { case 1 then show ?case by (auto simp: run_Size run_SizeLws simp del: run.simps) }
  { case 2 then show ?case by (auto simp: run_Size run_SizeLws simp del: run.simps) }
next
  case (Cons b lws)
  { case 1 then show ?case
      using Cons.IH(1) [of "c\<lparr>dk_state := SizeLws\<rparr>"] Cons.IH(1) [of c]
      by (auto simp: run_Size run_SizeLws simp del: run.simps) }
  { case 2 then show ?case
      using Cons.IH(2) [of "c\<lparr>dk_state := SizeLws\<rparr>"] Cons.IH(2) [of c]
      by (auto simp: run_Size run_SizeLws simp del: run.simps) }
qed

lemma run_ext:
  assumes "dk_state c = Extension" "list_all (\<lambda>b. b \<noteq> 10 \<and> b \<noteq> 13) e"
    "unat (dk_extensions_cnt c) + length e < 16384"
  shows "run c (e @ 13 # bs) =
    run (c\<lparr>dk_extensions_cnt := dk_extensions_cnt c + of_nat (length e), dk_state := SizeLf\<rparr>) bs"
  using assms
proof (induction e arbitrary: c)
  case Nil
  then show ?case
    by (simp add: byte_step_def step_def read_defs slice_byte_then)
next
  case (Cons b e)
  let ?c = "c\<lparr>dk_extensions_cnt := dk_extensions_cnt c + 1\<rparr>"
  have lt: "dk_extensions_cnt c < CHUNKED_EXTENSIONS_LIMIT"
    using Cons.prems by (simp add: CHUNKED_EXTENSIONS_LIMIT_def word_less_nat_alt)
  note u = ext_cnt_no_wrap [OF lt]
  have "\<not> CHUNKED_EXTENSIONS_LIMIT \<le> dk_extensions_cnt c + 1"
    using Cons.prems by (simp add: CHUNKED_EXTENSIONS_LIMIT_def word_le_nat_alt u)
  then have "run c (b # e @ 13 # bs) = run ?c (e @ 13 # bs)"
    using Cons.prems
    by (simp add: byte_step_def step_def read_defs slice_byte_then Let_def state_update_id)
  then show ?case
    using Cons.IH [of ?c] Cons.prems by (simp add: u add.assoc del: run.simps)
qed

lemma run_line:
  assumes "dk_state c = Start" "dk_chunk_len c = 0" "line_ok l n"
    "unat (dk_extensions_cnt c) + length (ext_bytes l) < 16384"
  shows "run c (render_line l @ bs) =
    run (c\<lparr>dk_chunk_len := of_nat n,
      dk_extensions_cnt := dk_extensions_cnt c + of_nat (length (ext_bytes l)),
      dk_state := (if n = 0 then EndCr else Body)\<rparr>) bs"
proof -
  let ?c = "c\<lparr>dk_chunk_len := of_nat n, dk_state := Size\<rparr>"
  have l: "ln_digits l \<noteq> []" "list_all (\<lambda>b. hex_nibble b \<noteq> None) (ln_digits l)"
    "hex_val 0 (ln_digits l) = n" "n < 2 ^ 64" "list_all (\<lambda>b. b = 9 \<or> b = 32) (ln_lws l)"
    "list_all (\<lambda>b. b \<noteq> 10 \<and> b \<noteq> 13) (ext_bytes l)"
    using assms(3) by (auto simp: line_ok_def)
  have n: "(of_nat n :: u64) = 0 \<longleftrightarrow> n = 0"
    using unat_of_nat_u64 [OF l(4)] by (auto simp: unat_eq_0 [symmetric])
  have digits: "run c (ln_digits l @ xs) = run ?c xs" for xs
    using assms l(1-4) by (simp add: run_digits del: run.simps)
  show ?thesis
  proof (cases "ln_ext l")
    case None
    then show ?thesis
      using l(5) n run_lws(1) [of ?c "ln_lws l"]
      by (simp add: render_line_def digits run_SizeLf ext_bytes_def del: run.simps)
  next
    case (Some e)
    then show ?thesis
      using l(5,6) assms(4) n run_lws(2) [of ?c "ln_lws l"] run_ext [of "?c\<lparr>dk_state := Extension\<rparr>" e]
      by (simp add: render_line_def digits run_SizeLf ext_bytes_def del: run.simps)
  qed
qed

lemma run_chunk:
  assumes "dk_state c = Start" "dk_chunk_len c = 0" "line_ok l (length d)" "d \<noteq> []"
    "unat (dk_extensions_cnt c) + length (ext_bytes l) < 16384"
  shows "run c (render_chunk (l, d) @ bs) =
    prep d (run (c\<lparr>dk_extensions_cnt := dk_extensions_cnt c + of_nat (length (ext_bytes l))\<rparr>) bs)"
proof -
  have n: "length d < 2 ^ 64" using assms(3) by (simp add: line_ok_def)
  let ?c = "c\<lparr>dk_chunk_len := of_nat (length d),
      dk_extensions_cnt := dk_extensions_cnt c + of_nat (length (ext_bytes l)), dk_state := Body\<rparr>"
  have "run c (render_chunk (l, d) @ bs) = run ?c (d @ 13 # 10 # bs)"
    using run_line [OF assms(1-3,5)] assms(4) by (simp add: render_chunk_def del: run.simps)
  also have "\<dots> = prep d (run (?c\<lparr>dk_chunk_len := 0, dk_state := BodyCr\<rparr>) (13 # 10 # bs))"
    using run_body [of ?c d "13 # 10 # bs"] assms(4) n by (simp add: unat_of_nat_u64 del: run.simps)
  also have "run (?c\<lparr>dk_chunk_len := 0, dk_state := BodyCr\<rparr>) (13 # 10 # bs) =
      run (c\<lparr>dk_extensions_cnt := dk_extensions_cnt c + of_nat (length (ext_bytes l))\<rparr>) bs"
    using assms(1,2) by (cases c) (simp add: run_BodyCr del: run.simps)
  finally show ?thesis .
qed

lemma run_chunks:
  assumes "dk_state c = Start" "dk_chunk_len c = 0"
    "list_all (\<lambda>(l, d). line_ok l (length d) \<and> d \<noteq> []) cs"
    "unat (dk_extensions_cnt c) + sum_list (map (\<lambda>c. length (ext_bytes (fst c))) cs) < 16384"
  shows "run c (concat (map render_chunk cs) @ bs) = prep (concat (map snd cs))
    (run (c\<lparr>dk_extensions_cnt := dk_extensions_cnt c +
       of_nat (sum_list (map (\<lambda>c. length (ext_bytes (fst c))) cs))\<rparr>) bs)"
  using assms
proof (induction cs arbitrary: c)
  case (Cons x cs)
  obtain l d where x: "x = (l, d)" by force
  let ?c = "c\<lparr>dk_extensions_cnt := dk_extensions_cnt c + of_nat (length (ext_bytes l))\<rparr>"
  have u: "unat (dk_extensions_cnt ?c) = unat (dk_extensions_cnt c) + length (ext_bytes l)"
    using Cons.prems(4) x by (simp add: unat_word_ariths unat_of_nat)
  show ?case
    using Cons.IH [of ?c] Cons.prems x u
      run_chunk [of c l d "concat (map render_chunk cs) @ bs"]
    by (simp add: add.assoc del: run.simps)
qed simp

lemma run_trailer_bytes:
  assumes "dk_state c = Trailer" "dk_trailers_buf c = Some tb" "list_all (\<lambda>b. b \<noteq> 13) t"
    "length tb + length t + 1 < max_bytes_of c"
  shows "run c (t @ 13 # bs) =
    run (c\<lparr>dk_trailers_buf := Some (tb @ t @ [13]), dk_state := TrailerLf\<rparr>) bs"
  using assms
proof (induction t arbitrary: c tb)
  case Nil
  then show ?case by (simp add: byte_step_def step_def read_defs slice_byte_then put_u8_def)
next
  case (Cons b t)
  let ?c = "c\<lparr>dk_trailers_buf := Some (tb @ [b])\<rparr>"
  have "run c (b # t @ 13 # bs) = run ?c (t @ 13 # bs)"
    using Cons.prems
    by (simp add: byte_step_def step_def read_defs slice_byte_then put_u8_def state_update_id)
  then show ?case
    using Cons.IH [of ?c "tb @ [b]"] Cons.prems by (simp del: run.simps)
qed

lemma run_trailer_line:
  assumes "dk_state c = EndCr" "trailer_line_ok t" "dk_trailers_cnt c < max_headers_of c"
    "length (buffered (dk_trailers_buf c)) + length t + 2 < max_bytes_of c"
  shows "run c (t @ 13 # 10 # bs) =
    run (c\<lparr>dk_trailers_buf := Some (buffered (dk_trailers_buf c) @ t @ [13, 10]),
      dk_trailers_cnt := Suc (dk_trailers_cnt c)\<rparr>) bs"
proof -
  obtain b t' where t: "t = b # t'" "b \<noteq> 13" "list_all (\<lambda>b. b \<noteq> 13) t'"
    using assms(2) by (cases t) (auto simp: trailer_line_ok_def)
  let ?tb = "buffered (dk_trailers_buf c)"
  let ?c = "c\<lparr>dk_trailers_buf := Some (?tb @ [b]), dk_state := Trailer\<rparr>"
  let ?d = "c\<lparr>dk_trailers_buf := Some (?tb @ t @ [13]), dk_state := TrailerLf\<rparr>"
  have id: "c\<lparr>dk_trailers_buf := x, dk_trailers_cnt := k, dk_state := EndCr\<rparr> =
      c\<lparr>dk_trailers_buf := x, dk_trailers_cnt := k\<rparr>" for x k
    using assms(1) by (cases c) simp
  have "run c (t @ 13 # 10 # bs) = run ?c (t' @ 13 # 10 # bs)"
    using assms(1,4) t
    by (cases "dk_trailers_buf c")
       (simp_all add: byte_step_def step_def read_defs slice_byte_then put_u8_def buffered_def)
  also have "\<dots> = run ?d (10 # bs)"
    using run_trailer_bytes [of ?c "?tb @ [b]" t' "10 # bs"] t assms(4) by (simp del: run.simps)
  also have "\<dots> = run (c\<lparr>dk_trailers_buf := Some (?tb @ t @ [13, 10]),
      dk_trailers_cnt := Suc (dk_trailers_cnt c)\<rparr>) bs"
    using assms
    by (simp add: byte_step_def step_def read_defs slice_byte_then put_u8_def id)
  finally show ?thesis .
qed

lemma run_trailers:
  assumes "dk_state c = EndCr" "list_all trailer_line_ok ts"
    "dk_trailers_cnt c + length ts \<le> max_headers_of c"
    "ts \<noteq> [] \<or> dk_trailers_buf c \<noteq> None \<longrightarrow>
       length (buffered (dk_trailers_buf c)) + length (render_trailers ts) < max_bytes_of c"
  shows "run c (render_trailers ts @ bs) =
    ([], Finished (if ts = [] \<and> dk_trailers_buf c = None then None
                   else Some (buffered (dk_trailers_buf c) @ render_trailers ts))
           (dk_trailers_cnt c + length ts) bs)"
  using assms
proof (induction ts arbitrary: c)
  case Nil
  then show ?case
    by (cases "dk_trailers_buf c")
       (simp_all add: byte_step_def step_def read_defs slice_byte_then put_u8_def buffered_def
          render_trailers_def)
next
  case (Cons t ts)
  let ?c = "c\<lparr>dk_trailers_buf := Some (buffered (dk_trailers_buf c) @ t @ [13, 10]),
      dk_trailers_cnt := Suc (dk_trailers_cnt c)\<rparr>"
  have "run c (render_trailers (t # ts) @ bs) = run ?c (render_trailers ts @ bs)"
    using run_trailer_line [of c t "render_trailers ts @ bs"] Cons.prems
    by (simp add: render_trailers_def del: run.simps)
  then show ?case
    using Cons.IH [of ?c] Cons.prems
    by (simp add: render_trailers_def buffered_def del: run.simps)
qed

lemma run_message:
  assumes "dk_state c = Start" "dk_chunk_len c = 0" "dk_extensions_cnt c = 0"
    "dk_trailers_buf c = None" "dk_trailers_cnt c = 0"
    and m: "message_ok (max_headers_of c) (max_bytes_of c) m"
  shows "run c (render m @ rest) =
    (message_data m,
     Finished (trailer_section (cm_trailers m)) (length (cm_trailers m)) rest)"
proof -
  let ?cs = "cm_chunks m" and ?l = "cm_last m" and ?ts = "cm_trailers m"
  let ?n = "sum_list (map (\<lambda>c. length (ext_bytes (fst c))) ?cs)"
  let ?c = "c\<lparr>dk_extensions_cnt := of_nat ?n\<rparr>"
  let ?d = "?c\<lparr>dk_chunk_len := 0, dk_extensions_cnt := of_nat ?n + of_nat (length (ext_bytes ?l)),
    dk_state := EndCr\<rparr>"
  have lt: "?n + length (ext_bytes ?l) < 16384" using m by (simp add: message_ok_def ext_total_def)
  have "run c (render m @ rest) =
      prep (message_data m) (run ?c (render_line ?l @ render_trailers ?ts @ rest))"
    using run_chunks [of c ?cs "render_line ?l @ render_trailers ?ts @ rest"] assms lt
    by (simp add: render_def message_data_def message_ok_def del: run.simps)
  also have "run ?c (render_line ?l @ render_trailers ?ts @ rest) = run ?d (render_trailers ?ts @ rest)"
    using run_line [of ?c ?l 0 "render_trailers ?ts @ rest"] assms lt
    by (simp add: message_ok_def unat_of_nat del: run.simps)
  also have "\<dots> = ([], Finished (trailer_section ?ts) (length ?ts) rest)"
    using run_trailers [of ?d ?ts rest] assms
    by (simp add: message_ok_def trailer_section_def buffered_def del: run.simps)
  finally show ?thesis by (simp add: prep_def)
qed

lemma chunked_init_sel [simp]:
  "dk_state (chunked_init mh mb) = Start" "dk_chunk_len (chunked_init mh mb) = 0"
  "dk_extensions_cnt (chunked_init mh mb) = 0" "dk_trailers_buf (chunked_init mh mb) = None"
  "dk_trailers_cnt (chunked_init mh mb) = 0"
  "max_headers_of (chunked_init mh mb) = headers_limit mh"
  "max_bytes_of (chunked_init mh mb) = bytes_limit mb"
  by (simp_all add: chunked_init_def max_headers_of_def max_bytes_of_def step_args_of_def
      headers_limit_def bytes_limit_def)

lemma decoder_new_chunked: "decoder_new CHUNKED mh mb = Chunked (chunked_init mh mb)"
  by (simp add: decoder_new_def chunked_decoder_def chunked_init_def)

lemma chunked_inv_init: "chunked_inv (chunked_init mh mb)"
  by (simp add: chunked_inv_def trailers_inv_def CHUNKED_EXTENSIONS_LIMIT_def)

lemma length_outcome_append:
  "length bs \<le> n \<Longrightarrow>
   length_outcome n (bs @ s) = map_prod ((@) bs) id (length_outcome (n - length bs) s)"
  by (auto simp: length_outcome_def)

lemma decode_length_data:
  assumes "rd r (unat n) = (Ready (Inr bs), r')" "bs \<noteq> []" "length bs \<le> unat n"
  obtains k where "decode A P rd (Length n) r = Some (Ready (Inr (Data bs)), Length k, r')"
    "unat k = unat n - length bs"
proof -
  let ?k = "of_nat (length bs) :: u64"
  have k: "unat ?k = length bs"
    using assms(3) unat_less_pow [of n] by (intro unat_of_nat_u64) (simp del: unat_u64_less)
  then have le: "\<not> ?k > n" "?k \<noteq> 0" using assms(2,3) by (auto simp: word_less_nat_alt)
  then have "unat (n - ?k) = unat n - length bs" using k by (simp add: unat_minus_le not_less)
  moreover have "n \<noteq> 0" using assms(2,3) by auto
  then have "decode A P rd (Length n) r = Some (Ready (Inr (Data bs)), Length (n - ?k), r')"
    using assms(1) le by (simp add: decode_def Let_def)
  ultimately show ?thesis by (rule that [rotated])
qed

context live_mem_read
begin

lemma drain_message:
  assumes "invar r" "length (stream r) + patience r < fuel"
    "message_ok (headers_limit mh) (bytes_limit mb) m" "stream r = render m @ rest"
  shows "map_option (drained stream) (drain A P rd fuel (decoder_new CHUNKED mh mb) r) =
    Some (message_data m,
      case trailer_section (cm_trailers m) of
        None \<Rightarrow> Inr (None, rest)
      | Some tb \<Rightarrow> map_sum id (\<lambda>t. (Some t, rest))
                     (decode_trailers A P tb (length (cm_trailers m))))"
  using assms run_message [of "chunked_init mh mb" m rest]
    drain_chunked [of r "chunked_init mh mb" fuel A P]
  by (simp add: decoder_new_chunked chunked_inv_init body_of_def split: option.split)

lemma drain_overflow:
  assumes "invar r" "length (stream r) + patience r < fuel" "stream r = ds @ rest"
    "list_all (\<lambda>b. hex_nibble b \<noteq> None) ds" "2 ^ 64 \<le> hex_val 0 ds"
  shows "map_option (drained stream) (drain A P rd fuel (decoder_new CHUNKED mh mb) r) =
    Some ([], Inl size_overflow)"
proof -
  have "ds \<noteq> []" using assms(5) by auto
  then have "run (chunked_init mh mb) (ds @ rest) = ([], Failed size_overflow)"
    using run_digits [of "chunked_init mh mb" ds rest] assms(4,5) by simp
  then show ?thesis
    using assms drain_chunked [of r "chunked_init mh mb" fuel A P]
    by (simp add: decoder_new_chunked chunked_inv_init body_of_def)
qed

lemma drain_length:
  assumes "invar r" "length (stream r) + patience r < fuel"
  shows "map_option (drained stream) (drain A P rd fuel (Length n) r) =
    Some (length_outcome (unat n) (stream r))"
  using assms
proof (induction fuel arbitrary: r n)
  case (Suc fuel)
  note inv = Suc.prems(1)
  obtain res r' where rd: "rd r (unat n) = (res, r')" by force
  have invar': "invar r'" using read_invar [OF inv rd] .
  consider "n = 0" | "n \<noteq> 0" "res = Pending" | "n \<noteq> 0" "res = Ready (Inr [])"
    | bs where "n \<noteq> 0" "res = Ready (Inr bs)" "bs \<noteq> []"
    using rd no_read_error [OF inv, of "unat n"] read_no_panic [OF inv, of "unat n"]
    by (metis fst_conv poll.exhaust sum.exhaust)
  then show ?case
  proof cases
    case 1
    then show ?thesis by (simp add: decode_def drained_def length_outcome_def)
  next
    case 2
    then have "patience r' < patience r" "stream r' = stream r"
      using rd pending_patience [OF inv] read_pending [OF inv] by auto
    then show ?thesis
      using 2 Suc.IH [OF invar', of n] Suc.prems(2) rd
      by (simp add: decode_def del: map_option_eq_Some)
  next
    case 3
    then have "stream r = []" "0 < unat n" using rd read_eof [OF inv] by (auto simp: unat_gt_0)
    then show ?thesis using 3 rd by (simp add: decode_def drained_def Let_def length_outcome_def)
  next
    case (4 bs)
    then have rr: "length bs \<le> unat n" "stream r = bs @ stream r'" "patience r' \<le> patience r"
      using read_ready [OF inv] ready_patience [OF inv] rd by auto
    obtain k where dec: "decode A P rd (Length n) r = Some (Ready (Inr (Data bs)), Length k, r')"
      and k: "unat k = unat n - length bs"
      using decode_length_data [of rd r n bs r' A P, OF rd [unfolded 4] 4(3) rr(1)] by blast
    have "map_option (drained stream) (drain A P rd fuel (Length k) r') =
        Some (length_outcome (unat k) (stream r'))"
      using Suc.IH [OF invar', of k] Suc.prems(2) rr 4(3) by (cases bs) simp_all
    then show ?thesis
      using rr length_outcome_append [OF rr(1)] k
      by (auto simp: dec drained_def length_outcome_def)
  qed
qed simp

lemma drain_eof:
  assumes "invar r" "length (stream r) + patience r < fuel"
  shows "map_option (drained stream) (drain A P rd fuel (Eof False) r) =
    Some (stream r, Inr (None, []))"
  using assms
proof (induction fuel arbitrary: r)
  case (Suc fuel)
  note inv = Suc.prems(1)
  obtain res r' where rd: "rd r 8192 = (res, r')" by force
  have invar': "invar r'" using read_invar [OF inv rd] .
  consider "res = Pending" | "res = Ready (Inr [])" | bs where "res = Ready (Inr bs)" "bs \<noteq> []"
    using rd no_read_error [OF inv, of 8192] read_no_panic [OF inv, of 8192]
    by (metis fst_conv poll.exhaust sum.exhaust)
  then show ?case
  proof cases
    case 1
    then have "patience r' < patience r" "stream r' = stream r"
      using rd pending_patience [OF inv] read_pending [OF inv] by auto
    then show ?thesis
      using 1 Suc.IH [OF invar'] Suc.prems(2) rd
      by (simp add: decode_def del: map_option_eq_Some)
  next
    case 2
    then have "stream r = []" "stream r' = []"
      using rd read_eof [OF inv] read_ready [OF inv] by auto
    then show ?thesis using 2 rd by (simp add: decode_def drained_def)
  next
    case (3 bs)
    then have rr: "stream r = bs @ stream r'" "patience r' \<le> patience r"
      using read_ready [OF inv] ready_patience [OF inv] rd by auto
    then have "map_option (drained stream) (drain A P rd fuel (Eof False) r') =
        Some (stream r', Inr (None, []))"
      using Suc.IH [OF invar'] Suc.prems(2) 3(2) by (cases bs) simp_all
    then show ?thesis using rd 3 rr by (auto simp: decode_def drained_def)
  qed
qed simp

end

text \<open>The reader of a byte slice meets the contract.\<close>

interpretation slice: live_mem_read slice_read "\<lambda>r. r" "\<lambda>r. True" "\<lambda>r. 0"
  by unfold_locales (auto simp: slice_read_def)

section \<open>Only messages are accepted\<close>

lemma finishes_Nil [simp]: "\<not> finishes c []"
  by (simp add: finishes_def)

lemma finishes_prep: "run c bs = prep d (run c' bs') \<Longrightarrow> finishes c bs = finishes c' bs'"
  by (simp add: finishes_def prep_def)

lemma finishes_eq: "run c bs = run c' bs' \<Longrightarrow> finishes c bs = finishes c' bs'"
  by (simp add: finishes_def)

lemmas byte_eval = byte_step_def step_def read_defs slice_byte_then finishes_def Let_def

lemma fin_Start:
  assumes "dk_state c = Start" "finishes c (b # bs)"
  shows "hex_nibble b \<noteq> None"
  using assms by (cases "hex_nibble b") (auto simp: byte_eval)

lemma fin_Size:
  assumes "dk_state c = Size" "finishes c (b # bs)" "hex_nibble b = None"
  shows "b = 9 \<or> b = 32 \<or> b = 59 \<or> b = 13"
  using assms by (auto simp: byte_eval split: if_split_asm)

lemma fin_SizeLws:
  assumes "dk_state c = SizeLws" "finishes c (b # bs)"
  shows "b = 9 \<or> b = 32 \<or> b = 59 \<or> b = 13"
  using assms by (auto simp: byte_eval split: if_split_asm)

lemma fin_SizeLf:
  assumes "dk_state c = SizeLf" "finishes c bs"
  obtains bs' where "bs = 10 # bs'"
  using assms by (cases bs) (simp_all add: byte_eval split: if_split_asm)

lemma fin_BodyCr:
  assumes "dk_state c = BodyCr" "finishes c bs"
  obtains bs' where "bs = 13 # 10 # bs'"
proof -
  obtain b bs1 where bs: "bs = b # bs1" using assms by (cases bs) simp_all
  have "b = 13" "finishes (c\<lparr>dk_state := BodyLf\<rparr>) bs1"
    using assms bs by (simp_all add: byte_eval split: if_split_asm)
  moreover obtain b' bs2 where "bs1 = b' # bs2" using calculation by (cases bs1) simp_all
  moreover have "b' = 10" using calculation by (simp add: byte_eval split: if_split_asm)
  ultimately show ?thesis using that bs by blast
qed

lemma fin_lws:
  assumes "dk_state c = SizeLws" "finishes c bs"
  shows "\<exists>lws x bs'. bs = lws @ x # bs' \<and> (x = 13 \<or> x = 59) \<and> list_all (\<lambda>b. b = 9 \<or> b = 32) lws"
  using assms
proof (induction bs)
  case (Cons b bs)
  have "b = 9 \<or> b = 32 \<or> b = 59 \<or> b = 13" using fin_SizeLws Cons.prems by blast
  moreover have ?case if "b = 9 \<or> b = 32"
  proof -
    have "finishes c bs" using that Cons.prems run_SizeLws(1) finishes_eq by metis
    then obtain lws x bs' where "bs = lws @ x # bs'" "x = 13 \<or> x = 59"
      "list_all (\<lambda>b. b = 9 \<or> b = 32) lws" using Cons by blast
    then show ?thesis using that by (intro exI [of _ "b # lws"]) auto
  qed
  moreover have ?case if "b = 59 \<or> b = 13" using that by (intro exI [of _ "[]"]) auto
  ultimately show ?case by blast
qed simp

lemma fin_ext:
  assumes "dk_state c = Extension" "finishes c bs" "dk_extensions_cnt c < CHUNKED_EXTENSIONS_LIMIT"
  shows "\<exists>e bs'. bs = e @ 13 # bs' \<and> list_all (\<lambda>b. b \<noteq> 10 \<and> b \<noteq> 13) e \<and>
    unat (dk_extensions_cnt c) + length e < 16384"
  using assms
proof (induction bs arbitrary: c)
  case (Cons b bs)
  note u = ext_cnt_no_wrap [OF Cons.prems(3)]
  have lt: "unat (dk_extensions_cnt c) < 16384"
    using Cons.prems(3) by (simp add: CHUNKED_EXTENSIONS_LIMIT_def word_less_nat_alt)
  show ?case
  proof (cases "b = 13")
    case True
    then show ?thesis using lt by - (rule exI [of _ "[]"], auto)
  next
    case False
    let ?c = "c\<lparr>dk_extensions_cnt := dk_extensions_cnt c + 1\<rparr>"
    have "b \<noteq> 10" "finishes ?c bs" "dk_extensions_cnt ?c < CHUNKED_EXTENSIONS_LIMIT"
      using Cons.prems False by (simp_all add: byte_eval Let_def state_update_id not_le split: if_split_asm)
    then obtain e bs' where "bs = e @ 13 # bs'" "list_all (\<lambda>b. b \<noteq> 10 \<and> b \<noteq> 13) e"
      "unat (dk_extensions_cnt c) + 1 + length e < 16384"
      using Cons.IH [of ?c] Cons.prems u by auto
    then show ?thesis using False \<open>b \<noteq> 10\<close> by - (rule exI [of _ "b # e"], auto)
  qed
qed simp

lemma fin_after_digits:
  assumes "dk_state c = Size" "finishes c bs" "dk_extensions_cnt c < CHUNKED_EXTENSIONS_LIMIT"
    "bs = [] \<or> hex_nibble (hd bs) = None"
  shows "\<exists>lws ext bs'. bs = lws @ (case ext of None \<Rightarrow> [] | Some e \<Rightarrow> 59 # e) @ 13 # bs' \<and>
    list_all (\<lambda>b. b = 9 \<or> b = 32) lws \<and>
    (case ext of None \<Rightarrow> True | Some e \<Rightarrow> list_all (\<lambda>b. b \<noteq> 10 \<and> b \<noteq> 13) e \<and>
       unat (dk_extensions_cnt c) + length e < 16384)"
proof -
  obtain b bs1 where bs: "bs = b # bs1" using assms(2) by (cases bs) simp_all
  have b: "b = 9 \<or> b = 32 \<or> b = 59 \<or> b = 13" using fin_Size assms bs by simp
  have "\<exists>lws x bs'. bs = lws @ x # bs' \<and> (x = 13 \<or> x = 59) \<and> list_all (\<lambda>b. b = 9 \<or> b = 32) lws"
  proof (cases "b = 9 \<or> b = 32")
    case True
    then have "finishes (c\<lparr>dk_state := SizeLws\<rparr>) bs1"
      using assms(1,2) bs run_Size(1) finishes_eq by metis
    then obtain lws x bs' where "bs1 = lws @ x # bs'" "x = 13 \<or> x = 59" "list_all (\<lambda>b. b = 9 \<or> b = 32) lws"
      using fin_lws [of "c\<lparr>dk_state := SizeLws\<rparr>" bs1] by auto
    then show ?thesis using True bs by (intro exI [of _ "b # lws"]) auto
  next
    case False
    then show ?thesis using b bs by (intro exI [of _ "[]"]) auto
  qed
  then obtain lws x bs' where p: "bs = lws @ x # bs'" "x = 13 \<or> x = 59" "list_all (\<lambda>b. b = 9 \<or> b = 32) lws"
    by blast
  show ?thesis
  proof (cases "x = 13")
    case True
    then show ?thesis using p by (intro exI [of _ lws] exI [of _ None] exI [of _ bs']) simp
  next
    case False
    then have "finishes (c\<lparr>dk_state := Extension\<rparr>) bs'"
      using p assms(1,2) run_lws(2) [of c lws bs'] by (simp add: finishes_def)
    then obtain e bs'' where "bs' = e @ 13 # bs''" "list_all (\<lambda>b. b \<noteq> 10 \<and> b \<noteq> 13) e"
      "unat (dk_extensions_cnt c) + length e < 16384"
      using fin_ext [of "c\<lparr>dk_state := Extension\<rparr>" bs'] assms(3) by auto
    then show ?thesis using p False by (intro exI [of _ lws] exI [of _ "Some e"] exI [of _ bs'']) simp
  qed
qed

lemma fin_line:
  assumes "dk_state c = Start" "dk_chunk_len c = 0" "finishes c bs"
    "dk_extensions_cnt c < CHUNKED_EXTENSIONS_LIMIT"
  shows "\<exists>l n bs'. bs = render_line l @ bs' \<and> line_ok l n \<and>
    unat (dk_extensions_cnt c) + length (ext_bytes l) < 16384"
proof -
  define ds where "ds = takeWhile (\<lambda>b. hex_nibble b \<noteq> None) bs"
  define bs1 where "bs1 = dropWhile (\<lambda>b. hex_nibble b \<noteq> None) bs"
  have bs: "bs = ds @ bs1" by (simp add: ds_def bs1_def)
  have ds: "list_all (\<lambda>b. hex_nibble b \<noteq> None) ds"
    by (auto simp: ds_def list_all_iff dest: set_takeWhileD)
  have hd: "bs1 = [] \<or> hex_nibble (hd bs1) = None"
    using hd_dropWhile [of "\<lambda>b. hex_nibble b \<noteq> None" bs] by (fastforce simp: bs1_def simp del: not_None_eq)
  have "ds \<noteq> []" using assms(1,3) fin_Start by (cases bs) (auto simp: ds_def)
  then have run: "run c bs = (if hex_val 0 ds < 2 ^ 64
      then run (c\<lparr>dk_chunk_len := of_nat (hex_val 0 ds), dk_state := Size\<rparr>) bs1
      else ([], Failed size_overflow))"
    using run_digits [of c ds bs1] assms(1,2) ds bs by (simp add: Let_def del: run.simps)
  then have n: "hex_val 0 ds < 2 ^ 64" using assms(3) by (simp add: finishes_def split: if_split_asm)
  let ?c = "c\<lparr>dk_chunk_len := of_nat (hex_val 0 ds), dk_state := Size\<rparr>"
  have fin: "finishes ?c bs1" using assms(3) run n finishes_eq by metis
  have ext: "dk_extensions_cnt ?c = dk_extensions_cnt c" "dk_state ?c = Size" by simp_all
  obtain lws ext bs2 where p: "bs1 = lws @ (case ext of None \<Rightarrow> [] | Some e \<Rightarrow> 59 # e) @ 13 # bs2"
    "list_all (\<lambda>b. b = 9 \<or> b = 32) lws"
    "case ext of None \<Rightarrow> True | Some e \<Rightarrow> list_all (\<lambda>b. b \<noteq> 10 \<and> b \<noteq> 13) e \<and>
       unat (dk_extensions_cnt c) + length e < 16384"
    using fin_after_digits [OF ext(2) fin _ hd] assms(4) unfolding ext(1) by blast
  define l where "l = \<lparr>ln_digits = ds, ln_lws = lws, ln_ext = ext\<rparr>"
  define d where "d = c\<lparr>dk_chunk_len := of_nat (hex_val 0 ds),
    dk_extensions_cnt := dk_extensions_cnt c + of_nat (length (ext_bytes l)), dk_state := SizeLf\<rparr>"
  have "run c bs = run d bs2"
    using run n p run_lws [of ?c lws] run_ext [of "?c\<lparr>dk_state := Extension\<rparr>"]
    by (cases ext) (simp_all add: l_def d_def ext_bytes_def del: run.simps)
  then have "finishes d bs2" using assms(3) finishes_eq by metis
  then obtain bs' where "bs2 = 10 # bs'" using fin_SizeLf [of d bs2] by (auto simp: d_def)
  moreover have "line_ok l (hex_val 0 ds)"
    using \<open>ds \<noteq> []\<close> ds n p by (cases ext) (simp_all add: line_ok_def l_def ext_bytes_def)
  moreover have "unat (dk_extensions_cnt c) + length (ext_bytes l) < 16384"
    using p(3) assms(4)
    by (cases ext) (simp_all add: l_def ext_bytes_def CHUNKED_EXTENSIONS_LIMIT_def word_less_nat_alt)
  ultimately show ?thesis
    using bs p(1)
    by (intro exI [of _ l] exI [of _ "hex_val 0 ds"] exI [of _ bs']) (simp add: render_line_def l_def)
qed

lemma fin_body:
  assumes "dk_state c = Body" "dk_chunk_len c \<noteq> 0" "finishes c bs"
  shows "unat (dk_chunk_len c) \<le> length bs"
proof (rule ccontr)
  assume "\<not> ?thesis"
  moreover have "bs \<noteq> []" using assms(3) by auto
  ultimately have "snd (run c (bs @ [])) = NeedMore (c\<lparr>dk_chunk_len := dk_chunk_len c - of_nat (length bs),
      dk_state := (if dk_chunk_len c = of_nat (length bs) then BodyCr else Body)\<rparr>)"
    using run_body [OF assms(1), of bs "[]"] by (simp add: prep_def)
  then show False using assms(3) by (simp add: finishes_def)
qed

lemma fin_Trailer:
  assumes "dk_state c = Trailer" "dk_trailers_buf c = Some tb" "finishes c bs"
  shows "\<exists>t bs'. bs = t @ 13 # 10 # bs' \<and> list_all (\<lambda>b. b \<noteq> 13) t \<and>
    length tb + length t + 2 < max_bytes_of c \<and> dk_trailers_cnt c < max_headers_of c"
  using assms
proof (induction bs arbitrary: c tb)
  case (Cons b bs)
  let ?c = "c\<lparr>dk_trailers_buf := Some (tb @ [b]), dk_state := (if b = 13 then TrailerLf else Trailer)\<rparr>"
  have step: "Suc (length tb) < max_bytes_of c" "finishes ?c bs"
    using Cons.prems by (simp_all add: byte_eval put_u8_def not_le split: if_split_asm)
  show ?case
  proof (cases "b = 13")
    case True
    obtain b' bs' where bs: "bs = b' # bs'" using step(2) by (cases bs) simp_all
    have "b' = 10" "dk_trailers_cnt c < max_headers_of c" "length tb + 2 < max_bytes_of c"
      using step(2) True bs by (simp_all add: byte_eval put_u8_def not_le split: if_split_asm)
    then show ?thesis using True bs by - (rule exI [of _ "[]"], simp)
  next
    case False
    then obtain t bs' where "bs = t @ 13 # 10 # bs'" "list_all (\<lambda>b. b \<noteq> 13) t"
      "length tb + 1 + length t + 2 < max_bytes_of c" "dk_trailers_cnt c < max_headers_of c"
      using Cons.IH [of ?c "tb @ [b]"] step(2) by auto
    then show ?thesis using False by - (rule exI [of _ "b # t"], simp)
  qed
qed simp

lemma fin_trailers:
  assumes "dk_state c = EndCr" "finishes c bs" "dk_trailers_cnt c \<le> max_headers_of c"
  shows "\<exists>ts rest. bs = render_trailers ts @ rest \<and> list_all trailer_line_ok ts \<and>
    dk_trailers_cnt c + length ts \<le> max_headers_of c \<and>
    (ts \<noteq> [] \<or> dk_trailers_buf c \<noteq> None \<longrightarrow>
       length (buffered (dk_trailers_buf c)) + length (render_trailers ts) < max_bytes_of c)"
  using assms
proof (induction "length bs" arbitrary: bs c rule: less_induct)
  case less
  obtain b bs1 where bs: "bs = b # bs1" using less.prems by (cases bs) simp_all
  let ?tb = "buffered (dk_trailers_buf c)"
  show ?case
  proof (cases "b = 13")
    case True
    let ?c = "c\<lparr>dk_trailers_buf := (case dk_trailers_buf c of None \<Rightarrow> None | Some tb \<Rightarrow> Some (tb @ [13])), dk_state := EndLf\<rparr>"
    have "finishes ?c bs1"
      using less.prems bs True by (cases "dk_trailers_buf c") (simp_all add: byte_eval put_u8_def state_update_id split: if_split_asm)
    moreover obtain b' bs2 where bs1: "bs1 = b' # bs2" using calculation by (cases bs1) simp_all
    ultimately have "b' = 10" "dk_trailers_buf c \<noteq> None \<longrightarrow> length ?tb + 2 < max_bytes_of c"
      by (cases "dk_trailers_buf c"; simp add: byte_eval put_u8_def buffered_def not_le split: if_split_asm)+
    then show ?thesis
      using less.prems(3) bs bs1 True by (intro exI [of _ "[]"] exI [of _ bs2]) (simp add: render_trailers_def)
  next
    case False
    let ?c = "c\<lparr>dk_trailers_buf := Some (?tb @ [b]), dk_state := Trailer\<rparr>"
    have "finishes ?c bs1"
      using less.prems bs False by (cases "dk_trailers_buf c") (simp_all add: byte_eval put_u8_def buffered_def split: if_split_asm)
    then obtain t bs2 where t: "bs1 = t @ 13 # 10 # bs2" "list_all (\<lambda>b. b \<noteq> 13) t"
      "length ?tb + 1 + length t + 2 < max_bytes_of c" "dk_trailers_cnt c < max_headers_of c"
      using fin_Trailer [of ?c "?tb @ [b]" bs1] by auto
    let ?d = "c\<lparr>dk_trailers_buf := Some (?tb @ (b # t) @ [13, 10]), dk_trailers_cnt := Suc (dk_trailers_cnt c)\<rparr>"
    have ok: "trailer_line_ok (b # t)" using t False by (simp add: trailer_line_ok_def)
    have "run c bs = run ?d bs2"
      using run_trailer_line [OF less.prems(1) ok, of bs2] t bs by (simp del: run.simps)
    then have "finishes ?d bs2" using less.prems(2) by (simp add: finishes_def)
    then obtain ts rest where "bs2 = render_trailers ts @ rest" "list_all trailer_line_ok ts"
      "Suc (dk_trailers_cnt c) + length ts \<le> max_headers_of c"
      "length (buffered (dk_trailers_buf ?d)) + length (render_trailers ts) < max_bytes_of c"
      using less.hyps [of bs2 ?d] bs t less.prems(1) by (simp; blast)
    then show ?thesis
      using bs t ok
      by (intro exI [of _ "(b # t) # ts"] exI [of _ rest]) (simp add: render_trailers_def buffered_def)
  qed
qed


lemma fin_chunk:
  assumes c: "dk_state c = Start" "dk_chunk_len c = 0" and fin: "finishes c (render_line l @ bs)"
    and l: "line_ok l n" "n \<noteq> 0" "unat (dk_extensions_cnt c) + length (ext_bytes l) < 16384"
  shows "\<exists>d bs'. render_line l @ bs = render_chunk (l, d) @ bs' \<and> length d = n \<and>
    finishes (c\<lparr>dk_extensions_cnt := dk_extensions_cnt c + of_nat (length (ext_bytes l))\<rparr>) bs'"
proof -
  let ?e = "dk_extensions_cnt c + of_nat (length (ext_bytes l))"
  let ?c = "c\<lparr>dk_chunk_len := of_nat n, dk_extensions_cnt := ?e, dk_state := Body\<rparr>"
  let ?b = "c\<lparr>dk_extensions_cnt := ?e, dk_chunk_len := 0, dk_state := BodyCr\<rparr>"
  have n: "n < 2 ^ 64" using l by (simp add: line_ok_def)
  have "finishes ?c bs" using run_line [OF c l(1,3), of bs] l(2) fin by (simp add: finishes_def)
  moreover have "(of_nat n :: u64) \<noteq> 0"
    using unat_of_nat_u64 [OF n] l(2) by (auto simp: unat_eq_0 [symmetric])
  ultimately have len: "n \<le> length bs" using fin_body [of ?c bs] unat_of_nat_u64 [OF n] by simp
  then have bs: "bs = take n bs @ drop n bs" "take n bs \<noteq> []" "length (take n bs) = n" using l(2) by auto
  have "run ?c bs = prep (take n bs) (run ?b (drop n bs))"
    using run_body [of ?c "take n bs" "drop n bs"] bs len unat_of_nat_u64 [OF n]
    by (simp del: run.simps)
  then have "finishes ?b (drop n bs)" using \<open>finishes ?c bs\<close> finishes_prep by metis
  then obtain bs' where bs': "drop n bs = 13 # 10 # bs'" using fin_BodyCr [of ?b "drop n bs"] by auto
  have "render_line l @ bs = render_chunk (l, take n bs) @ bs'"
    using bs(1) bs' by (simp add: render_chunk_def)
  moreover have "run c (render_chunk (l, take n bs) @ bs') =
      prep (take n bs) (run (c\<lparr>dk_extensions_cnt := ?e\<rparr>) bs')"
    using run_chunk [OF c, of l "take n bs" bs'] l bs(2,3) by simp
  ultimately show ?thesis using fin bs(3) finishes_prep by metis
qed

lemma fin_message:
  assumes "dk_state c = Start" "dk_chunk_len c = 0" "dk_trailers_buf c = None"
    "dk_trailers_cnt c = 0" "dk_extensions_cnt c < CHUNKED_EXTENSIONS_LIMIT" "finishes c bs"
  shows "\<exists>m rest. bs = render m @ rest \<and>
    list_all (\<lambda>(l, d). line_ok l (length d) \<and> d \<noteq> []) (cm_chunks m) \<and> line_ok (cm_last m) 0 \<and>
    unat (dk_extensions_cnt c) + ext_total m < 16384 \<and>
    list_all trailer_line_ok (cm_trailers m) \<and> length (cm_trailers m) \<le> max_headers_of c \<and>
    (cm_trailers m \<noteq> [] \<longrightarrow> length (render_trailers (cm_trailers m)) < max_bytes_of c)"
  using assms
proof (induction "length bs" arbitrary: bs c rule: less_induct)
  case less
  obtain l n bs1 where bs: "bs = render_line l @ bs1" and l: "line_ok l n"
      "unat (dk_extensions_cnt c) + length (ext_bytes l) < 16384"
    using fin_line [OF less.prems(1,2,6,5)] by blast
  let ?e = "dk_extensions_cnt c + of_nat (length (ext_bytes l))"
  have u: "unat ?e = unat (dk_extensions_cnt c) + length (ext_bytes l)"
    using l(2) by (simp add: unat_word_ariths unat_of_nat)
  show ?case
  proof (cases "n = 0")
    case True
    let ?c = "c\<lparr>dk_chunk_len := 0, dk_extensions_cnt := ?e, dk_state := EndCr\<rparr>"
    have "finishes ?c bs1"
      using run_line [OF less.prems(1,2) l, of bs1] True less.prems(6) bs by (simp add: finishes_def)
    then obtain ts rest where "bs1 = render_trailers ts @ rest" "list_all trailer_line_ok ts"
        "length ts \<le> max_headers_of c" "ts \<noteq> [] \<longrightarrow> length (render_trailers ts) < max_bytes_of c"
      using fin_trailers [of ?c bs1] less.prems(3,4) by (auto simp: buffered_def)
    then show ?thesis using bs l True
      by (intro exI [of _ "\<lparr>cm_chunks = [], cm_last = l, cm_trailers = ts\<rparr>"] exI [of _ rest])
         (simp add: render_def ext_total_def)
  next
    case False
    let ?c = "c\<lparr>dk_extensions_cnt := ?e\<rparr>"
    obtain d bs2 where d: "bs = render_chunk (l, d) @ bs2" "length d = n" "finishes ?c bs2"
      using fin_chunk [of c l bs1 n] less.prems l False bs by auto
    have "?e < CHUNKED_EXTENSIONS_LIMIT"
      using l(2) u by (simp add: CHUNKED_EXTENSIONS_LIMIT_def word_less_nat_alt)
    moreover have "length bs2 < length bs" using d(1) by (simp add: render_chunk_def)
    ultimately obtain m rest where m: "bs2 = render m @ rest"
      "list_all (\<lambda>(l, d). line_ok l (length d) \<and> d \<noteq> []) (cm_chunks m)" "line_ok (cm_last m) 0"
      "unat ?e + ext_total m < 16384" "list_all trailer_line_ok (cm_trailers m)"
      "length (cm_trailers m) \<le> max_headers_of c"
      "cm_trailers m \<noteq> [] \<longrightarrow> length (render_trailers (cm_trailers m)) < max_bytes_of c"
      using less.hyps [of bs2 ?c] less.prems d(3) by (simp; blast)
    then show ?thesis using d l False u
      by (intro exI [of _ "m\<lparr>cm_chunks := (l, d) # cm_chunks m\<rparr>"] exI [of _ rest])
         (auto simp: render_def ext_total_def)
  qed
qed


text \<open>The messages a fresh decoder finishes on are the well-formed ones, and no other input.\<close>

lemma run_finished_iff:
  "run (chunked_init mh mb) bs = (D, Finished tb n rest) \<longleftrightarrow>
   (\<exists>m. message_ok (headers_limit mh) (bytes_limit mb) m \<and> bs = render m @ rest \<and>
        D = message_data m \<and> tb = trailer_section (cm_trailers m) \<and> n = length (cm_trailers m))"
  (is "?run \<longleftrightarrow> ?msg")
proof
  assume ?run
  then have fin: "finishes (chunked_init mh mb) bs" by (simp add: finishes_def)
  have "dk_extensions_cnt (chunked_init mh mb) < CHUNKED_EXTENSIONS_LIMIT"
    by (simp add: CHUNKED_EXTENSIONS_LIMIT_def)
  with fin obtain m rest' where m: "bs = render m @ rest'"
      "message_ok (headers_limit mh) (bytes_limit mb) m"
    using fin_message [of "chunked_init mh mb" bs] by (auto simp: message_ok_def)
  then show ?msg
    using run_message [of "chunked_init mh mb" m rest'] \<open>?run\<close> by auto
next
  assume ?msg
  then show ?run using run_message [of "chunked_init mh mb"] by auto
qed

lemma sample_message_ok: "message_ok (headers_limit None) (bytes_limit None) sample_message"
  by (simp add: message_ok_def sample_message_def line_ok_def ext_bytes_def ext_total_def hex_nat_def
      hex_nibble_def headers_limit_def)

context live_mem_read
begin

lemma drain_success_iff:
  assumes "invar r" "length (stream r) + patience r < fuel"
  shows "map_option (drained stream) (drain A P rd fuel (decoder_new CHUNKED mh mb) r) =
      Some (D, Inr (t, rest)) \<longleftrightarrow>
    (\<exists>m. message_ok (headers_limit mh) (bytes_limit mb) m \<and> stream r = render m @ rest \<and>
         D = message_data m \<and> parsed_trailers A P (cm_trailers m) = Inr t)"
    (is "?drain = _ \<longleftrightarrow> ?msg")
proof -
  have body: "?drain = body_of A P (chunked_init mh mb) (stream r)"
    using drain_chunked [of r "chunked_init mh mb" fuel A P] assms
    by (simp add: decoder_new_chunked chunked_inv_init)
  show ?thesis
  proof
    assume "?drain = Some (D, Inr (t, rest))"
    then obtain tb n where run: "run (chunked_init mh mb) (stream r) = (D, Finished tb n rest)"
        and tb: "(case tb of None \<Rightarrow> t = None | Some b \<Rightarrow> map_sum id Some (decode_trailers A P b n) = Inr t)"
      unfolding body body_of_def
      by (cases "run (chunked_init mh mb) (stream r)")
         (auto split: run_outcome.splits option.splits sum.splits simp: map_sum_def)
    then show ?msg
      unfolding run_finished_iff by (auto simp: parsed_trailers_def trailer_section_def)
  next
    assume ?msg
    then obtain m where "message_ok (headers_limit mh) (bytes_limit mb) m" "stream r = render m @ rest"
      "D = message_data m" "parsed_trailers A P (cm_trailers m) = Inr t" by blast
    then show "?drain = Some (D, Inr (t, rest))"
      using drain_message [of r fuel mh mb m rest A P] assms
      by (cases "cm_trailers m = []";
          cases "decode_trailers A P (render_trailers (cm_trailers m)) (length (cm_trailers m))")
         (simp_all add: parsed_trailers_def trailer_section_def del: map_option_eq_Some)
  qed
qed

end

context mem_read
begin

lemma decode_total:
  assumes "invar r" "decoder_inv d"
  shows "\<exists>res d' r'. decode A P rd d r = Some (res, d', r') \<and> res \<noteq> Panicked \<and> invar r' \<and>
    (\<exists>xs. stream r = xs @ stream r') \<and> ((\<forall>e. res \<noteq> Ready (Inl e)) \<longrightarrow> decoder_inv d')"
proof (cases d)
  case (Length n)
  obtain res r' where rd: "rd r (unat n) = (res, r')" by force
  have "invar r'" "res \<noteq> Panicked" "\<exists>xs. stream r = xs @ stream r'"
    using read_invar [OF assms(1) rd] read_no_panic [OF assms(1), of "unat n"] rd
      read_ready [OF assms(1)] read_pending [OF assms(1)] read_err [OF assms(1)]
    by (auto, metis append_Nil poll.exhaust sum.exhaust)
  then show ?thesis using Length rd assms
    by (auto simp: decode_def decoder_inv_def Let_def split: poll.splits sum.splits)
next
  case (Eof b)
  obtain res r' where rd: "rd r 8192 = (res, r')" by force
  have "invar r'" "res \<noteq> Panicked" "\<exists>xs. stream r = xs @ stream r'"
    using read_invar [OF assms(1) rd] read_no_panic [OF assms(1), of 8192] rd
      read_ready [OF assms(1)] read_pending [OF assms(1)] read_err [OF assms(1)]
    by (auto, metis append_Nil poll.exhaust sum.exhaust)
  then show ?thesis using Eof rd assms
    by (auto simp: decode_def decoder_inv_def split: poll.splits sum.splits)
next
  case (Chunked c)
  show ?thesis
  proof (cases "dk_state c = End")
    case True
    then show ?thesis using Chunked assms
      by (auto simp: decode_def chunked_loop_End decoder_inv_def split: option.split)
  next
    case False
    then have "loop_ok A P c r" using loop_correct assms Chunked by (simp add: decoder_inv_def)
    then obtain res c' r' where "chunked_loop A P rd c r = Some (res, c', r')" "invar r'"
      "decode_post A P rd stream invar (run c (stream r)) (res, c', r')" "\<exists>xs. stream r = xs @ stream r'"
      by (fastforce simp: loop_ok_def)
    then show ?thesis using Chunked
      by (auto simp: decode_def decoder_inv_def decode_post_def
          split: poll.splits sum.splits frame.splits if_splits)
  qed
qed

end
lemma run_not_crashed:
  assumes "chunked_inv c" "dk_state c \<noteq> End"
  shows "snd (run c bs) \<noteq> Crashed"
  using assms
proof (induction bs arbitrary: c)
  case (Cons b bs)
  have "step_good c (byte_step c b)" using byte_step_ok Cons.prems by blast
  then show ?case using Cons.IH
    by (auto simp: step_good_def prep_def split: prod.splits poll.splits sum.splits)
qed simp

lemma body_of_Some:
  assumes "chunked_inv c" "dk_state c \<noteq> End"
  shows "body_of A P c bs \<noteq> None"
  using run_not_crashed [OF assms, of bs]
  by (cases "run c bs") (auto simp: body_of_def split: run_outcome.splits option.splits)

section \<open>Properties\<close>

text \<open>
  C11.  Polled over any reader that delivers its stream, a fresh chunked decoder ends with the data
  \<open>D\<close>, the trailers \<open>t\<close> and the unread rest exactly when the stream starts with a well-formed
  chunked message within the limits whose data is \<open>D\<close> and whose trailer section parses to \<open>t\<close>:
  it accepts every such message, however the transport cuts it up, and nothing else.
\<close>

theorem decode_chunked_exact:
  assumes "live_mem_read rd stream invar patience" "invar r"
    and "length (stream r) + patience r < fuel"
  shows "map_option (drained stream) (drain A P rd fuel (decoder_new CHUNKED mh mb) r) =
      Some (D, Inr (t, rest)) \<longleftrightarrow>
    (\<exists>m. message_ok (headers_limit mh) (bytes_limit mb) m \<and> stream r = render m @ rest \<and>
         D = message_data m \<and> parsed_trailers A P (cm_trailers m) = Inr t)"
  using live_mem_read.drain_success_iff [OF assms] .

theorem decode_chunked_exact_witness:
  "map_option (drained (\<lambda>r. r)) (drain assoc_api sample_httparse slice_read 100
      (decoder_new CHUNKED None None) (render sample_message @ [71, 69])) =
   Some ([1, 2, 3], Inr (None, [71, 69]))"
proof -
  have "length (render sample_message @ [71, 69]) + 0 < 100"
    by (simp add: sample_message_def render_def render_chunk_def render_line_def render_trailers_def)
  moreover have "message_data sample_message = [1, 2, 3]"
    "parsed_trailers assoc_api sample_httparse (cm_trailers sample_message) = Inr None"
    by (simp_all add: sample_message_def message_data_def parsed_trailers_def)
  ultimately show ?thesis
    using sample_message_ok
    by (intro decode_chunked_exact [OF slice.live_mem_read_axioms, THEN iffD2] exI [of _ sample_message])
       simp_all
qed

text \<open>
  C12.  What a chunked decoder returns depends on the bytes of the stream alone: two readers that
  deliver the same bytes, in pieces and with pending polls of their own, give the same data, the
  same outcome and the same unread rest, for malformed input too, and both runs end.
\<close>

theorem decode_fragmentation:
  assumes "live_mem_read rd stream invar patience" "invar r"
    and "length (stream r) + patience r < fuel"
    and "live_mem_read rd' stream' invar' patience'" "invar' r'"
    and "length (stream' r') + patience' r' < fuel'"
    and "stream r = stream' r'" "chunked_inv c" "dk_state c \<noteq> End"
  shows "\<exists>out. map_option (drained stream) (drain A P rd fuel (Chunked c) r) = Some out \<and>
      map_option (drained stream') (drain A P rd' fuel' (Chunked c) r') = Some out"
  using live_mem_read.drain_chunked [OF assms(1,2,8,9,3), of A P]
    live_mem_read.drain_chunked [OF assms(4,5,8,9,6), of A P] body_of_Some [OF assms(8,9), of A P]
    assms(7)
  by (metis not_None_eq)

theorem decode_fragmentation_witness:
  "\<exists>out. map_option (drained (\<lambda>r. r)) (drain assoc_api sample_httparse slice_read 9
       (Chunked (chunked_init None None)) [49, 120]) = Some out \<and>
     map_option (drained (\<lambda>r. r)) (drain assoc_api sample_httparse slice_read 5
       (Chunked (chunked_init None None)) [49, 120]) = Some out"
  using decode_fragmentation [OF slice.live_mem_read_axioms _ _ slice.live_mem_read_axioms,
      of "[49, 120]" 9 "[49, 120]" 5 "chunked_init None None"] chunked_inv_init
  by simp

text \<open>
  C13.  A poll of any decoder in a state it can reach returns, does not panic, consumes a prefix of
  the stream and, unless it reports an error, leaves a state that satisfies the invariant: the
  extension bytes, the trailer bytes and the trailer count stay below their limits.
\<close>

theorem decode_safe:
  assumes "mem_read rd stream invar" "invar r" "decoder_inv d"
  shows "\<exists>res d' r'. decode A P rd d r = Some (res, d', r') \<and> res \<noteq> Panicked \<and> invar r' \<and>
    (\<exists>xs. stream r = xs @ stream r') \<and> ((\<forall>e. res \<noteq> Ready (Inl e)) \<longrightarrow> decoder_inv d')"
  using mem_read.decode_total [OF assms] .

theorem decode_safe_witness:
  "\<exists>d'. decode assoc_api sample_httparse slice_read
       (Chunked ((chunked_init None None)\<lparr>dk_chunk_len := 2, dk_state := Body\<rparr>)) [7, 8, 9] =
     Some (Ready (Inr (Data [7, 8])), d', [9]) \<and> decoder_inv d'"
proof -
  let ?d = "Chunked ((chunked_init None None)\<lparr>dk_chunk_len := 2, dk_state := Body\<rparr>)"
  have "decoder_inv ?d"
    using chunked_inv_init [of None None] by (simp add: decoder_inv_def chunked_inv_def)
  from decode_safe [OF slice.mem_read_axioms _ this, where r = "[7, 8, 9]" and A = assoc_api and P = sample_httparse]
  obtain res d' r' where r: "decode assoc_api sample_httparse slice_read ?d [7, 8, 9] = Some (res, d', r')"
    "(\<forall>e. res \<noteq> Ready (Inl e)) \<longrightarrow> decoder_inv d'"
    by blast
  moreover have "res = Ready (Inr (Data [7, 8]))" "r' = [9]"
    using r(1) chunked_loop_Body [of "(chunked_init None None)\<lparr>dk_chunk_len := 2, dk_state := Body\<rparr>"
        slice_read "[7, 8, 9]" "Ready (Inr [7, 8])" "[9]" assoc_api sample_httparse]
    by (simp_all add: decode_def slice_read_def)
  ultimately show ?thesis by simp
qed

text \<open>
  A chunk size that does not fit 64 bits is refused: whatever follows the digits and however
  they arrive, the body ends with the overflow error and no data.
\<close>

theorem decode_size_overflow:
  assumes "live_mem_read rd stream invar patience" "invar r"
    and "length (stream r) + patience r < fuel" "stream r = ds @ rest"
    and "list_all (\<lambda>b. hex_nibble b \<noteq> None) ds" "2 ^ 64 \<le> hex_val 0 ds"
  shows "map_option (drained stream) (drain A P rd fuel (decoder_new CHUNKED mh mb) r) =
    Some ([], Inl size_overflow)"
  using live_mem_read.drain_overflow [OF assms] .

theorem decode_size_overflow_witness:
  "map_option (drained (\<lambda>r. r)) (drain assoc_api sample_httparse slice_read 100
      (decoder_new CHUNKED None None) ([102, 102, 102, 102, 102, 102, 102, 102, 102, 102, 102, 102, 102, 102, 102, 102, 102] @ [13, 10])) = Some ([], Inl size_overflow)"
  by (rule decode_size_overflow [OF slice.live_mem_read_axioms,
        where ds = "[102, 102, 102, 102, 102, 102, 102, 102, 102, 102, 102, 102, 102, 102, 102, 102, 102]" and rest = "[13, 10]"])
     (simp_all add: hex_nibble_def hex_nat_def)

text \<open>
  A decoder for a body that is not chunked returns exactly the body: the declared number of
  bytes, leaving the rest of the stream unread, or the error for a stream that ends before; and
  the whole stream when the body is delimited by the close of the connection.
\<close>

theorem decode_by_length:
  assumes "live_mem_read rd stream invar patience" "invar r"
    and "length (stream r) + patience r < fuel" "len \<noteq> CHUNKED"
  shows "map_option (drained stream) (drain A P rd fuel (decoder_new len mh mb) r) =
    Some (if len = CLOSE_DELIMITED then (stream r, Inr (None, []))
          else length_outcome (unat (danger_len len)) (stream r))"
  using live_mem_read.drain_length [OF assms(1-3), of A P] live_mem_read.drain_eof [OF assms(1-3), of A P]
    assms(4)
  by (simp add: decoder_new_def del: map_option_eq_Some)

theorem decode_by_length_witness:
  "map_option (drained (\<lambda>r. r)) (drain assoc_api sample_httparse slice_read 10
      (decoder_new (DecodedLength 1) None None) [7, 8]) = Some ([7], Inr (None, [8]))"
  by (subst decode_by_length [OF slice.live_mem_read_axioms])
     (simp_all add: length_outcome_def CHUNKED_def CLOSE_DELIMITED_def U64_MAX_def)

end
