(* ===== verification/Http1_Encode.thy ===== *)
theory Http1_Encode
  imports Http1_Buf Http1_Chunked
begin

text \<open>
  \<^verbatim>\<open>src/src/proto/http1/encode.rs\<close>: the body encoder, the buffers it produces and the chunk size
  line.  A produced buffer joins buffers with the adapters \<^verbatim>\<open>Take\<close> and \<^verbatim>\<open>Chain\<close> of the crate
  \<^verbatim>\<open>bytes\<close>; their methods are the parameter \<open>adapters\<close>, their documented behaviour the locale
  \<open>encoded_bufs\<close>.  \<open>write_headers\<close> is from \<^verbatim>\<open>src/src/proto/http1/role.rs\<close>.
\<close>

section \<open>Chunk size line\<close>

definition CHUNK_SIZE_MAX_BYTES :: nat where
  "CHUNK_SIZE_MAX_BYTES = 8 * 2"

record chunk_size =
  cs_bytes :: "byte list"
  cs_pos :: byte
  cs_len :: byte

text \<open>\<^verbatim>\<open>write_str\<close>: \<open>None\<close> is the panic of the slice write that does not fit.\<close>

definition write_str :: "chunk_size \<Rightarrow> byte list \<Rightarrow> chunk_size option" where
  "write_str c num =
     (let l = unat (cs_len c) in
      if l + length num \<le> length (cs_bytes c) then
        Some (c\<lparr>cs_bytes := take l (cs_bytes c) @ num @ drop (l + length num) (cs_bytes c),
                cs_len := cs_len c + of_nat (length num)\<rparr>)
      else None)"

definition chunk_size_new :: "nat \<Rightarrow> chunk_size option" where
  "chunk_size_new len =
     (let sz = \<lparr>cs_bytes = replicate (CHUNK_SIZE_MAX_BYTES + 2) 0, cs_pos = 0, cs_len = 0\<rparr> in
      case write_str sz (hex_upper len) of
        None \<Rightarrow> None
      | Some sz' \<Rightarrow> write_str sz' [13, 10])"

definition cs_remaining :: "chunk_size \<Rightarrow> nat" where
  "cs_remaining c = unat (cs_len c - cs_pos c)"

definition cs_chunk :: "chunk_size \<Rightarrow> byte list" where
  "cs_chunk c = drop (unat (cs_pos c)) (take (unat (cs_len c)) (cs_bytes c))"

definition cs_advance :: "chunk_size \<Rightarrow> nat \<Rightarrow> chunk_size option" where
  "cs_advance c cnt =
     (if cnt \<le> cs_remaining c then Some (c\<lparr>cs_pos := cs_pos c + of_nat cnt\<rparr>) else None)"

section \<open>Encoded buffers\<close>

datatype 'b encoded_buf =
    Exact 'b
  | Limited "'b \<times> nat"
  | ChunkedBuf "(chunk_size \<times> 'b) \<times> byte list"
  | ChunkedEnd "byte list"
  | TrailersBuf "(byte list \<times> byte list) \<times> byte list"

text \<open>The methods of the adapters the encoder uses, and of a static slice.\<close>

record 'b adapters =
  ad_take :: "('b \<times> nat) buf_api"
  ad_chunk :: "((chunk_size \<times> 'b) \<times> byte list) buf_api"
  ad_static :: "byte list buf_api"
  ad_trailers :: "((byte list \<times> byte list) \<times> byte list) buf_api"

definition eb_remaining :: "'b buf_api \<Rightarrow> 'b adapters \<Rightarrow> 'b encoded_buf \<Rightarrow> nat" where
  "eb_remaining B D e =
     (case e of
        Exact b \<Rightarrow> bf_remaining B b
      | Limited b \<Rightarrow> bf_remaining (ad_take D) b
      | ChunkedBuf b \<Rightarrow> bf_remaining (ad_chunk D) b
      | ChunkedEnd b \<Rightarrow> bf_remaining (ad_static D) b
      | TrailersBuf b \<Rightarrow> bf_remaining (ad_trailers D) b)"

definition eb_chunk :: "'b buf_api \<Rightarrow> 'b adapters \<Rightarrow> 'b encoded_buf \<Rightarrow> byte list" where
  "eb_chunk B D e =
     (case e of
        Exact b \<Rightarrow> bf_chunk B b
      | Limited b \<Rightarrow> bf_chunk (ad_take D) b
      | ChunkedBuf b \<Rightarrow> bf_chunk (ad_chunk D) b
      | ChunkedEnd b \<Rightarrow> bf_chunk (ad_static D) b
      | TrailersBuf b \<Rightarrow> bf_chunk (ad_trailers D) b)"

definition eb_advance ::
    "'b buf_api \<Rightarrow> 'b adapters \<Rightarrow> 'b encoded_buf \<Rightarrow> nat \<Rightarrow> 'b encoded_buf option" where
  "eb_advance B D e cnt =
     (case e of
        Exact b \<Rightarrow> map_option Exact (bf_advance B b cnt)
      | Limited b \<Rightarrow> map_option Limited (bf_advance (ad_take D) b cnt)
      | ChunkedBuf b \<Rightarrow> map_option ChunkedBuf (bf_advance (ad_chunk D) b cnt)
      | ChunkedEnd b \<Rightarrow> map_option ChunkedEnd (bf_advance (ad_static D) b cnt)
      | TrailersBuf b \<Rightarrow> map_option TrailersBuf (bf_advance (ad_trailers D) b cnt))"

definition eb_chunks_vectored ::
    "'b buf_api \<Rightarrow> 'b adapters \<Rightarrow> 'b encoded_buf \<Rightarrow> nat \<Rightarrow> byte list list" where
  "eb_chunks_vectored B D e n =
     (case e of
        Exact b \<Rightarrow> bf_chunks_vectored B b n
      | Limited b \<Rightarrow> bf_chunks_vectored (ad_take D) b n
      | ChunkedBuf b \<Rightarrow> bf_chunks_vectored (ad_chunk D) b n
      | ChunkedEnd b \<Rightarrow> bf_chunks_vectored (ad_static D) b n
      | TrailersBuf b \<Rightarrow> bf_chunks_vectored (ad_trailers D) b n)"

text \<open>\<^verbatim>\<open>copy_to_bytes\<close> is the default of the trait, the parameter \<open>copy\<close>.\<close>

definition eb_api ::
    "'b buf_api \<Rightarrow> 'b adapters \<Rightarrow>
     ('b encoded_buf \<Rightarrow> nat \<Rightarrow> (byte list \<times> 'b encoded_buf) option) \<Rightarrow> 'b encoded_buf buf_api" where
  "eb_api B D copy =
     \<lparr>bf_remaining = eb_remaining B D, bf_chunk = eb_chunk B D, bf_advance = eb_advance B D,
      bf_chunks_vectored = eb_chunks_vectored B D, bf_copy_to_bytes = copy\<rparr>"

section \<open>Encoder\<close>

datatype encoder_kind = EncChunked "header_name list option" | EncLength u64

record encoder =
  enc_kind :: encoder_kind
  enc_is_last :: bool

datatype not_eof = NotEof u64

definition encoder_new :: "encoder_kind \<Rightarrow> encoder" where
  "encoder_new kind = \<lparr>enc_kind = kind, enc_is_last = False\<rparr>"

definition encoder_chunked :: encoder where
  "encoder_chunked = encoder_new (EncChunked None)"

definition encoder_length :: "u64 \<Rightarrow> encoder" where
  "encoder_length len = encoder_new (EncLength len)"

definition into_chunked_with_trailing_fields :: "encoder \<Rightarrow> header_name list \<Rightarrow> encoder" where
  "into_chunked_with_trailing_fields e trailers =
     (case enc_kind e of
        EncChunked _ \<Rightarrow> \<lparr>enc_kind = EncChunked (Some trailers), enc_is_last = enc_is_last e\<rparr>
      | EncLength _ \<Rightarrow> e)"

definition encoder_is_eof :: "encoder \<Rightarrow> bool" where
  "encoder_is_eof e = (enc_kind e = EncLength 0)"

definition encoder_is_last :: "encoder \<Rightarrow> bool" where
  "encoder_is_last e = enc_is_last e"

definition encoder_is_close_delimited :: "encoder \<Rightarrow> bool" where
  "encoder_is_close_delimited e = False"

definition encoder_is_chunked :: "encoder \<Rightarrow> bool" where
  "encoder_is_chunked e = (case enc_kind e of EncChunked _ \<Rightarrow> True | EncLength _ \<Rightarrow> False)"

definition encoder_end :: "encoder \<Rightarrow> not_eof + 'b encoded_buf option" where
  "encoder_end e =
     (case enc_kind e of
        EncLength n \<Rightarrow> if n = 0 then Inr None else Inl (NotEof n)
      | EncChunked _ \<Rightarrow> Inr (Some (ChunkedEnd [48, 13, 10, 13, 10])))"

text \<open>\<^verbatim>\<open>encode\<close>: \<open>None\<close> is the panic of \<^verbatim>\<open>ChunkSize::new\<close>.\<close>

definition encode :: "'b buf_api \<Rightarrow> encoder \<Rightarrow> 'b \<Rightarrow> ('b encoded_buf \<times> encoder) option" where
  "encode B e msg =
     (let len = bf_remaining B msg in
      case enc_kind e of
        EncChunked _ \<Rightarrow>
          map_option (\<lambda>cs. (ChunkedBuf ((cs, msg), [13, 10]), e)) (chunk_size_new len)
      | EncLength remaining \<Rightarrow>
          (if of_nat len > remaining then
             Some (Limited (msg, unat remaining), e\<lparr>enc_kind := EncLength 0\<rparr>)
           else Some (Exact msg, e\<lparr>enc_kind := EncLength (remaining - of_nat len)\<rparr>)))"

definition is_valid_trailer_field :: "header_name \<Rightarrow> bool" where
  "is_valid_trailer_field name =
     (name \<notin> {AUTHORIZATION, CACHE_CONTROL, CONTENT_ENCODING, CONTENT_LENGTH, CONTENT_RANGE,
       CONTENT_TYPE, HOST, MAX_FORWARDS, SET_COOKIE, TRAILER, TRANSFER_ENCODING, TE})"

fun write_headers_loop :: "(header_name \<times> header_value) list \<Rightarrow> byte list \<Rightarrow> byte list" where
  "write_headers_loop [] dst = dst"
| "write_headers_loop ((name, value) # es) dst =
     write_headers_loop es (dst @ name @ [58, 32] @ value @ [13, 10])"

definition write_headers :: "'m http_api \<Rightarrow> 'm \<Rightarrow> byte list \<Rightarrow> byte list" where
  "write_headers A headers dst = write_headers_loop (hm_iter A headers) dst"

text \<open>The loop of \<^verbatim>\<open>encode_trailers\<close>: \<open>None\<close> is the panic on an entry with no name so far.\<close>

fun allowed_trailers_loop ::
    "'m http_api \<Rightarrow> header_name list \<Rightarrow> (header_name option \<times> header_value) list \<Rightarrow>
     header_name option \<Rightarrow> 'm \<Rightarrow> 'm option" where
  "allowed_trailers_loop A allowed [] cur_name allowed_trailers = Some allowed_trailers"
| "allowed_trailers_loop A allowed ((opt_name, value) # es) cur_name allowed_trailers =
     (let cur' = (if opt_name = None then cur_name else opt_name) in
      case cur' of
        None \<Rightarrow> None
      | Some name \<Rightarrow>
          allowed_trailers_loop A allowed es cur'
            (if name \<in> set allowed \<and> is_valid_trailer_field name
             then hm_append A allowed_trailers name value else allowed_trailers))"

definition encode_trailers ::
    "'m http_api \<Rightarrow> encoder \<Rightarrow> 'm \<Rightarrow> 'b encoded_buf option option" where
  "encode_trailers A e trailers =
     (case enc_kind e of
        EncChunked (Some allowed) \<Rightarrow>
          (case allowed_trailers_loop A allowed (hm_into_iter A trailers) None (hm_empty A) of
             None \<Rightarrow> None
           | Some allowed_trailers \<Rightarrow>
               (let buf = write_headers A allowed_trailers [] in
                Some (if buf = [] then None
                      else Some (TrailersBuf (([48, 13, 10], buf), [13, 10])))))
      | EncChunked None \<Rightarrow> Some None
      | EncLength _ \<Rightarrow> Some None)"

text \<open>
  \<^verbatim>\<open>encode_and_end\<close> into the write buffer of the connection, whose buffers are encoded buffers.
\<close>

definition encode_and_end ::
    "'b buf_api \<Rightarrow> 'b adapters \<Rightarrow>
     ('b encoded_buf \<Rightarrow> nat \<Rightarrow> (byte list \<times> 'b encoded_buf) option) \<Rightarrow>
     encoder \<Rightarrow> 'b \<Rightarrow> 'b encoded_buf write_buf \<Rightarrow> (bool \<times> 'b encoded_buf write_buf) option option" where
  "encode_and_end B D copy e msg dst =
     (let E = eb_api B D copy; len = bf_remaining B msg in
      case enc_kind e of
        EncChunked _ \<Rightarrow>
          (case chunk_size_new len of
             None \<Rightarrow> Some None
           | Some cs \<Rightarrow>
               map_option (map_option (\<lambda>dst'. (\<not> enc_is_last e, dst')))
                 (wb_buffer E (ad_chunk D) ChunkedBuf dst
                    ((cs, msg), [13, 10, 48, 13, 10, 13, 10])))
      | EncLength remaining \<Rightarrow>
          (if of_nat len = remaining then
             map_option (map_option (\<lambda>dst'. (\<not> enc_is_last e, dst'))) (wb_buffer E B Exact dst msg)
           else if of_nat len > remaining then
             map_option (map_option (\<lambda>dst'. (\<not> enc_is_last e, dst')))
               (wb_buffer E (ad_take D) Limited dst (msg, unat remaining))
           else map_option (map_option (\<lambda>dst'. (False, dst'))) (wb_buffer E B Exact dst msg)))"

definition cs_api :: "chunk_size buf_api" where
  "cs_api =
     \<lparr>bf_remaining = cs_remaining, bf_chunk = cs_chunk, bf_advance = cs_advance,
      bf_chunks_vectored = (\<lambda>c n. if n = 0 \<or> cs_remaining c = 0 then [] else [cs_chunk c]),
      bf_copy_to_bytes = copy_by_advance cs_advance cs_chunk\<rparr>"

definition cs_ok :: "chunk_size \<Rightarrow> bool" where
  "cs_ok c \<longleftrightarrow> cs_pos c \<le> cs_len c \<and> unat (cs_len c) \<le> length (cs_bytes c)"

definition eb_contents :: "('b \<Rightarrow> byte list) \<Rightarrow> 'b encoded_buf \<Rightarrow> byte list" where
  "eb_contents contents e =
     (case e of
        Exact b \<Rightarrow> contents b
      | Limited (b, n) \<Rightarrow> take n (contents b)
      | ChunkedBuf ((c, b), s) \<Rightarrow> cs_chunk c @ contents b @ s
      | ChunkedEnd b \<Rightarrow> b
      | TrailersBuf ((x, y), z) \<Rightarrow> x @ y @ z)"

definition eb_ok :: "('b \<Rightarrow> bool) \<Rightarrow> 'b encoded_buf \<Rightarrow> bool" where
  "eb_ok ok e =
     (case e of
        Exact b \<Rightarrow> ok b
      | Limited (b, n) \<Rightarrow> ok b
      | ChunkedBuf ((c, b), s) \<Rightarrow> cs_ok c \<and> ok b
      | ChunkedEnd b \<Rightarrow> True
      | TrailersBuf b \<Rightarrow> True)"

text \<open>An instance of the adapters for byte slices.\<close>

definition chain_api ::
    "'x buf_api \<Rightarrow> 'y buf_api \<Rightarrow> ('x \<Rightarrow> byte list) \<Rightarrow> ('y \<Rightarrow> byte list) \<Rightarrow> ('x \<times> 'y) buf_api" where
  "chain_api X Y cx cy =
     (let adv = (\<lambda>(a, b) n.
            let k = min n (bf_remaining X a) in
            case (bf_advance X a k, bf_advance Y b (n - k)) of
              (Some a', Some b') \<Rightarrow> Some (a', b') | _ \<Rightarrow> None)
      in \<lparr>bf_remaining = (\<lambda>(a, b). bf_remaining X a + bf_remaining Y b),
          bf_chunk = (\<lambda>(a, b). if bf_remaining X a > 0 then bf_chunk X a else bf_chunk Y b),
          bf_advance = adv,
          bf_chunks_vectored = (\<lambda>(a, b) n.
            let vs = bf_chunks_vectored X a n in vs @ bf_chunks_vectored Y b (n - length vs)),
          bf_copy_to_bytes = copy_by_advance adv (\<lambda>(a, b). cx a @ cy b)\<rparr>)"

definition take_slice_api :: "(byte list \<times> nat) buf_api" where
  "take_slice_api =
     (let adv = (\<lambda>(b, n) k. if k \<le> length (take n b) then Some (drop k b, n - k) else None) in
      \<lparr>bf_remaining = (\<lambda>(b, n). length (take n b)), bf_chunk = (\<lambda>(b, n). take n b), bf_advance = adv,
       bf_chunks_vectored = (\<lambda>(b, n) k. if k = 0 \<or> take n b = [] then [] else [take n b]),
       bf_copy_to_bytes = copy_by_advance adv (\<lambda>(b, n). take n b)\<rparr>)"

definition slice_adapters :: "byte list adapters" where
  "slice_adapters =
     \<lparr>ad_take = take_slice_api,
      ad_chunk = chain_api (chain_api cs_api slice_api cs_chunk (\<lambda>b. b)) slice_api
        (\<lambda>(c, b). cs_chunk c @ b) (\<lambda>b. b),
      ad_static = slice_api,
      ad_trailers = chain_api (chain_api slice_api slice_api (\<lambda>b. b) (\<lambda>b. b)) slice_api
        (\<lambda>(x, y). x @ y) (\<lambda>b. b)\<rparr>"

fun encode_all ::
    "'b buf_api \<Rightarrow> encoder \<Rightarrow> 'b list \<Rightarrow> ('b encoded_buf list \<times> encoder) option" where
  "encode_all B e [] = Some ([], e)"
| "encode_all B e (msg # msgs) =
     (case encode B e msg of
        None \<Rightarrow> None
      | Some (b, e') \<Rightarrow> map_option (\<lambda>(bs, e''). (b # bs, e'')) (encode_all B e' msgs))"

definition encoded_bytes :: "('b \<Rightarrow> byte list) \<Rightarrow> 'b encoded_buf list \<Rightarrow> byte list" where
  "encoded_bytes contents bs = concat (map (eb_contents contents) bs)"

definition chunk_of :: "byte list \<Rightarrow> size_line \<times> byte list" where
  "chunk_of d = (\<lparr>ln_digits = hex_upper (length d), ln_lws = [], ln_ext = None\<rparr>, d)"

definition message_of :: "byte list list \<Rightarrow> chunked_message" where
  "message_of ds = \<lparr>cm_chunks = map chunk_of ds,
     cm_last = \<lparr>ln_digits = [48], ln_lws = [], ln_ext = None\<rparr>, cm_trailers = []\<rparr>"

definition field_line :: "header_name \<times> header_value \<Rightarrow> byte list" where
  "field_line f = fst f @ [58, 32] @ snd f @ [13, 10]"

definition trailer_allowed :: "header_name list \<Rightarrow> header_name \<Rightarrow> bool" where
  "trailer_allowed allowed k \<longleftrightarrow> k \<in> set allowed \<and> is_valid_trailer_field k"

text \<open>The documented behaviour of the adapters.\<close>

locale encoded_bufs = byte_buf +
  fixes D :: "'a adapters"
    and copy :: "'a encoded_buf \<Rightarrow> nat \<Rightarrow> (byte list \<times> 'a encoded_buf) option"
  assumes take_buf: "byte_buf (ad_take D) (\<lambda>(b, n). take n (contents b)) (\<lambda>(b, n). ok b)"
    and chunk_buf: "byte_buf (ad_chunk D) (\<lambda>((c, b), s). cs_chunk c @ contents b @ s)
          (\<lambda>((c, b), s). cs_ok c \<and> ok b)"
    and static_buf: "byte_buf (ad_static D) (\<lambda>b. b) (\<lambda>b. True)"
    and trailers_buf: "byte_buf (ad_trailers D) (\<lambda>((x, y), z). x @ y @ z) (\<lambda>b. True)"
    and encoded_copy: "\<lbrakk>eb_ok ok e; n \<le> length (eb_contents contents e)\<rbrakk> \<Longrightarrow>
          \<exists>e'. copy e n = Some (take n (eb_contents contents e), e') \<and> eb_ok ok e' \<and>
               eb_contents contents e' = drop n (eb_contents contents e)"

lemma cs_chunk_length: "cs_ok c \<Longrightarrow> length (cs_chunk c) = cs_remaining c"
  by (simp add: cs_chunk_def cs_remaining_def cs_ok_def unat_minus_le)

interpretation cs_buf: byte_buf cs_api cs_chunk cs_ok
proof
  fix c :: chunk_size and n :: nat
  assume ok: "cs_ok c"
  note len = cs_chunk_length [OF ok]
  show "bf_remaining cs_api c = length (cs_chunk c)" by (simp add: cs_api_def len)
  have adv: "\<exists>c'. cs_advance c n = Some c' \<and> cs_ok c' \<and> cs_chunk c' = drop n (cs_chunk c)"
    if "n \<le> length (cs_chunk c)"
  proof -
    have le: "n \<le> unat (cs_len c) - unat (cs_pos c)" "unat (cs_pos c) \<le> unat (cs_len c)"
      using that ok by (auto simp: len cs_remaining_def cs_ok_def unat_minus_le word_le_nat_alt)
    then have "unat (cs_pos c + of_nat n) = unat (cs_pos c) + n"
      using unat_less_pow [of "cs_len c"] by (simp add: unat_word_ariths unat_of_nat del: unat_byte_less)
    then show ?thesis
      using le ok that
      by (simp add: cs_advance_def len [symmetric] cs_ok_def word_le_nat_alt cs_chunk_def add.commute)
  qed
  then show "n \<le> length (cs_chunk c) \<Longrightarrow>
      \<exists>c'. bf_advance cs_api c n = Some c' \<and> cs_ok c' \<and> cs_chunk c' = drop n (cs_chunk c)"
    by (simp add: cs_api_def)
  show "n \<le> length (cs_chunk c) \<Longrightarrow>
      \<exists>c'. bf_copy_to_bytes cs_api c n = Some (take n (cs_chunk c), c') \<and> cs_ok c' \<and>
        cs_chunk c' = drop n (cs_chunk c)"
    using adv by (auto simp: cs_api_def copy_by_advance_def)
  show "\<exists>ys. cs_chunk c = concat (bf_chunks_vectored cs_api c n) @ ys"
    "length (bf_chunks_vectored cs_api c n) < n \<Longrightarrow>
       concat (bf_chunks_vectored cs_api c n) = cs_chunk c"
    using len by (auto simp: cs_api_def)
qed (auto simp: cs_api_def)

lemma eb_advance_ok:
  assumes "byte_buf B contents ok"
    and "byte_buf (ad_take D) (\<lambda>(b, n). take n (contents b)) (\<lambda>(b, n). ok b)"
    and "byte_buf (ad_chunk D) (\<lambda>((c, b), s). cs_chunk c @ contents b @ s)
          (\<lambda>((c, b), s). cs_ok c \<and> ok b)"
    and "byte_buf (ad_static D) (\<lambda>b. b) (\<lambda>b. True)"
    and "byte_buf (ad_trailers D) (\<lambda>((x, y), z). x @ y @ z) (\<lambda>b. True)"
    and "eb_ok ok e" "n \<le> length (eb_contents contents e)"
  shows "\<exists>e'. eb_advance B D e n = Some e' \<and> eb_ok ok e' \<and>
    eb_contents contents e' = drop n (eb_contents contents e)"
proof (cases e)
  case (Exact b)
  then show ?thesis using byte_buf.advance_drop [OF assms(1), of b n] assms(6,7)
    by (auto simp: eb_advance_def eb_ok_def eb_contents_def)
next
  case (Limited b)
  then show ?thesis using byte_buf.advance_drop [OF assms(2), of b n] assms(6,7)
    by (auto simp: eb_advance_def eb_ok_def eb_contents_def)
next
  case (ChunkedBuf b)
  then show ?thesis using byte_buf.advance_drop [OF assms(3), of b n] assms(6,7)
    by (auto simp: eb_advance_def eb_ok_def eb_contents_def)
next
  case (ChunkedEnd b)
  then show ?thesis using byte_buf.advance_drop [OF assms(4), where b = b and n = n] assms(6,7)
    by (auto simp: eb_advance_def eb_ok_def eb_contents_def)
next
  case (TrailersBuf b)
  then show ?thesis using byte_buf.advance_drop [OF assms(5), where b = b and n = n] assms(6,7)
    by (cases b; cases "fst b") (auto simp: eb_advance_def eb_ok_def eb_contents_def)
qed

sublocale encoded_bufs \<subseteq> eb: byte_buf "eb_api B D copy" "eb_contents contents" "eb_ok ok"
proof
  fix e :: "'a encoded_buf" and n :: nat
  assume ok: "eb_ok ok e"
  note eb = eb_api_def eb_contents_def eb_ok_def
  show "bf_remaining (eb_api B D copy) e = length (eb_contents contents e)"
    using ok byte_buf.remaining_contents [OF take_buf] byte_buf.remaining_contents [OF chunk_buf]
      byte_buf.remaining_contents [OF static_buf] byte_buf.remaining_contents [OF trailers_buf]
      remaining_contents
    by (cases e) (auto simp: eb eb_remaining_def)
  show "\<exists>ys. eb_contents contents e = bf_chunk (eb_api B D copy) e @ ys"
    using ok byte_buf.chunk_prefix [OF take_buf] byte_buf.chunk_prefix [OF chunk_buf]
      byte_buf.chunk_prefix [OF static_buf] byte_buf.chunk_prefix [OF trailers_buf] chunk_prefix
    by (cases e) (fastforce simp: eb eb_chunk_def)+
  show "bf_chunk (eb_api B D copy) e = [] \<longleftrightarrow> eb_contents contents e = []"
    using ok byte_buf.chunk_empty [OF take_buf] byte_buf.chunk_empty [OF chunk_buf]
      byte_buf.chunk_empty [OF static_buf] byte_buf.chunk_empty [OF trailers_buf] chunk_empty
    by (cases e) (auto simp: eb eb_chunk_def)
  show "n \<le> length (eb_contents contents e) \<Longrightarrow>
      \<exists>e'. bf_advance (eb_api B D copy) e n = Some e' \<and> eb_ok ok e' \<and>
        eb_contents contents e' = drop n (eb_contents contents e)"
    using eb_advance_ok [OF byte_buf_axioms take_buf chunk_buf static_buf trailers_buf ok]
    by (simp add: eb_api_def)
  show "\<exists>ys. eb_contents contents e = concat (bf_chunks_vectored (eb_api B D copy) e n) @ ys"
    using ok byte_buf.vectored_prefix [OF take_buf, where n = n] byte_buf.vectored_prefix [OF chunk_buf, where n = n]
      byte_buf.vectored_prefix [OF static_buf, where n = n] byte_buf.vectored_prefix [OF trailers_buf, where n = n]
      vectored_prefix [where n = n]
    by (cases e) (fastforce simp: eb eb_chunks_vectored_def)+
  show "length (bf_chunks_vectored (eb_api B D copy) e n) \<le> n"
    using ok byte_buf.vectored_length [OF take_buf, where n = n] byte_buf.vectored_length [OF chunk_buf, where n = n]
      byte_buf.vectored_length [OF static_buf, where n = n] byte_buf.vectored_length [OF trailers_buf, where n = n]
      vectored_length [where n = n]
    by (cases e) (auto simp: eb eb_chunks_vectored_def)
  show "length (bf_chunks_vectored (eb_api B D copy) e n) < n \<Longrightarrow>
      concat (bf_chunks_vectored (eb_api B D copy) e n) = eb_contents contents e"
    using ok byte_buf.vectored_all [OF take_buf, where n = n] byte_buf.vectored_all [OF chunk_buf, where n = n]
      byte_buf.vectored_all [OF static_buf, where n = n] byte_buf.vectored_all [OF trailers_buf, where n = n]
      vectored_all [where n = n]
    by (cases e) (auto simp: eb eb_chunks_vectored_def)
  show "n \<le> length (eb_contents contents e) \<Longrightarrow>
      \<exists>e'. bf_copy_to_bytes (eb_api B D copy) e n = Some (take n (eb_contents contents e), e') \<and>
        eb_ok ok e' \<and> eb_contents contents e' = drop n (eb_contents contents e)"
    using encoded_copy [OF ok] by (simp add: eb_api_def)
qed

section \<open>Adapters over slices\<close>

lemma chain_buf:
  assumes X: "byte_buf X cx okx" and Y: "byte_buf Y cy oky"
  shows "byte_buf (chain_api X Y cx cy) (\<lambda>(a, b). cx a @ cy b) (\<lambda>(a, b). okx a \<and> oky b)"
proof
  fix p :: "'a \<times> 'b" and n :: nat
  obtain a b where p: "p = (a, b)" by force
  assume "case p of (a, b) \<Rightarrow> okx a \<and> oky b"
  then have ok: "okx a" "oky b" using p by auto
  note rx = byte_buf.remaining_contents [OF X ok(1)] and ry = byte_buf.remaining_contents [OF Y ok(2)]
  note sel = chain_api_def Let_def
  show "bf_remaining (chain_api X Y cx cy) p = length (case p of (a, b) \<Rightarrow> cx a @ cy b)"
    by (simp add: sel p rx ry)
  show "\<exists>ys. (case p of (a, b) \<Rightarrow> cx a @ cy b) = bf_chunk (chain_api X Y cx cy) p @ ys"
    using byte_buf.chunk_prefix [OF X ok(1)] byte_buf.chunk_prefix [OF Y ok(2)] by (auto simp: sel p rx)
  show "bf_chunk (chain_api X Y cx cy) p = [] \<longleftrightarrow> (case p of (a, b) \<Rightarrow> cx a @ cy b) = []"
    using byte_buf.chunk_empty [OF X ok(1)] byte_buf.chunk_empty [OF Y ok(2)] by (auto simp: sel p rx)
  let ?vs = "bf_chunks_vectored X a n"
  note vx = byte_buf.vectored_length [OF X ok(1), of n] byte_buf.vectored_all [OF X ok(1), of n]
    byte_buf.vectored_prefix [OF X ok(1), of n]
  note vy = byte_buf.vectored_length [OF Y ok(2), of "n - length ?vs"]
    byte_buf.vectored_all [OF Y ok(2), of "n - length ?vs"] byte_buf.vectored_prefix [OF Y ok(2), of "n - length ?vs"]
  show "length (bf_chunks_vectored (chain_api X Y cx cy) p n) \<le> n"
    using vx vy by (auto simp: sel p)
  show "\<exists>ys. (case p of (a, b) \<Rightarrow> cx a @ cy b) = concat (bf_chunks_vectored (chain_api X Y cx cy) p n) @ ys"
    using vx vy by (cases "length ?vs = n") (auto simp: sel p)
  show "length (bf_chunks_vectored (chain_api X Y cx cy) p n) < n \<Longrightarrow>
      concat (bf_chunks_vectored (chain_api X Y cx cy) p n) = (case p of (a, b) \<Rightarrow> cx a @ cy b)"
    using vx vy by (auto simp: sel p)
  assume n: "n \<le> length (case p of (a, b) \<Rightarrow> cx a @ cy b)"
  let ?k = "min n (length (cx a))"
  have "n - ?k \<le> length (cy b)" using n p by auto
  then obtain a' b' where "bf_advance X a ?k = Some a'" "okx a'" "cx a' = drop ?k (cx a)"
      "bf_advance Y b (n - ?k) = Some b'" "oky b'" "cy b' = drop (n - ?k) (cy b)"
    using byte_buf.advance_drop [OF X ok(1), of ?k] byte_buf.advance_drop [OF Y ok(2), of "n - ?k"]
    by auto
  then have adv: "bf_advance (chain_api X Y cx cy) p n = Some (a', b')" "okx a'" "oky b'"
      "cx a' @ cy b' = drop n (cx a @ cy b)"
    using n p by (auto simp: sel rx min_def)
  then show "\<exists>q. bf_advance (chain_api X Y cx cy) p n = Some q \<and> (case q of (a, b) \<Rightarrow> okx a \<and> oky b) \<and>
      (case q of (a, b) \<Rightarrow> cx a @ cy b) = drop n (case p of (a, b) \<Rightarrow> cx a @ cy b)"
    using p by simp
  show "\<exists>q. bf_copy_to_bytes (chain_api X Y cx cy) p n = Some (take n (case p of (a, b) \<Rightarrow> cx a @ cy b), q) \<and>
      (case q of (a, b) \<Rightarrow> okx a \<and> oky b) \<and>
      (case q of (a, b) \<Rightarrow> cx a @ cy b) = drop n (case p of (a, b) \<Rightarrow> cx a @ cy b)"
    using adv p by (simp add: sel copy_by_advance_def)
qed

lemma take_slice_buf: "byte_buf take_slice_api (\<lambda>(b, n). take n b) (\<lambda>(b, n). True)"
  by unfold_locales (auto simp: take_slice_api_def copy_by_advance_def drop_take Let_def)

interpretation slice_encoded: encoded_bufs slice_api "\<lambda>b. b" "\<lambda>b. True" slice_adapters
  "copy_by_advance (eb_advance slice_api slice_adapters) (eb_contents (\<lambda>b. b))"
proof -
  have t: "byte_buf (ad_take slice_adapters) (\<lambda>(b, n). take n b) (\<lambda>(b, n). True)"
    by (simp add: slice_adapters_def take_slice_buf)
  have c: "byte_buf (ad_chunk slice_adapters) (\<lambda>((c, b), s). cs_chunk c @ b @ s) (\<lambda>((c, b), s). cs_ok c \<and> True)"
    using chain_buf [OF chain_buf [OF cs_buf.byte_buf_axioms slice_buf.byte_buf_axioms] slice_buf.byte_buf_axioms]
    by (simp add: slice_adapters_def case_prod_beta' del: split_paired_All)
  have s: "byte_buf (ad_static slice_adapters) (\<lambda>b. b) (\<lambda>b. True)"
    by (simp add: slice_adapters_def slice_buf.byte_buf_axioms)
  have r: "byte_buf (ad_trailers slice_adapters) (\<lambda>((x, y), z). x @ y @ z) (\<lambda>b. True)"
    using chain_buf [OF chain_buf [OF slice_buf.byte_buf_axioms slice_buf.byte_buf_axioms] slice_buf.byte_buf_axioms]
    by (simp add: slice_adapters_def case_prod_beta')
  show "encoded_bufs slice_api (\<lambda>b. b) (\<lambda>b. True) slice_adapters
    (copy_by_advance (eb_advance slice_api slice_adapters) (eb_contents (\<lambda>b. b)))"
    by (intro encoded_bufs.intro encoded_bufs_axioms.intro slice_buf.byte_buf_axioms t c s r)
       (auto simp: copy_by_advance_def dest: eb_advance_ok [OF slice_buf.byte_buf_axioms t c s r])
qed

section \<open>Lemmas\<close>

lemma hex_digit_nibble: "d < 16 \<Longrightarrow> hex_nibble (hex_digit d) = Some (of_nat d)"
proof -
  assume "d < 16"
  then have "d \<in> {0, 1, 2, 3, 4, 5, 6, 7, 8, 9, 10, 11, 12, 13, 14, 15}" by (simp; presburger)
  then show ?thesis by (elim insertE) (simp_all add: hex_digit_def hex_nibble_def)
qed

lemma hex_val_append: "hex_val v (xs @ ys) = hex_val (hex_val v xs) ys"
  by (induction xs arbitrary: v) simp_all

lemma hex_upper_value:
  "hex_val 0 (hex_upper n) = n \<and> list_all (\<lambda>b. hex_nibble b \<noteq> None) (hex_upper n)"
proof (induction n rule: hex_upper.induct)
  case (1 n)
  have d: "hex_nat (hex_digit d) = d" if "d < 16" for d
    using that by (simp add: hex_nat_def hex_digit_nibble unat_of_nat)
  show ?case
    using 1 d [of n] d [of "n mod 16"]
    by (subst hex_upper.simps, subst (2) hex_upper.simps)
       (simp add: hex_val_append hex_digit_nibble)
qed

lemma hex_upper_length: "n < 16 ^ Suc k \<Longrightarrow> length (hex_upper n) \<le> Suc k"
proof (induction k arbitrary: n)
  case 0
  then show ?case by (subst hex_upper.simps) simp
next
  case (Suc k)
  then have "n div 16 < 16 ^ Suc k" by (simp add: div_less_iff_less_mult)
  then show ?case using Suc.IH by (subst hex_upper.simps) simp
qed

lemma chunk_size_new_ok:
  assumes "n < 2 ^ 64"
  shows "\<exists>cs. chunk_size_new n = Some cs \<and> cs_ok cs \<and> cs_chunk cs = hex_upper n @ [13, 10]"
proof -
  have le: "length (hex_upper n) \<le> 16" using hex_upper_length [of n 15] assms by simp
  let ?h = "hex_upper n"
  have u: "unat (of_nat (length ?h) :: byte) = length ?h" using le by (intro unat_of_nat_byte) simp
  have u2: "unat (of_nat (length ?h) + 2 :: byte) = length ?h + 2"
    using le u by (simp add: unat_word_ariths)
  have "take (length ?h) (take 0 xs @ ?h @ ys) = ?h" for xs ys :: "byte list" by simp
  then show ?thesis
    using le u u2
    by (simp add: chunk_size_new_def write_str_def Let_def CHUNK_SIZE_MAX_BYTES_def cs_ok_def cs_chunk_def
        word_le_nat_alt)
qed

context byte_buf
begin

lemma encode_chunked:
  assumes "ok msg" "length (contents msg) < 2 ^ 64" "enc_kind e = EncChunked t"
  shows "\<exists>b. encode B e msg = Some (b, e) \<and> eb_ok ok b \<and>
    eb_contents contents b = render_chunk (chunk_of (contents msg))"
  using chunk_size_new_ok [OF assms(2)] assms remaining_contents [OF assms(1)]
  by (auto simp: encode_def eb_ok_def eb_contents_def render_chunk_def chunk_of_def render_line_def)

lemma encode_all_chunked:
  assumes "list_all (\<lambda>m. ok m \<and> length (contents m) < 2 ^ 64) msgs" "enc_kind e = EncChunked t"
  shows "\<exists>bs. encode_all B e msgs = Some (bs, e) \<and>
    encoded_bytes contents bs = concat (map render_chunk (map chunk_of (map contents msgs)))"
  using assms(1)
proof (induction msgs)
  case (Cons m ms)
  then show ?case using encode_chunked [of m e t] assms(2) by (auto simp: encoded_bytes_def)
qed (simp add: encoded_bytes_def)

lemma encode_length:
  assumes "ok msg" "length (contents msg) < 2 ^ 64" "enc_kind e = EncLength n"
  shows "\<exists>b k. encode B e msg = Some (b, e\<lparr>enc_kind := EncLength k\<rparr>) \<and>
    eb_contents contents b = take (unat n) (contents msg) \<and>
    unat k = unat n - length (contents msg)"
proof -
  let ?k = "of_nat (length (contents msg)) :: u64"
  have u: "unat ?k = length (contents msg)" using unat_of_nat_u64 [OF assms(2)] .
  have enc: "encode B e msg = (if ?k > n then Some (Limited (msg, unat n), e\<lparr>enc_kind := EncLength 0\<rparr>)
      else Some (Exact msg, e\<lparr>enc_kind := EncLength (n - ?k)\<rparr>))"
    using assms remaining_contents [OF assms(1)] by (simp add: encode_def Let_def)
  show ?thesis
  proof (cases "?k > n")
    case True
    then have "unat n \<le> length (contents msg)" using u by (simp add: word_less_nat_alt)
    then show ?thesis using True
      by (intro exI [of _ "Limited (msg, unat n)"] exI [of _ 0]) (simp add: enc eb_contents_def)
  next
    case False
    then have "length (contents msg) \<le> unat n" "unat (n - ?k) = unat n - length (contents msg)"
      using u by (simp_all add: not_less unat_minus_le word_le_nat_alt)
    then show ?thesis using False
      by (intro exI [of _ "Exact msg"] exI [of _ "n - ?k"]) (simp add: enc eb_contents_def)
  qed
qed

lemma encode_all_length:
  assumes "list_all (\<lambda>m. ok m \<and> length (contents m) < 2 ^ 64) msgs" "enc_kind e = EncLength n"
  shows "\<exists>bs k. encode_all B e msgs = Some (bs, e\<lparr>enc_kind := EncLength k\<rparr>) \<and>
    encoded_bytes contents bs = take (unat n) (concat (map contents msgs)) \<and>
    unat k = unat n - length (concat (map contents msgs))"
  using assms
proof (induction msgs arbitrary: e n)
  case Nil
  then show ?case by (cases e) (auto simp: encoded_bytes_def)
next
  case (Cons m ms)
  obtain b k where b: "encode B e m = Some (b, e\<lparr>enc_kind := EncLength k\<rparr>)"
      "eb_contents contents b = take (unat n) (contents m)" "unat k = unat n - length (contents m)"
    using encode_length [of m e n] Cons.prems by auto
  obtain bs j where "encode_all B (e\<lparr>enc_kind := EncLength k\<rparr>) ms =
        Some (bs, e\<lparr>enc_kind := EncLength j\<rparr>)"
      "encoded_bytes contents bs = take (unat k) (concat (map contents ms))"
      "unat j = unat k - length (concat (map contents ms))"
    using Cons.IH [of "e\<lparr>enc_kind := EncLength k\<rparr>" k] Cons.prems by auto
  then show ?case using b by (auto simp: encoded_bytes_def)
qed

end

lemma message_of_ok:
  assumes "list_all (\<lambda>d. d \<noteq> [] \<and> length d < 2 ^ 64) ds"
  shows "message_ok mh mb (message_of ds)"
proof -
  have "list_all (\<lambda>(l, d). line_ok l (length d) \<and> d \<noteq> []) (map chunk_of ds)"
    using assms hex_upper_value by (auto simp: list_all_iff chunk_of_def line_ok_def ext_bytes_def)
  moreover have "ext_total (message_of ds) = 0"
    by (induction ds) (simp_all add: ext_total_def message_of_def chunk_of_def ext_bytes_def)
  moreover have "line_ok (cm_last (message_of ds)) 0"
    by (simp add: message_of_def line_ok_def ext_bytes_def hex_nat_def hex_nibble_def)
  ultimately show ?thesis by (simp add: message_ok_def message_of_def)
qed

lemma message_of_data: "message_data (message_of ds) = concat ds"
  by (simp add: message_data_def message_of_def chunk_of_def comp_def)

lemma message_of_render:
  "render (message_of ds) = concat (map render_chunk (map chunk_of ds)) @ [48, 13, 10, 13, 10]"
  by (simp add: render_def message_of_def render_line_def render_trailers_def)

lemma message_of_trailers: "cm_trailers (message_of ds) = []"
  by (simp add: message_of_def)

lemma write_headers_lines: "write_headers_loop es dst = dst @ concat (map field_line es)"
  by (induction es arbitrary: dst) (auto simp: field_line_def)

context http_crate
begin

lemma allowed_trailers:
  assumes "resolve_names cur es = Some xs"
  shows "\<exists>m'. allowed_trailers_loop A allowed es cur m = Some m' \<and>
    (\<forall>k. hm_get_all A m' k = hm_get_all A m k @
       (if trailer_allowed allowed k then map snd (filter (\<lambda>(n, v). n = k) xs) else []))"
  using assms
proof (induction es arbitrary: cur xs m)
  case (Cons e es)
  obtain opt v where e: "e = (opt, v)" by (cases e)
  let ?cur = "if opt = None then cur else opt"
  obtain n ys where n: "?cur = Some n" and ys: "resolve_names (Some n) es = Some ys" "xs = (n, v) # ys"
    using Cons.prems e by (auto split: option.splits if_splits)
  let ?m = "if n \<in> set allowed \<and> is_valid_trailer_field n then hm_append A m n v else m"
  obtain m' where "allowed_trailers_loop A allowed es (Some n) ?m = Some m'"
      "\<forall>k. hm_get_all A m' k = hm_get_all A ?m k @
         (if trailer_allowed allowed k then map snd (filter (\<lambda>(n, v). n = k) ys) else [])"
    using Cons.IH [OF ys(1)] by blast
  moreover have "allowed_trailers_loop A allowed (e # es) cur m =
      allowed_trailers_loop A allowed es (Some n) ?m"
    using n e by (simp add: Let_def)
  ultimately show ?case
    using ys(2) by (auto simp: get_all_append trailer_allowed_def)
qed simp

lemma encode_trailers_lines:
  assumes "enc_kind e = EncChunked (Some allowed)"
  shows "\<exists>es. (\<forall>k. map snd (filter (\<lambda>(n, v). n = k) es) =
        (if trailer_allowed allowed k then hm_get_all A trailers k else [])) \<and>
    encode_trailers A e trailers =
      Some (if es = [] then None
            else Some (TrailersBuf (([48, 13, 10], concat (map field_line es)), [13, 10])))"
proof -
  obtain m where m: "allowed_trailers_loop A allowed (hm_into_iter A trailers) None (hm_empty A) = Some m"
      "\<forall>k. hm_get_all A m k =
         (if trailer_allowed allowed k then map snd (filter (\<lambda>(n, v). n = k) (hm_iter A trailers)) else [])"
    using allowed_trailers [OF into_iter, of allowed trailers "hm_empty A"]
    by (auto simp: get_all_empty)
  have "concat (map field_line es) = [] \<longleftrightarrow> es = []" for es by (cases es) (auto simp: field_line_def)
  then show ?thesis
    using m assms
    by (intro exI [of _ "hm_iter A m"])
       (auto simp: encode_trailers_def write_headers_def write_headers_lines Let_def iter_get_all)
qed

end

context encoded_bufs
begin

lemma encode_and_end_chunked:
  assumes "enc_kind e = EncChunked t" "ok msg" "length (contents msg) < 2 ^ 64"
    "wb_ok (eb_contents contents) (eb_ok ok) dst"
  shows "\<exists>dst'. encode_and_end B D copy e msg dst = Some (Some (\<not> enc_is_last e, dst')) \<and>
    wb_ok (eb_contents contents) (eb_ok ok) dst' \<and>
    wb_contents (eb_contents contents) dst' =
      wb_contents (eb_contents contents) dst @ render (message_of [contents msg])"
proof -
  obtain cs where cs: "chunk_size_new (length (contents msg)) = Some cs" "cs_ok cs"
      "cs_chunk cs = hex_upper (length (contents msg)) @ [13, 10]"
    using chunk_size_new_ok [OF assms(3)] by blast
  let ?b = "((cs, msg), [13, 10, 48, 13, 10, 13, 10])"
  obtain dst' where "wb_buffer (eb_api B D copy) (ad_chunk D) ChunkedBuf dst ?b = Some (Some dst')"
      "wb_ok (eb_contents contents) (eb_ok ok) dst'"
      "wb_contents (eb_contents contents) dst' = wb_contents (eb_contents contents) dst @
         (cs_chunk cs @ contents msg @ [13, 10, 48, 13, 10, 13, 10])"
    using eb.wb_buffer_ok [OF chunk_buf, where b = ?b and into = ChunkedBuf and w = dst] assms cs
    by (auto simp: eb_ok_def eb_contents_def)
  then show ?thesis
    using assms cs remaining_contents [OF assms(2)]
    by (auto simp: encode_and_end_def message_of_render chunk_of_def render_chunk_def render_line_def)
qed

lemma encode_and_end_length:
  assumes "enc_kind e = EncLength n" "n \<noteq> 0" "ok msg" "contents msg \<noteq> []" "length (contents msg) < 2 ^ 64"
    "wb_ok (eb_contents contents) (eb_ok ok) dst"
  shows "\<exists>dst'. encode_and_end B D copy e msg dst =
      Some (Some (unat n \<le> length (contents msg) \<and> \<not> enc_is_last e, dst')) \<and>
    wb_ok (eb_contents contents) (eb_ok ok) dst' \<and>
    wb_contents (eb_contents contents) dst' =
      wb_contents (eb_contents contents) dst @ take (unat n) (contents msg)"
proof -
  let ?k = "of_nat (length (contents msg)) :: u64"
  have u: "unat ?k = length (contents msg)" using unat_of_nat_u64 [OF assms(5)] .
  show ?thesis
  proof (cases "?k > n")
    case True
    then have le: "unat n \<le> length (contents msg)" "?k \<noteq> n" using u by (auto simp: word_less_nat_alt)
    obtain dst' where "wb_buffer (eb_api B D copy) (ad_take D) Limited dst (msg, unat n) = Some (Some dst')"
      "wb_ok (eb_contents contents) (eb_ok ok) dst'"
      "wb_contents (eb_contents contents) dst' = wb_contents (eb_contents contents) dst @ take (unat n) (contents msg)"
      using eb.wb_buffer_ok [OF take_buf, where b = "(msg, unat n)" and into = Limited and w = dst] assms
      by (auto simp: eb_ok_def eb_contents_def unat_gt_0)
    then show ?thesis using True assms le remaining_contents [OF assms(3)]
      by (auto simp: encode_and_end_def)
  next
    case False
    then have le: "length (contents msg) \<le> unat n" "?k = n \<longleftrightarrow> unat n \<le> length (contents msg)"
      using u by (auto simp: not_less word_le_nat_alt word_unat_eq_iff)
    obtain dst' where "wb_buffer (eb_api B D copy) B Exact dst msg = Some (Some dst')"
      "wb_ok (eb_contents contents) (eb_ok ok) dst'"
      "wb_contents (eb_contents contents) dst' = wb_contents (eb_contents contents) dst @ contents msg"
      using eb.wb_buffer_ok [OF byte_buf_axioms, where b = msg and into = Exact and w = dst] assms
      by (auto simp: eb_ok_def eb_contents_def)
    then show ?thesis using False assms le remaining_contents [OF assms(3)]
      by (auto simp: encode_and_end_def)
  qed
qed

end

section \<open>Properties\<close>

text \<open>
  The chunk size line of every length a 64-bit machine can have fits its fixed array: building
  it does not panic, it is the upper-case hexadecimal length and CRLF, and the value a decoder
  reads from the digits is the length.
\<close>

theorem chunk_size_line:
  assumes "n < 2 ^ 64"
  shows "\<exists>cs. chunk_size_new n = Some cs \<and> cs_remaining cs \<le> CHUNK_SIZE_MAX_BYTES + 2 \<and>
    cs_chunk cs = hex_upper n @ [13, 10] \<and> hex_val 0 (hex_upper n) = n"
proof -
  obtain cs where "chunk_size_new n = Some cs" "cs_ok cs" "cs_chunk cs = hex_upper n @ [13, 10]"
    using chunk_size_new_ok [OF assms] by blast
  then show ?thesis
    using cs_chunk_length [of cs] hex_upper_length [of n 15] assms hex_upper_value
    by (auto simp: CHUNK_SIZE_MAX_BYTES_def)
qed

theorem chunk_size_line_witness:
  "\<exists>cs. chunk_size_new 18446744073709551615 = Some cs \<and>
     cs_remaining cs \<le> CHUNK_SIZE_MAX_BYTES + 2 \<and>
     cs_chunk cs = hex_upper 18446744073709551615 @ [13, 10] \<and>
     hex_val 0 (hex_upper 18446744073709551615) = 18446744073709551615"
  by (rule chunk_size_line) simp

text \<open>
  C14.  Round trip: any sequence of non-empty buffers encoded with a chunked encoder and closed with
  \<^verbatim>\<open>end()\<close> is decoded, from any reader that delivers the bytes, to exactly the bytes of the
  buffers, with no trailers and with what follows the message left unread.
\<close>

theorem chunked_roundtrip:
  assumes "byte_buf B contents ok" "enc_kind e = EncChunked t"
    and "list_all (\<lambda>m. ok m \<and> contents m \<noteq> [] \<and> length (contents m) < 2 ^ 64) msgs"
    and "live_mem_read rd stream invar patience" "invar r"
    and "length (stream r) + patience r < fuel"
  shows "\<exists>bs fin. encode_all B e msgs = Some (bs, e) \<and> encoder_end e = Inr (Some fin) \<and>
    (stream r = encoded_bytes contents (bs @ [fin]) @ rest \<longrightarrow>
     map_option (drained stream) (drain A P rd fuel (decoder_new CHUNKED mh mb) r) =
       Some (concat (map contents msgs), Inr (None, rest)))"
proof -
  have ok: "list_all (\<lambda>m. ok m \<and> length (contents m) < 2 ^ 64) msgs"
    "list_all (\<lambda>d. d \<noteq> [] \<and> length d < 2 ^ 64) (map contents msgs)"
    using assms(3) by (auto simp: list_all_iff)
  let ?m = "message_of (map contents msgs)" and ?fin = "ChunkedEnd [48, 13, 10, 13, 10]"
  obtain bs where bs: "encode_all B e msgs = Some (bs, e)"
      "encoded_bytes contents bs = concat (map render_chunk (map chunk_of (map contents msgs)))"
    using byte_buf.encode_all_chunked [OF assms(1) ok(1) assms(2)] by blast
  then have "encoded_bytes contents (bs @ [?fin]) = render ?m"
    by (simp add: encoded_bytes_def eb_contents_def message_of_render)
  then have "stream r = encoded_bytes contents (bs @ [?fin]) @ rest \<longrightarrow>
     map_option (drained stream) (drain A P rd fuel (decoder_new CHUNKED mh mb) r) =
       Some (concat (map contents msgs), Inr (None, rest))"
    using live_mem_read.drain_message [OF assms(4-6) message_of_ok [OF ok(2)], of rest A P]
    by (simp add: message_of_data trailer_section_def message_of_trailers del: map_option_eq_Some)
  then show ?thesis using bs(1) assms(2) by (auto simp: encoder_end_def)
qed

theorem chunked_roundtrip_witness:
  "map_option (drained (\<lambda>r. r)) (drain assoc_api sample_httparse slice_read 30
     (decoder_new CHUNKED None None)
     [50, 13, 10, 7, 8, 13, 10, 49, 13, 10, 9, 13, 10, 48, 13, 10, 13, 10, 1]) =
   Some ([7, 8, 9], Inr (None, [1]))"
proof -
  let ?s = "[50, 13, 10, 7, 8, 13, 10, 49, 13, 10, 9, 13, 10, 48, 13, 10, 13, 10, 1] :: byte list"
  obtain bs fin where r: "encode_all slice_api encoder_chunked [[7, 8], [9]] = Some (bs, encoder_chunked)"
      "encoder_end encoder_chunked = Inr (Some fin)"
      "?s = encoded_bytes (\<lambda>b. b) (bs @ [fin]) @ [1] \<longrightarrow>
       map_option (drained (\<lambda>r. r)) (drain assoc_api sample_httparse slice_read 30
         (decoder_new CHUNKED None None) ?s) =
       Some (concat (map (\<lambda>b. b) [[7, 8], [9]]), Inr (None, [1]))"
    using chunked_roundtrip [OF slice_buf.byte_buf_axioms _ _ slice.live_mem_read_axioms,
        of encoder_chunked None "[[7, 8], [9]]" ?s 30 "[1]" assoc_api sample_httparse None None]
    by (auto simp: encoder_chunked_def encoder_new_def simp del: encode_all.simps map_option_eq_Some)
  have "?s = encoded_bytes (\<lambda>b. b) (bs @ [fin]) @ [1]"
    using slice_buf.encode_all_chunked [of "[[7, 8], [9]]" encoder_chunked None] r(1,2)
    by (auto simp: encoder_chunked_def encoder_new_def encoder_end_def encoded_bytes_def
        eb_contents_def chunk_of_def render_chunk_def render_line_def hex_upper.simps hex_digit_def
        simp del: encode_all.simps)
  then show ?thesis using r(3) by (simp del: map_option_eq_Some)
qed

text \<open>
  An encoder for a declared length never sends more than the length: over any sequence of
  buffers it emits exactly the first \<open>n\<close> bytes of their concatenation, and \<^verbatim>\<open>end()\<close> succeeds
  exactly when all \<open>n\<close> bytes were given and otherwise reports how many are missing.
\<close>

theorem length_encoder_exact:
  assumes "byte_buf B contents ok" "enc_kind e = EncLength n"
    and "list_all (\<lambda>m. ok m \<and> length (contents m) < 2 ^ 64) msgs"
  shows "\<exists>bs e'. encode_all B e msgs = Some (bs, e') \<and>
    encoded_bytes contents bs = take (unat n) (concat (map contents msgs)) \<and>
    encoder_end e' = (if unat n \<le> length (concat (map contents msgs)) then Inr None
      else Inl (NotEof (n - of_nat (length (concat (map contents msgs))))))"
proof -
  let ?l = "length (concat (map contents msgs))"
  obtain bs k where k: "encode_all B e msgs = Some (bs, e\<lparr>enc_kind := EncLength k\<rparr>)"
      "encoded_bytes contents bs = take (unat n) (concat (map contents msgs))" "unat k = unat n - ?l"
    using byte_buf.encode_all_length [OF assms(1,3,2)] by blast
  have "k = 0 \<longleftrightarrow> unat n \<le> ?l" using k(3) by (auto simp: unat_eq_0 [symmetric])
  moreover have "k = n - of_nat ?l" if "\<not> unat n \<le> ?l"
  proof -
    have u: "unat (of_nat ?l :: u64) = ?l"
      using that unat_less_pow [of n] by (intro unat_of_nat_u64) (simp del: unat_u64_less)
    then have "unat (n - of_nat ?l) = unat k"
      using that k(3) by (simp add: unat_minus_le word_le_nat_alt del: length_concat)
    then show ?thesis by (simp add: word_unat_eq_iff)
  qed
  ultimately show ?thesis using k by (auto simp: encoder_end_def)
qed

theorem length_encoder_exact_witness:
  "\<exists>bs e'. encode_all slice_api (encoder_length 3) [[1, 2], [3, 4]] = Some (bs, e') \<and>
     encoded_bytes (\<lambda>b. b) bs = take (unat (3 :: u64)) (concat (map (\<lambda>b. b) [[1, 2], [3, 4]])) \<and>
     encoder_end e' =
       (if unat (3 :: u64) \<le> length (concat (map (\<lambda>b. b) [[1, 2], [3, 4 :: byte]])) then Inr None
        else Inl (NotEof (3 - of_nat (length (concat (map (\<lambda>b. b) [[1, 2], [3, 4 :: byte]]))))))"
  by (rule length_encoder_exact [OF slice_buf.byte_buf_axioms])
     (simp_all add: encoder_length_def encoder_new_def)

text \<open>
  The trailers a chunked encoder sends are exactly the fields of the given map that the
  \<^verbatim>\<open>Trailer\<close> header announced and that may stand in a trailer section: every value of such a
  field, in order, and no other field; nothing is sent when none is left, and it never panics.
\<close>

theorem encode_trailers_exact:
  assumes "http_crate A" "enc_kind e = EncChunked (Some allowed)"
  shows "\<exists>es. (\<forall>k. map snd (filter (\<lambda>(n, v). n = k) es) =
        (if k \<in> set allowed \<and> is_valid_trailer_field k then hm_get_all A trailers k else [])) \<and>
    encode_trailers A e trailers =
      Some (if es = [] then None
            else Some (TrailersBuf (([48, 13, 10], concat (map field_line es)), [13, 10])))"
  using http_crate.encode_trailers_lines [OF assms] unfolding trailer_allowed_def .

theorem encode_trailers_exact_witness:
  "\<exists>es. (\<forall>k. map snd (filter (\<lambda>(n, v). n = k) es) =
       (if k \<in> set [ascii ''x'', HOST] \<and> is_valid_trailer_field k
        then hm_get_all assoc_api [(ascii ''x'', [49]), (HOST, [50])] k else [])) \<and>
     encode_trailers assoc_api \<lparr>enc_kind = EncChunked (Some [ascii ''x'', HOST]), enc_is_last = False\<rparr>
       [(ascii ''x'', [49]), (HOST, [50])] =
     Some (if es = [] then None
           else Some (TrailersBuf (([48, 13, 10], concat (map field_line es)), [13, 10])))"
  by (rule encode_trailers_exact [OF assoc.http_crate_axioms]) simp

text \<open>
  \<^verbatim>\<open>encode_and_end\<close> appends one complete message to the write buffer: a chunked encoder the
  chunk and the last chunk, which a decoder reads back as the given bytes, a length encoder at
  most the bytes that are left; it reports the body as ended only when it is.
\<close>

theorem encode_and_end_complete:
  assumes "encoded_bufs B contents ok D copy" "ok msg" "contents msg \<noteq> []"
    and "length (contents msg) < 2 ^ 64" "enc_kind e \<noteq> EncLength 0"
    and "wb_ok (eb_contents contents) (eb_ok ok) dst"
  shows "\<exists>dst' done. encode_and_end B D copy e msg dst = Some (Some (done, dst')) \<and>
    wb_ok (eb_contents contents) (eb_ok ok) dst' \<and>
    wb_contents (eb_contents contents) dst' = wb_contents (eb_contents contents) dst @
      (case enc_kind e of EncChunked t \<Rightarrow> render (message_of [contents msg])
       | EncLength n \<Rightarrow> take (unat n) (contents msg)) \<and>
    (done \<longleftrightarrow> \<not> enc_is_last e \<and>
      (case enc_kind e of EncChunked t \<Rightarrow> True | EncLength n \<Rightarrow> unat n \<le> length (contents msg)))"
proof (cases "enc_kind e")
  case (EncChunked t)
  then show ?thesis
    using encoded_bufs.encode_and_end_chunked [OF assms(1) EncChunked assms(2,4,6)] by auto
next
  case (EncLength n)
  then show ?thesis
    using encoded_bufs.encode_and_end_length [OF assms(1) EncLength _ assms(2,3,4,6)] assms(5) by auto
qed

theorem encode_and_end_complete_witness:
  "\<exists>dst' done. encode_and_end slice_api slice_adapters
       (copy_by_advance (eb_advance slice_api slice_adapters) (eb_contents (\<lambda>b. b)))
       encoder_chunked [5, 6] (wb_new Flatten) = Some (Some (done, dst')) \<and>
     wb_ok (eb_contents (\<lambda>b. b)) (eb_ok (\<lambda>b. True)) dst' \<and>
     wb_contents (eb_contents (\<lambda>b. b)) dst' = wb_contents (eb_contents (\<lambda>b. b)) (wb_new Flatten) @
       (case enc_kind encoder_chunked of EncChunked t \<Rightarrow> render (message_of [[5, 6]])
        | EncLength n \<Rightarrow> take (unat n) [5, 6]) \<and>
     (done \<longleftrightarrow> \<not> enc_is_last encoder_chunked \<and>
       (case enc_kind encoder_chunked of EncChunked t \<Rightarrow> True
        | EncLength n \<Rightarrow> unat n \<le> length [5, 6 :: byte]))"
  by (rule encode_and_end_complete [OF slice_encoded.encoded_bufs_axioms])
     (simp_all add: encoder_chunked_def encoder_new_def wb_ok_def wb_new_def cursor_new_def bl_new_def
       cursor_ok_def bl_ok_def bl_contents_def)

end
