(* ===== verification/Http1_Role.thy ===== *)
theory Http1_Role
  imports Http1_Encode
begin

text \<open>
  \<^verbatim>\<open>src/src/proto/http1/role.rs\<close>: parsing a response head and encoding a request head, the
  client's side of the trait \<^verbatim>\<open>Http1Transaction\<close> of \<^verbatim>\<open>src/src/proto/http1.rs\<close>.  The response parser
  of the crate \<^verbatim>\<open>httparse\<close> is the parameter \<open>response_parser\<close>; it gives a header as the ranges of its name
  and value in the buffer, which is what the code computes from the slices it returns.  A panic
  is \<open>None\<close>.
\<close>

section \<open>Messages\<close>

record 'm parsed_message =
  pm_head :: "'m response_head"
  pm_decode :: decoded_length
  pm_expect_continue :: bool
  pm_keep_alive :: bool
  pm_wants_upgrade :: bool

text \<open>
  \<^verbatim>\<open>ParseContext\<close>; the callback for informational responses is the list of the heads it was called
  with.
\<close>

record 'm parse_context =
  pc_cached_headers :: "'m option"
  pc_req_method :: "req_method option"
  pc_max_headers :: "nat option"
  pc_max_header_size :: "nat option"
  pc_h09_responses :: bool
  pc_on_informational :: "'m response_head list option"

text \<open>A parsed response: a header is the start and the length of its name and of its value.\<close>

record raw_response =
  rr_len :: nat
  rr_code :: u16
  rr_reason :: "byte list"
  rr_version :: byte
  rr_headers :: "((nat \<times> nat) \<times> (nat \<times> nat)) list"

record response_parser =
  rp_parse :: "byte list \<Rightarrow> nat \<Rightarrow> raw_response httparse_status"
  rp_obs_fold :: bool

text \<open>\<^verbatim>\<open>impl From<httparse::Error> for Parse\<close>.\<close>

fun parse_error_from :: "httparse_error \<Rightarrow> parse_error" where
  "parse_error_from HpHeaderName = ParseHeader Token"
| "parse_error_from HpHeaderValue = ParseHeader Token"
| "parse_error_from HpNewLine = ParseHeader Token"
| "parse_error_from HpToken = ParseHeader Token"
| "parse_error_from HpStatus = ParseStatus"
| "parse_error_from HpTooManyHeaders = TooLarge"
| "parse_error_from HpVersion = ParseVersion"

section \<open>Entry\<close>

text \<open>The scan of \<^verbatim>\<open>is_complete_fast\<close> from one position on.\<close>

fun complete_scan :: "byte list \<Rightarrow> bool" where
  "complete_scan [] = False"
| "complete_scan (b # rest) =
     (if b = 13 then (if take 3 rest = [10, 13, 10] then True else complete_scan rest)
      else if b = 10 \<and> (take 1 rest = [10] \<or> take 2 rest = [13, 10]) then True
      else complete_scan rest)"

definition is_complete_fast :: "byte list \<Rightarrow> nat \<Rightarrow> bool option" where
  "is_complete_fast bytes prev_len =
     (let start = prev_len - 3 in
      if start \<le> length bytes then Some (complete_scan (drop start bytes)) else None)"

text \<open>
  \<^verbatim>\<open>parse_headers<T>\<close> with the method \<^verbatim>\<open>T::parse\<close> as a parameter: it returns a value or nothing where
  it panics or does not end.
\<close>

type_synonym ('msg, 'ctx) transaction_parse =
  "byte list \<Rightarrow> 'ctx \<Rightarrow> ((parse_error + 'msg option) \<times> byte list \<times> 'ctx) option option"

definition parse_headers ::
    "('msg, 'ctx) transaction_parse \<Rightarrow> byte list \<Rightarrow> nat option \<Rightarrow> 'ctx \<Rightarrow>
     ((parse_error + 'msg option) \<times> byte list \<times> 'ctx) option option" where
  "parse_headers T bytes prev_len ctx =
     (if bytes = [] then Some (Some (Inr None, bytes, ctx))
      else
        (case prev_len of
           None \<Rightarrow> T bytes ctx
         | Some n \<Rightarrow>
             (case is_complete_fast bytes n of
                None \<Rightarrow> Some None
              | Some complete \<Rightarrow>
                  if complete then T bytes ctx else Some (Some (Inr None, bytes, ctx)))))"

section \<open>Response framing\<close>

definition client_decoder ::
    "'m http_api \<Rightarrow> 'm response_head \<Rightarrow> req_method option \<Rightarrow>
     parse_error + (decoded_length \<times> bool) option" where
  "client_decoder A inc method =
     (let code = mh_subject inc; headers = mh_headers inc in
      if code = 101 then Inr (Some (ZERO, True))
      else if code = 100 \<or> (102 \<le> code \<and> code \<le> 199) then Inr None
      else if 200 \<le> code \<and> code \<le> 299 \<and> method = Some CONNECT then Inr (Some (ZERO, True))
      else if code = 204 \<or> code = 304 then Inr (Some (ZERO, False))
      else if method = Some HEAD then Inr (Some (ZERO, False))
      else if hm_contains_key A headers TRANSFER_ENCODING then
        (if mh_version inc = HTTP_10 then Inl (ParseHeader TransferEncodingUnexpected)
         else if transfer_encoding_is_chunked A headers then Inr (Some (CHUNKED, False))
         else Inr (Some (CLOSE_DELIMITED, False)))
      else
        (case content_length_parse_all A headers of
           Some len \<Rightarrow>
             (case checked_new len of
                Inl e \<Rightarrow> Inl e
              | Inr d \<Rightarrow> Inr (Some (d, False)))
         | None \<Rightarrow>
             if hm_contains_key A headers CONTENT_LENGTH
             then Inl (ParseHeader ContentLengthInvalid)
             else Inr (Some (CLOSE_DELIMITED, False))))"

section \<open>Response parsing\<close>

record header_indices =
  hi_name :: "nat \<times> nat"
  hi_value :: "nat \<times> nat"

fun record_header_indices ::
    "((nat \<times> nat) \<times> (nat \<times> nat)) list \<Rightarrow> nat \<Rightarrow> parse_error + header_indices list" where
  "record_header_indices [] cap = Inr []"
| "record_header_indices (h # hs) 0 = Inr []"
| "record_header_indices (((ns, nl), (vs, vl)) # hs) (Suc cap) =
     (if nl \<ge> 65536 then Inl TooLarge
      else map_sum id ((#) \<lparr>hi_name = (ns, ns + nl), hi_value = (vs, vs + vl)\<rparr>)
             (record_header_indices hs cap))"

text \<open>A slice \<^verbatim>\<open>all[i..j]\<close>, with its panic.\<close>

definition sub_slice :: "byte list \<Rightarrow> nat \<times> nat \<Rightarrow> byte list option" where
  "sub_slice bs r =
     (if fst r \<le> snd r \<and> snd r \<le> length bs then Some (drop (fst r) (take (snd r) bs)) else None)"

definition fold_trim :: "byte list \<Rightarrow> byte list" where
  "fold_trim s = trim_start_by is_ascii_whitespace (trim_end_by is_ascii_whitespace s)"

text \<open>The unfolded value, given the position of its first line feed.\<close>

definition unfolded_value :: "byte list \<Rightarrow> nat \<Rightarrow> byte list" where
  "unfolded_value v nl =
     trim_end_by is_ascii_whitespace (take nl v) @
     concat (map (\<lambda>line. 32 # fold_trim line) (split_on 10 (drop (nl + 1) v)))"

definition obs_fold_line :: "byte list \<Rightarrow> header_indices \<Rightarrow> (byte list \<times> header_indices) option" where
  "obs_fold_line all idx =
     (case sub_slice all (hi_value idx) of
        None \<Rightarrow> None
      | Some v \<Rightarrow>
          (let nl = length (takeWhile (\<lambda>b. b \<noteq> 10) v) in
           if nl = length v then Some (all, idx)
           else
             (let unfolded = unfolded_value v nl; start = fst (hi_value idx) in
              if length unfolded \<le> length v then
                Some (take start all @ unfolded @ drop (start + length unfolded) all,
                      idx\<lparr>hi_value := (start, start + length unfolded)\<rparr>)
              else None)))"

fun obs_fold_lines ::
    "byte list \<Rightarrow> header_indices list \<Rightarrow> (byte list \<times> header_indices list) option" where
  "obs_fold_lines all [] = Some (all, [])"
| "obs_fold_lines all (h # hs) =
     (case obs_fold_line all h of
        None \<Rightarrow> None
      | Some (all', h') \<Rightarrow>
          map_option (\<lambda>(a, hs'). (a, h' # hs')) (obs_fold_lines all' hs))"

text \<open>
  The loop that fills the header map and decides keep-alive; a name the \<^verbatim>\<open>http\<close> crate refuses is
  the internal error of the release build.
\<close>

fun header_loop ::
    "'m http_api \<Rightarrow> byte list \<Rightarrow> header_indices list \<Rightarrow> 'm \<Rightarrow> bool \<Rightarrow> bool \<Rightarrow>
     (parse_error + 'm \<times> bool) option" where
  "header_loop A sl [] headers keep_alive saw_close = Some (Inr (headers, keep_alive))"
| "header_loop A sl (h # hs) headers keep_alive saw_close =
     (case (sub_slice sl (hi_name h), sub_slice sl (hi_value h)) of
        (Some n, Some value) \<Rightarrow>
          (case hn_from_bytes A n of
             None \<Rightarrow> Some (Inl ParseInternal)
           | Some name \<Rightarrow>
               (if name = CONNECTION then
                  (if saw_close \<or> connection_close A value then
                     header_loop A sl hs (hm_append A headers name value) False True
                   else if \<not> keep_alive then
                     header_loop A sl hs (hm_append A headers name value)
                       (connection_keep_alive A value) saw_close
                   else header_loop A sl hs (hm_append A headers name value) keep_alive saw_close)
                else header_loop A sl hs (hm_append A headers name value) keep_alive saw_close))
      | _ \<Rightarrow> None)"

text \<open>The head of one response: the first half of the loop body of \<^verbatim>\<open>Client::parse\<close>.\<close>

datatype raw_head = RawHead nat status_code "byte list option" version "header_indices list"

definition parse_raw ::
    "'m http_api \<Rightarrow> response_parser \<Rightarrow> byte list \<Rightarrow> 'm parse_context \<Rightarrow> parse_error + raw_head option" where
  "parse_raw A R buf ctx =
     (let cap = (case pc_max_headers ctx of Some c \<Rightarrow> c | None \<Rightarrow> DEFAULT_MAX_HEADERS) in
      case rp_parse R buf cap of
        HpComplete res \<Rightarrow>
          (if (case pc_max_header_size ctx of Some m \<Rightarrow> rr_len res > m | None \<Rightarrow> False)
           then Inl TooLarge
           else
             (case sc_from_u16 A (rr_code res) of
                None \<Rightarrow> Inl ParseStatus
              | Some status \<Rightarrow>
                  (let reason = (if Some (rr_reason res) \<noteq> sc_canonical_reason A status
                                 then Some (rr_reason res) else None);
                       version = (if rr_version res = 1 then HTTP_11 else HTTP_10) in
                   case record_header_indices (rr_headers res) cap of
                     Inl e \<Rightarrow> Inl e
                   | Inr idxs \<Rightarrow> Inr (Some (RawHead (rr_len res) status reason version idxs)))))
      | HpPartial \<Rightarrow> Inr None
      | HpError e \<Rightarrow>
          if e = HpVersion \<and> pc_h09_responses ctx then Inr (Some (RawHead 0 200 None HTTP_09 []))
          else Inl (parse_error_from e))"

text \<open>Splitting the head off the buffer and building the message head: the second half.\<close>

definition build_head ::
    "'m http_api \<Rightarrow> response_parser \<Rightarrow> byte list \<Rightarrow> 'm parse_context \<Rightarrow> raw_head \<Rightarrow>
     (parse_error + 'm response_head \<times> bool) option" where
  "build_head A R buf ctx raw =
     (case raw of RawHead len status reason version idxs \<Rightarrow>
        if len \<le> length buf then
          (case (if rp_obs_fold R then obs_fold_lines (take len buf) idxs
                 else Some (take len buf, idxs)) of
             None \<Rightarrow> None
           | Some (sl, idxs') \<Rightarrow>
               map_option
                 (map_sum id (\<lambda>(headers, keep_alive).
                    (\<lparr>mh_version = version, mh_subject = status, mh_headers = headers,
                      mh_reason = reason, mh_preserve = None, mh_on_informational = False\<rparr>, keep_alive)))
                 (header_loop A sl idxs'
                    (case pc_cached_headers ctx of Some h \<Rightarrow> h | None \<Rightarrow> hm_empty A)
                    (version = HTTP_11) False))
        else None)"

definition raw_len :: "raw_head \<Rightarrow> nat" where
  "raw_len raw = (case raw of RawHead len _ _ _ _ \<Rightarrow> len)"

definition is_informational :: "status_code \<Rightarrow> bool" where
  "is_informational code = (100 \<le> code \<and> code < 200)"

text \<open>\<^verbatim>\<open>Client::parse\<close>; the loop skips informational responses.\<close>

partial_function (option) client_parse ::
    "'m http_api \<Rightarrow> response_parser \<Rightarrow> byte list \<Rightarrow> 'm parse_context \<Rightarrow>
     ((parse_error + 'm parsed_message option) \<times> byte list \<times> 'm parse_context) option option" where
  "client_parse A R buf ctx =
     (case parse_raw A R buf ctx of
        Inl e \<Rightarrow> Some (Some (Inl e, buf, ctx))
      | Inr None \<Rightarrow> Some (Some (Inr None, buf, ctx))
      | Inr (Some raw) \<Rightarrow>
          (let buf' = drop (raw_len raw) buf; ctx' = ctx\<lparr>pc_cached_headers := None\<rparr> in
           case build_head A R buf ctx raw of
             None \<Rightarrow> Some None
           | Some (Inl e) \<Rightarrow> Some (Some (Inl e, buf', ctx'))
           | Some (Inr (head, keep_alive)) \<Rightarrow>
               (case client_decoder A head (pc_req_method ctx) of
                  Inl e \<Rightarrow> Some (Some (Inl e, buf', ctx'))
                | Inr (Some (dec, is_upgrade)) \<Rightarrow>
                    Some (Some
                      (Inr (Some \<lparr>pm_head = head, pm_decode = dec, pm_expect_continue = False,
                                  pm_keep_alive = (keep_alive \<and> \<not> is_upgrade),
                                  pm_wants_upgrade = is_upgrade\<rparr>), buf', ctx'))
                | Inr None \<Rightarrow>
                    (let ctx'' = (if is_informational (mh_subject head)
                                  then ctx'\<lparr>pc_on_informational :=
                                         map_option (\<lambda>calls. calls @ [head]) (pc_on_informational ctx')\<rparr>
                                  else ctx') in
                     if buf' = [] then Some (Some (Inr None, buf', ctx''))
                     else client_parse A R buf' ctx''))))"

declare client_parse.simps [code]

section \<open>Request encoding\<close>

definition set_content_length :: "'m http_api \<Rightarrow> 'm \<Rightarrow> u64 \<Rightarrow> encoder \<times> 'm" where
  "set_content_length A headers len =
     (encoder_length len, hm_insert A headers CONTENT_LENGTH (hv_from_u64 A len))"

text \<open>The names announced in the \<^verbatim>\<open>Trailer\<close> header.\<close>

definition allowed_trailer_fields :: "'m http_api \<Rightarrow> 'm \<Rightarrow> header_name list" where
  "allowed_trailer_fields A headers =
     List.map_filter (\<lambda>s. hn_from_bytes A (str_trim s))
       (concat (map (split_on 44) (List.map_filter (hv_to_str A) (hm_get_all A headers TRAILER))))"

definition with_trailing_fields :: "'m http_api \<Rightarrow> 'm \<Rightarrow> encoder \<Rightarrow> encoder" where
  "with_trailing_fields A headers enc =
     (if encoder_is_chunked enc then
        (let allowed = allowed_trailer_fields A headers in
         if allowed \<noteq> [] then into_chunked_with_trailing_fields enc allowed else enc)
      else enc)"

text \<open>
  The \<^verbatim>\<open>Transfer-Encoding\<close> entry: the encoder it decides on, the headers, and whether the
  \<^verbatim>\<open>Content-Length\<close> header goes; \<open>None\<close> is the panic of \<^verbatim>\<open>add_chunked\<close>.
\<close>

definition transfer_encoding_entry ::
    "'m http_api \<Rightarrow> req_method \<Rightarrow> 'm \<Rightarrow> body_length \<Rightarrow> u64 option \<Rightarrow>
     (encoder option \<times> 'm \<times> bool) option" where
  "transfer_encoding_entry A method headers body existing_con_len =
     (if hm_contains_key A headers TRANSFER_ENCODING then
        (if is_chunked A (hm_get_all A headers TRANSFER_ENCODING)
         then Some (Some encoder_chunked, headers, True)
         else map_option (\<lambda>h. (Some encoder_chunked, h, True)) (add_chunked A headers))
      else
        (case existing_con_len of
           Some len \<Rightarrow> Some (Some (encoder_length len), headers, False)
         | None \<Rightarrow>
             (case body of
                Unknown \<Rightarrow>
                  (if method \<in> {GET, HEAD, CONNECT}
                   then Some (Some (encoder_length 0), headers, False)
                   else Some (Some encoder_chunked,
                              hm_insert A headers TRANSFER_ENCODING (ascii ''chunked''), True))
              | Known _ \<Rightarrow> Some (None, headers, False))))"

definition set_length ::
    "'m http_api \<Rightarrow> 'm request_head \<Rightarrow> body_length option \<Rightarrow> (encoder \<times> 'm request_head) option" where
  "set_length A head body =
     (case body of
        None \<Rightarrow>
          Some (encoder_length 0,
                head\<lparr>mh_headers := hm_remove A (mh_headers head) TRANSFER_ENCODING\<rparr>)
      | Some body \<Rightarrow>
          (let headers = mh_headers head;
               existing_con_len = content_length_parse_all A headers in
           if mh_version head \<noteq> HTTP_11 then
             (let h = hm_remove A headers TRANSFER_ENCODING in
              case existing_con_len of
                Some len \<Rightarrow> Some (encoder_length len, head\<lparr>mh_headers := h\<rparr>)
              | None \<Rightarrow>
                  (case body of
                     Known len \<Rightarrow>
                       (let (enc, h') = set_content_length A h len in Some (enc, head\<lparr>mh_headers := h'\<rparr>))
                   | Unknown \<Rightarrow> Some (encoder_length 0, head\<lparr>mh_headers := h\<rparr>)))
           else
             (case mh_subject head of RequestLine method _ \<Rightarrow>
                (case transfer_encoding_entry A method headers body existing_con_len of
                   None \<Rightarrow> None
                 | Some (Some enc, h, should_remove_con_len) \<Rightarrow>
                     Some (with_trailing_fields A h enc,
                           head\<lparr>mh_headers := (if should_remove_con_len
                                                then hm_remove A h CONTENT_LENGTH else h)\<rparr>)
                 | Some (None, h, _) \<Rightarrow>
                     (case body of
                        Known len \<Rightarrow>
                          (let (enc, h') = set_content_length A h len in
                           Some (enc, head\<lparr>mh_headers := h'\<rparr>))
                      | Unknown \<Rightarrow> None)))))"

fun method_bytes :: "req_method \<Rightarrow> byte list" where
  "method_bytes GET = ascii ''GET''"
| "method_bytes HEAD = ascii ''HEAD''"
| "method_bytes POST = ascii ''POST''"
| "method_bytes PUT = ascii ''PUT''"
| "method_bytes DELETE = ascii ''DELETE''"
| "method_bytes CONNECT = ascii ''CONNECT''"
| "method_bytes OPTIONS = ascii ''OPTIONS''"
| "method_bytes TRACE = ascii ''TRACE''"
| "method_bytes PATCH = ascii ''PATCH''"
| "method_bytes (ExtensionMethod s) = s"

definition version_bytes :: "version \<Rightarrow> byte list" where
  "version_bytes v = (if v = HTTP_10 then ascii ''HTTP/1.0'' else ascii ''HTTP/1.1'')"

fun visited_lines :: "(byte list \<times> header_value) list \<Rightarrow> byte list \<Rightarrow> byte list" where
  "visited_lines [] dst = dst"
| "visited_lines ((name, value) # es) dst =
     visited_lines es
       (if value = [] then dst @ name @ [58, 13, 10]
        else dst @ name @ [58, 32] @ value @ [13, 10])"

text \<open>
  \<^verbatim>\<open>Client::encode\<close>: the encoder for the body, the head with its headers cleared, the method that is
  recorded and the destination.
\<close>

definition client_encode ::
    "'m http_api \<Rightarrow> 'm request_head \<Rightarrow> body_length option \<Rightarrow> byte list \<Rightarrow>
     (encoder \<times> 'm request_head \<times> req_method option \<times> byte list) option" where
  "client_encode A head body dst =
     (case mh_subject head of RequestLine method target \<Rightarrow>
        (case set_length A head body of
           None \<Rightarrow> None
         | Some (enc, head') \<Rightarrow>
             (let d1 = dst @ method_bytes method @ [32] @ target @ [32] @ version_bytes (mh_version head') @
                       [13, 10];
                  d2 = (case mh_preserve head' of
                          Some visit \<Rightarrow> visited_lines (visit (mh_headers head')) d1
                        | None \<Rightarrow> write_headers A (mh_headers head') d1)
              in Some (enc, head'\<lparr>mh_headers := hm_empty A\<rparr>, Some method, d2 @ [13, 10]))))"

section \<open>Specification\<close>

text \<open>The end of a head: an empty line, with or without carriage returns.\<close>

definition head_end :: "byte list \<Rightarrow> bool" where
  "head_end r \<longleftrightarrow> take 4 r = [13, 10, 13, 10] \<or> take 2 r = [10, 10] \<or> take 3 r = [10, 13, 10]"

text \<open>The \<^verbatim>\<open>Connection\<close> values a list of parsed headers carries, in order, and all of its fields.\<close>

fun parsed_fields ::
    "'m http_api \<Rightarrow> byte list \<Rightarrow> header_indices list \<Rightarrow> (header_name \<times> header_value) list" where
  "parsed_fields A sl [] = []"
| "parsed_fields A sl (h # hs) =
     (the (hn_from_bytes A (the (sub_slice sl (hi_name h)))), the (sub_slice sl (hi_value h))) #
     parsed_fields A sl hs"

text \<open>What the documentation of the response parser promises about a complete parse.\<close>

definition range_ok :: "nat \<Rightarrow> nat \<times> nat \<Rightarrow> bool" where
  "range_ok n r \<longleftrightarrow> fst r + snd r \<le> n"

definition parser_ok :: "response_parser \<Rightarrow> bool" where
  "parser_ok R \<longleftrightarrow> (\<forall>buf cap res. rp_parse R buf cap = HpComplete res \<longrightarrow>
     0 < rr_len res \<and> rr_len res \<le> length buf \<and>
     list_all (\<lambda>(n, v). range_ok (rr_len res) n \<and> range_ok (rr_len res) v) (rr_headers res))"

definition indices_ok :: "nat \<Rightarrow> header_indices \<Rightarrow> bool" where
  "indices_ok n h \<longleftrightarrow> fst (hi_name h) \<le> snd (hi_name h) \<and> snd (hi_name h) \<le> n \<and>
     fst (hi_value h) \<le> snd (hi_value h) \<and> snd (hi_value h) \<le> n"

text \<open>The headers announce the framing that the encoder writes.\<close>

definition framed :: "'m http_api \<Rightarrow> encoder \<Rightarrow> 'm \<Rightarrow> bool" where
  "framed A enc headers \<longleftrightarrow>
     (case enc_kind enc of
        EncChunked _ \<Rightarrow>
          transfer_encoding_is_chunked A headers \<and> \<not> hm_contains_key A headers CONTENT_LENGTH
      | EncLength n \<Rightarrow>
          \<not> hm_contains_key A headers TRANSFER_ENCODING \<and>
          (n = 0 \<or> content_length_parse_all A headers = Some n))"

text \<open>A parser that knows one response, for concrete inputs.\<close>

definition sample_response :: "byte list" where
  "sample_response = ascii ''HTTP/1.1 200 OK'' @ [13, 10] @ ascii ''Connection: close'' @ [13, 10, 13, 10]"

definition sample_parser :: response_parser where
  "sample_parser = \<lparr>
     rp_parse = (\<lambda>buf cap.
       if take 38 buf = sample_response
       then HpComplete \<lparr>rr_len = 38, rr_code = 200, rr_reason = ascii ''OK'', rr_version = 1,
                        rr_headers = [((17, 10), (29, 5))]\<rparr>
       else HpPartial),
     rp_obs_fold = False\<rparr>"

definition sample_context :: "assoc_map parse_context" where
  "sample_context = \<lparr>pc_cached_headers = None, pc_req_method = Some GET, pc_max_headers = None,
     pc_max_header_size = None, pc_h09_responses = False, pc_on_informational = None\<rparr>"

definition sample_parsed :: "assoc_map parsed_message" where
  "sample_parsed = \<lparr>pm_head = \<lparr>mh_version = HTTP_11, mh_subject = 200,
      mh_headers = [(CONNECTION, ascii ''close'')], mh_reason = None, mh_preserve = None, mh_on_informational = False\<rparr>,
     pm_decode = CLOSE_DELIMITED, pm_expect_continue = False, pm_keep_alive = False,
     pm_wants_upgrade = False\<rparr>"

section \<open>Scanning for the end of a head\<close>

lemma complete_scan_Cons: "complete_scan (b # r) \<longleftrightarrow> head_end (b # r) \<or> complete_scan r"
  by (auto simp: head_end_def take_Cons')

lemma complete_scan_iff: "complete_scan bs \<longleftrightarrow> (\<exists>i. head_end (drop i bs))"
proof (induction bs)
  case Nil
  then show ?case by (simp add: head_end_def)
next
  case (Cons b bs)
  have "(\<exists>i. head_end (drop i (b # bs))) \<longleftrightarrow> head_end (b # bs) \<or> (\<exists>i. head_end (drop i bs))"
    by (metis drop0 drop_Suc_Cons not0_implies_Suc)
  then show ?case using Cons.IH complete_scan_Cons by blast
qed

lemma head_end_take:
  assumes "head_end (drop i bs)" "i + 4 \<le> n"
  shows "head_end (drop i (take n bs))"
  using assms by (simp add: head_end_def drop_take)

lemma complete_scan_overlap:
  assumes "\<not> complete_scan (take n bs)"
  shows "complete_scan (drop (n - 3) bs) = complete_scan bs"
proof
  assume "complete_scan (drop (n - 3) bs)"
  then show "complete_scan bs" unfolding complete_scan_iff by auto
next
  assume "complete_scan bs"
  then obtain i where i: "head_end (drop i bs)" unfolding complete_scan_iff by blast
  have "\<not> i + 4 \<le> n" using head_end_take [OF i] assms unfolding complete_scan_iff by blast
  then have "drop (i - (n - 3)) (drop (n - 3) bs) = drop i bs" by simp
  then show "complete_scan (drop (n - 3) bs)" using i unfolding complete_scan_iff by metis
qed

section \<open>Header fields\<close>

lemma sub_slice_Some: "sub_slice bs r = Some v \<Longrightarrow> length v = snd r - fst r \<and> snd r \<le> length bs \<and> fst r \<le> snd r"
  by (auto simp: sub_slice_def split: if_splits)

lemma sub_slice_ok: "fst r \<le> snd r \<Longrightarrow> snd r \<le> length bs \<Longrightarrow> \<exists>v. sub_slice bs r = Some v"
  by (simp add: sub_slice_def)

context http_crate
begin

lemma header_loop_result:
  assumes "header_loop A sl hs h ka saw = Some (Inr (h', ka'))" "saw \<longrightarrow> \<not> ka"
  shows "(\<forall>k. hm_get_all A h' k = hm_get_all A h k @
      map snd (filter (\<lambda>(n, v). n = k) (parsed_fields A sl hs))) \<and>
    (ka' \<longleftrightarrow> \<not> saw \<and>
       \<not> list_ex (\<lambda>(n, v). n = CONNECTION \<and> connection_close A v) (parsed_fields A sl hs) \<and>
       (ka \<or> list_ex (\<lambda>(n, v). n = CONNECTION \<and> connection_keep_alive A v) (parsed_fields A sl hs)))"
  using assms
proof (induction hs arbitrary: h ka saw)
  case Nil
  then show ?case by auto
next
  case (Cons x hs)
  obtain n v name where x: "sub_slice sl (hi_name x) = Some n" "sub_slice sl (hi_value x) = Some v"
      "hn_from_bytes A n = Some name"
    using Cons.prems(1) by (auto split: option.splits)
  let ?h = "hm_append A h name v"
  have rec: "header_loop A sl hs ?h
      (if name = CONNECTION then
         (if saw \<or> connection_close A v then False else if \<not> ka then connection_keep_alive A v else ka)
       else ka)
      (if name = CONNECTION then saw \<or> connection_close A v else saw) = Some (Inr (h', ka'))"
    using Cons.prems(1) x by (auto split: if_splits)
  have fields: "parsed_fields A sl (x # hs) = (name, v) # parsed_fields A sl hs" using x by simp
  have inv: "(if name = CONNECTION then saw \<or> connection_close A v else saw) \<longrightarrow>
      \<not> (if name = CONNECTION then
         (if saw \<or> connection_close A v then False else if \<not> ka then connection_keep_alive A v else ka)
       else ka)"
    using Cons.prems(2) by simp
  note IH = Cons.IH [OF rec inv]
  show ?case
  proof
    show "\<forall>k. hm_get_all A h' k =
        hm_get_all A h k @ map snd (filter (\<lambda>(n, v). n = k) (parsed_fields A sl (x # hs)))"
      using IH unfolding fields by (simp add: get_all_append)
    show "ka' \<longleftrightarrow> \<not> saw \<and>
       \<not> list_ex (\<lambda>(n, v). n = CONNECTION \<and> connection_close A v) (parsed_fields A sl (x # hs)) \<and>
       (ka \<or> list_ex (\<lambda>(n, v). n = CONNECTION \<and> connection_keep_alive A v) (parsed_fields A sl (x # hs)))"
      using IH Cons.prems(2) unfolding fields
      by (cases "name = CONNECTION"; cases ka; cases saw; cases "connection_close A v") simp_all
  qed
qed

end

section \<open>Folded header lines\<close>

lemma sum_list_Suc: "sum_list (map (\<lambda>l. Suc (length l)) ls) = sum_list (map length ls) + length ls"
  by (induction ls) simp_all

lemma unfolded_length:
  assumes "nl = length (takeWhile (\<lambda>b. b \<noteq> 10) v)" "nl < length v"
  shows "length (unfolded_value v nl) \<le> length v"
proof -
  let ?ls = "split_on 10 (drop (nl + 1) v)"
  have "length (concat (map (\<lambda>line. 32 # fold_trim line) ?ls)) \<le> sum_list (map (\<lambda>l. Suc (length l)) ?ls)"
    unfolding length_concat map_map comp_def
    by (intro sum_list_mono) (simp add: fold_trim_def order_trans [OF length_trim_start_by length_trim_end_by])
  also have "\<dots> = Suc (length (drop (nl + 1) v))" 
    using sum_list_split_on [of 10 "drop (nl + 1) v"] by (simp only: sum_list_Suc)
  also have "\<dots> = length v - nl" using assms by simp
  finally have "length (concat (map (\<lambda>line. 32 # fold_trim line) ?ls)) \<le> length v - nl" .
  moreover have "length (trim_end_by is_ascii_whitespace (take nl v)) \<le> nl"
    using length_trim_end_by [of is_ascii_whitespace "take nl v"] by simp
  ultimately show ?thesis using assms(2) by (simp add: unfolded_value_def)
qed

lemma unfolded_no_lf: "10 \<notin> set (unfolded_value v (length (takeWhile (\<lambda>b. b \<noteq> 10) v)))"
proof -
  let ?nl = "length (takeWhile (\<lambda>b. b \<noteq> 10) v)"
  have "10 \<notin> set (take ?nl v)"
    by (metis (mono_tags) set_takeWhileD takeWhile_eq_take)
  moreover have "10 \<notin> set (fold_trim l)" if "l \<in> set (split_on 10 (drop (?nl + 1) v))" for l
    using split_on_pieces_no_sep [OF that] set_trim_start_by set_trim_end_by
    by (metis fold_trim_def subsetD)
  ultimately show ?thesis
    using set_trim_end_by by (fastforce simp: unfolded_value_def)
qed

lemma obs_fold_line_ok:
  assumes "indices_ok (length all) h"
  shows "\<exists>all' h'. obs_fold_line all h = Some (all', h') \<and> length all' = length all \<and>
    indices_ok (length all) h' \<and> hi_name h' = hi_name h \<and>
    fst (hi_value h') = fst (hi_value h) \<and> snd (hi_value h') \<le> snd (hi_value h) \<and>
    take (fst (hi_value h)) all' = take (fst (hi_value h)) all \<and>
    drop (snd (hi_value h)) all' = drop (snd (hi_value h)) all \<and>
    10 \<notin> set (the (sub_slice all' (hi_value h')))"
proof -
  obtain s e where se: "hi_value h = (s, e)" by force
  have r: "s \<le> e" "e \<le> length all" using assms se by (auto simp: indices_ok_def)
  define v where "v = drop s (take e all)"
  have v: "sub_slice all (hi_value h) = Some v" "length v = e - s"
    using r se by (auto simp: sub_slice_def v_def)
  let ?nl = "length (takeWhile (\<lambda>b. b \<noteq> 10) v)"
  show ?thesis
  proof (cases "?nl = length v")
    case True
    then have "10 \<notin> set v" by (metis (mono_tags) set_takeWhileD take_all_iff takeWhile_eq_take le_refl)
    then show ?thesis using True v assms by (auto simp: obs_fold_line_def)
  next
    case False
    let ?u = "unfolded_value v ?nl"
    have "?nl < length v" using False length_takeWhile_le [of "\<lambda>b. b \<noteq> 10" v] by linarith
    then have le: "length ?u \<le> length v" using unfolded_length by blast
    have all': "obs_fold_line all h = Some (take s all @ ?u @ drop (s + length ?u) all,
        h\<lparr>hi_value := (s, s + length ?u)\<rparr>)"
      using False v le se by (simp add: obs_fold_line_def Let_def)
    show ?thesis
      unfolding all' using r le v assms se unfolded_no_lf [of v]
      by (auto simp: indices_ok_def sub_slice_def)
  qed
qed

lemma obs_fold_lines_ok:
  assumes "list_all (indices_ok (length all)) hs"
  shows "\<exists>all' hs'. obs_fold_lines all hs = Some (all', hs') \<and> length all' = length all \<and>
    list_all (indices_ok (length all)) hs' \<and> length hs' = length hs"
  using assms
proof (induction hs arbitrary: all)
  case (Cons h hs)
  obtain all1 h1 where 1: "obs_fold_line all h = Some (all1, h1)" "length all1 = length all"
      "indices_ok (length all) h1"
    using obs_fold_line_ok Cons.prems by (metis list.pred_inject(2))
  then show ?case using Cons.IH [of all1] Cons.prems by auto
qed simp

section \<open>Parsing ends\<close>

lemma record_header_indices_ok:
  assumes "list_all (\<lambda>(n, v). range_ok len n \<and> range_ok len v) hs"
    "record_header_indices hs cap = Inr idxs"
  shows "list_all (indices_ok len) idxs"
  using assms
proof (induction hs cap arbitrary: idxs rule: record_header_indices.induct)
  case (3 ns nl vs vl hs cap)
  then show ?case
    by (cases "record_header_indices hs cap") (auto simp: indices_ok_def range_ok_def split: if_splits)
qed auto

lemma header_loop_total:
  assumes "list_all (indices_ok (length sl)) hs"
  shows "\<exists>r. header_loop A sl hs h ka saw = Some r"
  using assms
proof (induction hs arbitrary: h ka saw)
  case (Cons x hs)
  then obtain n v where "sub_slice sl (hi_name x) = Some n" "sub_slice sl (hi_value x) = Some v"
    using sub_slice_ok [of "hi_name x" sl] sub_slice_ok [of "hi_value x" sl] by (auto simp: indices_ok_def)
  then show ?case using Cons by (auto split: option.split)
qed simp


lemma build_head_total:
  assumes "len \<le> length buf" "list_all (indices_ok len) idxs"
  shows "\<exists>r. build_head A R buf ctx (RawHead len status reason version idxs) = Some r"
proof -
  have "length (take len buf) = len" using assms by simp
  then obtain sl idxs' where 1: "(if rp_obs_fold R then obs_fold_lines (take len buf) idxs
      else Some (take len buf, idxs)) = Some (sl, idxs')" "list_all (indices_ok (length sl)) idxs'"
    using obs_fold_lines_ok [of "take len buf" idxs] assms(2) by (cases "rp_obs_fold R") auto
  obtain r where "header_loop A sl idxs' (case pc_cached_headers ctx of Some h \<Rightarrow> h | None \<Rightarrow> hm_empty A)
      (version = HTTP_11) False = Some r"
    using header_loop_total [OF 1(2), of A] by blast
  then show ?thesis unfolding build_head_def raw_head.case 1(1) using assms(1) by simp
qed

lemma build_head_subject:
  fixes A :: "'m http_api"
  assumes "build_head A R buf ctx (RawHead len status reason version idxs) = Some (Inr (head, ka))"
  shows "mh_subject head = status"
proof -
  obtain r :: "parse_error + 'm \<times> bool" where "map_sum id (\<lambda>(headers, keep_alive).
        (\<lparr>mh_version = version, mh_subject = status, mh_headers = headers,
          mh_reason = reason, mh_preserve = None, mh_on_informational = False\<rparr>, keep_alive)) r = Inr (head, ka)"
    using assms unfolding build_head_def raw_head.case
    by (auto split: if_split_asm option.split_asm prod.split_asm)
  then show ?thesis by (cases r) (auto split: prod.split_asm)
qed

lemma parse_raw_ok:
  assumes "parser_ok R" "parse_raw A R buf ctx = Inr (Some (RawHead len status reason version idxs))"
  shows "len \<le> length buf" "list_all (indices_ok len) idxs" "len = 0 \<Longrightarrow> status = 200"
proof -
  let ?cap = "case pc_max_headers ctx of Some c \<Rightarrow> c | None \<Rightarrow> DEFAULT_MAX_HEADERS"
  have "len \<le> length buf \<and> list_all (indices_ok len) idxs \<and> (len = 0 \<longrightarrow> status = 200)"
  proof (cases "rp_parse R buf ?cap")
    case (HpComplete res)
    then have *: "0 < rr_len res" "rr_len res \<le> length buf"
        "list_all (\<lambda>(n, v). range_ok (rr_len res) n \<and> range_ok (rr_len res) v) (rr_headers res)"
      using assms(1) unfolding parser_ok_def by blast+
    obtain idxs' where "record_header_indices (rr_headers res) ?cap = Inr idxs'"
        "len = rr_len res" "idxs = idxs'"
      using assms(2) HpComplete
      by (auto simp: parse_raw_def Let_def split: if_split_asm option.split_asm sum.split_asm)
    then show ?thesis using * record_header_indices_ok [OF *(3)] by simp
  next
    case (HpError e)
    then show ?thesis using assms(2) by (auto simp: parse_raw_def split: if_split_asm)
  qed (use assms(2) in \<open>auto simp: parse_raw_def\<close>)
  then show "len \<le> length buf" "list_all (indices_ok len) idxs" "len = 0 \<Longrightarrow> status = 200" by auto
qed

lemma client_decoder_skips:
  assumes "client_decoder A head m = Inr None"
  shows "is_informational (mh_subject head)"
  using assms unfolding client_decoder_def is_informational_def Let_def
  by (auto simp: word_le_nat_alt word_less_nat_alt split: if_split_asm option.split_asm sum.split_asm)

lemma client_parse_total:
  assumes "parser_ok R"
  shows "\<exists>res buf' ctx'. client_parse A R buf ctx = Some (Some (res, buf', ctx')) \<and> (\<exists>xs. buf = xs @ buf')"
proof (induction "length buf" arbitrary: buf ctx rule: less_induct)
  case less
  show ?case
  proof (cases "parse_raw A R buf ctx")
    case (Inr o')
    show ?thesis
    proof (cases o')
      case (Some raw)
      obtain len status reason version idxs where raw: "raw = RawHead len status reason version idxs"
        by (cases raw)
      note ok = parse_raw_ok [OF assms Inr [unfolded Some raw]]
      obtain r where r: "build_head A R buf ctx raw = Some r"
        using build_head_total ok raw by blast
      have app: "\<exists>xs. buf = xs @ drop len buf" by (metis append_take_drop_id)
      show ?thesis
      proof (cases r)
        case (Inl e)
        then show ?thesis using Inr Some r raw app
          by (subst client_parse.simps) (simp add: Let_def raw_len_def)
      next
        case r2: (Inr hk)
        obtain head ka where hk: "hk = (head, ka)" by force
        show ?thesis
        proof (cases "client_decoder A head (pc_req_method ctx)")
          case (Inl e)
          then show ?thesis using Inr Some r r2 hk raw app
            by (subst client_parse.simps) (simp add: Let_def raw_len_def)
        next
          case d: (Inr dd)
          show ?thesis
          proof (cases dd)
            case None
            have "is_informational status"
              using client_decoder_skips d None build_head_subject r r2 hk raw by metis
            then have "len \<noteq> 0" using ok(3) by (auto simp: is_informational_def)
            define ctx2 where "ctx2 = (let ctx' = ctx\<lparr>pc_cached_headers := None\<rparr> in
              if is_informational (mh_subject head)
              then ctx'\<lparr>pc_on_informational := map_option (\<lambda>calls. calls @ [head]) (pc_on_informational ctx')\<rparr>
              else ctx')"
            have eq: "client_parse A R buf ctx =
                (if drop len buf = [] then Some (Some (Inr None, drop len buf, ctx2))
                 else client_parse A R (drop len buf) ctx2)"
              using Inr Some r r2 hk raw d None
              by (subst client_parse.simps) (simp add: Let_def raw_len_def ctx2_def)
            show ?thesis
            proof (cases "drop len buf = []")
              case False
              then have "length (drop len buf) < length buf" using \<open>len \<noteq> 0\<close> by (simp add: not_le)
              from less [OF this, of ctx2] show ?thesis unfolding eq using False
                by (metis append.assoc append_take_drop_id)
            qed (use eq app in auto)
          next
            case (Some du)
            then show ?thesis using Inr \<open>o' = Some raw\<close> r r2 hk raw app d
              by (subst client_parse.simps) (cases du, simp add: Let_def raw_len_def)
          qed
        qed
      qed
    qed (use Inr in \<open>subst client_parse.simps, simp\<close>)
  qed (subst client_parse.simps, simp)
qed

section \<open>Request framing\<close>

lemma dropWhile_none: "list_all (\<lambda>b. \<not> p b) xs \<Longrightarrow> dropWhile p xs = xs"
  by (cases xs) simp_all

lemma digits_trim: "list_all is_digit ds \<Longrightarrow> str_trim ds = ds"
proof -
  assume "list_all is_digit ds"
  then have "list_all (\<lambda>b. \<not> is_char_whitespace b) ds"
    by (fastforce simp: list_all_iff is_digit_def is_char_whitespace_def word_le_nat_alt)
  then have "dropWhile is_char_whitespace ds = ds" "dropWhile is_char_whitespace (rev ds) = rev ds"
    using dropWhile_none [of is_char_whitespace ds] dropWhile_none [of is_char_whitespace "rev ds"] by simp_all
  then show ?thesis by (simp add: str_trim_def trim_start_by_def trim_end_by_def)
qed

context http_crate
begin

lemma chunked_appended:
  assumes "list_all is_visible_ascii v"
  shows "is_chunked A (vs @ [v @ ascii '', '' @ ascii ''chunked''])"
proof -
  have eq: "v @ ascii '', '' @ ascii ''chunked'' = v @ 44 # ([32] @ ascii ''chunked'')"
    by (simp add: std_eval)
  have "44 \<notin> set ([32] @ ascii ''chunked'')" by (simp add: std_eval)
  then have "last (split_on 44 (v @ ascii '', '' @ ascii ''chunked'')) = [32] @ ascii ''chunked''"
    unfolding eq by (simp add: last_split_on_append_sep split_on_no_sep)
  moreover have "list_all is_visible_ascii (v @ ascii '', '' @ ascii ''chunked'')"
    using assms by (simp add: std_eval is_visible_ascii_def)
  ultimately show ?thesis by (simp add: is_chunked_def to_str) (simp add: std_eval)
qed

lemma add_chunked_result:
  assumes "hm_get_all A h TRANSFER_ENCODING \<noteq> []" "list_all is_visible_ascii (last (hm_get_all A h TRANSFER_ENCODING))"
  shows "\<exists>h'. add_chunked A h = Some h' \<and> transfer_encoding_is_chunked A h' \<and>
    (\<forall>k. k \<noteq> TRANSFER_ENCODING \<longrightarrow> hm_get_all A h' k = hm_get_all A h k)"
proof -
  let ?v = "last (hm_get_all A h TRANSFER_ENCODING) @ ascii '', '' @ ascii ''chunked''"
  have "list_all is_visible_ascii ?v" using assms(2) by (simp add: std_eval is_visible_ascii_def)
  then have "hv_from_bytes A ?v = Some ?v" by (rule hv_from_bytes_visible)
  then show ?thesis
    using assms chunked_appended [OF assms(2)]
    by (simp add: add_chunked_def transfer_encoding_is_chunked_def get_all_set_last)
qed

lemma set_content_length_read:
  "content_length_parse_all A (hm_insert A h CONTENT_LENGTH (hv_from_u64 A n)) = Some n"
proof -
  have digits: "list_all is_digit (decimal (unat n))" using decimal_value by blast
  then have "44 \<notin> set (decimal (unat n))" by (auto simp: list_all_iff is_digit_def)
  then have "split_on 44 (decimal (unat n)) = [decimal (unat n)]" by (simp add: split_on_no_sep)
  moreover have "str_trim (decimal (unat n)) = decimal (unat n)" using digits by (rule digits_trim)
  moreover have "list_all is_visible_ascii (decimal (unat n))"
    using digits by (auto simp: list_all_iff is_digit_def is_visible_ascii_def word_le_nat_alt word_less_nat_alt)
  moreover have "from_digits (decimal (unat n)) = Some n" by (simp add: from_digits_decimal)
  ultimately show ?thesis
    by (simp add: content_length_parse_all_def get_all_insert from_u64 content_length_values_iff)
qed

lemma framing_remove_length:
  "transfer_encoding_is_chunked A (hm_remove A h CONTENT_LENGTH) = transfer_encoding_is_chunked A h"
  by (simp add: transfer_encoding_is_chunked_def get_all_remove TRANSFER_ENCODING_def CONTENT_LENGTH_def
      std_eval)

lemma length_remove_encoding:
  "content_length_parse_all A (hm_remove A h TRANSFER_ENCODING) = content_length_parse_all A h"
  by (simp add: content_length_parse_all_def get_all_remove TRANSFER_ENCODING_def CONTENT_LENGTH_def
      std_eval)

lemma contains_encoding_insert_length:
  "hm_contains_key A (hm_insert A h CONTENT_LENGTH v) TRANSFER_ENCODING = hm_contains_key A h TRANSFER_ENCODING"
  by (simp add: contains_key_insert TRANSFER_ENCODING_def CONTENT_LENGTH_def std_eval)

lemma chunked_inserted:
  "transfer_encoding_is_chunked A (hm_insert A h TRANSFER_ENCODING (ascii ''chunked''))"
  by (simp add: transfer_encoding_is_chunked_def get_all_insert is_chunked_def to_str)
     (simp add: std_eval is_visible_ascii_def)

text \<open>The framing that the headers announce agrees with the encoder.\<close>

lemma encoding_entry_framing:
  assumes te: "hm_contains_key A h TRANSFER_ENCODING \<Longrightarrow>
      list_all is_visible_ascii (last (hm_get_all A h TRANSFER_ENCODING))"
  shows "\<exists>e h' rm. transfer_encoding_entry A m h body (content_length_parse_all A h) = Some (e, h', rm) \<and>
     (\<forall>k. k \<noteq> TRANSFER_ENCODING \<longrightarrow> hm_get_all A h' k = hm_get_all A h k) \<and>
     (e = Some encoder_chunked \<and> transfer_encoding_is_chunked A h' \<and> rm \<or>
      h' = h \<and> \<not> rm \<and> \<not> hm_contains_key A h TRANSFER_ENCODING \<and>
        (e = None \<and> (\<exists>n. body = Known n) \<or>
         e = Some (encoder_length 0) \<or>
         (\<exists>n. e = Some (encoder_length n) \<and> content_length_parse_all A h = Some n)))"
proof (cases "hm_contains_key A h TRANSFER_ENCODING")
  case True
  then obtain h' where "add_chunked A h = Some h'" "transfer_encoding_is_chunked A h'"
      "\<forall>k. k \<noteq> TRANSFER_ENCODING \<longrightarrow> hm_get_all A h' k = hm_get_all A h k"
    using add_chunked_result te by (auto simp: hm_contains_key_def)
  then show ?thesis using True by (auto simp: transfer_encoding_entry_def transfer_encoding_is_chunked_def)
next
  case False
  then show ?thesis
    using chunked_inserted [of h]
    by (auto simp: transfer_encoding_entry_def get_all_insert split: option.split body_length.split)
qed

lemmas encoder_defs = encoder_length_def encoder_chunked_def encoder_new_def encoder_is_chunked_def
  into_chunked_with_trailing_fields_def with_trailing_fields_def set_content_length_def

lemmas framing_laws = contains_key_remove contains_encoding_insert_length set_content_length_read
  length_remove_encoding framing_remove_length get_all_remove get_all_insert

lemma set_length_total_framing:
  assumes te: "hm_contains_key A (mh_headers head) TRANSFER_ENCODING \<Longrightarrow>
      list_all is_visible_ascii (last (hm_get_all A (mh_headers head) TRANSFER_ENCODING))"
  shows "\<exists>enc h. set_length A head body = Some (enc, head\<lparr>mh_headers := h\<rparr>) \<and> framed A enc h \<and>
     (mh_version head \<noteq> HTTP_11 \<longrightarrow> \<not> encoder_is_chunked enc) \<and>
     (\<forall>k. k \<notin> {TRANSFER_ENCODING, CONTENT_LENGTH} \<longrightarrow>
        hm_get_all A h k = hm_get_all A (mh_headers head) k)"
proof (cases body)
  case None
  then show ?thesis
    by (auto simp: set_length_def framed_def encoder_defs framing_laws)
next
  case (Some b)
  let ?h = "mh_headers head"
  show ?thesis
  proof (cases "mh_version head = HTTP_11")
    case False
    then show ?thesis unfolding Some
      by (cases "content_length_parse_all A ?h"; cases b)
         (auto simp: set_length_def framed_def encoder_defs framing_laws Let_def)
  next
    case True
    obtain m t where subj: "mh_subject head = RequestLine m t" by (cases "mh_subject head")
    obtain e h' rm where e: "transfer_encoding_entry A m ?h b (content_length_parse_all A ?h) = Some (e, h', rm)"
      and frame: "\<forall>k. k \<noteq> TRANSFER_ENCODING \<longrightarrow> hm_get_all A h' k = hm_get_all A ?h k"
      and cases: "e = Some encoder_chunked \<and> transfer_encoding_is_chunked A h' \<and> rm \<or>
        h' = ?h \<and> \<not> rm \<and> \<not> hm_contains_key A ?h TRANSFER_ENCODING \<and>
        (e = None \<and> (\<exists>n. b = Known n) \<or> e = Some (encoder_length 0) \<or>
         (\<exists>n. e = Some (encoder_length n) \<and> content_length_parse_all A ?h = Some n))"
      using encoding_entry_framing [OF te, of m b] by metis
    let ?enc = "case e of Some enc \<Rightarrow> with_trailing_fields A h' enc
      | None \<Rightarrow> (case b of Known len \<Rightarrow> encoder_length len)"
    let ?g = "case e of Some enc \<Rightarrow> (if rm then hm_remove A h' CONTENT_LENGTH else h')
      | None \<Rightarrow> (case b of Known len \<Rightarrow> hm_insert A h' CONTENT_LENGTH (hv_from_u64 A len))"
    have "set_length A head body = Some (?enc, head\<lparr>mh_headers := ?g\<rparr>)"
      unfolding set_length_def Some option.case Let_def subj request_line.case e prod.case
      using cases by (auto simp: True set_content_length_def)
    moreover have "framed A ?enc ?g"
      using cases by (auto simp: framed_def encoder_defs framing_laws Let_def)
    moreover have "\<forall>k. k \<notin> {TRANSFER_ENCODING, CONTENT_LENGTH} \<longrightarrow> hm_get_all A ?g k = hm_get_all A ?h k"
      using cases frame by (auto simp: framing_laws)
    ultimately show ?thesis using True by blast
  qed
qed

lemma client_encode_lines:
  assumes te: "hm_contains_key A (mh_headers head) TRANSFER_ENCODING \<Longrightarrow>
      list_all is_visible_ascii (last (hm_get_all A (mh_headers head) TRANSFER_ENCODING))"
    and "mh_subject head = RequestLine method target" "mh_preserve head = None"
  shows "\<exists>enc h. client_encode A head body dst = Some (enc, head\<lparr>mh_headers := hm_empty A\<rparr>, Some method,
      dst @ method_bytes method @ [32] @ target @ [32] @ version_bytes (mh_version head) @ [13, 10] @
      concat (map field_line (hm_iter A h)) @ [13, 10]) \<and> framed A enc h \<and>
     (mh_version head \<noteq> HTTP_11 \<longrightarrow> \<not> encoder_is_chunked enc) \<and>
     (\<forall>k. k \<notin> {TRANSFER_ENCODING, CONTENT_LENGTH} \<longrightarrow> hm_get_all A h k = hm_get_all A (mh_headers head) k)"
proof -
  obtain enc h where *: "set_length A head body = Some (enc, head\<lparr>mh_headers := h\<rparr>)"
      "framed A enc h" "mh_version head \<noteq> HTTP_11 \<longrightarrow> \<not> encoder_is_chunked enc"
      "\<forall>k. k \<notin> {TRANSFER_ENCODING, CONTENT_LENGTH} \<longrightarrow> hm_get_all A h k = hm_get_all A (mh_headers head) k"
    using set_length_total_framing [OF te, of body] by metis
  have "client_encode A head body dst = Some (enc, head\<lparr>mh_headers := hm_empty A\<rparr>, Some method,
      dst @ method_bytes method @ [32] @ target @ [32] @ version_bytes (mh_version head) @ [13, 10] @
      concat (map field_line (hm_iter A h)) @ [13, 10])"
    using assms(2,3) by (simp add: client_encode_def *(1) Let_def write_headers_def write_headers_lines)
  then show ?thesis using *(2-) by blast
qed

section \<open>Response framing\<close>

lemma decoder_ignores_length:
  assumes "hm_contains_key A (mh_headers inc) TRANSFER_ENCODING"
  shows "client_decoder A (inc\<lparr>mh_headers := hm_remove A (mh_headers inc) CONTENT_LENGTH\<rparr>) method =
    client_decoder A inc method"
proof -
  have "TRANSFER_ENCODING \<noteq> CONTENT_LENGTH"
    by (simp add: TRANSFER_ENCODING_def CONTENT_LENGTH_def std_eval)
  then show ?thesis
    using assms by (simp add: client_decoder_def Let_def contains_key_remove framing_remove_length)
qed

lemma decoder_exact_length:
  assumes "client_decoder A inc method = Inr (Some (DecodedLength n, up))" "is_exact (DecodedLength n)" "n \<noteq> 0"
  shows "\<not> up \<and> \<not> hm_contains_key A (mh_headers inc) TRANSFER_ENCODING \<and>
    content_length_parse_all A (mh_headers inc) = Some n"
  using assms unfolding client_decoder_def Let_def
  by (auto simp: ZERO_def is_exact_iff into_opt_def checked_new_def
      split: if_split_asm option.split_asm sum.split_asm)

lemma decoder_chunked:
  assumes "client_decoder A inc method = Inr (Some (CHUNKED, up))"
  shows "\<not> up \<and> mh_version inc \<noteq> HTTP_10 \<and> transfer_encoding_is_chunked A (mh_headers inc)"
  using assms unfolding client_decoder_def Let_def
  by (auto simp: ZERO_def CHUNKED_def CLOSE_DELIMITED_def U64_MAX_def checked_new_def le_MAX_LEN
      split: if_split_asm option.split_asm sum.split_asm)

section \<open>Persistence\<close>

lemma build_head_fields:
  assumes "build_head A R buf ctx raw = Some (Inr (head, ka))"
    "\<forall>h k. pc_cached_headers ctx = Some h \<longrightarrow> hm_get_all A h k = []"
  shows "ka \<longleftrightarrow> \<not> connection_any_close A (mh_headers head) \<and>
    (mh_version head = HTTP_11 \<or>
     list_ex (connection_keep_alive A) (hm_get_all A (mh_headers head) CONNECTION))"
proof -
  obtain len status reason version idxs where raw: "raw = RawHead len status reason version idxs"
    by (cases raw)
  define h0 where "h0 = (case pc_cached_headers ctx of Some h \<Rightarrow> h | None \<Rightarrow> hm_empty A)"
  have h0: "hm_get_all A h0 k = []" for k
    using assms(2) by (cases "pc_cached_headers ctx") (auto simp: h0_def get_all_empty)
  obtain sl idxs' r where r: "header_loop A sl idxs' h0 (version = HTTP_11) False = Some r"
      "map_sum id (\<lambda>(headers, keep_alive).
        (\<lparr>mh_version = version, mh_subject = status, mh_headers = headers,
          mh_reason = reason, mh_preserve = None, mh_on_informational = False\<rparr>, keep_alive)) r = Inr (head, ka)"
    using assms(1) unfolding build_head_def raw raw_head.case h0_def [symmetric]
    by (auto split: if_split_asm option.split_asm prod.split_asm)
  then obtain hs where hs: "header_loop A sl idxs' h0 (version = HTTP_11) False = Some (Inr (hs, ka))"
      "mh_headers head = hs" "mh_version head = version"
    by (cases r) (auto split: prod.split_asm)
  have vals: "hm_get_all A hs CONNECTION =
      map snd (filter (\<lambda>(n, v). n = CONNECTION) (parsed_fields A sl idxs'))"
    using header_loop_result [OF hs(1)] h0 by simp
  show ?thesis
    using header_loop_result [OF hs(1)] unfolding connection_any_close_def hs(2,3) vals
    by (auto simp: list_ex_iff)
qed

end

lemma client_parse_message_ind:
  assumes "client_parse A R buf ctx = Some res" "http_crate A" "res = Some (Inr (Some m), buf', ctx')"
    "\<forall>h k. pc_cached_headers ctx = Some h \<longrightarrow> hm_get_all A h k = []"
  shows "client_decoder A (pm_head m) (pc_req_method ctx) = Inr (Some (pm_decode m, pm_wants_upgrade m)) \<and>
    (pm_keep_alive m \<longleftrightarrow> \<not> pm_wants_upgrade m \<and> \<not> connection_any_close A (mh_headers (pm_head m)) \<and>
      (mh_version (pm_head m) = HTTP_11 \<or>
       list_ex (connection_keep_alive A) (hm_get_all A (mh_headers (pm_head m)) CONNECTION)))"
  using assms(2-)
proof (induction rule: client_parse.raw_induct [OF _ assms(1)])
  case (1 cp A R buf ctx res)
  note prem = 1(2)
  obtain raw where raw: "parse_raw A R buf ctx = Inr (Some raw)"
    using prem 1(4) by (auto split: sum.split_asm option.split_asm)
  obtain head ka where bh: "build_head A R buf ctx raw = Some (Inr (head, ka))"
    using prem 1(4) raw by (auto simp: Let_def split: sum.split_asm option.split_asm)
  have ka: "ka \<longleftrightarrow> \<not> connection_any_close A (mh_headers head) \<and>
    (mh_version head = HTTP_11 \<or>
     list_ex (connection_keep_alive A) (hm_get_all A (mh_headers head) CONNECTION))"
    using http_crate.build_head_fields [OF 1(3) bh 1(5)] .
  show ?case
  proof (cases "client_decoder A head (pc_req_method ctx)")
    case (Inl e)
    then show ?thesis using prem 1(4) raw bh by (simp add: Let_def)
  next
    case (Inr o')
    show ?thesis
    proof (cases o')
      case None
      let ?c = "if is_informational (mh_subject head)
        then ctx\<lparr>pc_cached_headers := None,
               pc_on_informational := map_option (\<lambda>calls. calls @ [head]) (pc_on_informational ctx)\<rparr>
        else ctx\<lparr>pc_cached_headers := None\<rparr>"
      have cp: "cp A R (drop (raw_len raw) buf) ?c = Some res"
        using prem 1(4) raw bh Inr None by (auto simp: Let_def split: if_split_asm)
      have "pc_cached_headers ?c = None" "pc_req_method ?c = pc_req_method ctx" by simp_all
      then show ?thesis using 1(1) [OF cp 1(3) 1(4)] by simp
    next
      case (Some d)
      then show ?thesis using prem 1(4) raw bh Inr ka by (cases d) (auto simp: Let_def)
    qed
  qed
qed


lemma sample_parse_cached:
  assumes "h = None \<or> h = Some []"
  shows "client_parse assoc_api sample_parser sample_response (sample_context\<lparr>pc_cached_headers := h\<rparr>) =
     Some (Some (Inr (Some sample_parsed), [], sample_context))"
proof -
  let ?ctx = "sample_context\<lparr>pc_cached_headers := h\<rparr>"
  have "record_header_indices [((17, 10), (29, 5))] (Suc 99) = Inr [\<lparr>hi_name = (17, 27), hi_value = (29, 34)\<rparr>]"
    by (simp only: record_header_indices.simps) simp
  then have cap: "record_header_indices [((17, 10), (29, 5))] DEFAULT_MAX_HEADERS =
      Inr [\<lparr>hi_name = (17, 27), hi_value = (29, 34)\<rparr>]"
    by (simp add: DEFAULT_MAX_HEADERS_def)
  have reason: "sc_canonical_reason assoc_api 200 = Some (ascii ''OK'')" by (simp add: assoc_api_def)
  have "rp_parse sample_parser sample_response c = HpComplete \<lparr>rr_len = 38, rr_code = 200,
      rr_reason = ascii ''OK'', rr_version = 1, rr_headers = [((17, 10), (29, 5))]\<rparr>" for c
    by (simp add: sample_parser_def sample_response_def ascii_def)
  then have raw: "parse_raw assoc_api sample_parser sample_response ?ctx =
      Inr (Some (RawHead 38 200 None HTTP_11 [\<lparr>hi_name = (17, 27), hi_value = (29, 34)\<rparr>]))"
    by (simp add: parse_raw_def sample_context_def cap reason)
  have head: "build_head assoc_api sample_parser sample_response ?ctx
      (RawHead 38 200 None HTTP_11 [\<lparr>hi_name = (17, 27), hi_value = (29, 34)\<rparr>]) =
      Some (Inr (pm_head sample_parsed, False))"
    using assms
    by (auto simp: build_head_def sample_parser_def sample_context_def sample_response_def sub_slice_def
        assoc_eval std_eval sample_parsed_def connection_close_def connection_has_def)
  have dec: "client_decoder assoc_api (pm_head sample_parsed) (Some GET) = Inr (Some (CLOSE_DELIMITED, False))"
    by (simp add: client_decoder_def sample_parsed_def assoc_eval std_eval hm_contains_key_def
      content_length_parse_all_def content_length_parse_all_values_def)
  show ?thesis
    using raw head dec assms
    by (subst client_parse.simps)
      (simp add: Let_def raw_len_def sample_context_def sample_parsed_def sample_response_def ascii_def)
qed

lemma sample_parse:
  "client_parse assoc_api sample_parser sample_response sample_context =
     Some (Some (Inr (Some sample_parsed), [], sample_context))"
  using sample_parse_cached [of None] by (simp add: sample_context_def)

section \<open>Properties\<close>

text \<open>
  The incremental scan for the end of a head is equivalent to a scan of the whole buffer: when
  the first \<open>prev_len\<close> bytes had no end of head, looking again from three bytes before finds an end
  exactly when the buffer has an empty line, and never indexes out of range.
\<close>

theorem is_complete_fast_incremental:
  assumes "prev_len \<le> length bytes" "\<not> complete_scan (take prev_len bytes)"
  shows "is_complete_fast bytes prev_len = Some (\<exists>i. head_end (drop i bytes))"
  using assms complete_scan_overlap by (simp add: is_complete_fast_def Let_def complete_scan_iff)

theorem is_complete_fast_incremental_witness:
  "is_complete_fast [65, 13, 10, 13, 10] 4 = Some (\<exists>i. head_end (drop i [65, 13, 10, 13, 10]))"
  by (rule is_complete_fast_incremental) simp_all



text \<open>
  C17.  \<^verbatim>\<open>Client::parse\<close> always returns, without a panic, whatever bytes the peer sends: the loop over
  informational responses ends, every recorded range lies inside the head, and what it leaves in
  the buffer is a suffix of what was there.  The hypothesis is what \<^verbatim>\<open>httparse\<close> documents of a
  complete parse: it consumed some of the buffer, and its headers are slices of what it consumed.
\<close>

theorem client_parse_returns:
  assumes "parser_ok R"
  shows "\<exists>res buf' ctx'. client_parse A R buf ctx = Some (Some (res, buf', ctx')) \<and> (\<exists>xs. buf = xs @ buf')"
  by (rule client_parse_total [OF assms])

theorem client_parse_returns_witness:
  "\<exists>res buf' ctx'.
     client_parse assoc_api sample_parser sample_response sample_context = Some (Some (res, buf', ctx')) \<and>
     (\<exists>xs. sample_response = xs @ buf')"
  by (rule client_parse_returns)
     (auto simp: parser_ok_def sample_parser_def range_ok_def sample_response_def ascii_def
        dest: arg_cong [where f = length] split: if_split_asm)

text \<open>
  The message that \<^verbatim>\<open>Client::parse\<close> returns: its body is framed by \<^verbatim>\<open>Client::decoder\<close> for the
  method of the request, and the connection may be reused only when the message is no upgrade, no
  \<^verbatim>\<open>Connection\<close> line asks to close, whatever the order of the lines, and the version is HTTP/1.1
  or a line asks for keep-alive.
\<close>

theorem client_parse_message:
  assumes "http_crate A" "client_parse A R buf ctx = Some (Some (Inr (Some m), buf', ctx'))"
    "\<forall>h k. pc_cached_headers ctx = Some h \<longrightarrow> hm_get_all A h k = []"
  shows "client_decoder A (pm_head m) (pc_req_method ctx) = Inr (Some (pm_decode m, pm_wants_upgrade m)) \<and>
    (pm_keep_alive m \<longleftrightarrow> \<not> pm_wants_upgrade m \<and> \<not> connection_any_close A (mh_headers (pm_head m)) \<and>
      (mh_version (pm_head m) = HTTP_11 \<or>
       list_ex (connection_keep_alive A) (hm_get_all A (mh_headers (pm_head m)) CONNECTION)))"
  using client_parse_message_ind [OF assms(2) assms(1) refl assms(3)] .

theorem client_parse_message_witness:
  "client_parse assoc_api sample_parser sample_response sample_context =
     Some (Some (Inr (Some sample_parsed), [], sample_context)) \<and>
   connection_any_close assoc_api (mh_headers (pm_head sample_parsed)) \<and>
   \<not> pm_keep_alive sample_parsed \<and>
   client_decoder assoc_api (pm_head sample_parsed) (Some GET) = Inr (Some (pm_decode sample_parsed, False))"
  using client_parse_message [OF assoc.http_crate_axioms sample_parse] sample_parse
  by (simp add: sample_context_def sample_parsed_def connection_any_close_def connection_close_def
     connection_has_def assoc_eval std_eval is_visible_ascii_def)

text \<open>
  Unfolding an obsolete folded header line is safe: for a value inside the head there is no
  panic, the head keeps its length, nothing before or after the value changes, the value never
  grows, and no line feed is left in it.
\<close>

theorem obs_fold_line_safe:
  assumes "indices_ok (length all) h"
  shows "\<exists>all' h'. obs_fold_line all h = Some (all', h') \<and> length all' = length all \<and>
    indices_ok (length all) h' \<and> hi_name h' = hi_name h \<and>
    fst (hi_value h') = fst (hi_value h) \<and> snd (hi_value h') \<le> snd (hi_value h) \<and>
    take (fst (hi_value h)) all' = take (fst (hi_value h)) all \<and>
    drop (snd (hi_value h)) all' = drop (snd (hi_value h)) all \<and>
    10 \<notin> set (the (sub_slice all' (hi_value h')))"
  by (rule obs_fold_line_ok [OF assms])

theorem obs_fold_line_safe_witness:
  "\<exists>all' h'. obs_fold_line [97, 58, 98, 13, 10, 32, 99, 13, 10] \<lparr>hi_name = (0, 1), hi_value = (2, 7)\<rparr> =
     Some (all', h') \<and> length all' = 9 \<and> snd (hi_value h') \<le> 7 \<and>
     10 \<notin> set (the (sub_slice all' (hi_value h')))"
  using obs_fold_line_safe [of "[97, 58, 98, 13, 10, 32, 99, 13, 10]" "\<lparr>hi_name = (0, 1), hi_value = (2, 7)\<rparr>"]
  by (auto simp: indices_ok_def)



end
