(* ===== verification/Http1_Io.thy ===== *)
theory Http1_Io
  imports Http1_Role Http1_Buf Http1_Decode
begin

text \<open>
  The buffered transport: \<^verbatim>\<open>Buffered\<close> and \<^verbatim>\<open>ReadStrategy\<close> of \<^verbatim>\<open>src/src/proto/http1/io.rs\<close>.

  The socket (the traits \<^verbatim>\<open>AsyncRead\<close> and \<^verbatim>\<open>AsyncWrite\<close> of \<^verbatim>\<open>tokio\<close>), the helpers
  \<^verbatim>\<open>poll_read_buf\<close> and \<^verbatim>\<open>poll_write_buf\<close> of \<^verbatim>\<open>tokio_util\<close> and the growth of a \<^verbatim>\<open>BytesMut\<close> are
  parameters, the record \<open>io_api\<close>; the locale \<open>transport\<close> states what they document.  A
  \<^verbatim>\<open>BytesMut\<close> is its bytes and its capacity.  The loops of \<^verbatim>\<open>parse\<close> and of the two flush paths are
  \<open>partial_function (option)\<close>, and that they end is proved.
\<close>

section \<open>Errors\<close>

text \<open>\<^verbatim>\<open>error::Kind\<close> and \<^verbatim>\<open>error::User\<close>, each with the cause it is built with.\<close>

datatype user_error =
    UserInvalidRequest
  | UserBody
  | UserBodyWriteAborted
  | UserService
  | UserNoUpgrade
  | UserManualUpgrade
  | UserDispatchGone

datatype http_error =
    ErrParse parse_error
  | ErrUser user_error
  | IncompleteMessage
  | UnexpectedMessage
  | Canceled
  | ChannelClosed
  | ErrIo io_error
  | ErrBody io_error
  | ErrBodyWrite io_error
  | ErrShutdown io_error

definition write_zero :: io_error where
  "write_zero = IoError WriteZero []"

section \<open>Read strategy\<close>

definition MINIMUM_MAX_BUFFER_SIZE :: nat where
  "MINIMUM_MAX_BUFFER_SIZE = INIT_BUFFER_SIZE"

datatype read_strategy = Adaptive bool nat nat | ExactSize nat

definition with_max :: "nat \<Rightarrow> read_strategy" where
  "with_max mx = Adaptive False INIT_BUFFER_SIZE mx"

definition read_strategy_default :: read_strategy where
  "read_strategy_default = with_max DEFAULT_MAX_BUFFER_SIZE"

fun rs_next :: "read_strategy \<Rightarrow> nat" where
  "rs_next (Adaptive _ next _) = next"
| "rs_next (ExactSize exact) = exact"

fun rs_max :: "read_strategy \<Rightarrow> nat" where
  "rs_max (Adaptive _ _ mx) = mx"
| "rs_max (ExactSize exact) = exact"

definition incr_power_of_two :: "nat \<Rightarrow> nat" where
  "incr_power_of_two n = saturating_mul n 2"

text \<open>\<^verbatim>\<open>leading_zeros\<close> of a \<^verbatim>\<open>usize\<close>, by the number of its significant bits.\<close>

fun bit_len :: "nat \<Rightarrow> nat" where
  "bit_len n = (if n = 0 then 0 else Suc (bit_len (n div 2)))"

declare bit_len.simps [simp del]

text \<open>A shift by 64 or more is masked to six bits, as in a release build.\<close>

definition prev_power_of_two :: "nat \<Rightarrow> nat" where
  "prev_power_of_two n = (usize_max div 2 ^ ((64 - bit_len n + 2) mod 64) + 1) mod 2 ^ 64"

fun rs_record :: "read_strategy \<Rightarrow> nat \<Rightarrow> read_strategy" where
  "rs_record (Adaptive decrease_now next mx) bytes_read =
     (if bytes_read \<ge> next then Adaptive False (min (incr_power_of_two next) mx) mx
      else
        (let decr_to = prev_power_of_two next in
         if bytes_read < decr_to then
           (if decrease_now then Adaptive False (max decr_to INIT_BUFFER_SIZE) mx
            else Adaptive True next mx)
         else Adaptive False next mx))"
| "rs_record (ExactSize exact) bytes_read = ExactSize exact"

section \<open>The transport\<close>

text \<open>
  \<open>io_read_buf io buf cap\<close> is \<^verbatim>\<open>poll_read_buf\<close> into a \<^verbatim>\<open>BytesMut\<close> with the bytes \<open>buf\<close> and the
  capacity \<open>cap\<close>; \<open>io_write_buf W io w\<close> is \<^verbatim>\<open>poll_write_buf\<close> of a buffer with the methods \<open>W\<close>;
  \<open>bm_reserve buf cap n\<close> is the capacity after \<^verbatim>\<open>reserve(n)\<close>; \<open>bf_copy_default\<close> is the default
  \<^verbatim>\<open>copy_to_bytes\<close> of the trait \<^verbatim>\<open>Buf\<close>.
\<close>

record ('io, 'w) io_api =
  io_is_write_vectored :: "'io \<Rightarrow> bool"
  io_read_buf :: "'io \<Rightarrow> byte list \<Rightarrow> nat \<Rightarrow> nat io_result poll \<times> 'io \<times> byte list \<times> nat"
  io_write :: "'io \<Rightarrow> byte list \<Rightarrow> nat io_result poll \<times> 'io"
  io_write_buf :: "'w buf_api \<Rightarrow> 'io \<Rightarrow> 'w \<Rightarrow> nat io_result poll \<times> 'io \<times> 'w"
  io_flush :: "'io \<Rightarrow> unit io_result poll \<times> 'io"
  io_shutdown :: "'io \<Rightarrow> unit io_result poll \<times> 'io"
  bm_reserve :: "byte list \<Rightarrow> nat \<Rightarrow> nat \<Rightarrow> nat"
  bf_copy_default :: "'w \<Rightarrow> nat \<Rightarrow> (byte list \<times> 'w) option"

type_synonym ('io, 'b) transport_api = "('io, 'b write_buf) io_api"

section \<open>Buffered\<close>

record ('io, 'b) buffered =
  bd_flush_pipeline :: bool
  bd_io :: 'io
  bd_partial_len :: "nat option"
  bd_read_blocked :: bool
  bd_read_buf :: "byte list"
  bd_read_cap :: nat
  bd_read_buf_strategy :: read_strategy
  bd_write_buf :: "'b write_buf"

definition bd_new :: "('io, 'b) transport_api \<Rightarrow> 'io \<Rightarrow> ('io, 'b) buffered" where
  "bd_new T io =
     \<lparr>bd_flush_pipeline = False, bd_io = io, bd_partial_len = None, bd_read_blocked = False,
      bd_read_buf = [], bd_read_cap = 0, bd_read_buf_strategy = read_strategy_default,
      bd_write_buf = wb_new (if io_is_write_vectored T io then Queue else Flatten)\<rparr>"

text \<open>\<open>None\<close> is the panic of the assertion.\<close>

definition set_max_buf_size :: "('io, 'b) buffered \<Rightarrow> nat \<Rightarrow> ('io, 'b) buffered option" where
  "set_max_buf_size b mx =
     (if mx \<ge> MINIMUM_MAX_BUFFER_SIZE then
        Some (b\<lparr>bd_read_buf_strategy := with_max mx,
                bd_write_buf := (bd_write_buf b)\<lparr>wb_max_buf_size := mx\<rparr>\<rparr>)
      else None)"

definition set_read_buf_exact_size :: "('io, 'b) buffered \<Rightarrow> nat \<Rightarrow> ('io, 'b) buffered" where
  "set_read_buf_exact_size b sz = b\<lparr>bd_read_buf_strategy := ExactSize sz\<rparr>"

definition set_write_strategy_flatten :: "('io, 'b) buffered \<Rightarrow> ('io, 'b) buffered" where
  "set_write_strategy_flatten b = b\<lparr>bd_write_buf := set_strategy (bd_write_buf b) Flatten\<rparr>"

definition set_write_strategy_queue :: "('io, 'b) buffered \<Rightarrow> ('io, 'b) buffered" where
  "set_write_strategy_queue b = b\<lparr>bd_write_buf := set_strategy (bd_write_buf b) Queue\<rparr>"

definition read_buf_remaining_mut :: "('io, 'b) buffered \<Rightarrow> nat" where
  "read_buf_remaining_mut b = bd_read_cap b - length (bd_read_buf b)"

definition can_headers_buf :: "('io, 'b) buffered \<Rightarrow> bool" where
  "can_headers_buf b = (\<not> bl_remaining (wb_queue (bd_write_buf b)) > 0)"

text \<open>What a caller does to \<^verbatim>\<open>headers_buf()\<close> is a function on the vector of the cursor.\<close>

definition headers_buf ::
    "(byte list \<Rightarrow> byte list) \<Rightarrow> ('io, 'b) buffered \<Rightarrow> ('io, 'b) buffered" where
  "headers_buf f b =
     (let h = wb_headers (bd_write_buf b); bs = f (cu_bytes h) in
      b\<lparr>bd_write_buf := (bd_write_buf b)\<lparr>wb_headers :=
          h\<lparr>cu_bytes := bs, cu_cap := max (cu_cap h) (length bs)\<rparr>\<rparr>\<rparr>)"

definition bd_buffer ::
    "'b buf_api \<Rightarrow> 'c buf_api \<Rightarrow> ('c \<Rightarrow> 'b) \<Rightarrow> ('io, 'b) buffered \<Rightarrow> 'c \<Rightarrow>
     ('io, 'b) buffered option option" where
  "bd_buffer B C into b buf =
     map_option (map_option (\<lambda>w. b\<lparr>bd_write_buf := w\<rparr>)) (wb_buffer B C into (bd_write_buf b) buf)"

definition has_buffered_write :: "('io, 'b) buffered \<Rightarrow> bool" where
  "has_buffered_write b = (wb_remaining (bd_write_buf b) > 0)"

definition bd_can_buffer :: "('io, 'b) buffered \<Rightarrow> bool" where
  "bd_can_buffer b = (bd_flush_pipeline b \<or> wb_can_buffer (bd_write_buf b))"

text \<open>Splitting or advancing a \<^verbatim>\<open>BytesMut\<close> gives up the front of its capacity.\<close>

definition consume_read_buf :: "nat \<Rightarrow> ('io, 'b) buffered \<Rightarrow> ('io, 'b) buffered" where
  "consume_read_buf n b =
     b\<lparr>bd_read_buf := drop n (bd_read_buf b), bd_read_cap := bd_read_cap b - n\<rparr>"

definition consume_leading_lines :: "('io, 'b) buffered \<Rightarrow> ('io, 'b) buffered" where
  "consume_leading_lines b =
     (if bd_read_buf b \<noteq> [] then
        consume_read_buf (length (takeWhile (\<lambda>c. c = 13 \<or> c = 10) (bd_read_buf b))) b
      else b)"

text \<open>
  The capacity before a read: the next amount to allocate, without going over the maximum size of
  the buffer.
\<close>

definition reserve_next :: "('io, 'b) transport_api \<Rightarrow> ('io, 'b) buffered \<Rightarrow> nat" where
  "reserve_next T b =
     (let next = min (rs_next (bd_read_buf_strategy b))
                     (rs_max (bd_read_buf_strategy b) - length (bd_read_buf b)) in
      if read_buf_remaining_mut b < next
      then bm_reserve T (bd_read_buf b) (bd_read_cap b) next else bd_read_cap b)"

definition poll_read_from_io ::
    "('io, 'b) transport_api \<Rightarrow> ('io, 'b) buffered \<Rightarrow> nat io_result poll \<times> ('io, 'b) buffered" where
  "poll_read_from_io T b0 =
     (let b = b0\<lparr>bd_read_blocked := False\<rparr> in
      case io_read_buf T (bd_io b) (bd_read_buf b) (reserve_next T b) of
        (res, io, buf, cap) \<Rightarrow>
          (let b' = b\<lparr>bd_io := io, bd_read_buf := buf, bd_read_cap := cap\<rparr> in
           case res of
             Ready (Inr n) \<Rightarrow>
               (Ready (Inr n), b'\<lparr>bd_read_buf_strategy := rs_record (bd_read_buf_strategy b') n\<rparr>)
           | Pending \<Rightarrow> (Pending, b'\<lparr>bd_read_blocked := True\<rparr>)
           | Ready (Inl e) \<Rightarrow> (Ready (Inl e), b')
           | Panicked \<Rightarrow> (Panicked, b')))"

text \<open>\<^verbatim>\<open>impl MemRead for Buffered\<close>.\<close>

definition read_mem :: "('io, 'b) transport_api \<Rightarrow> ('io, 'b) buffered mem_reader" where
  "read_mem T b len =
     (if bd_read_buf b \<noteq> [] then
        (let n = min len (length (bd_read_buf b)) in
         (Ready (Inr (take n (bd_read_buf b))), consume_read_buf n b))
      else
        (case poll_read_from_io T b of
           (Ready (Inr n), b') \<Rightarrow>
             (let k = min len n in
              if k \<le> length (bd_read_buf b')
              then (Ready (Inr (take k (bd_read_buf b'))), consume_read_buf k b')
              else (Panicked, b'))
         | (Ready (Inl e), b') \<Rightarrow> (Ready (Inl e), b')
         | (Pending, b') \<Rightarrow> (Pending, b')
         | (Panicked, b') \<Rightarrow> (Panicked, b')))"

text \<open>\<^verbatim>\<open>parse<S>\<close>: the method \<^verbatim>\<open>S::parse\<close> is the argument \<open>S\<close>.\<close>

partial_function (option) bd_parse ::
    "('io, 'b) transport_api \<Rightarrow> ('msg, 'm parse_context) transaction_parse \<Rightarrow>
     ('io, 'b) buffered \<Rightarrow> 'm parse_context \<Rightarrow>
     ((http_error + 'msg) poll \<times> ('io, 'b) buffered \<times> 'm parse_context) option" where
  "bd_parse T S b ctx =
     (case parse_headers S (bd_read_buf b) (bd_partial_len b) ctx of
        None \<Rightarrow> None
      | Some None \<Rightarrow> Some (Panicked, b, ctx)
      | Some (Some (res, buf, ctx')) \<Rightarrow>
          (let b1 = b\<lparr>bd_read_buf := buf,
                      bd_read_cap := bd_read_cap b - (length (bd_read_buf b) - length buf)\<rparr> in
           case res of
             Inl e \<Rightarrow> Some (Ready (Inl (ErrParse e)), b1, ctx')
           | Inr (Some msg) \<Rightarrow> Some (Ready (Inr msg), b1\<lparr>bd_partial_len := None\<rparr>, ctx')
           | Inr None \<Rightarrow>
               (let curr_len = length buf in
                if (case pc_max_header_size ctx' of Some m \<Rightarrow> curr_len \<ge> m | None \<Rightarrow> False)
                then Some (Ready (Inl (ErrParse TooLarge)), b1, ctx')
                else if curr_len \<ge> rs_max (bd_read_buf_strategy b1)
                then Some (Ready (Inl (ErrParse TooLarge)), b1, ctx')
                else
                  (let b2 = b1\<lparr>bd_partial_len := (if curr_len > 0 then Some curr_len else None)\<rparr> in
                   case poll_read_from_io T b2 of
                     (Pending, b3) \<Rightarrow> Some (Pending, b3, ctx')
                   | (Panicked, b3) \<Rightarrow> Some (Panicked, b3, ctx')
                   | (Ready (Inl e), b3) \<Rightarrow> Some (Ready (Inl (ErrIo e)), b3, ctx')
                   | (Ready (Inr n), b3) \<Rightarrow>
                       if n = 0 then Some (Ready (Inl IncompleteMessage), b3, ctx')
                       else bd_parse T S b3 ctx'))))"

declare bd_parse.simps [code]

section \<open>Flushing\<close>

definition flush_io ::
    "('io, 'b) transport_api \<Rightarrow> ('io, 'b) buffered \<Rightarrow> unit io_result poll \<times> ('io, 'b) buffered" where
  "flush_io T b = (case io_flush T (bd_io b) of (res, io) \<Rightarrow> (res, b\<lparr>bd_io := io\<rparr>))"

partial_function (option) poll_flush_flattened ::
    "('io, 'b) transport_api \<Rightarrow> ('io, 'b) buffered \<Rightarrow>
     (unit io_result poll \<times> ('io, 'b) buffered) option" where
  "poll_flush_flattened T b =
     (case io_write T (bd_io b) (cursor_chunk (wb_headers (bd_write_buf b))) of
        (Pending, io) \<Rightarrow> Some (Pending, b\<lparr>bd_io := io\<rparr>)
      | (Panicked, io) \<Rightarrow> Some (Panicked, b\<lparr>bd_io := io\<rparr>)
      | (Ready (Inl e), io) \<Rightarrow> Some (Ready (Inl e), b\<lparr>bd_io := io\<rparr>)
      | (Ready (Inr n), io) \<Rightarrow>
          (let w = bd_write_buf b; h = cursor_advance (wb_headers w) n in
           if cursor_remaining h = 0 then
             Some (flush_io T (b\<lparr>bd_io := io, bd_write_buf := w\<lparr>wb_headers := cursor_reset h\<rparr>\<rparr>))
           else
             (let b' = b\<lparr>bd_io := io, bd_write_buf := w\<lparr>wb_headers := h\<rparr>\<rparr> in
              if n = 0 then Some (Ready (Inl write_zero), b')
              else poll_flush_flattened T b')))"

declare poll_flush_flattened.simps [code]

text \<open>The loop of \<^verbatim>\<open>poll_flush\<close> over a queue of buffers.\<close>

partial_function (option) poll_flush_queue ::
    "('io, 'b) transport_api \<Rightarrow> 'b buf_api \<Rightarrow> ('io, 'b) buffered \<Rightarrow>
     (unit io_result poll \<times> ('io, 'b) buffered) option" where
  "poll_flush_queue T B b =
     (case io_write_buf T (wb_api B (bf_copy_default T)) (bd_io b) (bd_write_buf b) of
        (res, io, w) \<Rightarrow>
          (let b' = b\<lparr>bd_io := io, bd_write_buf := w\<rparr> in
           case res of
             Pending \<Rightarrow> Some (Pending, b')
           | Panicked \<Rightarrow> Some (Panicked, b')
           | Ready (Inl e) \<Rightarrow> Some (Ready (Inl e), b')
           | Ready (Inr n) \<Rightarrow>
               (if wb_remaining w = 0 then Some (flush_io T b')
                else if n = 0 then Some (Ready (Inl write_zero), b')
                else poll_flush_queue T B b')))"

declare poll_flush_queue.simps [code]

definition poll_flush ::
    "('io, 'b) transport_api \<Rightarrow> 'b buf_api \<Rightarrow> ('io, 'b) buffered \<Rightarrow>
     (unit io_result poll \<times> ('io, 'b) buffered) option" where
  "poll_flush T B b =
     (if bd_flush_pipeline b \<and> bd_read_buf b \<noteq> [] then Some (Ready (Inr ()), b)
      else if wb_remaining (bd_write_buf b) = 0 then Some (flush_io T b)
      else if wb_strategy (bd_write_buf b) = Flatten then poll_flush_flattened T b
      else poll_flush_queue T B b)"

definition poll_shutdown ::
    "('io, 'b) transport_api \<Rightarrow> 'b buf_api \<Rightarrow> ('io, 'b) buffered \<Rightarrow>
     (unit io_result poll \<times> ('io, 'b) buffered) option" where
  "poll_shutdown T B b =
     (case poll_flush T B b of
        None \<Rightarrow> None
      | Some (Ready (Inr u), b') \<Rightarrow>
          Some (case io_shutdown T (bd_io b') of (res, io) \<Rightarrow> (res, b'\<lparr>bd_io := io\<rparr>))
      | Some (res, b') \<Rightarrow> Some (res, b'))"

section \<open>Specification\<close>

text \<open>What the read strategy keeps: the next size lies between the initial size and the maximum.\<close>

fun rs_ok :: "read_strategy \<Rightarrow> bool" where
  "rs_ok (Adaptive _ next mx) = (INIT_BUFFER_SIZE \<le> next \<and> next \<le> mx \<and> mx \<le> usize_max)"
| "rs_ok (ExactSize exact) = True"

text \<open>The bytes of the peer that have not been consumed, and the bytes that are sent or queued.\<close>

definition bd_stream :: "('io \<Rightarrow> byte list) \<Rightarrow> ('io, 'b) buffered \<Rightarrow> byte list" where
  "bd_stream incoming b = bd_read_buf b @ incoming (bd_io b)"

definition bd_output ::
    "('io \<Rightarrow> byte list) \<Rightarrow> ('b \<Rightarrow> byte list) \<Rightarrow> ('io, 'b) buffered \<Rightarrow> byte list" where
  "bd_output sent contents b = sent (bd_io b) @ wb_contents contents (bd_write_buf b)"

definition bd_read_ok :: "('io \<Rightarrow> bool) \<Rightarrow> ('io, 'b) buffered \<Rightarrow> bool" where
  "bd_read_ok io_ok b \<longleftrightarrow> io_ok (bd_io b) \<and> length (bd_read_buf b) \<le> bd_read_cap b"

text \<open>The documented behaviour of the transport.\<close>

locale transport =
  fixes T :: "('io, 'w) io_api"
    and incoming :: "'io \<Rightarrow> byte list"
    and sent :: "'io \<Rightarrow> byte list"
    and io_ok :: "'io \<Rightarrow> bool"
  assumes io_read_keeps: "\<lbrakk>io_ok io; length buf \<le> cap; io_read_buf T io buf cap = (res, io', buf', cap')\<rbrakk> \<Longrightarrow>
          io_ok io' \<and> sent io' = sent io \<and> length buf' \<le> cap' \<and> res \<noteq> Panicked"
    and io_read_ready: "\<lbrakk>io_ok io; length buf \<le> cap; io_read_buf T io buf cap = (Ready (Inr n), io', buf', cap')\<rbrakk> \<Longrightarrow>
          \<exists>bs. buf' = buf @ bs \<and> length bs = n \<and> incoming io = bs @ incoming io' \<and>
               (n = 0 \<longrightarrow> incoming io = [])"
    and io_read_idle: "\<lbrakk>io_ok io; length buf \<le> cap; io_read_buf T io buf cap = (res, io', buf', cap');
            \<nexists>n. res = Ready (Inr n)\<rbrakk> \<Longrightarrow> buf' = buf \<and> incoming io' = incoming io"
    and io_reserve: "length buf \<le> cap \<Longrightarrow> length buf + n \<le> bm_reserve T buf cap n"
    and io_write_keeps: "\<lbrakk>io_ok io; io_write T io bs = (res, io')\<rbrakk> \<Longrightarrow>
          io_ok io' \<and> incoming io' = incoming io \<and> res \<noteq> Panicked"
    and io_write_ready: "\<lbrakk>io_ok io; io_write T io bs = (Ready (Inr n), io')\<rbrakk> \<Longrightarrow>
          n \<le> length bs \<and> sent io' = sent io @ take n bs"
    and io_write_idle: "\<lbrakk>io_ok io; io_write T io bs = (res, io'); \<nexists>n. res = Ready (Inr n)\<rbrakk> \<Longrightarrow>
          sent io' = sent io"
    and io_write_buf_keeps: "\<lbrakk>io_ok io; io_write_buf T W io w = (res, io', w');
            \<forall>bs \<in> {bf_chunk W w, concat (bf_chunks_vectored W w 64)}.
              \<forall>n \<le> length bs. bf_advance W w n \<noteq> None\<rbrakk> \<Longrightarrow>
          io_ok io' \<and> incoming io' = incoming io \<and> res \<noteq> Panicked"
    and io_write_buf_ready: "\<lbrakk>io_ok io; io_write_buf T W io w = (Ready (Inr n), io', w')\<rbrakk> \<Longrightarrow>
          bf_advance W w n = Some w' \<and>
          (\<exists>bs \<in> {bf_chunk W w, concat (bf_chunks_vectored W w 64)}.
             n \<le> length bs \<and> sent io' = sent io @ take n bs)"
    and io_write_buf_idle: "\<lbrakk>io_ok io; io_write_buf T W io w = (res, io', w'); \<nexists>n. res = Ready (Inr n)\<rbrakk> \<Longrightarrow>
          sent io' = sent io \<and> (res \<noteq> Panicked \<longrightarrow> w' = w)"
    and io_flush_keeps: "\<lbrakk>io_ok io; io_flush T io = (fin, io')\<rbrakk> \<Longrightarrow>
          io_ok io' \<and> incoming io' = incoming io \<and> sent io' = sent io \<and> fin \<noteq> Panicked"
    and io_shutdown_keeps: "\<lbrakk>io_ok io; io_shutdown T io = (fin, io')\<rbrakk> \<Longrightarrow>
          io_ok io' \<and> incoming io' = incoming io \<and> sent io' = sent io \<and> fin \<noteq> Panicked"

text \<open>A transport that reports no read error, and stays pending only a bounded number of times.\<close>

locale live_transport = transport +
  fixes waits :: "'a \<Rightarrow> nat"
  assumes read_waits: "\<lbrakk>io_ok io; length buf \<le> cap; io_read_buf T io buf cap = (res, io', buf', cap')\<rbrakk> \<Longrightarrow>
          (\<nexists>e. res = Ready (Inl e)) \<and> waits io' \<le> waits io \<and> (res = Pending \<longrightarrow> waits io' < waits io)"

text \<open>
  A scripted transport: what the peer sends, in pieces, with the polls at which nothing is there
  and the errors; how much each write takes, or that it has to wait; and what was written.
\<close>

datatype recv = Recv "byte list" | RecvWait | RecvError io_error

record script =
  sc_recv :: "recv list"
  sc_write :: "nat option list"
  sc_sent :: "byte list"
  sc_vectored :: bool

fun recv_bytes :: "recv \<Rightarrow> byte list" where
  "recv_bytes (Recv bs) = bs"
| "recv_bytes RecvWait = []"
| "recv_bytes (RecvError e) = []"

definition sc_incoming :: "script \<Rightarrow> byte list" where
  "sc_incoming s = concat (map recv_bytes (sc_recv s))"

definition sc_ok :: "script \<Rightarrow> bool" where
  "sc_ok s \<longleftrightarrow> Recv [] \<notin> set (sc_recv s)"

definition sc_live :: "script \<Rightarrow> bool" where
  "sc_live s \<longleftrightarrow> sc_ok s \<and> (\<forall>r \<in> set (sc_recv s). \<forall>e. r \<noteq> RecvError e)"

definition sc_read_buf ::
    "script \<Rightarrow> byte list \<Rightarrow> nat \<Rightarrow> nat io_result poll \<times> script \<times> byte list \<times> nat" where
  "sc_read_buf s buf cap0 =
     (let cap = (if cap0 \<le> length buf then length buf + 64 else cap0) in
      case sc_recv s of
        [] \<Rightarrow> (Ready (Inr 0), s, buf, cap)
      | RecvWait # rs \<Rightarrow> (Pending, s\<lparr>sc_recv := rs\<rparr>, buf, cap)
      | RecvError e # rs \<Rightarrow> (Ready (Inl e), s\<lparr>sc_recv := rs\<rparr>, buf, cap)
      | Recv bs # rs \<Rightarrow>
          (let n = min (length bs) (cap - length buf) in
           (Ready (Inr n), s\<lparr>sc_recv := (if n < length bs then Recv (drop n bs) # rs else rs)\<rparr>,
            buf @ take n bs, cap)))"

definition sc_write_bytes :: "script \<Rightarrow> byte list \<Rightarrow> nat io_result poll \<times> script" where
  "sc_write_bytes s bs =
     (case sc_write s of
        [] \<Rightarrow> (Ready (Inr (length bs)), s\<lparr>sc_sent := sc_sent s @ bs\<rparr>)
      | None # ws \<Rightarrow> (Pending, s\<lparr>sc_write := ws\<rparr>)
      | Some k # ws \<Rightarrow>
          (Ready (Inr (min k (length bs))),
           s\<lparr>sc_write := ws, sc_sent := sc_sent s @ take (min k (length bs)) bs\<rparr>))"

definition sc_write_buf ::
    "'w buf_api \<Rightarrow> script \<Rightarrow> 'w \<Rightarrow> nat io_result poll \<times> script \<times> 'w" where
  "sc_write_buf W s w =
     (let bs = (if sc_vectored s then concat (bf_chunks_vectored W w 64) else bf_chunk W w) in
      case sc_write_bytes s bs of
        (Ready (Inr n), s') \<Rightarrow>
          (case bf_advance W w n of Some w' \<Rightarrow> (Ready (Inr n), s', w') | None \<Rightarrow> (Panicked, s, w))
      | (res, s') \<Rightarrow> (res, s', w))"

definition sc_api :: "(script, 'w) io_api" where
  "sc_api =
     \<lparr>io_is_write_vectored = sc_vectored, io_read_buf = sc_read_buf, io_write = sc_write_bytes,
      io_write_buf = sc_write_buf, io_flush = (\<lambda>s. (Ready (Inr ()), s)),
      io_shutdown = (\<lambda>s. (Ready (Inr ()), s)), bm_reserve = (\<lambda>buf cap n. max cap (length buf + n)),
      bf_copy_default = (\<lambda>w n. None)\<rparr>"

text \<open>What a recorded partial length may be.\<close>

definition partial_ok :: "('io, 'b) buffered \<Rightarrow> bool" where
  "partial_ok b \<longleftrightarrow> (case bd_partial_len b of Some n \<Rightarrow> n \<le> length (bd_read_buf b) | None \<Rightarrow> True)"

text \<open>What a call of \<^verbatim>\<open>parse\<close> keeps and promises.\<close>

definition parse_post ::
    "('io \<Rightarrow> byte list) \<Rightarrow> ('io \<Rightarrow> byte list) \<Rightarrow> ('io \<Rightarrow> bool) \<Rightarrow> ('io, 'b) buffered \<Rightarrow>
     (http_error + 'msg) poll \<Rightarrow> ('io, 'b) buffered \<Rightarrow> 'm parse_context \<Rightarrow> bool" where
  "parse_post incoming sent io_ok b res b' ctx' \<longleftrightarrow>
     res \<noteq> Panicked \<and> bd_read_ok io_ok b' \<and> bd_write_buf b' = bd_write_buf b \<and>
     sent (bd_io b') = sent (bd_io b) \<and>
     (\<exists>xs. bd_stream incoming b = xs @ bd_stream incoming b') \<and>
     (res = Pending \<longrightarrow> partial_ok b' \<and> length (bd_read_buf b') < rs_max (bd_read_buf_strategy b) \<and>
        (\<forall>m. pc_max_header_size ctx' = Some m \<longrightarrow> length (bd_read_buf b') < m)) \<and>
     (\<forall>msg. res = Ready (Inr msg) \<longrightarrow> bd_partial_len b' = None)"

text \<open>What a flush keeps: no byte is lost, repeated or reordered, and the read side is untouched.\<close>

definition flush_post ::
    "('io \<Rightarrow> byte list) \<Rightarrow> ('io \<Rightarrow> byte list) \<Rightarrow> ('io \<Rightarrow> bool) \<Rightarrow> ('b \<Rightarrow> byte list) \<Rightarrow> ('b \<Rightarrow> bool) \<Rightarrow>
     ('io, 'b) buffered \<Rightarrow> unit io_result poll \<Rightarrow> ('io, 'b) buffered \<Rightarrow> bool" where
  "flush_post incoming sent io_ok contents ok b res b' \<longleftrightarrow>
     res \<noteq> Panicked \<and> io_ok (bd_io b') \<and> wb_ok contents ok (bd_write_buf b') \<and>
     bd_output sent contents b' = bd_output sent contents b \<and>
     incoming (bd_io b') = incoming (bd_io b) \<and> bd_read_buf b' = bd_read_buf b \<and>
     bd_read_cap b' = bd_read_cap b \<and> bd_partial_len b' = bd_partial_len b"

definition parse_total :: "('msg, 'ctx) transaction_parse \<Rightarrow> bool" where
  "parse_total S \<longleftrightarrow> (\<forall>buf ctx. \<exists>res buf' ctx'. S buf ctx = Some (Some (res, buf', ctx')) \<and> (\<exists>xs. buf = xs @ buf'))"

definition sc_waits :: "script \<Rightarrow> nat" where
  "sc_waits s = length (filter (\<lambda>r. r = RecvWait) (sc_recv s))"

definition sample_buffered :: "script \<Rightarrow> (script, byte list) buffered" where
  "sample_buffered s =
     (bd_new sc_api s)\<lparr>bd_write_buf := (wb_new Queue)\<lparr>wb_queue := \<lparr>bl_bufs = [[1, 2], [3]], bl_left = 3\<rparr>\<rparr>\<rparr>"

section \<open>The read strategy\<close>

lemma div_pred: "0 < a \<Longrightarrow> 0 < b \<Longrightarrow> (a * b - 1) div b = a - (1::nat)"
  by (intro div_nat_eqI) (auto simp: algebra_simps)

lemma bit_len_bounds: "0 < n \<Longrightarrow> 2 ^ (bit_len n - 1) \<le> n \<and> n < 2 ^ bit_len n \<and> 0 < bit_len n"
proof (induction n rule: bit_len.induct)
  case (1 n)
  show ?case
  proof (cases "n div 2 = 0")
    case True
    then have "n = 1" using 1 by linarith
    moreover have "bit_len 1 = 1" by (simp add: bit_len.simps)
    ultimately show ?thesis by simp
  next
    case False
    then have IH: "2 ^ (bit_len (n div 2) - 1) \<le> n div 2" "n div 2 < 2 ^ bit_len (n div 2)"
      "0 < bit_len (n div 2)" using 1 by auto
    have "bit_len n = Suc (bit_len (n div 2))" using 1 by (subst bit_len.simps) simp
    moreover have "2 ^ bit_len (n div 2) = 2 * (2::nat) ^ (bit_len (n div 2) - 1)"
      using IH(3) by (metis Suc_diff_1 power_Suc)
    ultimately show ?thesis using IH by simp linarith
  qed
qed

lemma prev_power_of_two_eq:
  assumes "4 \<le> n" "n \<le> usize_max"
  shows "prev_power_of_two n = 2 ^ (bit_len n - 2) \<and> 2 * prev_power_of_two n \<le> n \<and>
    n < 4 * prev_power_of_two n"
proof -
  have b: "2 ^ (bit_len n - 1) \<le> n" "n < 2 ^ bit_len n" "0 < bit_len n"
    using bit_len_bounds [of n] assms by auto
  have "(2::nat) ^ (bit_len n - 1) < 2 ^ 64" using b assms by simp
  then have hi: "bit_len n \<le> 64" by (subst (asm) power_strict_increasing_iff) auto
  have "(2::nat) ^ 2 < 2 ^ bit_len n" using b assms by simp
  then have lo: "3 \<le> bit_len n" by (subst (asm) power_strict_increasing_iff) auto
  define k where "k = bit_len n - 2"
  have k: "bit_len n = k + 2" "1 \<le> k" "k \<le> 62" using lo hi by (auto simp: k_def)
  have split: "(2::nat) ^ 64 = 2 ^ k * 2 ^ (64 - k)" using k(3) by (simp flip: power_add)
  have "usize_max div 2 ^ (64 - k) = 2 ^ k - 1"
    using div_pred [of "2 ^ k" "2 ^ (64 - k)"] unfolding split by simp
  moreover have "(64 - bit_len n + 2) mod 64 = 64 - k" using k by simp
  moreover have "(2::nat) ^ k < 2 ^ 64" using k(3) by (intro power_strict_increasing) auto
  ultimately have "prev_power_of_two n = 2 ^ k" by (simp add: prev_power_of_two_def)
  then show ?thesis using b k by (simp add: power_add)
qed

lemma rs_ok_record: "rs_ok s \<Longrightarrow> rs_ok (rs_record s n)"
proof (cases s)
  case (Adaptive d nx mx)
  assume "rs_ok s"
  then have *: "8192 \<le> nx" "nx \<le> mx" "mx \<le> usize_max" using Adaptive by (auto simp: INIT_BUFFER_SIZE_def)
  then have "2 * prev_power_of_two nx \<le> nx" using prev_power_of_two_eq [of nx] by simp
  moreover have "nx \<le> incr_power_of_two nx"
    using * by (simp add: incr_power_of_two_def saturating_mul_def)
  ultimately show ?thesis using * Adaptive by (auto simp: INIT_BUFFER_SIZE_def Let_def)
qed simp

section \<open>Reading\<close>

text \<open>A transport that carries write buffers.\<close>

locale buffered_transport = transport T incoming sent io_ok
  for T :: "('io, 'b) transport_api" and incoming sent io_ok
begin

lemma reserve_next_ok:
  "length (bd_read_buf b) \<le> bd_read_cap b \<Longrightarrow> length (bd_read_buf b) \<le> reserve_next T b"
  using io_reserve [of "bd_read_buf b" "bd_read_cap b"]
  by (auto simp: reserve_next_def Let_def intro: order_trans [OF le_add1])

lemma poll_read_ok:
  assumes "bd_read_ok io_ok b" "poll_read_from_io T b = (res, b')"
  shows "bd_read_ok io_ok b' \<and> res \<noteq> Panicked \<and> bd_stream incoming b' = bd_stream incoming b \<and>
    bd_write_buf b' = bd_write_buf b \<and> sent (bd_io b') = sent (bd_io b) \<and>
    bd_partial_len b' = bd_partial_len b \<and>
    (\<forall>n. res = Ready (Inr n) \<longrightarrow> (\<exists>bs. bd_read_buf b' = bd_read_buf b @ bs \<and> length bs = n \<and>
       incoming (bd_io b) = bs @ incoming (bd_io b')) \<and> (n = 0 \<longrightarrow> incoming (bd_io b) = [])) \<and>
    ((\<nexists>n. res = Ready (Inr n)) \<longrightarrow> bd_read_buf b' = bd_read_buf b) \<and>
    (rs_ok (bd_read_buf_strategy b) \<longrightarrow> rs_ok (bd_read_buf_strategy b'))"
proof -
  let ?b = "b\<lparr>bd_read_blocked := False\<rparr>"
  obtain r io buf cap where rd: "io_read_buf T (bd_io b) (bd_read_buf b) (reserve_next T ?b) = (r, io, buf, cap)"
    by (metis prod_cases4)
  have ok: "io_ok (bd_io b)" "length (bd_read_buf b) \<le> reserve_next T ?b"
    using assms(1) reserve_next_ok [of ?b] by (auto simp: bd_read_ok_def)
  note keeps = io_read_keeps [OF ok rd]
  have eq: "poll_read_from_io T b =
     (let b' = ?b\<lparr>bd_io := io, bd_read_buf := buf, bd_read_cap := cap\<rparr> in
           case r of
             Ready (Inr n) \<Rightarrow>
               (Ready (Inr n), b'\<lparr>bd_read_buf_strategy := rs_record (bd_read_buf_strategy b') n\<rparr>)
           | Pending \<Rightarrow> (Pending, b'\<lparr>bd_read_blocked := True\<rparr>)
           | Ready (Inl e) \<Rightarrow> (Ready (Inl e), b')
           | Panicked \<Rightarrow> (Panicked, b'))"
    unfolding poll_read_from_io_def Let_def by (simp add: rd)
  show ?thesis
  proof (cases "\<exists>n. r = Ready (Inr n)")
    case True
    then obtain n where n: "r = Ready (Inr n)" by blast
    obtain bs where "buf = bd_read_buf b @ bs" "length bs = n" "incoming (bd_io b) = bs @ incoming io"
        "n = 0 \<longrightarrow> incoming (bd_io b) = []"
      using io_read_ready [OF ok] rd n by metis
    then show ?thesis using assms(2) keeps rs_ok_record unfolding eq n
      by (auto simp: Let_def bd_read_ok_def bd_stream_def)
  next
    case False
    then have "buf = bd_read_buf b" "incoming io = incoming (bd_io b)"
      using io_read_idle [OF ok rd] by auto
    then show ?thesis using assms(2) keeps False unfolding eq
      by (cases r) (auto simp: Let_def bd_read_ok_def bd_stream_def split: sum.split_asm)
  qed
qed

end

lemma rs_max_record [simp]: "rs_max (rs_record s n) = rs_max s"
  by (cases s) (simp_all add: Let_def)

lemma consume_read_ok:
  "bd_read_ok io_ok b \<Longrightarrow> bd_read_ok io_ok (consume_read_buf n b)"
  by (auto simp: bd_read_ok_def consume_read_buf_def)

lemma consume_stream:
  "n \<le> length (bd_read_buf b) \<Longrightarrow>
   bd_stream incoming b = take n (bd_read_buf b) @ bd_stream incoming (consume_read_buf n b)"
  by (simp add: bd_stream_def consume_read_buf_def)

context buffered_transport
begin

lemma poll_read_max:
  "poll_read_from_io T b = (res, b') \<Longrightarrow> rs_max (bd_read_buf_strategy b') = rs_max (bd_read_buf_strategy b)"
  unfolding poll_read_from_io_def Let_def
  by (auto split: prod.split_asm poll.split_asm sum.split_asm)

lemma read_mem_ok:
  assumes "bd_read_ok io_ok b" "read_mem T b n = (res, b')"
  shows "bd_read_ok io_ok b' \<and> res \<noteq> Panicked \<and>
    (\<forall>bs. res = Ready (Inr bs) \<longrightarrow> length bs \<le> n \<and> bd_stream incoming b = bs @ bd_stream incoming b' \<and>
       (bs = [] \<and> 0 < n \<longrightarrow> bd_stream incoming b = [])) \<and>
    ((\<nexists>bs. res = Ready (Inr bs)) \<longrightarrow> bd_stream incoming b' = bd_stream incoming b)"
proof (cases "bd_read_buf b = []")
  case False
  then have "res = Ready (Inr (take (min n (length (bd_read_buf b))) (bd_read_buf b)))"
      "b' = consume_read_buf (min n (length (bd_read_buf b))) b"
    using assms(2) by (auto simp: read_mem_def Let_def)
  then show ?thesis
    using assms(1) consume_read_ok consume_stream [of "min n (length (bd_read_buf b))" b incoming] False
    by (auto simp: min_def split: if_split_asm)
next
  case True
  obtain r b1 where rd: "poll_read_from_io T b = (r, b1)" by force
  note ok = poll_read_ok [OF assms(1) rd]
  show ?thesis
  proof (cases "\<exists>k. r = Ready (Inr k)")
    case True
    then obtain k where k: "r = Ready (Inr k)" by blast
    then obtain bs where "bd_read_buf b1 = bd_read_buf b @ bs" "length bs = k"
        "k = 0 \<longrightarrow> incoming (bd_io b) = []" using ok by blast
    then have len: "length (bd_read_buf b1) = k" "k = 0 \<longrightarrow> bd_stream incoming b = []"
      using \<open>bd_read_buf b = []\<close> by (simp_all add: bd_stream_def)
    then have res: "res = Ready (Inr (take (min n k) (bd_read_buf b1)))" "b' = consume_read_buf (min n k) b1"
      using assms(2) rd k \<open>bd_read_buf b = []\<close> by (auto simp: read_mem_def Let_def)
    have "bd_stream incoming b = take (min n k) (bd_read_buf b1) @ bd_stream incoming b'"
      using consume_stream [of "min n k" b1 incoming] len(1) ok res(2) by simp
    moreover have "bd_read_ok io_ok b'" using ok consume_read_ok res(2) by blast
    moreover have "length (take (min n k) (bd_read_buf b1)) = min n k" using len(1) by simp
    ultimately show ?thesis using res(1) len(2) by auto
  next
    case False
    then have "res \<noteq> Panicked \<and> b' = b1 \<and> (\<nexists>bs. res = Ready (Inr bs))"
      using assms(2) rd True ok by (cases r) (auto simp: read_mem_def split: sum.split_asm)
    then show ?thesis using ok by auto
  qed
qed

end

sublocale buffered_transport \<subseteq> rd: mem_read "read_mem T" "bd_stream incoming" "bd_read_ok io_ok"
  using read_mem_ok by unfold_locales (blast, blast, blast, blast, blast, metis prod.collapse)

section \<open>Parsing a head\<close>

lemma parse_headers_total:
  assumes "parse_total S" "case prev of Some n \<Rightarrow> n \<le> length buf | None \<Rightarrow> True"
  shows "\<exists>res buf' ctx'. parse_headers S buf prev ctx = Some (Some (res, buf', ctx')) \<and> (\<exists>xs. buf = xs @ buf')"
proof (cases prev)
  case None
  then show ?thesis using assms(1) by (auto simp: parse_headers_def parse_total_def)
next
  case (Some n)
  then have "is_complete_fast buf n \<noteq> None" using assms(2) by (auto simp: is_complete_fast_def Let_def)
  then show ?thesis using assms(1) Some by (auto simp: parse_headers_def parse_total_def)
qed

context buffered_transport
begin

lemma reader: "mem_read (read_mem T) (bd_stream incoming) (bd_read_ok io_ok)"
  by (rule rd.mem_read_axioms)


lemma bd_parse_ok:
  assumes S: "parse_total S" and "bd_read_ok io_ok b" "partial_ok b"
  shows "\<exists>res b' ctx'. bd_parse T S b ctx = Some (res, b', ctx') \<and> parse_post incoming sent io_ok b res b' ctx'"
  using assms(2,3)
proof (induction "length (incoming (bd_io b))" arbitrary: b ctx rule: less_induct)
  case less
  obtain res buf ctx' xs where ph: "parse_headers S (bd_read_buf b) (bd_partial_len b) ctx = Some (Some (res, buf, ctx'))"
      "bd_read_buf b = xs @ buf"
    using parse_headers_total [OF S] less.prems(2) unfolding partial_ok_def by metis
  let ?b1 = "b\<lparr>bd_read_buf := buf, bd_read_cap := bd_read_cap b - (length (bd_read_buf b) - length buf)\<rparr>"
  have b1: "bd_read_ok io_ok ?b1" "bd_stream incoming b = xs @ bd_stream incoming ?b1"
    using less.prems(1) ph(2) by (auto simp: bd_read_ok_def bd_stream_def)
  show ?case
  proof (cases "\<exists>m. res = Inr (Some m) \<or> (\<exists>e. res = Inl e)")
    case True
    then show ?thesis using ph b1
      by (subst bd_parse.simps) (auto simp: parse_post_def Let_def bd_read_ok_def bd_stream_def)
  next
    case False
    then have res: "res = Inr None" by (metis not_None_eq old.sum.exhaust)
    show ?thesis
    proof (cases "(case pc_max_header_size ctx' of Some m \<Rightarrow> length buf \<ge> m | None \<Rightarrow> False) \<or>
        length buf \<ge> rs_max (bd_read_buf_strategy b)")
      case True
      then show ?thesis using ph b1 res
        by (subst bd_parse.simps) (auto simp: parse_post_def Let_def)
    next
      case small: False
      let ?b2 = "?b1\<lparr>bd_partial_len := (if length buf > 0 then Some (length buf) else None)\<rparr>"
      obtain r b3 where rd: "poll_read_from_io T ?b2 = (r, b3)" by force
      have b2: "bd_read_ok io_ok ?b2" using b1 by (simp add: bd_read_ok_def)
      note ok = poll_read_ok [OF b2 rd]
      have max: "rs_max (bd_read_buf_strategy b3) = rs_max (bd_read_buf_strategy b)"
        using poll_read_max [OF rd] by simp
      have eq: "bd_parse T S b ctx = (case r of
          Pending \<Rightarrow> Some (Pending, b3, ctx')
        | Panicked \<Rightarrow> Some (Panicked, b3, ctx')
        | Ready (Inl e) \<Rightarrow> Some (Ready (Inl (ErrIo e)), b3, ctx')
        | Ready (Inr n) \<Rightarrow> if n = 0 then Some (Ready (Inl IncompleteMessage), b3, ctx')
                       else bd_parse T S b3 ctx')"
        using ph res small rd by (subst bd_parse.simps) (simp add: Let_def)
      have stream: "\<exists>ys. bd_stream incoming b = ys @ bd_stream incoming b3"
        using ok b1 by (auto simp: bd_stream_def)
      show ?thesis
      proof (cases "\<exists>n. r = Ready (Inr n) \<and> n \<noteq> 0")
        case True
        then obtain n where n: "r = Ready (Inr n)" "n \<noteq> 0" by blast
        then have *: "length (incoming (bd_io b3)) < length (incoming (bd_io b))" "partial_ok b3"
          using ok by (auto simp: partial_ok_def)
        have "bd_read_ok io_ok b3" using ok by simp
        from less.hyps [OF *(1) this *(2), of ctx'] obtain res b' c where
          IH: "bd_parse T S b3 ctx' = Some (res, b', c)" "parse_post incoming sent io_ok b3 res b' c" by blast
        have "parse_post incoming sent io_ok b res b' c"
          using IH(2) ok stream max unfolding parse_post_def by auto
        then show ?thesis using IH(1) n unfolding eq by simp
      next
        case False
        then have "res' \<noteq> Panicked \<and> (res' = Pending \<longrightarrow> bd_read_buf b3 = buf)
            \<and> (\<nexists>m. res' = Ready (Inr m))" if "bd_parse T S b ctx = Some (res', b3, ctx')" for res'
          using that ok unfolding eq by (cases r) (auto split: sum.split_asm)
        moreover have "\<exists>res'. bd_parse T S b ctx = Some (res', b3, ctx')"
          using False unfolding eq by (auto split: poll.split sum.split)
        moreover have "bd_read_buf b3 = buf \<longrightarrow> partial_ok b3"
          using ok by (simp add: partial_ok_def)
        ultimately show ?thesis
          using ok stream small unfolding parse_post_def by (fastforce split: option.split_asm)
      qed
    qed
  qed
qed

end

section \<open>Flushing\<close>

text \<open>The write side of a connection: a transport, and the methods of the queued buffers.\<close>

locale buffered_output =
  buffered_transport T incoming sent io_ok + byte_buf B contents ok
  for T :: "('io, 'b) transport_api" and incoming sent io_ok
    and B :: "'b buf_api" and contents ok
begin

lemma flush_io_ok:
  assumes "io_ok (bd_io b)" "wb_ok contents ok (bd_write_buf b)"
  shows "\<exists>res b'. flush_io T b = (res, b') \<and> flush_post incoming sent io_ok contents ok b res b' \<and>
    wb_contents contents (bd_write_buf b') = wb_contents contents (bd_write_buf b)"
proof -
  obtain res io where f: "io_flush T (bd_io b) = (res, io)" by force
  then show ?thesis
    using io_flush_keeps [OF assms(1) f] assms(2)
    by (simp add: flush_io_def flush_post_def bd_output_def)
qed

lemma flush_post_trans:
  assumes "flush_post incoming sent io_ok contents ok b1 res b2"
    "bd_output sent contents b1 = bd_output sent contents b" "incoming (bd_io b1) = incoming (bd_io b)"
    "bd_read_buf b1 = bd_read_buf b" "bd_read_cap b1 = bd_read_cap b" "bd_partial_len b1 = bd_partial_len b"
  shows "flush_post incoming sent io_ok contents ok b res b2"
  using assms by (simp add: flush_post_def)

lemma flush_flattened_ok:
  assumes "io_ok (bd_io b)" "wb_ok contents ok (bd_write_buf b)" "wb_strategy (bd_write_buf b) = Flatten"
  shows "\<exists>res b'. poll_flush_flattened T b = Some (res, b') \<and>
    flush_post incoming sent io_ok contents ok b res b' \<and>
    (res = Ready (Inr ()) \<longrightarrow> wb_contents contents (bd_write_buf b') = [])"
  using assms
proof (induction "cursor_remaining (wb_headers (bd_write_buf b))" arbitrary: b rule: less_induct)
  case less
  let ?w = "bd_write_buf b" let ?h = "wb_headers ?w"
  obtain r io where wr: "io_write T (bd_io b) (cursor_chunk ?h) = (r, io)" by force
  note keeps = io_write_keeps [OF less.prems(1) wr]
  have q: "bl_contents contents (wb_queue ?w) = []" "wb_contents contents ?w = cursor_chunk ?h"
    using less.prems by (auto simp: wb_ok_def bl_contents_def wb_contents_def)
  show ?case
  proof (cases "\<exists>n. r = Ready (Inr n)")
    case False
    then have "sent io = sent (bd_io b)" using io_write_idle [OF less.prems(1) wr] by blast
    then show ?thesis
      using False keeps wr less.prems
      by (subst poll_flush_flattened.simps)
         (cases r; auto simp: flush_post_def bd_output_def split: sum.split)
  next
    case True
    then obtain n where n: "r = Ready (Inr n)" by blast
    have le: "n \<le> length (cursor_chunk ?h)" "sent io = sent (bd_io b) @ take n (cursor_chunk ?h)"
      using io_write_ready [OF less.prems(1)] wr n by auto
    let ?h' = "cursor_advance ?h n"
    have h': "cursor_ok ?h'" "cursor_chunk ?h' = drop n (cursor_chunk ?h)"
      using cursor_ok_ops(4) [of ?h n] less.prems le(1)
      by (auto simp: wb_ok_def cursor_remaining_chunk cursor_chunk_advance)
    show ?thesis
    proof (cases "cursor_remaining ?h' = 0")
      case True
      let ?b = "b\<lparr>bd_io := io, bd_write_buf := ?w\<lparr>wb_headers := cursor_reset ?h'\<rparr>\<rparr>"
      have len: "length (cursor_chunk ?h) \<le> n" using True h'(2) by (simp add: cursor_remaining_chunk)
      have "wb_ok contents ok (bd_write_buf ?b)" "wb_contents contents (bd_write_buf ?b) = []"
        using less.prems h' q cursor_ok_ops(3) by (auto simp: wb_ok_def wb_contents_def)
      then obtain res b' where f: "flush_io T ?b = (res, b')"
          "flush_post incoming sent io_ok contents ok ?b res b'" "wb_contents contents (bd_write_buf b') = []"
        using flush_io_ok [of ?b] keeps by auto
      have "flush_post incoming sent io_ok contents ok b res b'"
        using flush_post_trans [OF f(2), of b] keeps le len q \<open>wb_contents contents (bd_write_buf ?b) = []\<close>
        by (simp add: bd_output_def)
      then show ?thesis using True wr n f
        by (subst poll_flush_flattened.simps) (simp add: Let_def)
    next
      case False
      let ?b = "b\<lparr>bd_io := io, bd_write_buf := ?w\<lparr>wb_headers := ?h'\<rparr>\<rparr>"
      have b: "wb_ok contents ok (bd_write_buf ?b)" "wb_contents contents (bd_write_buf ?b) = cursor_chunk ?h'"
        using less.prems h' q by (auto simp: wb_ok_def wb_contents_def)
      have out: "bd_output sent contents ?b = bd_output sent contents b"
        using le h' q b(2) by (simp add: bd_output_def)
      show ?thesis
      proof (cases "n = 0")
        case True
        then show ?thesis using False wr n keeps b out
          by (subst poll_flush_flattened.simps) (simp add: Let_def flush_post_def)
      next
        case n0: False
        then have "cursor_remaining (wb_headers (bd_write_buf ?b)) < cursor_remaining ?h"
          using h' False by (simp add: cursor_remaining_chunk)
        from less.hyps [OF this _ b(1)] obtain res b' where IH: "poll_flush_flattened T ?b = Some (res, b')"
            "flush_post incoming sent io_ok contents ok ?b res b'"
            "res = Ready (Inr ()) \<longrightarrow> wb_contents contents (bd_write_buf b') = []"
          using keeps less.prems(3) by auto
        have "flush_post incoming sent io_ok contents ok b res b'"
          using flush_post_trans [OF IH(2), of b] keeps out by simp
        then show ?thesis using False wr n n0 IH
          by (subst poll_flush_flattened.simps) (simp add: Let_def)
      qed
    qed
  qed
qed

lemma flush_queue_ok:
  assumes "io_ok (bd_io b)" "wb_ok contents ok (bd_write_buf b)"
  shows "\<exists>res b'. poll_flush_queue T B b = Some (res, b') \<and>
    flush_post incoming sent io_ok contents ok b res b' \<and>
    (res = Ready (Inr ()) \<longrightarrow> wb_contents contents (bd_write_buf b') = [])"
  using assms
proof (induction "length (wb_contents contents (bd_write_buf b))" arbitrary: b rule: less_induct)
  case less
  let ?w = "bd_write_buf b" let ?W = "wb_api B (bf_copy_default T)"
  obtain r io w where wr: "io_write_buf T ?W (bd_io b) ?w = (r, io, w)" by (metis prod_cases3)
  have slices: "\<exists>ys. wb_contents contents ?w = bs @ ys"
    if "bs \<in> {bf_chunk ?W ?w, concat (bf_chunks_vectored ?W ?w 64)}" for bs
    using that wb_chunk_prefix(1) [OF less.prems(2)] wb_vectored_ok(1) [OF less.prems(2), of 64]
    by (auto simp: wb_api_def)
  have adv: "\<forall>bs \<in> {bf_chunk ?W ?w, concat (bf_chunks_vectored ?W ?w 64)}.
      \<forall>n \<le> length bs. bf_advance ?W ?w n \<noteq> None"
  proof (intro ballI allI impI)
    fix bs n assume *: "bs \<in> {bf_chunk ?W ?w, concat (bf_chunks_vectored ?W ?w 64)}" "n \<le> length bs"
    then have "n \<le> length (wb_contents contents ?w)" using slices [OF *(1)] by auto
    then show "bf_advance ?W ?w n \<noteq> None"
      using wb_advance_ok [OF less.prems(2)] by (auto simp: wb_api_def)
  qed
  note keeps = io_write_buf_keeps [OF less.prems(1) wr adv]
  let ?b = "b\<lparr>bd_io := io, bd_write_buf := w\<rparr>"
  have eq: "poll_flush_queue T B b = (case r of
      Pending \<Rightarrow> Some (Pending, ?b) | Panicked \<Rightarrow> Some (Panicked, ?b)
    | Ready (Inl e) \<Rightarrow> Some (Ready (Inl e), ?b)
    | Ready (Inr n) \<Rightarrow>
               (if wb_remaining w = 0 then Some (flush_io T ?b)
                else if n = 0 then Some (Ready (Inl write_zero), ?b)
                else poll_flush_queue T B ?b))"
    using wr by (subst poll_flush_queue.simps) (simp add: Let_def)
  show ?case
  proof (cases "\<exists>n. r = Ready (Inr n)")
    case False
    then have "sent io = sent (bd_io b)" "w = ?w"
      using io_write_buf_idle [OF less.prems(1) wr] keeps by auto
    then show ?thesis
      unfolding eq using False keeps less.prems
      by (cases r) (auto simp: flush_post_def bd_output_def split: sum.split)
  next
    case True
    then obtain n where n: "r = Ready (Inr n)" by blast
    obtain bs where bs: "wb_advance B ?w n = Some w" "n \<le> length bs" "sent io = sent (bd_io b) @ take n bs"
        "bs \<in> {bf_chunk ?W ?w, concat (bf_chunks_vectored ?W ?w 64)}"
      using io_write_buf_ready [OF less.prems(1) wr [unfolded n]] by (auto simp: wb_api_def)
    obtain ys where ys: "wb_contents contents ?w = bs @ ys" using slices [OF bs(4)] by blast
    have w: "wb_ok contents ok w" "wb_contents contents w = drop n (wb_contents contents ?w)"
      using wb_advance_ok [OF less.prems(2), of n] bs(1,2) ys by auto
    have out: "bd_output sent contents ?b = bd_output sent contents b"
      using bs ys w by (simp add: bd_output_def)
    show ?thesis
    proof (cases "wb_remaining w = 0")
      case True
      then have "wb_contents contents w = []" using wb_remaining_ok [OF w(1)] by simp
      then obtain res b' where f: "flush_io T ?b = (res, b')"
          "flush_post incoming sent io_ok contents ok ?b res b'" "wb_contents contents (bd_write_buf b') = []"
        using flush_io_ok [of ?b] keeps w(1) by auto
      then show ?thesis unfolding eq using True n flush_post_trans [OF f(2), of b] keeps out by simp
    next
      case False
      show ?thesis
      proof (cases "n = 0")
        case True
        then show ?thesis unfolding eq using False n keeps w(1) out by (simp add: flush_post_def)
      next
        case n0: False
        then have "length (wb_contents contents (bd_write_buf ?b)) < length (wb_contents contents ?w)"
          using w(2) False wb_remaining_ok [OF w(1)] by simp
        from less.hyps [OF this] obtain res b' where IH: "poll_flush_queue T B ?b = Some (res, b')"
            "flush_post incoming sent io_ok contents ok ?b res b'"
            "res = Ready (Inr ()) \<longrightarrow> wb_contents contents (bd_write_buf b') = []"
          using keeps w(1) by auto
        then show ?thesis unfolding eq using False n n0 flush_post_trans [OF IH(2), of b] keeps out by simp
      qed
    qed
  qed
qed

lemma poll_flush_ok:
  assumes "io_ok (bd_io b)" "wb_ok contents ok (bd_write_buf b)"
  shows "\<exists>res b'. poll_flush T B b = Some (res, b') \<and>
    flush_post incoming sent io_ok contents ok b res b' \<and>
    (res = Ready (Inr ()) \<and> \<not> (bd_flush_pipeline b \<and> bd_read_buf b \<noteq> []) \<longrightarrow>
       wb_contents contents (bd_write_buf b') = [])"
proof -
  consider "bd_flush_pipeline b \<and> bd_read_buf b \<noteq> []"
    | "\<not> (bd_flush_pipeline b \<and> bd_read_buf b \<noteq> [])" "wb_contents contents (bd_write_buf b) = []"
    | "\<not> (bd_flush_pipeline b \<and> bd_read_buf b \<noteq> [])" "wb_contents contents (bd_write_buf b) \<noteq> []" by blast
  then show ?thesis
  proof cases
    case 1
    then show ?thesis using assms by (simp add: poll_flush_def flush_post_def)
  next
    case 2
    then show ?thesis using flush_io_ok [OF assms] wb_remaining_ok [OF assms(2)] 
      by (auto simp: poll_flush_def)
  next
    case 3
    then show ?thesis
      using flush_queue_ok [OF assms] flush_flattened_ok [OF assms] wb_remaining_ok [OF assms(2)]
      by (cases "wb_strategy (bd_write_buf b)") (auto simp: poll_flush_def)
  qed
qed

end

section \<open>Transports that deliver\<close>

locale live_buffered = buffered_transport T incoming sent io_ok + live_transport T incoming sent io_ok waits
  for T :: "('io, 'b) transport_api" and incoming sent io_ok waits
begin

lemma read_mem_waits:
  assumes "bd_read_ok io_ok b" "read_mem T b n = (res, b')"
  shows "(\<nexists>e. res = Ready (Inl e)) \<and> waits (bd_io b') \<le> waits (bd_io b) \<and>
    (res = Pending \<longrightarrow> waits (bd_io b') < waits (bd_io b))"
proof (cases "bd_read_buf b = []")
  case False
  then show ?thesis using assms(2) by (auto simp: read_mem_def Let_def consume_read_buf_def)
next
  case True
  let ?b = "b\<lparr>bd_read_blocked := False\<rparr>"
  obtain r io buf cap where rd: "io_read_buf T (bd_io b) (bd_read_buf b) (reserve_next T ?b) = (r, io, buf, cap)"
    by (metis prod_cases4)
  have ok: "io_ok (bd_io b)" "length (bd_read_buf b) \<le> reserve_next T ?b"
    using assms(1) reserve_next_ok [of ?b] by (auto simp: bd_read_ok_def)
  obtain r' b1 where pr: "poll_read_from_io T b = (r', b1)" by force
  then have *: "r' = r \<and> bd_io b1 = io"
    using rd unfolding poll_read_from_io_def Let_def
    by (auto split: poll.split_asm sum.split_asm)
  show ?thesis
    using assms(2) True read_waits [OF ok rd] pr *
    by (cases r) (auto simp: read_mem_def Let_def consume_read_buf_def split: sum.split_asm if_split_asm)
qed

end

sublocale live_buffered \<subseteq> live: live_mem_read "read_mem T" "bd_stream incoming" "bd_read_ok io_ok"
  "\<lambda>b. waits (bd_io b)"
  using read_mem_waits by unfold_locales (blast, blast, metis prod.collapse)

context live_buffered
begin

lemma live_reader:
  "live_mem_read (read_mem T) (bd_stream incoming) (bd_read_ok io_ok) (\<lambda>b. waits (bd_io b))"
  by (rule live.live_mem_read_axioms)

end

section \<open>The scripted transport\<close>

lemma sc_read_cases:
  assumes "sc_read_buf s buf cap = (res, s', buf', cap')" "length buf \<le> cap" "sc_ok s"
  shows "sc_ok s' \<and> sc_sent s' = sc_sent s \<and> length buf' \<le> cap' \<and> res \<noteq> Panicked \<and>
    sc_waits s' \<le> sc_waits s \<and> (res = Pending \<longrightarrow> sc_waits s' < sc_waits s) \<and>
    (\<forall>n. res = Ready (Inr n) \<longrightarrow> (\<exists>bs. buf' = buf @ bs \<and> length bs = n \<and>
       sc_incoming s = bs @ sc_incoming s' \<and> (n = 0 \<longrightarrow> sc_incoming s = []))) \<and>
    ((\<nexists>n. res = Ready (Inr n)) \<longrightarrow> buf' = buf \<and> sc_incoming s' = sc_incoming s) \<and>
    (sc_live s \<longrightarrow> sc_live s' \<and> (\<nexists>e. res = Ready (Inl e)))"
proof (cases "sc_recv s")
  case Nil
  then show ?thesis using assms
    by (auto simp: sc_read_buf_def Let_def sc_incoming_def split: if_split_asm)
next
  case (Cons r rs)
  show ?thesis
  proof (cases r)
    case (Recv bs)
    let ?cap = "if cap \<le> length buf then length buf + 64 else cap"
    define n where "n = min (length bs) (?cap - length buf)"
    have bs: "bs \<noteq> []" using assms(3) Cons Recv by (auto simp: sc_ok_def)
    then have n: "0 < n" "n \<le> length bs" "n \<le> ?cap - length buf" using assms(2) by (auto simp: n_def)
    have eq: "res = Ready (Inr n)" "buf' = buf @ take n bs" "cap' = ?cap"
      and s': "s' = s\<lparr>sc_recv := (if n < length bs then Recv (drop n bs) # rs else rs)\<rparr>"
      using assms(1) Cons Recv by (auto simp: sc_read_buf_def Let_def n_def)
    have "take n bs @ concat (map recv_bytes (if n < length bs then Recv (drop n bs) # rs else rs)) =
        bs @ concat (map recv_bytes rs)"
      using n by (cases "n < length bs") simp_all
    then have inc: "sc_incoming s = take n bs @ sc_incoming s'"
      using s' Cons Recv by (simp add: sc_incoming_def)
    have "sc_ok s'" "sc_waits s' \<le> sc_waits s" "sc_live s \<longrightarrow> sc_live s'" "sc_sent s' = sc_sent s"
      using assms(3) Cons Recv s' by (auto simp: sc_ok_def sc_live_def sc_waits_def)
    then show ?thesis
      using eq n inc by auto
  qed (use assms Cons in \<open>auto simp: sc_read_buf_def Let_def sc_incoming_def sc_ok_def sc_live_def sc_waits_def
      split: if_split_asm\<close>)
qed

lemma sc_write_cases:
  assumes "sc_write_bytes s bs = (res, s')"
  shows "sc_recv s' = sc_recv s \<and> res \<noteq> Panicked \<and>
    (\<forall>n. res = Ready (Inr n) \<longrightarrow> n \<le> length bs \<and> sc_sent s' = sc_sent s @ take n bs) \<and>
    ((\<nexists>n. res = Ready (Inr n)) \<longrightarrow> sc_sent s' = sc_sent s)"
  using assms by (auto simp: sc_write_bytes_def split: list.split_asm option.split_asm)

lemma sc_ok_recv: "sc_recv s' = sc_recv s \<Longrightarrow> sc_ok s' = sc_ok s \<and> sc_live s' = sc_live s \<and> sc_incoming s' = sc_incoming s"
  by (simp add: sc_ok_def sc_live_def sc_incoming_def)

lemma sc_api_sel [simp]:
  "io_read_buf sc_api = sc_read_buf" "io_write sc_api = sc_write_bytes" "io_write_buf sc_api = sc_write_buf"
  "io_flush sc_api s = (Ready (Inr ()), s)" "io_shutdown sc_api s = (Ready (Inr ()), s)"
  "bm_reserve sc_api buf cap n = max cap (length buf + n)" "io_is_write_vectored sc_api = sc_vectored"
  by (simp_all add: sc_api_def)

lemma sc_write_buf_cases:
  assumes "sc_write_buf W s w = (res, s', w')"
  shows "sc_recv s' = sc_recv s"
    "\<forall>bs \<in> {bf_chunk W w, concat (bf_chunks_vectored W w 64)}. \<forall>n \<le> length bs. bf_advance W w n \<noteq> None \<Longrightarrow>
      res \<noteq> Panicked"
    "res = Ready (Inr n) \<Longrightarrow> bf_advance W w n = Some w' \<and>
          (\<exists>bs \<in> {bf_chunk W w, concat (bf_chunks_vectored W w 64)}.
             n \<le> length bs \<and> sc_sent s' = sc_sent s @ take n bs)"
    "\<nexists>n. res = Ready (Inr n) \<Longrightarrow> sc_sent s' = sc_sent s \<and> (res \<noteq> Panicked \<longrightarrow> w' = w)"
proof -
  define bs where "bs = (if sc_vectored s then concat (bf_chunks_vectored W w 64) else bf_chunk W w)"
  have bs: "bs \<in> {bf_chunk W w, concat (bf_chunks_vectored W w 64)}" by (simp add: bs_def)
  obtain r s1 where wr: "sc_write_bytes s bs = (r, s1)" by force
  note c = sc_write_cases [OF wr]
  have eq: "sc_write_buf W s w = (case r of
        Ready (Inr n) \<Rightarrow> (case bf_advance W w n of Some w' \<Rightarrow> (Ready (Inr n), s1, w') | None \<Rightarrow> (Panicked, s, w))
      | res \<Rightarrow> (res, s1, w))"
    unfolding sc_write_buf_def Let_def bs_def [symmetric] wr by (simp split: poll.split sum.split)
  show "sc_recv s' = sc_recv s" "res = Ready (Inr n) \<Longrightarrow> bf_advance W w n = Some w' \<and>
          (\<exists>bs \<in> {bf_chunk W w, concat (bf_chunks_vectored W w 64)}.
             n \<le> length bs \<and> sc_sent s' = sc_sent s @ take n bs)"
    "\<nexists>n. res = Ready (Inr n) \<Longrightarrow> sc_sent s' = sc_sent s \<and> (res \<noteq> Panicked \<longrightarrow> w' = w)"
    using assms c bs unfolding eq
    by (auto split: poll.split_asm sum.split_asm option.split_asm)
  show "res \<noteq> Panicked"
    if "\<forall>bs \<in> {bf_chunk W w, concat (bf_chunks_vectored W w 64)}. \<forall>n \<le> length bs. bf_advance W w n \<noteq> None"
  proof -
    have "bf_advance W w n \<noteq> None" if "n \<le> length bs" for n using bs that \<open>\<forall>bs \<in> _. _ bs\<close> by blast
    then show ?thesis using assms c unfolding eq
      by (fastforce split: poll.split_asm sum.split_asm option.split_asm)
  qed
qed

lemma script_transport:
  assumes "P = sc_ok \<or> P = sc_live"
  shows "transport sc_api sc_incoming sc_sent P"
proof -
  have P: "P s \<Longrightarrow> sc_ok s" "sc_recv s' = sc_recv s \<Longrightarrow> P s' = P s" for s s'
    using assms sc_ok_recv [of s' s] by (auto simp: sc_live_def)
  have keep: "P s'" if "sc_read_buf s buf cap = (res, s', buf', cap')" "length buf \<le> cap" "P s"
    for s s' buf buf' cap cap' res
    using sc_read_cases [OF that(1,2) P(1) [OF that(3)]] that(3) assms by auto
  show ?thesis
  proof (unfold_locales, goal_cases)
    case (1 io buf cap res io' buf' cap')
    then show ?case using sc_read_cases [of io buf cap res io' buf' cap'] P(1) keep by simp
  next
    case (2 io buf cap n io' buf' cap')
    then show ?case using sc_read_cases [of io buf cap "Ready (Inr n)" io' buf' cap'] P(1) by simp
  next
    case (3 io buf cap res io' buf' cap')
    then show ?case using sc_read_cases [of io buf cap res io' buf' cap'] P(1) by simp
  next
    case (5 io bs res io')
    then show ?case using sc_write_cases [of io bs res io'] P(2) [of io' io] sc_ok_recv [of io' io] by simp
  next
    case (6 io bs n io')
    then show ?case using sc_write_cases [of io bs "Ready (Inr n)" io'] by simp
  next
    case (7 io bs res io')
    then show ?case using sc_write_cases [of io bs res io'] by simp
  next
    case (8 io W w res io' w')
    then show ?case
      using sc_write_buf_cases(1,2) [of W io w res io' w'] P(2) [of io' io] sc_ok_recv [of io' io] by simp
  next
    case (9 io W w n io' w')
    then show ?case using sc_write_buf_cases(3) [of W io w "Ready (Inr n)" io' w' n] by simp
  next
    case (10 io W w res io' w')
    then show ?case using sc_write_buf_cases(4) [of W io w res io' w'] by simp
  qed auto
qed

interpretation script: buffered_output sc_api sc_incoming sc_sent sc_ok slice_api "\<lambda>b. b" "\<lambda>b. True"
  by (intro buffered_output.intro buffered_transport.intro script_transport slice_buf.byte_buf_axioms) simp

lemma script_live: "live_transport sc_api sc_incoming sc_sent sc_live sc_waits"
proof (intro live_transport.intro live_transport_axioms.intro script_transport)
  fix io buf cap res io' buf' cap'
  assume "sc_live io" "length buf \<le> cap" "io_read_buf sc_api io buf cap = (res, io', buf', cap')"
  then show "(\<nexists>e. res = Ready (Inl e)) \<and> sc_waits io' \<le> sc_waits io \<and>
      (res = Pending \<longrightarrow> sc_waits io' < sc_waits io)"
    using sc_read_cases [of io buf cap res io' buf' cap'] by (simp add: sc_live_def)
qed simp

interpretation live_script: live_buffered sc_api sc_incoming sc_sent sc_live sc_waits
  by (intro live_buffered.intro buffered_transport.intro script_live script_transport) simp

section \<open>Properties\<close>

lemma rs_ok_fold: "rs_ok s \<Longrightarrow> rs_ok (fold (\<lambda>n s. rs_record s n) ns s)"
  by (induction ns arbitrary: s) (simp_all add: rs_ok_record)

lemma rs_max_fold: "rs_max (fold (\<lambda>n s. rs_record s n) ns s) = rs_max s"
  by (induction ns arbitrary: s) simp_all

lemma rs_ok_bounds: "rs_ok s \<Longrightarrow> rs_max s = mx \<Longrightarrow> (\<nexists>k. s = ExactSize k) \<Longrightarrow> INIT_BUFFER_SIZE \<le> rs_next s \<and> rs_next s \<le> mx"
  by (cases s) auto

lemma rs_adaptive: "\<nexists>k. s = ExactSize k \<Longrightarrow> \<nexists>k. fold (\<lambda>n s. rs_record s n) ns s = ExactSize k"
proof (induction ns arbitrary: s)
  case (Cons n ns)
  have "\<nexists>k. rs_record s n = ExactSize k" using Cons.prems by (cases s) (auto simp: Let_def)
  then show ?case using Cons.IH by simp
qed simp

lemma client_parse_parse_total: "parser_ok R \<Longrightarrow> parse_total (client_parse A R)"
  unfolding parse_total_def using client_parse_total by blast

lemma sample_parser_ok: "parser_ok sample_parser"
  by (auto simp: parser_ok_def sample_parser_def range_ok_def sample_response_def ascii_def
        dest: arg_cong [where f = length] split: if_split_asm)

lemma sample_buffered_ok:
  "wb_ok (\<lambda>b. b) (\<lambda>b. True) (bd_write_buf (sample_buffered s))"
  "wb_contents (\<lambda>b. b) (bd_write_buf (sample_buffered s)) = [1, 2, 3]"
  "sc_ok s \<Longrightarrow> bd_read_ok sc_ok (sample_buffered s)" "partial_ok (sample_buffered s)"
  "bd_io (sample_buffered s) = s" "bd_read_buf (sample_buffered s) = []"
  "bd_flush_pipeline (sample_buffered s) = False"
  by (simp_all add: sample_buffered_def wb_ok_def wb_new_def cursor_ok_def cursor_new_def bl_ok_def
      bl_contents_def wb_contents_def cursor_chunk_def bd_read_ok_def bd_new_def partial_ok_def)

text \<open>
  The adaptive read size stays between the initial size and the maximum after any sequence of
  reads, the maximum never changes, and one small read alone never shrinks it.
\<close>

theorem read_strategy_bounds:
  assumes "INIT_BUFFER_SIZE \<le> mx" "mx \<le> usize_max"
  shows "INIT_BUFFER_SIZE \<le> rs_next (fold (\<lambda>n s. rs_record s n) ns (with_max mx)) \<and>
    rs_next (fold (\<lambda>n s. rs_record s n) ns (with_max mx)) \<le> mx \<and>
    rs_max (fold (\<lambda>n s. rs_record s n) ns (with_max mx)) = mx \<and>
    (\<forall>k n. k \<le> mx \<longrightarrow> k \<le> rs_next (rs_record (Adaptive False k mx) n))"
proof -
  have "rs_ok (with_max mx)" using assms by (simp add: with_max_def)
  moreover have "k \<le> rs_next (rs_record (Adaptive False k mx) n)" if "k \<le> mx" for k n
    using that assms(2) by (simp add: Let_def incr_power_of_two_def saturating_mul_def)
  ultimately show ?thesis
    using rs_ok_bounds [of "fold (\<lambda>n s. rs_record s n) ns (with_max mx)" mx] rs_ok_fold
      rs_max_fold [of ns "with_max mx"] rs_adaptive [of "with_max mx" ns]
    by (simp add: with_max_def)
qed

theorem read_strategy_bounds_witness:
  "rs_max (fold (\<lambda>n s. rs_record s n) [8192, 20000, 1, 1] (with_max 10000)) = 10000 \<and>
   rs_next (fold (\<lambda>n s. rs_record s n) [8192, 20000, 1, 1] (with_max 10000)) \<le> 10000"
  using read_strategy_bounds [of 10000 "[8192, 20000, 1, 1]"] by (simp add: INIT_BUFFER_SIZE_def)

text \<open>
  \<^verbatim>\<open>Buffered\<close> implements the reader the body decoders rely on: \<^verbatim>\<open>read_mem\<close> hands out the bytes of
  the peer in order, at most as many as asked for, without loss or repetition across pending polls
  and errors, returns nothing only at the end of the stream and never panics.
\<close>

theorem buffered_implements_reader:
  assumes "transport T incoming sent io_ok"
  shows "mem_read (read_mem (T :: ('io, 'b) transport_api)) (bd_stream incoming) (bd_read_ok io_ok)"
proof -
  have "buffered_transport T incoming sent io_ok" using assms by (rule buffered_transport.intro)
  then show ?thesis by (rule buffered_transport.reader)
qed

theorem buffered_implements_reader_witness:
  "mem_read (read_mem (sc_api :: (script, byte list) transport_api)) (bd_stream sc_incoming) (bd_read_ok sc_ok)"
  by (rule buffered_implements_reader [OF script.transport_axioms])



text \<open>
  Flushing loses, repeats and reorders nothing: after any outcome of \<^verbatim>\<open>poll_flush\<close>, of either
  write strategy, the bytes handed to the transport followed by those still buffered are the same
  as before, the read side is untouched and the buffers are well-formed; the loops end without a
  panic; and a flush that reports success leaves nothing buffered, unless it was put off because
  pipelined input is waiting.
\<close>

theorem poll_flush_conserves:
  assumes "transport T incoming sent io_ok" "byte_buf B contents ok"
    "io_ok (bd_io b)" "wb_ok contents ok (bd_write_buf b)"
  shows "\<exists>res b'. poll_flush T B b = Some (res, b') \<and>
    flush_post incoming sent io_ok contents ok b res b' \<and>
    (res = Ready (Inr ()) \<and> \<not> (bd_flush_pipeline b \<and> bd_read_buf b \<noteq> []) \<longrightarrow>
       wb_contents contents (bd_write_buf b') = [])"
  using buffered_output.poll_flush_ok [OF buffered_output.intro [OF buffered_transport.intro [OF assms(1)] assms(2)]
      assms(3,4)] .

theorem poll_flush_conserves_witness:
  "\<exists>res b'. poll_flush sc_api slice_api
       (sample_buffered \<lparr>sc_recv = [], sc_write = [Some 1, None], sc_sent = [], sc_vectored = False\<rparr>) = Some (res, b') \<and>
    sc_sent (bd_io b') @ wb_contents (\<lambda>b. b) (bd_write_buf b') = [1, 2, 3]"
  using poll_flush_conserves [OF script.transport_axioms slice_buf.byte_buf_axioms,
      of "sample_buffered \<lparr>sc_recv = [], sc_write = [Some 1, None], sc_sent = [], sc_vectored = False\<rparr>"]
    sample_buffered_ok [of "\<lparr>sc_recv = [], sc_write = [Some 1, None], sc_sent = [], sc_vectored = False\<rparr>"]
  by (auto simp: sc_ok_def flush_post_def bd_output_def)

end
