(* ===== verification/Http1_Conn.thy ===== *)
theory Http1_Conn
  imports Http1_Io Http1_Chunked Http1_Encode
begin

text \<open>
  The HTTP/1 connection: \<^verbatim>\<open>src/src/proto/http1/conn.rs\<close>, with the role \<^verbatim>\<open>Client\<close> for the type
  parameter \<^verbatim>\<open>T: Http1Transaction\<close>.

  \<open>conn_state\<close> is \<^verbatim>\<open>State\<close> and \<open>conn\<close> is \<^verbatim>\<open>Conn\<close>.  The code of other crates that the operations
  reach is collected in the record \<open>conn_env\<close>.  An operation that polls returns a \<open>poll\<close>, whose
  third outcome is a panic; one that does not returns an inner option that is \<open>None\<close> at a panic
  (\<^verbatim>\<open>unreachable!\<close>).  The outer option is \<open>None\<close> where a loop below does not end.  The conditions of
  the \<^verbatim>\<open>debug_assert!\<close>s are the guards of \<open>conn_enabled\<close>: the dispatcher checks them before it
  calls an operation.
\<close>

section \<open>State\<close>

datatype reading = ReadInit | ReadContinue decoder | ReadBody decoder | ReadKeepAlive | ReadClosed

datatype writing = WriteInit | WriteBody encoder | WriteKeepAlive | WriteClosed

datatype ka = KaIdle | KaBusy | KaDisabled

text \<open>The sending half of a pending upgrade and the future that waits for it.\<close>

datatype upgrade_pending = UpgradePending

datatype on_upgrade = OnUpgrade

text \<open>
  \<^verbatim>\<open>OnInformational\<close> is the list of the heads it has been called with; the configured parser is the
  parameter for \<^verbatim>\<open>httparse\<close>.
\<close>

record 'm conn_state =
  st_allow_half_close :: bool
  st_cached_headers :: "'m option"
  st_error :: "http_error option"
  st_keep_alive :: ka
  st_method :: "req_method option"
  st_h1_parser_config :: response_parser
  st_h1_max_headers :: "nat option"
  st_h1_max_header_size :: "nat option"
  st_h09_responses :: bool
  st_on_informational :: "'m response_head list option"
  st_notify_read :: bool
  st_reading :: reading
  st_writing :: writing
  st_upgrade :: "upgrade_pending option"
  st_version :: version
  st_allow_trailer_fields :: bool

text \<open>\<^verbatim>\<open>BitAndAssign<bool> for KA\<close>.\<close>

definition ka_and :: "ka \<Rightarrow> bool \<Rightarrow> ka" where
  "ka_and k enabled = (if \<not> enabled then KaDisabled else k)"

definition state_close :: "'m conn_state \<Rightarrow> 'm conn_state" where
  "state_close st = st\<lparr>st_reading := ReadClosed, st_writing := WriteClosed, st_keep_alive := KaDisabled\<rparr>"

definition state_close_read :: "'m conn_state \<Rightarrow> 'm conn_state" where
  "state_close_read st = st\<lparr>st_reading := ReadClosed, st_keep_alive := KaDisabled\<rparr>"

definition state_close_write :: "'m conn_state \<Rightarrow> 'm conn_state" where
  "state_close_write st = st\<lparr>st_writing := WriteClosed, st_keep_alive := KaDisabled\<rparr>"

definition wants_keep_alive :: "'m conn_state \<Rightarrow> bool" where
  "wants_keep_alive st = (st_keep_alive st \<noteq> KaDisabled)"

definition is_idle :: "'m conn_state \<Rightarrow> bool" where
  "is_idle st = (st_keep_alive st = KaIdle)"

definition disable_keep_alive :: "'m conn_state \<Rightarrow> 'm conn_state" where
  "disable_keep_alive st = st\<lparr>st_keep_alive := KaDisabled\<rparr>"

definition state_busy :: "'m conn_state \<Rightarrow> 'm conn_state" where
  "state_busy st = (if st_keep_alive st = KaDisabled then st else st\<lparr>st_keep_alive := KaBusy\<rparr>)"

definition state_idle :: "'m conn_state \<Rightarrow> 'm conn_state" where
  "state_idle st0 =
     (let st = st0\<lparr>st_method := None, st_keep_alive := KaIdle\<rparr> in
      if \<not> is_idle st then state_close st
      else st\<lparr>st_reading := ReadInit, st_writing := WriteInit, st_notify_read := True\<rparr>)"

definition state_try_keep_alive :: "'m conn_state \<Rightarrow> 'm conn_state" where
  "state_try_keep_alive st =
     (case (st_reading st, st_writing st) of
        (ReadKeepAlive, WriteKeepAlive) \<Rightarrow>
          (if st_keep_alive st = KaBusy then state_idle st else state_close st)
      | (ReadClosed, WriteKeepAlive) \<Rightarrow> state_close st
      | (ReadKeepAlive, WriteClosed) \<Rightarrow> state_close st
      | _ \<Rightarrow> st)"

definition is_read_closed :: "'m conn_state \<Rightarrow> bool" where
  "is_read_closed st = (st_reading st = ReadClosed)"

definition is_write_closed :: "'m conn_state \<Rightarrow> bool" where
  "is_write_closed st = (st_writing st = WriteClosed)"

definition prepare_upgrade :: "'m conn_state \<Rightarrow> on_upgrade \<times> 'm conn_state" where
  "prepare_upgrade st = (OnUpgrade, st\<lparr>st_upgrade := Some UpgradePending\<rparr>)"

section \<open>Connection\<close>

record ('io, 'b, 'm) conn_env =
  ce_http :: "'m http_api"
  ce_httparse :: httparse_api
  ce_transport :: "('io, 'b encoded_buf) transport_api"
  ce_buf :: "'b buf_api"
  ce_adapters :: "'b adapters"
  ce_copy :: "'b encoded_buf \<Rightarrow> nat \<Rightarrow> (byte list \<times> 'b encoded_buf) option"

abbreviation ce_encoded :: "('io, 'b, 'm) conn_env \<Rightarrow> 'b encoded_buf buf_api" where
  "ce_encoded E \<equiv> eb_api (ce_buf E) (ce_adapters E) (ce_copy E)"

record ('io, 'b, 'm) conn =
  cn_io :: "('io, 'b encoded_buf) buffered"
  cn_state :: "'m conn_state"

text \<open>The default configuration of the parser is the argument \<open>R\<close>.\<close>

definition conn_new :: "('io, 'b, 'm) conn_env \<Rightarrow> response_parser \<Rightarrow> 'io \<Rightarrow> ('io, 'b, 'm) conn" where
  "conn_new E R io =
     \<lparr>cn_io = bd_new (ce_transport E) io,
      cn_state = \<lparr>st_allow_half_close = False, st_cached_headers = None, st_error = None,
        st_keep_alive = KaBusy, st_method = None, st_h1_parser_config = R,
        st_h1_max_headers = None, st_h1_max_header_size = None, st_h09_responses = False,
        st_on_informational = None, st_notify_read = False, st_reading = ReadInit,
        st_writing = WriteInit, st_upgrade = None, st_version = HTTP_11,
        st_allow_trailer_fields = False\<rparr>\<rparr>"

definition conn_set_write_strategy_queue :: "('io, 'b, 'm) conn \<Rightarrow> ('io, 'b, 'm) conn" where
  "conn_set_write_strategy_queue c = c\<lparr>cn_io := set_write_strategy_queue (cn_io c)\<rparr>"

definition conn_set_max_buf_size :: "('io, 'b, 'm) conn \<Rightarrow> nat \<Rightarrow> ('io, 'b, 'm) conn option" where
  "conn_set_max_buf_size c mx = map_option (\<lambda>io. c\<lparr>cn_io := io\<rparr>) (set_max_buf_size (cn_io c) mx)"

definition conn_set_read_buf_exact_size :: "('io, 'b, 'm) conn \<Rightarrow> nat \<Rightarrow> ('io, 'b, 'm) conn" where
  "conn_set_read_buf_exact_size c sz = c\<lparr>cn_io := set_read_buf_exact_size (cn_io c) sz\<rparr>"

definition conn_set_write_strategy_flatten :: "('io, 'b, 'm) conn \<Rightarrow> ('io, 'b, 'm) conn" where
  "conn_set_write_strategy_flatten c = c\<lparr>cn_io := set_write_strategy_flatten (cn_io c)\<rparr>"

definition set_h1_parser_config :: "('io, 'b, 'm) conn \<Rightarrow> response_parser \<Rightarrow> ('io, 'b, 'm) conn" where
  "set_h1_parser_config c R = c\<lparr>cn_state := (cn_state c)\<lparr>st_h1_parser_config := R\<rparr>\<rparr>"

definition set_h09_responses :: "('io, 'b, 'm) conn \<Rightarrow> ('io, 'b, 'm) conn" where
  "set_h09_responses c = c\<lparr>cn_state := (cn_state c)\<lparr>st_h09_responses := True\<rparr>\<rparr>"

definition set_http1_max_headers :: "('io, 'b, 'm) conn \<Rightarrow> nat \<Rightarrow> ('io, 'b, 'm) conn" where
  "set_http1_max_headers c v = c\<lparr>cn_state := (cn_state c)\<lparr>st_h1_max_headers := Some v\<rparr>\<rparr>"

definition set_http1_max_header_size :: "('io, 'b, 'm) conn \<Rightarrow> nat \<Rightarrow> ('io, 'b, 'm) conn" where
  "set_http1_max_header_size c v = c\<lparr>cn_state := (cn_state c)\<lparr>st_h1_max_header_size := Some v\<rparr>\<rparr>"

definition conn_into_inner :: "('io, 'b, 'm) conn \<Rightarrow> 'io \<times> byte list" where
  "conn_into_inner c = (bd_io (cn_io c), bd_read_buf (cn_io c))"

definition pending_upgrade ::
    "('io, 'b, 'm) conn \<Rightarrow> upgrade_pending option \<times> ('io, 'b, 'm) conn" where
  "pending_upgrade c =
     (st_upgrade (cn_state c), c\<lparr>cn_state := (cn_state c)\<lparr>st_upgrade := None\<rparr>\<rparr>)"

definition can_read_head :: "('io, 'b, 'm) conn \<Rightarrow> bool" where
  "can_read_head c =
     (if st_reading (cn_state c) \<noteq> ReadInit then False else st_writing (cn_state c) \<noteq> WriteInit)"

definition can_read_body :: "('io, 'b, 'm) conn \<Rightarrow> bool" where
  "can_read_body c =
     (case st_reading (cn_state c) of ReadBody _ \<Rightarrow> True | ReadContinue _ \<Rightarrow> True | _ \<Rightarrow> False)"

definition should_error_on_eof :: "('io, 'b, 'm) conn \<Rightarrow> bool" where
  "should_error_on_eof c = (\<not> is_idle (cn_state c))"

definition H2_PREFACE :: "byte list" where
  "H2_PREFACE = ascii ''PRI * HTTP/2.0'' @ [13, 10, 13, 10] @ ascii ''SM'' @ [13, 10, 13, 10]"

definition has_h2_prefix :: "('io, 'b, 'm) conn \<Rightarrow> bool" where
  "has_h2_prefix c = (take (length H2_PREFACE) (bd_read_buf (cn_io c)) = H2_PREFACE)"

section \<open>Wants\<close>

datatype wants = Wants byte

definition WANTS_EMPTY :: wants where "WANTS_EMPTY = Wants 0"

definition WANTS_EXPECT :: wants where "WANTS_EXPECT = Wants 1"

definition WANTS_UPGRADE :: wants where "WANTS_UPGRADE = Wants 2"

fun wants_add :: "wants \<Rightarrow> wants \<Rightarrow> wants" where
  "wants_add (Wants a) (Wants b) = Wants (or a b)"

fun wants_contains :: "wants \<Rightarrow> wants \<Rightarrow> bool" where
  "wants_contains (Wants a) (Wants b) = (and a b = b)"

section \<open>Keep-alive\<close>

text \<open>\<^verbatim>\<open>maybe_notify\<close> and \<^verbatim>\<open>try_keep_alive\<close>: \<open>None\<close> is a panic of the transport.\<close>

definition maybe_notify :: "('io, 'b, 'm) conn_env \<Rightarrow> ('io, 'b, 'm) conn \<Rightarrow> ('io, 'b, 'm) conn option" where
  "maybe_notify E c =
     (let st = cn_state c in
      if st_reading st \<noteq> ReadInit then Some c
      else if (case st_writing st of WriteBody _ \<Rightarrow> True | _ \<Rightarrow> False) then Some c
      else if \<not> bd_read_blocked (cn_io c) then
        (if bd_read_buf (cn_io c) = [] then
           (case poll_read_from_io (ce_transport E) (cn_io c) of
              (Ready (Inr n), io) \<Rightarrow>
                (if n = 0 then
                   Some (c\<lparr>cn_io := io,
                           cn_state := (if is_idle st then state_close st else state_close_read st)\<rparr>)
                 else Some (c\<lparr>cn_io := io, cn_state := st\<lparr>st_notify_read := True\<rparr>\<rparr>))
            | (Pending, io) \<Rightarrow> Some (c\<lparr>cn_io := io\<rparr>)
            | (Ready (Inl e), io) \<Rightarrow>
                Some (c\<lparr>cn_io := io,
                        cn_state := (state_close st)\<lparr>st_error := Some (ErrIo e), st_notify_read := True\<rparr>\<rparr>)
            | (Panicked, io) \<Rightarrow> None)
         else Some (c\<lparr>cn_state := st\<lparr>st_notify_read := True\<rparr>\<rparr>))
      else Some c)"

definition try_keep_alive :: "('io, 'b, 'm) conn_env \<Rightarrow> ('io, 'b, 'm) conn \<Rightarrow> ('io, 'b, 'm) conn option" where
  "try_keep_alive E c = maybe_notify E (c\<lparr>cn_state := state_try_keep_alive (cn_state c)\<rparr>)"

section \<open>Writing\<close>

definition can_write_head :: "('io, 'b, 'm) conn \<Rightarrow> bool" where
  "can_write_head c =
     (if st_reading (cn_state c) = ReadClosed then False
      else case st_writing (cn_state c) of WriteInit \<Rightarrow> can_headers_buf (cn_io c) | _ \<Rightarrow> False)"

definition can_write_body :: "('io, 'b, 'm) conn \<Rightarrow> bool" where
  "can_write_body c = (case st_writing (cn_state c) of WriteBody _ \<Rightarrow> True | _ \<Rightarrow> False)"

definition can_buffer_body :: "('io, 'b, 'm) conn \<Rightarrow> bool" where
  "can_buffer_body c = bd_can_buffer (cn_io c)"

definition conn_has_buffered_write :: "('io, 'b, 'm) conn \<Rightarrow> bool" where
  "conn_has_buffered_write c = has_buffered_write (cn_io c)"

definition fix_keep_alive ::
    "'m http_api \<Rightarrow> 'm conn_state \<Rightarrow> 'm request_head \<Rightarrow> 'm conn_state \<times> 'm request_head" where
  "fix_keep_alive A st head =
     (let vals = hm_get_all A (mh_headers head) CONNECTION;
          outgoing_is_keep_alive = list_ex (connection_keep_alive A) vals in
      if \<not> outgoing_is_keep_alive then
        (if mh_version head = HTTP_10 then (disable_keep_alive st, head)
         else if mh_version head = HTTP_11 \<and> wants_keep_alive st then
           (st, head\<lparr>mh_headers :=
              (if vals \<noteq> [] then hm_append A (mh_headers head) CONNECTION (ascii ''keep-alive'')
               else hm_insert A (mh_headers head) CONNECTION (ascii ''keep-alive''))\<rparr>)
         else (st, head))
      else (st, head))"

definition enforce_version ::
    "'m http_api \<Rightarrow> 'm conn_state \<Rightarrow> 'm request_head \<Rightarrow> 'm conn_state \<times> 'm request_head" where
  "enforce_version A st head =
     (case st_version st of
        HTTP_10 \<Rightarrow>
          (case fix_keep_alive A st head of (st', head') \<Rightarrow> (st', head'\<lparr>mh_version := HTTP_10\<rparr>))
      | HTTP_11 \<Rightarrow>
          (if st_keep_alive st = KaDisabled then
             (let vals = hm_get_all A (mh_headers head) CONNECTION in
              if vals \<noteq> [] then
                (if \<not> list_ex (connection_close A) vals
                 then (st, head\<lparr>mh_headers := hm_append A (mh_headers head) CONNECTION (ascii ''close'')\<rparr>)
                 else (st, head))
              else (st, head\<lparr>mh_headers := hm_insert A (mh_headers head) CONNECTION (ascii ''close'')\<rparr>))
           else (st, head))
      | _ \<Rightarrow> (st, head))"

text \<open>
  \<^verbatim>\<open>Client::encode\<close> never returns an error, so the arm that would store it has no counterpart.
  \<open>None\<close> is its panic.
\<close>

definition encode_head ::
    "('io, 'b, 'm) conn_env \<Rightarrow> ('io, 'b, 'm) conn \<Rightarrow> 'm request_head \<Rightarrow> body_length option \<Rightarrow>
     (encoder \<times> ('io, 'b, 'm) conn) option" where
  "encode_head E c head body =
     (let A = ce_http E;
          st1 = state_busy (cn_state c);
          st2 = (if connection_any_close A (mh_headers head) then disable_keep_alive st1 else st1) in
      case enforce_version A st2 head of
        (st3, head1) \<Rightarrow>
          (case client_encode A head1 body (cu_bytes (wb_headers (bd_write_buf (cn_io c)))) of
             None \<Rightarrow> None
           | Some (enc, head2, req_method, dst) \<Rightarrow>
               Some (enc,
                 c\<lparr>cn_io := headers_buf (\<lambda>_. dst) (cn_io c),
                   cn_state := st3\<lparr>st_method := req_method, st_cached_headers := Some (mh_headers head2),
                     st_on_informational := (if mh_on_informational head2 then Some [] else None)\<rparr>\<rparr>)))"

definition write_head ::
    "('io, 'b, 'm) conn_env \<Rightarrow> ('io, 'b, 'm) conn \<Rightarrow> 'm request_head \<Rightarrow> body_length option \<Rightarrow>
     ('io, 'b, 'm) conn option" where
  "write_head E c head body =
     (case encode_head E c head body of
        None \<Rightarrow> None
      | Some (encoder, c') \<Rightarrow>
          Some (c'\<lparr>cn_state := (cn_state c')\<lparr>st_writing :=
             (if \<not> encoder_is_eof encoder then WriteBody encoder
              else if encoder_is_last encoder then WriteClosed
              else WriteKeepAlive)\<rparr>\<rparr>))"

definition set_writing :: "writing \<Rightarrow> ('io, 'b, 'm) conn \<Rightarrow> ('io, 'b, 'm) conn" where
  "set_writing w c = c\<lparr>cn_state := (cn_state c)\<lparr>st_writing := w\<rparr>\<rparr>"

text \<open>\<^verbatim>\<open>self.io.buffer\<close> of an encoded buffer.\<close>

definition conn_buffer ::
    "('io, 'b, 'm) conn_env \<Rightarrow> ('io, 'b, 'm) conn \<Rightarrow> 'b encoded_buf \<Rightarrow> ('io, 'b, 'm) conn option option" where
  "conn_buffer E c b =
     map_option (map_option (\<lambda>io. c\<lparr>cn_io := io\<rparr>))
       (bd_buffer (ce_encoded E) (ce_encoded E) id (cn_io c) b)"

definition write_body ::
    "('io, 'b, 'm) conn_env \<Rightarrow> ('io, 'b, 'm) conn \<Rightarrow> 'b \<Rightarrow> ('io, 'b, 'm) conn option option" where
  "write_body E c chunk =
     (case st_writing (cn_state c) of
        WriteBody encoder \<Rightarrow>
          (case encode (ce_buf E) encoder chunk of
             None \<Rightarrow> Some None
           | Some (buf, encoder') \<Rightarrow>
               map_option (map_option (set_writing
                   (if \<not> encoder_is_eof encoder' then WriteBody encoder'
                    else if encoder_is_last encoder' then WriteClosed
                    else WriteKeepAlive)))
                 (conn_buffer E c buf))
      | _ \<Rightarrow> Some None)"

definition write_trailers ::
    "('io, 'b, 'm) conn_env \<Rightarrow> ('io, 'b, 'm) conn \<Rightarrow> 'm \<Rightarrow> ('io, 'b, 'm) conn option option" where
  "write_trailers E c trailers =
     (case st_writing (cn_state c) of
        WriteBody encoder \<Rightarrow>
          (case encode_trailers (ce_http E) encoder trailers of
             None \<Rightarrow> Some None
           | Some None \<Rightarrow> Some (Some c)
           | Some (Some enc_buf) \<Rightarrow>
               map_option (map_option (set_writing
                   (if encoder_is_last encoder \<or> encoder_is_close_delimited encoder then WriteClosed
                    else WriteKeepAlive)))
                 (conn_buffer E c enc_buf))
      | _ \<Rightarrow> Some None)"

definition write_body_and_end ::
    "('io, 'b, 'm) conn_env \<Rightarrow> ('io, 'b, 'm) conn \<Rightarrow> 'b \<Rightarrow> ('io, 'b, 'm) conn option option" where
  "write_body_and_end E c chunk =
     (case st_writing (cn_state c) of
        WriteBody encoder \<Rightarrow>
          map_option (map_option (\<lambda>(can_keep_alive, w).
              set_writing (if can_keep_alive then WriteKeepAlive else WriteClosed)
                (c\<lparr>cn_io := (cn_io c)\<lparr>bd_write_buf := w\<rparr>\<rparr>)))
            (encode_and_end (ce_buf E) (ce_adapters E) (ce_copy E) encoder chunk (bd_write_buf (cn_io c)))
      | _ \<Rightarrow> Some None)"

definition end_body ::
    "('io, 'b, 'm) conn_env \<Rightarrow> ('io, 'b, 'm) conn \<Rightarrow>
     ((http_error + unit) \<times> ('io, 'b, 'm) conn) option option" where
  "end_body E c =
     (case st_writing (cn_state c) of
        WriteBody encoder \<Rightarrow>
          (let done_state = (if encoder_is_last encoder \<or> encoder_is_close_delimited encoder
                             then WriteClosed else WriteKeepAlive) in
           case encoder_end encoder of
             Inr (Some buf) \<Rightarrow>
               map_option (map_option (\<lambda>c'. (Inr (), set_writing done_state c'))) (conn_buffer E c buf)
           | Inr None \<Rightarrow> Some (Some (Inr (), set_writing done_state c))
           | Inl not_eof \<Rightarrow>
               Some (Some (Inl (ErrUser UserBodyWriteAborted), set_writing WriteClosed c)))
      | _ \<Rightarrow> Some (Some (Inr (), c)))"

section \<open>Reading\<close>

definition close_read :: "('io, 'b, 'm) conn \<Rightarrow> ('io, 'b, 'm) conn" where
  "close_read c = c\<lparr>cn_state := state_close_read (cn_state c)\<rparr>"

definition close_write :: "('io, 'b, 'm) conn \<Rightarrow> ('io, 'b, 'm) conn" where
  "close_write c = c\<lparr>cn_state := state_close_write (cn_state c)\<rparr>"

text \<open>\<^verbatim>\<open>Client::on_error\<close>.\<close>

definition client_on_error :: "http_error \<Rightarrow> 'm request_head option" where
  "client_on_error err = None"

definition is_parse :: "http_error \<Rightarrow> bool" where
  "is_parse e = (case e of ErrParse _ \<Rightarrow> True | _ \<Rightarrow> False)"

text \<open>\<open>None\<close> is a panic.\<close>

definition on_parse_error ::
    "('io, 'b, 'm) conn_env \<Rightarrow> ('io, 'b, 'm) conn \<Rightarrow> http_error \<Rightarrow>
     ((http_error + unit) \<times> ('io, 'b, 'm) conn) option" where
  "on_parse_error E c err =
     (if st_writing (cn_state c) = WriteInit then
        (if has_h2_prefix c then Some (Inl (ErrParse ParseVersionH2), c)
         else
           (case client_on_error err of
              Some msg \<Rightarrow>
                map_option (\<lambda>c'. (Inr (), c'\<lparr>cn_state := (cn_state c')\<lparr>st_error := Some err\<rparr>\<rparr>))
                  (write_head E (c\<lparr>cn_state := (cn_state c)\<lparr>st_cached_headers := None\<rparr>\<rparr>) msg None)
            | None \<Rightarrow> Some (Inl err, c)))
      else Some (Inl err, c))"

definition on_read_head_error ::
    "('io, 'b, 'm) conn_env \<Rightarrow> ('io, 'b, 'm) conn \<Rightarrow> http_error \<Rightarrow>
     (http_error + 'z) option poll \<times> ('io, 'b, 'm) conn" where
  "on_read_head_error E c0 e =
     (let must_error = should_error_on_eof c0;
          c1 = close_read c0;
          c = c1\<lparr>cn_io := consume_leading_lines (cn_io c1)\<rparr>;
          was_mid_parse = (is_parse e \<or> bd_read_buf (cn_io c) \<noteq> []) in
      if was_mid_parse \<or> must_error then
        (case on_parse_error E c e of
           None \<Rightarrow> (Panicked, c)
         | Some (Inr u, c') \<Rightarrow> (Pending, c')
         | Some (Inl e', c') \<Rightarrow> (Ready (Some (Inl e')), c'))
      else (Ready None, close_write c))"

text \<open>The state that \<^verbatim>\<open>poll_read_head\<close> lends to the parser, and takes back.\<close>

definition context_of :: "'m conn_state \<Rightarrow> 'm parse_context" where
  "context_of st =
     \<lparr>pc_cached_headers = st_cached_headers st, pc_req_method = st_method st,
      pc_max_headers = st_h1_max_headers st, pc_max_header_size = st_h1_max_header_size st,
      pc_h09_responses = st_h09_responses st, pc_on_informational = st_on_informational st\<rparr>"

definition context_back :: "'m conn_state \<Rightarrow> 'm parse_context \<Rightarrow> 'm conn_state" where
  "context_back st ctx =
     st\<lparr>st_cached_headers := pc_cached_headers ctx, st_method := pc_req_method ctx,
        st_on_informational := pc_on_informational ctx\<rparr>"

text \<open>\<^verbatim>\<open>poll_read_head\<close> once a message has been parsed.\<close>

definition read_head_message ::
    "('io, 'b, 'm) conn_env \<Rightarrow> ('io, 'b, 'm) conn \<Rightarrow> 'm parsed_message \<Rightarrow>
     (http_error + 'm response_head \<times> decoded_length \<times> wants) option poll \<times> ('io, 'b, 'm) conn" where
  "read_head_message E c msg =
     (let head = pm_head msg;
          st0 = state_busy ((cn_state c)\<lparr>st_h09_responses := False, st_on_informational := None\<rparr>);
          st = st0\<lparr>st_keep_alive := ka_and (st_keep_alive st0) (pm_keep_alive msg),
                   st_version := mh_version head\<rparr>;
          wants = (if pm_wants_upgrade msg then WANTS_UPGRADE else WANTS_EMPTY);
          dec = decoder_new (pm_decode msg) (st_h1_max_headers st) (st_h1_max_header_size st);
          finish = (\<lambda>wants c'. (Ready (Some (Inr (head, pm_decode msg, wants))),
            c'\<lparr>cn_state := (cn_state c')\<lparr>st_allow_trailer_fields :=
                (hm_get (ce_http E) (mh_headers head) TE = Some (ascii ''trailers''))\<rparr>\<rparr>)) in
      if pm_decode msg = ZERO then
        (case try_keep_alive E (c\<lparr>cn_state := st\<lparr>st_reading := ReadKeepAlive\<rparr>\<rparr>) of
           None \<Rightarrow> (Panicked, c)
         | Some c' \<Rightarrow> finish wants c')
      else if pm_expect_continue msg \<and> mh_version head \<notin> {HTTP_09, HTTP_10} then
        finish (wants_add wants WANTS_EXPECT) (c\<lparr>cn_state := st\<lparr>st_reading := ReadContinue dec\<rparr>\<rparr>)
      else finish wants (c\<lparr>cn_state := st\<lparr>st_reading := ReadBody dec\<rparr>\<rparr>))"

definition poll_read_head ::
    "('io, 'b, 'm) conn_env \<Rightarrow> ('io, 'b, 'm) conn \<Rightarrow>
     ((http_error + 'm response_head \<times> decoded_length \<times> wants) option poll \<times> ('io, 'b, 'm) conn) option" where
  "poll_read_head E c =
     (let st = cn_state c in
      case bd_parse (ce_transport E) (client_parse (ce_http E) (st_h1_parser_config st)) (cn_io c) (context_of st) of
        None \<Rightarrow> None
      | Some (res, io, ctx) \<Rightarrow>
          (let c' = \<lparr>cn_io = io, cn_state = context_back st ctx\<rparr> in
           Some
             (case res of
                Ready (Inr msg) \<Rightarrow> read_head_message E c' msg
              | Ready (Inl e) \<Rightarrow> on_read_head_error E c' e
              | Pending \<Rightarrow> (Pending, c')
              | Panicked \<Rightarrow> (Panicked, c'))))"

definition set_reading :: "reading \<Rightarrow> ('io, 'b, 'm) conn \<Rightarrow> ('io, 'b, 'm) conn" where
  "set_reading r c = c\<lparr>cn_state := (cn_state c)\<lparr>st_reading := r\<rparr>\<rparr>"

text \<open>The end of \<^verbatim>\<open>poll_read_body\<close>: the new reading state and the attempt to go idle.\<close>

definition finish_read ::
    "('io, 'b, 'm) conn_env \<Rightarrow> ('io, 'b, 'm) conn \<Rightarrow> reading \<Rightarrow> 'm frame io_result option \<Rightarrow>
     'm frame io_result option poll \<times> ('io, 'b, 'm) conn" where
  "finish_read E c r ret =
     (case try_keep_alive E (set_reading r c) of
        None \<Rightarrow> (Panicked, c)
      | Some c' \<Rightarrow> (Ready ret, c'))"

text \<open>\<^verbatim>\<open>poll_read_body\<close> in the state \<^verbatim>\<open>Reading::Body\<close>.\<close>

definition read_body_state ::
    "('io, 'b, 'm) conn_env \<Rightarrow> ('io, 'b, 'm) conn \<Rightarrow> decoder \<Rightarrow>
     ('m frame io_result option poll \<times> ('io, 'b, 'm) conn) option" where
  "read_body_state E c dec =
     (case decode (ce_http E) (ce_httparse E) (read_mem (ce_transport E)) dec (cn_io c) of
        None \<Rightarrow> None
      | Some (res, dec', io) \<Rightarrow>
          (let c' = set_reading (ReadBody dec') (c\<lparr>cn_io := io\<rparr>) in
           Some
             (case res of
                Pending \<Rightarrow> (Pending, c')
              | Panicked \<Rightarrow> (Panicked, c')
              | Ready (Inr (Data bytes)) \<Rightarrow>
                  (if decoder_is_eof dec' then
                     finish_read E c' ReadKeepAlive (if bytes \<noteq> [] then Some (Inr (Data bytes)) else None)
                   else if bytes = [] then finish_read E c' ReadClosed None
                   else (Ready (Some (Inr (Data bytes))), c'))
              | Ready (Inr (Trailers h)) \<Rightarrow> finish_read E c' ReadKeepAlive (Some (Inr (Trailers h)))
              | Ready (Inl e) \<Rightarrow> finish_read E c' ReadClosed (Some (Inl e)))))"

definition continue_bytes :: "byte list" where
  "continue_bytes = ascii ''HTTP/1.1 100 Continue'' @ [13, 10, 13, 10]"

definition poll_read_body ::
    "('io, 'b, 'm) conn_env \<Rightarrow> ('io, 'b, 'm) conn \<Rightarrow>
     ('m frame io_result option poll \<times> ('io, 'b, 'm) conn) option" where
  "poll_read_body E c =
     (case st_reading (cn_state c) of
        ReadBody dec \<Rightarrow> read_body_state E c dec
      | ReadContinue dec \<Rightarrow>
          (let c1 = (if st_writing (cn_state c) = WriteInit
                     then c\<lparr>cn_io := headers_buf (\<lambda>bs. bs @ continue_bytes) (cn_io c)\<rparr> else c) in
           read_body_state E (set_reading (ReadBody dec) c1) dec)
      | _ \<Rightarrow> Some (Panicked, c))"

definition wants_read_again :: "('io, 'b, 'm) conn \<Rightarrow> bool \<times> ('io, 'b, 'm) conn" where
  "wants_read_again c =
     (st_notify_read (cn_state c), c\<lparr>cn_state := (cn_state c)\<lparr>st_notify_read := False\<rparr>\<rparr>)"

definition is_mid_message :: "('io, 'b, 'm) conn \<Rightarrow> bool" where
  "is_mid_message c =
     (\<not> (st_reading (cn_state c) = ReadInit \<and> st_writing (cn_state c) = WriteInit))"

definition force_io_read ::
    "('io, 'b, 'm) conn_env \<Rightarrow> ('io, 'b, 'm) conn \<Rightarrow> nat io_result poll \<times> ('io, 'b, 'm) conn" where
  "force_io_read E c =
     (case poll_read_from_io (ce_transport E) (cn_io c) of
        (Ready (Inl e), io) \<Rightarrow>
          (Ready (Inl e), c\<lparr>cn_io := io, cn_state := state_close (cn_state c)\<rparr>)
      | (res, io) \<Rightarrow> (res, c\<lparr>cn_io := io\<rparr>))"

definition require_empty_read ::
    "('io, 'b, 'm) conn_env \<Rightarrow> ('io, 'b, 'm) conn \<Rightarrow> (http_error + unit) poll \<times> ('io, 'b, 'm) conn" where
  "require_empty_read E c =
     (if bd_read_buf (cn_io c) \<noteq> [] then (Ready (Inl UnexpectedMessage), c)
      else
        (case force_io_read E c of
           (Pending, c') \<Rightarrow> (Pending, c')
         | (Panicked, c') \<Rightarrow> (Panicked, c')
         | (Ready (Inl e), c') \<Rightarrow> (Ready (Inl (ErrIo e)), c')
         | (Ready (Inr n), c') \<Rightarrow>
             (if n = 0 then
                (Ready (if should_error_on_eof c' then Inl IncompleteMessage else Inr ()), close_read c')
              else (Ready (Inl UnexpectedMessage), c'))))"

definition mid_message_detect_eof ::
    "('io, 'b, 'm) conn_env \<Rightarrow> ('io, 'b, 'm) conn \<Rightarrow> (http_error + unit) poll \<times> ('io, 'b, 'm) conn" where
  "mid_message_detect_eof E c =
     (if st_allow_half_close (cn_state c) \<or> bd_read_buf (cn_io c) \<noteq> [] then (Pending, c)
      else
        (case force_io_read E c of
           (Pending, c') \<Rightarrow> (Pending, c')
         | (Panicked, c') \<Rightarrow> (Panicked, c')
         | (Ready (Inl e), c') \<Rightarrow> (Ready (Inl (ErrIo e)), c')
         | (Ready (Inr n), c') \<Rightarrow>
             (if n = 0 then (Ready (Inl IncompleteMessage), close_read c')
              else (Ready (Inr ()), c'))))"

definition poll_read_keep_alive ::
    "('io, 'b, 'm) conn_env \<Rightarrow> ('io, 'b, 'm) conn \<Rightarrow> (http_error + unit) poll \<times> ('io, 'b, 'm) conn" where
  "poll_read_keep_alive E c =
     (if is_read_closed (cn_state c) then (Pending, c)
      else if is_mid_message c then mid_message_detect_eof E c
      else require_empty_read E c)"

section \<open>Flushing and closing\<close>

definition conn_poll_flush ::
    "('io, 'b, 'm) conn_env \<Rightarrow> ('io, 'b, 'm) conn \<Rightarrow> (unit io_result poll \<times> ('io, 'b, 'm) conn) option" where
  "conn_poll_flush E c =
     (case poll_flush (ce_transport E) (ce_encoded E) (cn_io c) of
        None \<Rightarrow> None
      | Some (Ready (Inr u), io) \<Rightarrow>
          (case try_keep_alive E (c\<lparr>cn_io := io\<rparr>) of
             None \<Rightarrow> Some (Panicked, c\<lparr>cn_io := io\<rparr>)
           | Some c' \<Rightarrow> Some (Ready (Inr ()), c'))
      | Some (res, io) \<Rightarrow> Some (res, c\<lparr>cn_io := io\<rparr>))"

definition conn_poll_shutdown ::
    "('io, 'b, 'm) conn_env \<Rightarrow> ('io, 'b, 'm) conn \<Rightarrow> (unit io_result poll \<times> ('io, 'b, 'm) conn) option" where
  "conn_poll_shutdown E c =
     map_option (\<lambda>(res, io). (res, c\<lparr>cn_io := io\<rparr>))
       (poll_shutdown (ce_transport E) (ce_encoded E) (cn_io c))"

definition poll_drain_or_close_read ::
    "('io, 'b, 'm) conn_env \<Rightarrow> ('io, 'b, 'm) conn \<Rightarrow> ('io, 'b, 'm) conn option option" where
  "poll_drain_or_close_read E c =
     (let c1 = (case st_reading (cn_state c) of ReadContinue dec \<Rightarrow> set_reading (ReadBody dec) c | _ \<Rightarrow> c) in
      case poll_read_body E c1 of
        None \<Rightarrow> None
      | Some (Panicked, c2) \<Rightarrow> Some None
      | Some (_, c2) \<Rightarrow>
          Some (Some
            (case st_reading (cn_state c2) of
               ReadInit \<Rightarrow> c2
             | ReadKeepAlive \<Rightarrow> c2
             | _ \<Rightarrow> close_read c2)))"

definition take_error :: "('io, 'b, 'm) conn \<Rightarrow> (http_error + unit) \<times> ('io, 'b, 'm) conn" where
  "take_error c =
     (case st_error (cn_state c) of
        Some err \<Rightarrow> (Inl err, c\<lparr>cn_state := (cn_state c)\<lparr>st_error := None\<rparr>\<rparr>)
      | None \<Rightarrow> (Inr (), c))"

definition conn_on_upgrade :: "('io, 'b, 'm) conn \<Rightarrow> on_upgrade \<times> ('io, 'b, 'm) conn" where
  "conn_on_upgrade c =
     (case prepare_upgrade (cn_state c) of (rx, st) \<Rightarrow> (rx, c\<lparr>cn_state := st\<rparr>))"

end
