(* ===== verification/Http1_Session.thy ===== *)
theory Http1_Session
  imports Http1_Conn
begin

text \<open>
  A client session: the options (\<^verbatim>\<open>src/src/proto/http1.rs\<close>), the handshake that configures a
  connection (\<^verbatim>\<open>src/src/conn/http1.rs\<close>), and the sequences of operations the dispatcher performs on
  it.  \<open>conn_op\<close> are the operations of \<^verbatim>\<open>Conn\<close>, \<open>conn_enabled\<close> their preconditions, the
  \<^verbatim>\<open>debug_assert!\<close>s of the operations and the checks of \<^verbatim>\<open>src/src/proto/http1/dispatch.rs\<close>,
  \<open>OpClose\<close> is \<^verbatim>\<open>Dispatcher::close\<close>; \<open>conn_step\<close> performs one operation and \<open>conn_run\<close> a sequence.
\<close>

section \<open>Options\<close>

record http1_options =
  ho_h09_responses :: bool
  ho_h1_writev :: "bool option"
  ho_h1_max_headers :: "nat option"
  ho_h1_max_header_size :: "nat option"
  ho_h1_read_buf_exact_size :: "nat option"
  ho_h1_max_buf_size :: "nat option"
  ho_ignore_invalid_headers_in_responses :: bool
  ho_allow_spaces_after_header_name_in_responses :: bool
  ho_allow_obsolete_multiline_headers_in_responses :: bool

definition options_builder :: http1_options where
  "options_builder =
     \<lparr>ho_h09_responses = False, ho_h1_writev = None, ho_h1_max_headers = None,
      ho_h1_max_header_size = None, ho_h1_read_buf_exact_size = None, ho_h1_max_buf_size = None,
      ho_ignore_invalid_headers_in_responses = False,
      ho_allow_spaces_after_header_name_in_responses = False,
      ho_allow_obsolete_multiline_headers_in_responses = False\<rparr>"

definition opt_http09_responses :: "http1_options \<Rightarrow> bool \<Rightarrow> http1_options" where
  "opt_http09_responses opts enabled = opts\<lparr>ho_h09_responses := enabled\<rparr>"

definition opt_writev :: "http1_options \<Rightarrow> bool option \<Rightarrow> http1_options" where
  "opt_writev opts writev = opts\<lparr>ho_h1_writev := writev\<rparr>"

definition opt_max_headers :: "http1_options \<Rightarrow> nat \<Rightarrow> http1_options" where
  "opt_max_headers opts mh = opts\<lparr>ho_h1_max_headers := Some mh\<rparr>"

definition opt_max_header_size :: "http1_options \<Rightarrow> nat \<Rightarrow> http1_options" where
  "opt_max_header_size opts v = opts\<lparr>ho_h1_max_header_size := Some v\<rparr>"

definition opt_read_buf_exact_size :: "http1_options \<Rightarrow> nat option \<Rightarrow> http1_options" where
  "opt_read_buf_exact_size opts sz =
     opts\<lparr>ho_h1_read_buf_exact_size := sz, ho_h1_max_buf_size := None\<rparr>"

text \<open>\<open>None\<close> is the panic of the assertion.\<close>

definition opt_max_buf_size :: "http1_options \<Rightarrow> nat \<Rightarrow> http1_options option" where
  "opt_max_buf_size opts mx =
     (if mx \<ge> MINIMUM_MAX_BUFFER_SIZE then
        Some (opts\<lparr>ho_h1_max_buf_size := Some mx, ho_h1_read_buf_exact_size := None\<rparr>)
      else None)"

definition opt_allow_spaces_after_header_name_in_responses :: "http1_options \<Rightarrow> bool \<Rightarrow> http1_options" where
  "opt_allow_spaces_after_header_name_in_responses opts enabled =
     opts\<lparr>ho_allow_spaces_after_header_name_in_responses := enabled\<rparr>"

definition opt_ignore_invalid_headers_in_responses :: "http1_options \<Rightarrow> bool \<Rightarrow> http1_options" where
  "opt_ignore_invalid_headers_in_responses opts enabled =
     opts\<lparr>ho_ignore_invalid_headers_in_responses := enabled\<rparr>"

definition opt_allow_obsolete_multiline_headers_in_responses ::
    "http1_options \<Rightarrow> bool \<Rightarrow> http1_options" where
  "opt_allow_obsolete_multiline_headers_in_responses opts v =
     opts\<lparr>ho_allow_obsolete_multiline_headers_in_responses := v\<rparr>"

section \<open>Handshake\<close>

text \<open>
  The parser of \<^verbatim>\<open>httparse\<close> for the three settings, in the order ignore invalid headers, allow spaces,
  allow obsolete multi-line headers.
\<close>

type_synonym parser_config = "bool \<Rightarrow> bool \<Rightarrow> bool \<Rightarrow> response_parser"

definition handshake ::
    "('io, 'b, 'm) conn_env \<Rightarrow> parser_config \<Rightarrow> http1_options \<Rightarrow> 'io \<Rightarrow> ('io, 'b, 'm) conn option" where
  "handshake E PC opts io =
     (let c0 = conn_new E (PC False False False) io;
          c1 = set_h1_parser_config c0
                 (PC (ho_ignore_invalid_headers_in_responses opts)
                     (ho_allow_spaces_after_header_name_in_responses opts)
                     (ho_allow_obsolete_multiline_headers_in_responses opts));
          c2 = (case ho_h1_writev opts of
                  Some writev \<Rightarrow>
                    (if writev then conn_set_write_strategy_queue c1 else conn_set_write_strategy_flatten c1)
                | None \<Rightarrow> c1);
          c3 = (case ho_h1_max_headers opts of Some n \<Rightarrow> set_http1_max_headers c2 n | None \<Rightarrow> c2);
          c4 = (case ho_h1_max_header_size opts of Some n \<Rightarrow> set_http1_max_header_size c3 n | None \<Rightarrow> c3);
          c5 = (if ho_h09_responses opts then set_h09_responses c4 else c4);
          c6 = (case ho_h1_read_buf_exact_size opts of
                  Some sz \<Rightarrow> conn_set_read_buf_exact_size c5 sz | None \<Rightarrow> c5) in
      case ho_h1_max_buf_size opts of
        Some mx \<Rightarrow> conn_set_max_buf_size c6 mx
      | None \<Rightarrow> Some c6)"

section \<open>Operations\<close>

datatype ('b, 'm) conn_op =
    OpReadHead
  | OpReadBody
  | OpReadKeepAlive
  | OpWantsReadAgain
  | OpWriteHead "'m request_head" "body_length option"
  | OpWriteBody 'b
  | OpWriteTrailers 'm
  | OpWriteBodyAndEnd 'b
  | OpEndBody
  | OpFlush
  | OpShutdown
  | OpDrainOrCloseRead
  | OpCloseRead
  | OpClose
  | OpTakeError
  | OpOnUpgrade
  | OpPendingUpgrade

fun conn_enabled :: "('io, 'b, 'm) conn \<Rightarrow> ('b, 'm) conn_op \<Rightarrow> bool" where
  "conn_enabled c OpReadHead = can_read_head c"
| "conn_enabled c OpReadBody = can_read_body c"
| "conn_enabled c OpReadKeepAlive = (\<not> can_read_head c \<and> \<not> can_read_body c)"
| "conn_enabled c (OpWriteHead _ _) = can_write_head c"
| "conn_enabled c (OpWriteBody _) = (can_write_body c \<and> can_buffer_body c)"
| "conn_enabled c (OpWriteTrailers _) = (can_write_body c \<and> can_buffer_body c)"
| "conn_enabled c (OpWriteBodyAndEnd _) = (can_write_body c \<and> can_buffer_body c)"
| "conn_enabled c OpEndBody = can_write_body c"
| "conn_enabled c OpDrainOrCloseRead = can_read_body c"
| "conn_enabled c _ = True"

text \<open>What an observer sees of an operation: a request head that was written, a response head that
  was delivered.\<close>

datatype conn_event = Request | Response

definition polled :: "('a poll \<times> 'c) option \<Rightarrow> ('a \<Rightarrow> conn_event list) \<Rightarrow> (conn_event list \<times> 'c) option option" where
  "polled r ev =
     map_option (\<lambda>(p, c). case p of Panicked \<Rightarrow> None | Pending \<Rightarrow> Some ([], c) | Ready a \<Rightarrow> Some (ev a, c)) r"

definition quiet :: "'c option option \<Rightarrow> (conn_event list \<times> 'c) option option" where
  "quiet r = map_option (map_option (Pair [])) r"

fun conn_step ::
    "('io, 'b, 'm) conn_env \<Rightarrow> ('io, 'b, 'm) conn \<Rightarrow> ('b, 'm) conn_op \<Rightarrow>
     (conn_event list \<times> ('io, 'b, 'm) conn) option option" where
  "conn_step E c OpReadHead =
     polled (poll_read_head E c) (\<lambda>r. case r of Some (Inr _) \<Rightarrow> [Response] | _ \<Rightarrow> [])"
| "conn_step E c OpReadBody = polled (poll_read_body E c) (\<lambda>_. [])"
| "conn_step E c OpReadKeepAlive = polled (Some (poll_read_keep_alive E c)) (\<lambda>_. [])"
| "conn_step E c OpWantsReadAgain = quiet (Some (Some (snd (wants_read_again c))))"
| "conn_step E c (OpWriteHead head body) = Some (map_option (Pair [Request]) (write_head E c head body))"
| "conn_step E c (OpWriteBody chunk) = quiet (write_body E c chunk)"
| "conn_step E c (OpWriteTrailers trailers) = quiet (write_trailers E c trailers)"
| "conn_step E c (OpWriteBodyAndEnd chunk) = quiet (write_body_and_end E c chunk)"
| "conn_step E c OpEndBody = quiet (map_option (map_option snd) (end_body E c))"
| "conn_step E c OpFlush = polled (conn_poll_flush E c) (\<lambda>_. [])"
| "conn_step E c OpShutdown = polled (conn_poll_shutdown E c) (\<lambda>_. [])"
| "conn_step E c OpDrainOrCloseRead = quiet (poll_drain_or_close_read E c)"
| "conn_step E c OpCloseRead = quiet (Some (Some (close_read c)))"
| "conn_step E c OpClose = quiet (Some (Some (close_write (close_read c))))"
| "conn_step E c OpTakeError = quiet (Some (Some (snd (take_error c))))"
| "conn_step E c OpOnUpgrade = quiet (Some (Some (snd (conn_on_upgrade c))))"
| "conn_step E c OpPendingUpgrade = quiet (Some (Some (snd (pending_upgrade c))))"

text \<open>A run: every operation is enabled when it is performed; the events in order.\<close>

inductive conn_run ::
    "('io, 'b, 'm) conn_env \<Rightarrow> ('io, 'b, 'm) conn \<Rightarrow> conn_event list \<Rightarrow> ('io, 'b, 'm) conn \<Rightarrow> bool"
  for E where
  run_start: "conn_run E c [] c"
| run_step: "conn_run E c evs c' \<Longrightarrow> conn_enabled c' op \<Longrightarrow>
     conn_step E c' op = Some (Some (ev, c'')) \<Longrightarrow> conn_run E c (evs @ ev) c''"

section \<open>The abstract protocol\<close>

text \<open>
  What the operations may do to the protocol state, the reading and writing phases and the
  keep-alive status: the transitions a client of the protocol may rely on.
\<close>

datatype phase = PInit | PBusy | PDone | PClosed

record protocol =
  pr_reading :: phase
  pr_writing :: phase
  pr_keep_alive :: ka

fun reading_phase :: "reading \<Rightarrow> phase" where
  "reading_phase ReadInit = PInit"
| "reading_phase (ReadContinue _) = PBusy"
| "reading_phase (ReadBody _) = PBusy"
| "reading_phase ReadKeepAlive = PDone"
| "reading_phase ReadClosed = PClosed"

fun writing_phase :: "writing \<Rightarrow> phase" where
  "writing_phase WriteInit = PInit"
| "writing_phase (WriteBody _) = PBusy"
| "writing_phase WriteKeepAlive = PDone"
| "writing_phase WriteClosed = PClosed"

definition protocol_of :: "('io, 'b, 'm) conn \<Rightarrow> protocol" where
  "protocol_of c =
     \<lparr>pr_reading = reading_phase (st_reading (cn_state c)),
      pr_writing = writing_phase (st_writing (cn_state c)),
      pr_keep_alive = st_keep_alive (cn_state c)\<rparr>"

inductive protocol_step :: "protocol \<Rightarrow> conn_event list \<Rightarrow> protocol \<Rightarrow> bool" where
  ps_request: "pr_writing p = PInit \<Longrightarrow> pr_reading p = PInit \<Longrightarrow> w \<in> {PBusy, PDone, PClosed} \<Longrightarrow>
     k = KaDisabled \<or> (k = KaBusy \<and> pr_keep_alive p \<noteq> KaDisabled) \<Longrightarrow>
     protocol_step p [Request] (p\<lparr>pr_writing := w, pr_keep_alive := k\<rparr>)"
| ps_written: "pr_writing p = PBusy \<Longrightarrow> w \<in> {PDone, PClosed} \<Longrightarrow>
     protocol_step p [] (p\<lparr>pr_writing := w\<rparr>)"
| ps_response: "pr_reading p = PInit \<Longrightarrow> pr_writing p \<noteq> PInit \<Longrightarrow> r \<in> {PBusy, PDone} \<Longrightarrow>
     k = KaDisabled \<or> (k = KaBusy \<and> pr_keep_alive p \<noteq> KaDisabled) \<Longrightarrow>
     protocol_step p [Response] (p\<lparr>pr_reading := r, pr_keep_alive := k\<rparr>)"
| ps_read: "pr_reading p = PBusy \<Longrightarrow> r \<in> {PDone, PClosed} \<Longrightarrow>
     protocol_step p [] (p\<lparr>pr_reading := r\<rparr>)"
| ps_recycle: "pr_reading p = PDone \<Longrightarrow> pr_writing p = PDone \<Longrightarrow> pr_keep_alive p = KaBusy \<Longrightarrow>
     protocol_step p [] \<lparr>pr_reading = PInit, pr_writing = PInit, pr_keep_alive = KaIdle\<rparr>"
| ps_close_read: "protocol_step p [] (p\<lparr>pr_reading := PClosed, pr_keep_alive := KaDisabled\<rparr>)"
| ps_close: "protocol_step p []
     \<lparr>pr_reading = PClosed, pr_writing = PClosed, pr_keep_alive = KaDisabled\<rparr>"

inductive protocol_steps :: "protocol \<Rightarrow> conn_event list \<Rightarrow> protocol \<Rightarrow> bool" where
  pss_refl: "protocol_steps p [] p"
| pss_step: "protocol_steps p evs p' \<Longrightarrow> protocol_step p' ev p'' \<Longrightarrow> protocol_steps p (evs @ ev) p''"

definition protocol_init :: protocol where
  "protocol_init = \<lparr>pr_reading = PInit, pr_writing = PInit, pr_keep_alive = KaBusy\<rparr>"

text \<open>The invariant of the protocol, and the alternation of requests and responses.\<close>

definition protocol_inv :: "protocol \<Rightarrow> bool" where
  "protocol_inv p \<longleftrightarrow>
     (pr_keep_alive p = KaIdle \<longrightarrow> pr_reading p = PInit \<and> pr_writing p = PInit) \<and>
     (pr_writing p = PInit \<longrightarrow> pr_reading p \<in> {PInit, PClosed})"

fun alternates :: "bool \<Rightarrow> conn_event list \<Rightarrow> bool" where
  "alternates waiting [] = True"
| "alternates waiting (e # es) = (e = (if waiting then Response else Request) \<and> alternates (\<not> waiting) es)"

definition outstanding :: "conn_event list \<Rightarrow> bool" where
  "outstanding evs = odd (length evs)"

definition exchange_inv :: "conn_event list \<Rightarrow> protocol \<Rightarrow> bool" where
  "exchange_inv evs p \<longleftrightarrow> alternates False evs \<and>
     (pr_reading p = PInit \<longrightarrow> (outstanding evs \<longleftrightarrow> pr_writing p \<noteq> PInit)) \<and>
     (pr_reading p \<in> {PBusy, PDone} \<longrightarrow> \<not> outstanding evs)"

text \<open>A concrete session: one request over a script, answered by the sample response.\<close>

definition sample_env :: "(script, byte list, assoc_map) conn_env" where
  "sample_env =
     \<lparr>ce_http = assoc_api, ce_httparse = sample_httparse, ce_transport = sc_api, ce_buf = slice_api,
      ce_adapters = slice_adapters,
      ce_copy = copy_by_advance (eb_advance slice_api slice_adapters) (eb_contents (\<lambda>b. b))\<rparr>"

definition sample_script :: script where
  "sample_script = \<lparr>sc_recv = [Recv sample_response], sc_write = [], sc_sent = [], sc_vectored = False\<rparr>"

definition sample_conn :: "(script, byte list, assoc_map) conn" where
  "sample_conn = conn_new sample_env sample_parser sample_script"

definition sample_request :: "assoc_map request_head" where
  "sample_request =
     \<lparr>mh_version = HTTP_11, mh_subject = RequestLine GET (ascii ''/''), mh_headers = [], mh_reason = None,
      mh_preserve = None, mh_on_informational = False\<rparr>"

definition sample_sent :: "(script, byte list, assoc_map) conn" where
  "sample_sent = sample_conn\<lparr>
     cn_io := headers_buf (\<lambda>_. ascii ''GET / HTTP/1.1'' @ [13, 10, 13, 10]) (cn_io sample_conn),
     cn_state := (cn_state sample_conn)\<lparr>st_method := Some GET, st_cached_headers := Some [],
       st_writing := WriteKeepAlive\<rparr>\<rparr>"

section \<open>Facts about the protocol\<close>

text \<open>What is final: a keep-alive that is disabled, a side that is closed.\<close>

definition protocol_final :: "protocol \<Rightarrow> protocol \<Rightarrow> bool" where
  "protocol_final p q \<longleftrightarrow>
     (pr_keep_alive p = KaDisabled \<longrightarrow> pr_keep_alive q = KaDisabled) \<and>
     (pr_reading p = PClosed \<longrightarrow> pr_reading q = PClosed) \<and>
     (pr_writing p = PClosed \<longrightarrow> pr_writing q = PClosed)"

text \<open>Every operation on the body leaves the connection or moves the writing side on.\<close>

definition write_moves :: "('io, 'b, 'm) conn \<Rightarrow> ('io, 'b, 'm) conn \<Rightarrow> bool" where
  "write_moves c c' \<longleftrightarrow> c' = c \<or> (\<exists>w c1. c' = set_writing w c1 \<and> writing_phase w \<noteq> PInit \<and>
     cn_state c1 = cn_state c \<and> pr_writing (protocol_of c) = PBusy)"

lemma protocol_steps_trans:
  assumes "protocol_steps q e2 r" "protocol_steps p e1 q"
  shows "protocol_steps p (e1 @ e2) r"
  using assms
  by (induction arbitrary: rule: protocol_steps.induct) (auto simp: append_assoc [symmetric] intro: protocol_steps.intros
      simp del: append_assoc)

lemma protocol_steps_one: "protocol_step p ev q \<Longrightarrow> protocol_steps p ev q"
  using pss_step [OF pss_refl] by simp

lemma protocol_steps_silent:
  "protocol_steps p [] q \<Longrightarrow> protocol_steps q ev r \<Longrightarrow> protocol_steps p ev r"
  "protocol_steps p ev q \<Longrightarrow> protocol_steps q [] r \<Longrightarrow> protocol_steps p ev r"
  using protocol_steps_trans by fastforce+

lemma protocol_step_inv: "protocol_step p ev q \<Longrightarrow> protocol_inv p \<Longrightarrow> protocol_inv q"
  by (induction rule: protocol_step.induct) (auto simp: protocol_inv_def)

lemma protocol_steps_inv: "protocol_steps p ev q \<Longrightarrow> protocol_inv p \<Longrightarrow> protocol_inv q"
  by (induction rule: protocol_steps.induct) (auto intro: protocol_step_inv)

lemma alternates_append:
  "alternates w (xs @ ys) \<longleftrightarrow> alternates w xs \<and> alternates (w \<noteq> odd (length xs)) ys"
  by (induction xs arbitrary: w) auto

lemma protocol_step_exchange:
  assumes "protocol_step p ev q" "protocol_inv p" "exchange_inv evs p"
  shows "exchange_inv (evs @ ev) q"
  using assms
  by (induction rule: protocol_step.induct)
     (auto simp: protocol_inv_def exchange_inv_def outstanding_def alternates_append)

lemma protocol_steps_exchange:
  assumes "protocol_steps p ev q" "protocol_inv p" "exchange_inv evs p"
  shows "exchange_inv (evs @ ev) q"
  using assms
proof (induction rule: protocol_steps.induct)
  case (pss_step p evs' p' ev p'')
  then show ?case using protocol_step_exchange protocol_steps_inv by (metis append_assoc)
qed simp

lemma protocol_step_final: "protocol_step p ev q \<Longrightarrow> protocol_final p q"
  by (induction rule: protocol_step.induct) (auto simp: protocol_final_def)

lemma protocol_steps_final: "protocol_steps p ev q \<Longrightarrow> protocol_final p q"
  by (induction rule: protocol_steps.induct) (use protocol_step_final in \<open>auto simp: protocol_final_def\<close>)

section \<open>The connection refines the protocol\<close>

lemmas protocol_defs = protocol_of_def state_close_def state_close_read_def state_close_write_def
  state_idle_def state_busy_def disable_keep_alive_def is_idle_def Let_def

lemma protocol_of_io [simp]: "protocol_of (c\<lparr>cn_io := io\<rparr>) = protocol_of c"
  by (simp add: protocol_of_def)

lemma close_refines:
  "protocol_steps (protocol_of c) [] (protocol_of (c\<lparr>cn_state := state_close (cn_state c)\<rparr>))"
  "protocol_steps (protocol_of c) [] (protocol_of (c\<lparr>cn_state := state_close_read (cn_state c)\<rparr>))"
proof -
  show "protocol_steps (protocol_of c) [] (protocol_of (c\<lparr>cn_state := state_close (cn_state c)\<rparr>))"
    using protocol_steps_one [OF ps_close] by (simp add: protocol_defs)
  show "protocol_steps (protocol_of c) [] (protocol_of (c\<lparr>cn_state := state_close_read (cn_state c)\<rparr>))"
    using protocol_steps_one [OF ps_close_read [of "protocol_of c"]] by (simp add: protocol_defs)
qed

lemma try_keep_alive_refines:
  "protocol_steps (protocol_of c) [] (protocol_of (c\<lparr>cn_state := state_try_keep_alive (cn_state c)\<rparr>))"
proof -
  consider "state_try_keep_alive (cn_state c) = cn_state c"
    | "state_try_keep_alive (cn_state c) = state_close (cn_state c)"
    | "st_reading (cn_state c) = ReadKeepAlive" "st_writing (cn_state c) = WriteKeepAlive"
      "st_keep_alive (cn_state c) = KaBusy" "state_try_keep_alive (cn_state c) = state_idle (cn_state c)"
    unfolding state_try_keep_alive_def by (cases "st_reading (cn_state c)"; cases "st_writing (cn_state c)";
      cases "st_keep_alive (cn_state c) = KaBusy") auto
  then show ?thesis
  proof cases
    case 1
    then show ?thesis using pss_refl by simp
  next
    case 2
    then show ?thesis using close_refines(1) by simp
  next
    case 3
    then have "protocol_step (protocol_of c) [] \<lparr>pr_reading = PInit, pr_writing = PInit, pr_keep_alive = KaIdle\<rparr>"
      by (intro ps_recycle) (simp_all add: protocol_of_def)
    then show ?thesis using 3 protocol_steps_one by (simp add: protocol_defs)
  qed
qed

lemma maybe_notify_refines:
  assumes "maybe_notify E c = Some c'"
  shows "protocol_steps (protocol_of c) [] (protocol_of c')"
proof -
  have "protocol_of c' = protocol_of c \<or>
      protocol_of c' = protocol_of (c\<lparr>cn_state := state_close (cn_state c)\<rparr>) \<or>
      protocol_of c' = protocol_of (c\<lparr>cn_state := state_close_read (cn_state c)\<rparr>)"
    using assms unfolding maybe_notify_def Let_def
    by (auto simp: protocol_of_def state_close_def state_close_read_def
        split: if_split_asm prod.split_asm poll.split_asm sum.split_asm)
  then show ?thesis using close_refines pss_refl by metis
qed

lemma conn_try_keep_alive_refines:
  "try_keep_alive E c = Some c' \<Longrightarrow> protocol_steps (protocol_of c) [] (protocol_of c')"
  unfolding try_keep_alive_def
  using maybe_notify_refines try_keep_alive_refines protocol_steps_silent(1) by blast

text \<open>The state after a head has been parsed, up to the reading state.\<close>

lemma finish_read_refines:
  assumes "finish_read E c r ret = (res, c')" "res \<noteq> Panicked" "r \<in> {ReadKeepAlive, ReadClosed}"
    "pr_reading (protocol_of c) = PBusy"
  shows "protocol_steps (protocol_of c) [] (protocol_of c')"
proof -
  obtain c1 where c1: "try_keep_alive E (set_reading r c) = Some c1" "c' = c1"
    using assms(1,2) by (auto simp: finish_read_def split: option.split_asm)
  have "protocol_step (protocol_of c) [] ((protocol_of c)\<lparr>pr_reading := reading_phase r\<rparr>)"
    using assms(3,4) by (intro ps_read) auto
  then have "protocol_steps (protocol_of c) [] (protocol_of (set_reading r c))"
    using protocol_steps_one by (simp add: protocol_of_def set_reading_def)
  then show ?thesis using conn_try_keep_alive_refines c1 protocol_steps_silent(1) by metis
qed

lemma read_body_state_refines:
  assumes "read_body_state E c dec = Some (res, c')" "res \<noteq> Panicked" "pr_reading (protocol_of c) = PBusy"
  shows "protocol_steps (protocol_of c) [] (protocol_of c')"
proof -
  obtain r dec' io where d: "decode (ce_http E) (ce_httparse E) (read_mem (ce_transport E)) dec (cn_io c) = Some (r, dec', io)"
    using assms(1) by (auto simp: read_body_state_def split: option.split_asm)
  let ?c = "set_reading (ReadBody dec') (c\<lparr>cn_io := io\<rparr>)"
  have p: "protocol_of ?c = protocol_of c" using assms(3) by (simp add: protocol_of_def set_reading_def)
  have "(res, c') = (case r of
                Pending \<Rightarrow> (Pending, ?c)
              | Panicked \<Rightarrow> (Panicked, ?c)
              | Ready (Inr (Data bytes)) \<Rightarrow>
                  (if decoder_is_eof dec' then
                     finish_read E ?c ReadKeepAlive (if bytes \<noteq> [] then Some (Inr (Data bytes)) else None)
                   else if bytes = [] then finish_read E ?c ReadClosed None
                   else (Ready (Some (Inr (Data bytes))), ?c))
              | Ready (Inr (Trailers h)) \<Rightarrow> finish_read E ?c ReadKeepAlive (Some (Inr (Trailers h)))
              | Ready (Inl e) \<Rightarrow> finish_read E ?c ReadClosed (Some (Inl e)))"
    using assms(1) d by (simp add: read_body_state_def Let_def)
  then consider "c' = ?c" | x ret where "finish_read E ?c x ret = (res, c')" "x \<in> {ReadKeepAlive, ReadClosed}"
    by (auto split: poll.split_asm sum.split_asm frame.split_asm if_split_asm)
  then show ?thesis
  proof cases
    case 1
    then show ?thesis using p pss_refl by simp
  next
    case 2
    then show ?thesis using finish_read_refines [OF 2(1) assms(2) 2(2)] p assms(3) by simp
  qed
qed

lemma poll_read_body_refines:
  assumes "poll_read_body E c = Some (res, c')" "res \<noteq> Panicked"
  shows "protocol_steps (protocol_of c) [] (protocol_of c')"
proof (cases "st_reading (cn_state c)")
  case (ReadBody dec)
  then show ?thesis
    using assms read_body_state_refines [of E c dec] by (simp add: poll_read_body_def protocol_of_def)
next
  case (ReadContinue dec)
  obtain c1 where c1: "read_body_state E (set_reading (ReadBody dec) c1) dec = Some (res, c')"
      "protocol_of (set_reading (ReadBody dec) c1) = protocol_of c"
      "st_reading (cn_state (set_reading (ReadBody dec) c1)) = ReadBody dec"
    using assms(1) ReadContinue
    by (auto simp: poll_read_body_def Let_def protocol_of_def set_reading_def split: if_split_asm)
  then show ?thesis
    using read_body_state_refines [OF c1(1) assms(2)] by (simp add: protocol_of_def)
qed (use assms in \<open>simp_all add: poll_read_body_def\<close>)

lemma drain_refines:
  assumes "poll_drain_or_close_read E c = Some (Some c')"
  shows "protocol_steps (protocol_of c) [] (protocol_of c')"
proof -
  let ?c1 = "case st_reading (cn_state c) of ReadContinue dec \<Rightarrow> set_reading (ReadBody dec) c | _ \<Rightarrow> c"
  obtain res c2 where c2: "poll_read_body E ?c1 = Some (res, c2)" "res \<noteq> Panicked"
      "c' = c2 \<or> c' = close_read c2"
    using assms unfolding poll_drain_or_close_read_def Let_def
    by (auto split: option.split_asm prod.split_asm poll.split_asm reading.split_asm)
  have "protocol_of ?c1 = protocol_of c"
    by (cases "st_reading (cn_state c)") (simp_all add: protocol_of_def set_reading_def)
  then have "protocol_steps (protocol_of c) [] (protocol_of c2)"
    using poll_read_body_refines [OF c2(1,2)] by simp
  then show ?thesis
    using c2(3) close_refines(2) [of c2] protocol_steps_silent(1) unfolding close_read_def by metis
qed

lemma force_io_read_state:
  assumes "force_io_read E c = (res, c')"
  shows "(\<forall>e. res \<noteq> Ready (Inl e)) \<and> cn_state c' = cn_state c \<or>
    (\<exists>e. res = Ready (Inl e)) \<and> cn_state c' = state_close (cn_state c)"
  using assms unfolding force_io_read_def by (auto split: prod.split_asm poll.split_asm sum.split_asm)

lemma keep_alive_refines:
  assumes "poll_read_keep_alive E c = (res, c')"
  shows "protocol_steps (protocol_of c) [] (protocol_of c')"
proof -
  obtain r c1 where f: "force_io_read E c = (r, c1)" by force
  have "c' = c \<or> c' = c1 \<or> (c' = close_read c1 \<and> (\<forall>e. r \<noteq> Ready (Inl e)))"
    using assms unfolding poll_read_keep_alive_def mid_message_detect_eof_def require_empty_read_def f
    by (cases r) (auto split: if_split_asm sum.split_asm)
  then have "cn_state c' = cn_state c \<or> cn_state c' = state_close (cn_state c) \<or>
      cn_state c' = state_close_read (cn_state c)"
    using force_io_read_state [OF f] by (auto simp: close_read_def)
  then have "protocol_of c' = protocol_of c \<or>
      protocol_of c' = protocol_of (c\<lparr>cn_state := state_close (cn_state c)\<rparr>) \<or>
      protocol_of c' = protocol_of (c\<lparr>cn_state := state_close_read (cn_state c)\<rparr>)"
    by (auto simp: protocol_of_def)
  then show ?thesis using close_refines pss_refl by metis
qed

lemma close_write_read_refines:
  "protocol_steps (protocol_of c) [] (protocol_of (close_write (close_read c)))"
  using protocol_steps_one [OF ps_close]
  by (simp add: close_write_def close_read_def protocol_defs)

lemma read_head_error_refines:
  assumes "on_read_head_error E c e = (res, c')" "res \<noteq> Panicked"
  shows "protocol_steps (protocol_of c) [] (protocol_of c')"
proof -
  have "protocol_of c' = protocol_of (close_read c) \<or> protocol_of c' = protocol_of (close_write (close_read c))"
    using assms unfolding on_read_head_error_def Let_def on_parse_error_def client_on_error_def
    by (auto simp: protocol_of_def close_read_def close_write_def split: if_split_asm)
  then show ?thesis using close_write_read_refines close_refines(2) unfolding close_read_def by metis
qed

lemma read_head_message_refines:
  assumes "read_head_message E c msg = (res, c')" "res \<noteq> Panicked" "can_read_head c"
  shows "protocol_steps (protocol_of c) [Response] (protocol_of c') \<and> (\<exists>x. res = Ready (Some (Inr x)))"
proof -
  have init: "pr_reading (protocol_of c) = PInit" "pr_writing (protocol_of c) \<noteq> PInit"
    using assms(3) by (cases "st_writing (cn_state c)"; auto simp: can_read_head_def protocol_of_def split: if_split_asm)+
  define st0 where "st0 = state_busy ((cn_state c)\<lparr>st_h09_responses := False, st_on_informational := None\<rparr>)"
  define st where "st = st0\<lparr>st_keep_alive := ka_and (st_keep_alive st0) (pm_keep_alive msg),
     st_version := mh_version (pm_head msg)\<rparr>"
  have k: "st_keep_alive st = KaDisabled \<or> (st_keep_alive st = KaBusy \<and> pr_keep_alive (protocol_of c) \<noteq> KaDisabled)"
    "st_writing st = st_writing (cn_state c)"
    by (auto simp: st_def st0_def state_busy_def ka_and_def protocol_of_def)
  have step: "protocol_steps (protocol_of c) [Response] (protocol_of (c\<lparr>cn_state := st\<lparr>st_reading := r\<rparr>\<rparr>))"
    if "reading_phase r \<in> {PBusy, PDone}" for r
    using protocol_steps_one [OF ps_response [OF init that k(1)]] k(2) by (simp add: protocol_of_def)
  have fin: "protocol_of (x\<lparr>cn_state := (cn_state x)\<lparr>st_allow_trailer_fields := f\<rparr>\<rparr>) = protocol_of x" for x f
    by (simp add: protocol_of_def)
  show ?thesis
  proof (cases "pm_decode msg = ZERO")
    case True
    then obtain c1 where c1: "try_keep_alive E (c\<lparr>cn_state := st\<lparr>st_reading := ReadKeepAlive\<rparr>\<rparr>) = Some c1"
        "protocol_of c' = protocol_of c1" "\<exists>x. res = Ready (Some (Inr x))"
      using assms(1,2) unfolding read_head_message_def Let_def st0_def [symmetric] st_def [symmetric]
      by (auto simp: fin split: option.split_asm)
    show ?thesis
      using protocol_steps_silent(2) [OF step conn_try_keep_alive_refines [OF c1(1)]] c1(2,3) by simp
  next
    case False
    define dec where "dec = decoder_new (pm_decode msg) (st_h1_max_headers st) (st_h1_max_header_size st)"
    define r where "r = (if pm_expect_continue msg \<and> mh_version (pm_head msg) \<notin> {HTTP_09, HTTP_10}
      then ReadContinue dec else ReadBody dec)"
    have "\<exists>x f. res = Ready (Some (Inr x)) \<and> c' = c\<lparr>cn_state := st\<lparr>st_reading := r, st_allow_trailer_fields := f\<rparr>\<rparr>"
      using assms(1) False unfolding read_head_message_def Let_def st0_def [symmetric] st_def [symmetric]
        dec_def [symmetric] r_def
      by (simp split: if_split_asm) blast+
    then obtain x f where xf: "res = Ready (Some (Inr x))"
      "c' = c\<lparr>cn_state := st\<lparr>st_reading := r, st_allow_trailer_fields := f\<rparr>\<rparr>" by blast
    have "protocol_of c' = protocol_of (c\<lparr>cn_state := st\<lparr>st_reading := r\<rparr>\<rparr>)"
      unfolding xf(2) by (simp add: protocol_of_def)
    moreover have "reading_phase r \<in> {PBusy, PDone}" by (simp add: r_def)
    ultimately show ?thesis using step [of r] xf(1) by (cases x) simp
  qed
qed

lemma poll_read_head_refines:
  fixes c :: "('io, 'b, 'm) conn"
  assumes "poll_read_head E c = Some (res, c')" "res \<noteq> Panicked" "can_read_head c"
  shows "protocol_steps (protocol_of c) (case res of Ready (Some (Inr _)) \<Rightarrow> [Response] | _ \<Rightarrow> []) (protocol_of c')"
proof -
  let ?st = "cn_state c"
  obtain r io ctx where pr: "bd_parse (ce_transport E) (client_parse (ce_http E) (st_h1_parser_config ?st)) (cn_io c) (context_of ?st) = Some (r, io, ctx)"
    using assms(1) by (auto simp: poll_read_head_def Let_def split: option.split_asm)
  let ?c = "\<lparr>cn_io = io, cn_state = context_back ?st ctx\<rparr> :: ('io, 'b, 'm) conn"
  have p: "protocol_of ?c = protocol_of c" "can_read_head ?c"
    using assms(3) by (simp_all add: protocol_of_def context_back_def can_read_head_def split: if_split_asm)
  have eq: "(res, c') = (case r of
                Ready (Inr msg) \<Rightarrow> read_head_message E ?c msg
              | Ready (Inl e) \<Rightarrow> on_read_head_error E ?c e
              | Pending \<Rightarrow> (Pending, ?c)
              | Panicked \<Rightarrow> (Panicked, ?c))"
    using assms(1) pr by (simp add: poll_read_head_def Let_def)
  show ?thesis
  proof (cases r)
    case Pending
    then show ?thesis using eq p pss_refl by simp
  next
    case (Ready x)
    show ?thesis
    proof (cases x)
      case (Inl e)
      then have err: "on_read_head_error E ?c e = (res, c')" using eq Ready by simp
      have "\<nexists>y. res = Ready (Some (Inr y))"
        using err unfolding on_read_head_error_def Let_def on_parse_error_def client_on_error_def
        by (auto split: if_split_asm)
      then have "(case res of Ready (Some (Inr _)) \<Rightarrow> [Response] | _ \<Rightarrow> []) = []"
        by (auto split: poll.split option.split sum.split)
      then show ?thesis using read_head_error_refines [OF err assms(2)] p by simp
    next
      case (Inr msg)
      then have "read_head_message E ?c msg = (res, c')" using eq Ready by simp
      from read_head_message_refines [OF this assms(2) p(2)] show ?thesis using p by auto
    qed
  qed (use eq assms(2) in simp)
qed

section \<open>Writing\<close>

lemma enforce_version_state:
  "enforce_version A st head = (st', head') \<Longrightarrow> st' = st \<or> st' = disable_keep_alive st"
  unfolding enforce_version_def fix_keep_alive_def Let_def
  by (cases "st_version st") (auto split: if_split_asm prod.split_asm)

lemma encode_head_state:
  assumes "encode_head E c head body = Some (enc, c')"
  shows "st_reading (cn_state c') = st_reading (cn_state c) \<and>
    (st_keep_alive (cn_state c') = KaDisabled \<or>
     (st_keep_alive (cn_state c') = KaBusy \<and> st_keep_alive (cn_state c) \<noteq> KaDisabled))"
proof -
  define st2 where "st2 = (if connection_any_close (ce_http E) (mh_headers head)
    then disable_keep_alive (state_busy (cn_state c)) else state_busy (cn_state c))"
  obtain st3 head1 where ev: "enforce_version (ce_http E) st2 head = (st3, head1)" by force
  then have "st_reading (cn_state c') = st_reading st3 \<and> st_keep_alive (cn_state c') = st_keep_alive st3"
    using assms unfolding encode_head_def Let_def st2_def [symmetric]
    by (auto split: option.split_asm prod.split_asm)
  then show ?thesis
    using enforce_version_state [OF ev] by (auto simp: st2_def state_busy_def disable_keep_alive_def split: if_splits)
qed

lemma write_head_refines:
  assumes "write_head E c head body = Some c'" "can_write_head c" "protocol_inv (protocol_of c)"
  shows "protocol_steps (protocol_of c) [Request] (protocol_of c')"
proof -
  have init: "pr_writing (protocol_of c) = PInit" "pr_reading (protocol_of c) = PInit"
    using assms(2,3) unfolding can_write_head_def protocol_inv_def protocol_of_def
    by (cases "st_writing (cn_state c)"; cases "st_reading (cn_state c)"; simp)+
  obtain enc c1 where enc: "encode_head E c head body = Some (enc, c1)"
      "c' = c1\<lparr>cn_state := (cn_state c1)\<lparr>st_writing :=
             (if \<not> encoder_is_eof enc then WriteBody enc
              else if encoder_is_last enc then WriteClosed
              else WriteKeepAlive)\<rparr>\<rparr>"
    using assms(1) by (auto simp: write_head_def split: option.split_asm)
  have k: "st_keep_alive (cn_state c1) = KaDisabled \<or>
      (st_keep_alive (cn_state c1) = KaBusy \<and> pr_keep_alive (protocol_of c) \<noteq> KaDisabled)"
    "st_reading (cn_state c1) = st_reading (cn_state c)"
    using encode_head_state [OF enc(1)] by (auto simp: protocol_of_def)
  show ?thesis
    using protocol_steps_one [OF ps_request [OF init _ k(1),
        of "writing_phase (st_writing (cn_state c'))"]] enc(2) k(2)
    by (simp add: protocol_of_def split: if_split_asm)
qed

lemma set_writing_refines:
  assumes "pr_writing (protocol_of c) = PBusy" "writing_phase w \<noteq> PInit" "cn_state c' = cn_state c"
  shows "protocol_steps (protocol_of c) [] (protocol_of (set_writing w c'))"
proof (cases "writing_phase w = PBusy")
  case True
  then have "protocol_of (set_writing w c') = protocol_of c"
    using assms by (simp add: protocol_of_def set_writing_def)
  then show ?thesis using pss_refl by simp
next
  case False
  then have "protocol_step (protocol_of c) [] ((protocol_of c)\<lparr>pr_writing := writing_phase w\<rparr>)"
    using assms by (intro ps_written) (cases w; auto)+
  then show ?thesis using protocol_steps_one assms(3) by (simp add: protocol_of_def set_writing_def)
qed

lemma write_moves_refines: "write_moves c c' \<Longrightarrow> protocol_steps (protocol_of c) [] (protocol_of c')"
  unfolding write_moves_def using set_writing_refines pss_refl by metis

lemma conn_buffer_state: "conn_buffer E c b = Some (Some c') \<Longrightarrow> cn_state c' = cn_state c"
  unfolding conn_buffer_def by auto

lemma set_writing_moves:
  "st_writing (cn_state c) = WriteBody enc \<Longrightarrow> writing_phase w \<noteq> PInit \<Longrightarrow> cn_state c1 = cn_state c \<Longrightarrow>
   write_moves c (set_writing w c1)"
  unfolding write_moves_def by (auto simp: protocol_of_def)

lemma body_done_phase [simp]:
  "writing_phase (if a then WriteBody e else if b then WriteClosed else WriteKeepAlive) \<noteq> PInit"
  "writing_phase (if b then WriteClosed else WriteKeepAlive) \<noteq> PInit"
  "writing_phase (if b then WriteKeepAlive else WriteClosed) \<noteq> PInit"
  by simp_all

lemma write_body_moves: "write_body E c chunk = Some (Some c') \<Longrightarrow> write_moves c c'"
  unfolding write_body_def
  by (auto split: writing.split_asm option.split_asm dest!: conn_buffer_state intro!: set_writing_moves)

lemma write_trailers_moves: "write_trailers E c trailers = Some (Some c') \<Longrightarrow> write_moves c c'"
  unfolding write_trailers_def
  by (auto split: writing.split_asm option.split_asm dest!: conn_buffer_state intro!: set_writing_moves)
     (simp add: write_moves_def)

lemma write_body_and_end_moves: "write_body_and_end E c chunk = Some (Some c') \<Longrightarrow> write_moves c c'"
  unfolding write_body_and_end_def
  by (auto split: writing.split_asm intro!: set_writing_moves)

lemma end_body_moves: "end_body E c = Some (Some (res, c')) \<Longrightarrow> write_moves c c'"
  unfolding end_body_def Let_def
  by (auto split: writing.split_asm sum.split_asm option.split_asm dest!: conn_buffer_state
      intro!: set_writing_moves) (simp_all add: write_moves_def)

section \<open>Runs\<close>

lemma polled_Some:
  "polled r ev = Some (Some (evs, c)) \<longleftrightarrow>
     r = Some (Pending, c) \<and> evs = [] \<or> (\<exists>a. r = Some (Ready a, c) \<and> evs = ev a)"
  by (auto simp: polled_def split: poll.split_asm)

lemma quiet_Some: "quiet r = Some (Some (evs, c)) \<longleftrightarrow> r = Some (Some c) \<and> evs = []"
  by (auto simp: quiet_def)

lemma flush_refines:
  assumes "conn_poll_flush E c = Some (res, c')" "res \<noteq> Panicked"
  shows "protocol_steps (protocol_of c) [] (protocol_of c')"
proof -
  have "(\<exists>io. c' = c\<lparr>cn_io := io\<rparr>) \<or> (\<exists>io. try_keep_alive E (c\<lparr>cn_io := io\<rparr>) = Some c')"
    using assms unfolding conn_poll_flush_def
    by (auto split: option.split_asm prod.split_asm poll.split_asm sum.split_asm)
  then show ?thesis
    using conn_try_keep_alive_refines [of E] pss_refl by (metis protocol_of_io)
qed

lemma shutdown_refines:
  "conn_poll_shutdown E c = Some (res, c') \<Longrightarrow> protocol_steps (protocol_of c) [] (protocol_of c')"
  unfolding conn_poll_shutdown_def using pss_refl by auto

lemma conn_step_refines:
  assumes "conn_enabled c op" "conn_step E c op = Some (Some (ev, c'))" "protocol_inv (protocol_of c)"
  shows "protocol_steps (protocol_of c) ev (protocol_of c')"
proof (cases op)
  case OpReadHead
  then show ?thesis using assms(1,2) poll_read_head_refines [of E c _ c'] by (auto simp: polled_Some)
next
  case OpReadBody
  then show ?thesis using assms(2) poll_read_body_refines [of E c _ c'] by (auto simp: polled_Some)
next
  case OpReadKeepAlive
  then show ?thesis using assms(2) keep_alive_refines [of E c _ c'] by (auto simp: polled_Some)
next
  case (OpWriteHead head body)
  then show ?thesis using assms write_head_refines by auto
next
  case (OpWriteBody chunk)
  then show ?thesis using assms(2) by (auto simp: quiet_Some intro!: write_moves_refines write_body_moves)
next
  case (OpWriteTrailers trailers)
  then show ?thesis using assms(2) by (auto simp: quiet_Some intro!: write_moves_refines write_trailers_moves)
next
  case (OpWriteBodyAndEnd chunk)
  then show ?thesis using assms(2) by (auto simp: quiet_Some intro!: write_moves_refines write_body_and_end_moves)
next
  case OpEndBody
  then show ?thesis using assms(2) by (auto simp: quiet_Some intro: write_moves_refines end_body_moves)
next
  case OpFlush
  then show ?thesis using assms(2) flush_refines [of E c _ c'] by (auto simp: polled_Some)
next
  case OpShutdown
  then show ?thesis using assms(2) shutdown_refines [of E c _ c'] by (auto simp: polled_Some)
next
  case OpDrainOrCloseRead
  then show ?thesis using assms(2) drain_refines by (auto simp: quiet_Some)
next
  case OpCloseRead
  then show ?thesis using assms(2) close_refines(2) by (auto simp: quiet_Some close_read_def)
next
  case OpClose
  then show ?thesis using assms(2) close_write_read_refines by (auto simp: quiet_Some)
qed (use assms(2) pss_refl [of "protocol_of c"] in
     \<open>auto simp: quiet_Some wants_read_again_def take_error_def conn_on_upgrade_def prepare_upgrade_def
        pending_upgrade_def protocol_of_def split: option.split_asm\<close>)

lemma conn_run_refines:
  assumes "conn_run E c evs c'" "protocol_inv (protocol_of c)"
  shows "protocol_steps (protocol_of c) evs (protocol_of c')"
  using assms
proof (induction rule: conn_run.induct)
  case (run_start c)
  show ?case by (rule pss_refl)
next
  case (run_step c evs c' op ev c'')
  then have "protocol_inv (protocol_of c')" using protocol_steps_inv by blast
  then show ?case using run_step conn_step_refines protocol_steps_trans by blast
qed

lemma handshake_state:
  assumes "handshake E PC opts io = Some c"
  shows "protocol_of c = protocol_init"
  using assms
  unfolding handshake_def Let_def
  by (auto simp: conn_new_def set_h1_parser_config_def conn_set_write_strategy_queue_def
      conn_set_write_strategy_flatten_def set_http1_max_headers_def set_http1_max_header_size_def
      set_h09_responses_def conn_set_read_buf_exact_size_def conn_set_max_buf_size_def protocol_of_def
      protocol_init_def split: option.split_asm if_split_asm)

lemma protocol_init_inv: "protocol_inv protocol_init" "exchange_inv [] protocol_init"
  by (simp_all add: protocol_inv_def exchange_inv_def protocol_init_def outstanding_def)

section \<open>A concrete session\<close>

lemma handshake_sample: "handshake sample_env (\<lambda>_ _ _. sample_parser) options_builder sample_script = Some sample_conn"
  by (simp add: handshake_def options_builder_def sample_conn_def set_h1_parser_config_def conn_new_def Let_def)

lemma sample_encode: "client_encode assoc_api sample_request None [] =
   Some (encoder_length 0, sample_request, Some GET, ascii ''GET / HTTP/1.1'' @ [13, 10, 13, 10])"
  by (simp add: sample_request_def client_encode_def set_length_def assoc_eval std_eval Let_def
      write_headers_def version_bytes_def)

lemma sample_write: "conn_step sample_env sample_conn (OpWriteHead sample_request None) =
   Some (Some ([Request], sample_sent))"
proof -
  have "\<not> connection_any_close assoc_api (mh_headers sample_request)"
    by (simp add: connection_any_close_def sample_request_def assoc_eval)
  then show ?thesis
    using sample_encode
    by (simp add: write_head_def encode_head_def sample_env_def sample_conn_def conn_new_def state_busy_def
        enforce_version_def sample_sent_def Let_def sample_request_def encoder_length_def encoder_new_def encoder_is_eof_def
        encoder_is_last_def bd_new_def wb_new_def cursor_new_def)
qed

lemma sample_read: "\<exists>c. conn_step sample_env sample_sent OpReadHead = Some (Some ([Response], c))"
proof -
  let ?ctx = "sample_context\<lparr>pc_cached_headers := Some []\<rparr>"
  have ctx: "context_of (cn_state sample_sent) = ?ctx" 
    by (simp add: context_of_def sample_sent_def sample_conn_def conn_new_def sample_context_def)
  define io1 where "io1 = snd (poll_read_from_io sc_api (cn_io sample_sent))"
  have init: "bd_read_buf (cn_io sample_sent) = []" "bd_partial_len (cn_io sample_sent) = None"
    "rs_max (bd_read_buf_strategy (cn_io sample_sent)) = 417792" "pc_max_header_size sample_context = None"
    "(cn_io sample_sent)\<lparr>bd_read_buf := [], bd_partial_len := None\<rparr> =
      cn_io sample_sent"
    by (simp_all add: sample_sent_def sample_conn_def conn_new_def bd_new_def sample_context_def headers_buf_def Let_def
        read_strategy_default_def with_max_def DEFAULT_MAX_BUFFER_SIZE_def)
  have read: "poll_read_from_io sc_api (cn_io sample_sent) = (Ready (Inr 38), io1)" "bd_read_buf io1 = sample_response"
    "bd_partial_len io1 = None"
    by (simp_all add: io1_def poll_read_from_io_def reserve_next_def sample_sent_def sample_conn_def conn_new_def bd_new_def
        sc_read_buf_def sample_script_def sample_response_def ascii_def Let_def headers_buf_def read_buf_remaining_mut_def
        read_strategy_default_def with_max_def DEFAULT_MAX_BUFFER_SIZE_def INIT_BUFFER_SIZE_def sample_env_def)
  have "\<exists>io. bd_parse sc_api (client_parse assoc_api sample_parser) io1 ?ctx = 
     Some (Ready (Inr sample_parsed), io, sample_context)"
    using sample_parse_cached [of "Some []"] read
    by (subst bd_parse.simps) (simp add: parse_headers_def sample_response_def ascii_def)
  then have "\<exists>io. bd_parse sc_api (client_parse assoc_api sample_parser) (cn_io sample_sent) ?ctx = 
     Some (Ready (Inr sample_parsed), io, sample_context)"
    using init(1-4) read
    by (subst bd_parse.simps) (simp add: parse_headers_def init(5) del: ex_simps)
  moreover have "st_h1_parser_config (cn_state sample_sent) = sample_parser"
    by (simp add: sample_sent_def sample_conn_def conn_new_def)
  moreover have "CLOSE_DELIMITED \<noteq> ZERO" by (simp add: ZERO_def CLOSE_DELIMITED_def U64_MAX_def)
  ultimately show ?thesis using ctx
   by (auto simp: Let_def polled_def poll_read_head_def sample_env_def read_head_message_def sample_parsed_def)
qed

lemma sample_run: "\<exists>c. conn_run sample_env sample_conn [Request, Response] c"
proof -
  obtain c where c: "conn_step sample_env sample_sent OpReadHead = Some (Some ([Response], c))"
    using sample_read by blast
  have "conn_enabled sample_conn (OpWriteHead sample_request None)" "conn_enabled sample_sent OpReadHead"
    by (simp_all add: can_write_head_def can_read_head_def sample_sent_def sample_conn_def conn_new_def bd_new_def
        can_headers_buf_def bl_remaining_def bl_new_def wb_new_def headers_buf_def Let_def)
  then have "conn_run sample_env sample_conn [Request] sample_sent"
    using run_step [OF run_start _ sample_write] by simp
  then show ?thesis using run_step [OF _ _ c] \<open>conn_enabled sample_sent OpReadHead\<close> by fastforce
qed

section \<open>Properties\<close>

text \<open>
  C4.  Every sequence of operations on a connection that the handshake made is a behaviour of the
  abstract protocol: what happens to the reading and writing phases and to the keep-alive status,
  and the requests and responses that are seen, are transitions the protocol allows.
\<close>

theorem connection_refines_protocol:
  assumes "handshake E PC opts io = Some c" "conn_run E c evs c'"
  shows "protocol_steps protocol_init evs (protocol_of c')"
  using conn_run_refines [OF assms(2)] handshake_state [OF assms(1)] protocol_init_inv by simp

theorem connection_refines_protocol_witness:
  "\<exists>c'. conn_run sample_env sample_conn [Request, Response] c' \<and>
     protocol_steps protocol_init [Request, Response] (protocol_of c')"
  using sample_run connection_refines_protocol [OF handshake_sample] by blast

text \<open>
  C5.  Requests and responses alternate, starting with a request: no second request is written before
  the response to the first was delivered, no response is delivered without a request, and a
  connection that is idle again owes and is owed nothing.
\<close>

theorem requests_responses_alternate:
  assumes "handshake E PC opts io = Some c" "conn_run E c evs c'"
  shows "alternates False evs \<and>
    (is_idle (cn_state c') \<longrightarrow> \<not> outstanding evs) \<and>
    (can_write_head c' \<longrightarrow> \<not> outstanding evs) \<and>
    (can_read_head c' \<longrightarrow> outstanding evs)"
proof -
  have steps: "protocol_steps protocol_init evs (protocol_of c')"
    using conn_run_refines [OF assms(2)] handshake_state [OF assms(1)] protocol_init_inv by simp
  then have "protocol_inv (protocol_of c')" "exchange_inv evs (protocol_of c')"
    using protocol_steps_inv protocol_steps_exchange [OF steps, of "[]"] protocol_init_inv by auto
  then show ?thesis
    by (auto simp: exchange_inv_def protocol_inv_def protocol_of_def is_idle_def can_write_head_def
        can_read_head_def split: if_split_asm writing.split_asm)
       (cases "st_reading (cn_state c')"; cases "st_writing (cn_state c')"; force)+
qed

theorem requests_responses_alternate_witness:
  "\<exists>c'. conn_run sample_env sample_conn [Request, Response] c' \<and> \<not> can_read_head c' \<and>
     alternates False [Request, Response] \<and> \<not> alternates False [Request, Request, Response]"
  using sample_run requests_responses_alternate [OF handshake_sample, of "[Request, Response]"]
  by (auto simp: outstanding_def)

text \<open>
  C9.  Closing is final: in any sequence of operations, a side that is closed stays closed, and a
  connection whose keep-alive was disabled never becomes idle, so that it is never handed out again.
\<close>

theorem closed_is_final:
  assumes "handshake E PC opts io = Some c" "conn_run E c evs c'" "conn_run E c' evs' c''"
  shows "(is_read_closed (cn_state c') \<longrightarrow> is_read_closed (cn_state c'')) \<and>
    (is_write_closed (cn_state c') \<longrightarrow> is_write_closed (cn_state c'')) \<and>
    (st_keep_alive (cn_state c') = KaDisabled \<longrightarrow> \<not> is_idle (cn_state c''))"
proof -
  have "protocol_inv (protocol_of c')"
    using conn_run_refines [OF assms(2)] handshake_state [OF assms(1)] protocol_init_inv protocol_steps_inv by simp
  then have "protocol_final (protocol_of c') (protocol_of c'')"
    using conn_run_refines [OF assms(3)] protocol_steps_final by blast
  then show ?thesis
    by (cases "st_reading (cn_state c')"; cases "st_writing (cn_state c')"; cases "st_reading (cn_state c'')";
        cases "st_writing (cn_state c'')")
       (simp_all add: protocol_final_def protocol_of_def is_read_closed_def is_write_closed_def is_idle_def)
qed

theorem closed_is_final_witness:
  "\<exists>c' c''. conn_run sample_env sample_conn [] c' \<and> is_read_closed (cn_state c') \<and> is_write_closed (cn_state c') \<and>
     conn_run sample_env c' [] c'' \<and> is_read_closed (cn_state c'') \<and> \<not> is_idle (cn_state c'')"
proof -
  let ?c = "close_write (close_read sample_conn)"
  have run: "conn_run sample_env sample_conn [] ?c"
    using run_step [OF run_start, of sample_conn OpClose sample_env "[]" ?c] by (simp add: quiet_def)
  have "is_read_closed (cn_state ?c)" "is_write_closed (cn_state ?c)" "st_keep_alive (cn_state ?c) = KaDisabled"
    by (simp_all add: is_read_closed_def is_write_closed_def close_write_def close_read_def state_close_write_def
        state_close_read_def)
  then show ?thesis using closed_is_final [OF handshake_sample run run_start] run run_start by blast
qed

end
