(* ===== verification/Http1_Wire.thy ===== *)
theory Http1_Wire
  imports Http1_Session
begin

text \<open>
  What a connection does with its data (\<^verbatim>\<open>src/src/proto/http1/conn.rs\<close>), over any transport, any body
  buffers and any header map that behave as documented.  \<open>conn_ok\<close> is the invariant of the buffers,
  of the decoder and of the encoder; \<open>wire_ok\<close> relates two states of a connection by what was
  appended to the output and consumed from the input.  The locale \<open>conn_world\<close> gathers the contracts
  of the code outside the repository.  In it, one lemma per operation shows that the operation
  returns, does not panic, keeps the invariant and what it writes; \<open>conn_exec\<close> runs a schedule of
  operations, \<open>send_body\<close> a whole body.
\<close>

section \<open>Definitions\<close>

text \<open>
  What the connection keeps about its data: the buffers are well-formed, a recorded partial length
  fits the buffer, the decoder of a body satisfies its invariant and the encoder of a body has
  something left to write.
\<close>

definition reading_ok :: "reading \<Rightarrow> ('io, 'b) Http1_Io.buffered \<Rightarrow> bool" where
  "reading_ok r io =
     (case r of
        ReadInit \<Rightarrow> partial_ok io
      | ReadContinue d \<Rightarrow> decoder_inv d \<and> bd_partial_len io = None
      | ReadBody d \<Rightarrow> decoder_inv d \<and> bd_partial_len io = None
      | ReadKeepAlive \<Rightarrow> bd_partial_len io = None
      | ReadClosed \<Rightarrow> True)"

definition writing_ok :: "writing \<Rightarrow> bool" where
  "writing_ok w = (case w of WriteBody e \<Rightarrow> \<not> encoder_is_eof e | _ \<Rightarrow> True)"

definition conn_ok ::
    "('io \<Rightarrow> bool) \<Rightarrow> ('b \<Rightarrow> byte list) \<Rightarrow> ('b \<Rightarrow> bool) \<Rightarrow> ('io, 'b, 'm) conn \<Rightarrow> bool" where
  "conn_ok io_ok contents ok c \<longleftrightarrow>
     bd_read_ok io_ok (cn_io c) \<and>
     wb_ok (eb_contents contents) (eb_ok ok) (bd_write_buf (cn_io c)) \<and>
     reading_ok (st_reading (cn_state c)) (cn_io c) \<and> writing_ok (st_writing (cn_state c)) \<and>
     parser_ok (st_h1_parser_config (cn_state c))"

text \<open>The wire: what is sent only grows at the end, what is received is consumed from the front.\<close>

definition wire_ok ::
    "('io \<Rightarrow> byte list) \<Rightarrow> ('io \<Rightarrow> byte list) \<Rightarrow> ('b \<Rightarrow> byte list) \<Rightarrow>
     ('io, 'b, 'm) conn \<Rightarrow> ('io, 'b, 'm) conn \<Rightarrow> byte list \<Rightarrow> bool" where
  "wire_ok incoming sent contents c c' out \<longleftrightarrow>
     bd_output sent (eb_contents contents) (cn_io c') = bd_output sent (eb_contents contents) (cn_io c) @ out \<and>
     (\<exists>inp. bd_stream incoming (cn_io c) = inp @ bd_stream incoming (cn_io c'))"

text \<open>The code of other crates, as documented.\<close>

locale conn_world =
  fixes E :: "('io, 'b, 'm) conn_env"
    and incoming :: "'io \<Rightarrow> byte list" and sent :: "'io \<Rightarrow> byte list" and io_ok :: "'io \<Rightarrow> bool"
    and contents :: "'b \<Rightarrow> byte list" and ok :: "'b \<Rightarrow> bool"
  assumes world_http: "http_crate (ce_http E)"
    and world_transport: "transport (ce_transport E) incoming sent io_ok"
    and world_bufs: "encoded_bufs (ce_buf E) contents ok (ce_adapters E) (ce_copy E)"

definition buffer_frame :: "('io \<Rightarrow> byte list) \<Rightarrow> ('io, 'b) buffered \<Rightarrow> 'b write_buf \<times> nat option \<times> byte list" where
  "buffer_frame sent b = (bd_write_buf b, bd_partial_len b, sent (bd_io b))"

text \<open>What one buffer of a body is on the wire.\<close>

definition wire_chunk :: "encoder \<Rightarrow> byte list \<Rightarrow> byte list" where
  "wire_chunk e d =
     (case enc_kind e of
        EncChunked _ \<Rightarrow> render_chunk (chunk_of d)
      | EncLength n \<Rightarrow> take (unat n) d)"

text \<open>The encoder after it.\<close>

definition wire_encoder :: "encoder \<Rightarrow> byte list \<Rightarrow> encoder" where
  "wire_encoder e d =
     (case enc_kind e of
        EncChunked _ \<Rightarrow> e
      | EncLength n \<Rightarrow> e\<lparr>enc_kind := EncLength (of_nat (unat n - length d))\<rparr>)"

definition writing_of :: "encoder \<Rightarrow> writing" where
  "writing_of e =
     (if \<not> encoder_is_eof e then WriteBody e else if encoder_is_last e then WriteClosed else WriteKeepAlive)"

definition body_piece :: "('b \<Rightarrow> byte list) \<Rightarrow> ('b \<Rightarrow> bool) \<Rightarrow> 'b \<Rightarrow> bool" where
  "body_piece contents ok b \<longleftrightarrow> ok b \<and> contents b \<noteq> [] \<and> length (contents b) < 2 ^ 64"

definition request_ok :: "'m http_api \<Rightarrow> 'm request_head \<Rightarrow> bool" where
  "request_ok A head \<longleftrightarrow>
     (hm_contains_key A (mh_headers head) TRANSFER_ENCODING \<longrightarrow>
        list_all is_visible_ascii (last (hm_get_all A (mh_headers head) TRANSFER_ENCODING))) \<and>
     mh_preserve head = None"

text \<open>The bytes of a request head.\<close>

definition head_bytes :: "'m http_api \<Rightarrow> req_method \<Rightarrow> byte list \<Rightarrow> version \<Rightarrow> 'm \<Rightarrow> byte list" where
  "head_bytes A m target v h =
     method_bytes m @ [32] @ target @ [32] @ version_bytes v @ [13, 10] @ concat (map field_line (hm_iter A h)) @ [13, 10]"

text \<open>What the caller owes: a request the encoder accepts, body buffers that are not empty.\<close>

fun op_ok ::
    "('io, 'b, 'm) conn_env \<Rightarrow> ('b \<Rightarrow> byte list) \<Rightarrow> ('b \<Rightarrow> bool) \<Rightarrow> ('b, 'm) conn_op \<Rightarrow> bool" where
  "op_ok E contents ok (OpWriteHead head body) = request_ok (ce_http E) head"
| "op_ok E contents ok (OpWriteBody chunk) = body_piece contents ok chunk"
| "op_ok E contents ok (OpWriteBodyAndEnd chunk) = body_piece contents ok chunk"
| "op_ok E contents ok op = True"

fun op_writes :: "('b, 'm) conn_op \<Rightarrow> bool" where
  "op_writes (OpWriteHead _ _) = True"
| "op_writes (OpWriteBody _) = True"
| "op_writes (OpWriteTrailers _) = True"
| "op_writes (OpWriteBodyAndEnd _) = True"
| "op_writes OpEndBody = True"
| "op_writes _ = False"

text \<open>A schedule: an operation that is not enabled when its turn comes is passed over.\<close>

fun conn_exec ::
    "('io, 'b, 'm) conn_env \<Rightarrow> ('io, 'b, 'm) conn \<Rightarrow> ('b, 'm) conn_op list \<Rightarrow>
     (conn_event list \<times> ('io, 'b, 'm) conn) option option" where
  "conn_exec E c [] = Some (Some ([], c))"
| "conn_exec E c (op # ops) =
     (if conn_enabled c op then
        (case conn_step E c op of
           None \<Rightarrow> None
         | Some None \<Rightarrow> Some None
         | Some (Some (ev, c')) \<Rightarrow>
             map_option (map_option (\<lambda>(evs, c''). (ev @ evs, c''))) (conn_exec E c' ops))
      else conn_exec E c ops)"

text \<open>A whole body: every buffer, then the end while the body is still open.\<close>

fun send_body ::
    "('io, 'b, 'm) conn_env \<Rightarrow> ('io, 'b, 'm) conn \<Rightarrow> 'b list \<Rightarrow> ('io, 'b, 'm) conn option option" where
  "send_body E c [] =
     (if can_write_body c then map_option (map_option snd) (end_body E c) else Some (Some c))"
| "send_body E c (b # bs) =
     (case write_body E c b of
        Some (Some c') \<Rightarrow> send_body E c' bs
      | r \<Rightarrow> r)"

text \<open>The settings the handshake makes keep a fresh connection well-formed.\<close>

definition conn_fresh ::
    "('io \<Rightarrow> bool) \<Rightarrow> ('b \<Rightarrow> byte list) \<Rightarrow> ('b \<Rightarrow> bool) \<Rightarrow> ('io, 'b, 'm) conn \<Rightarrow> bool" where
  "conn_fresh io_ok contents ok c \<longleftrightarrow>
     conn_ok io_ok contents ok c \<and> bl_bufs (wb_queue (bd_write_buf (cn_io c))) = []"

sublocale conn_world \<subseteq> crate: http_crate "ce_http E"
  by (rule world_http)

sublocale conn_world \<subseteq> bufs: encoded_bufs "ce_buf E" contents ok "ce_adapters E" "ce_copy E"
  by (rule world_bufs)

sublocale conn_world \<subseteq> out: buffered_output "ce_transport E" incoming sent io_ok
  "ce_encoded E" "eb_contents contents" "eb_ok ok"
  by (intro buffered_output.intro buffered_transport.intro world_transport bufs.eb.byte_buf_axioms)

lemma wire_ok_refl: "wire_ok incoming sent contents c c []"
  by (simp add: wire_ok_def)

lemma wire_ok_trans:
  "wire_ok incoming sent contents c c1 o1 \<Longrightarrow> wire_ok incoming sent contents c1 c2 o2 \<Longrightarrow>
   wire_ok incoming sent contents c c2 (o1 @ o2)"
  by (auto simp: wire_ok_def)

lemma wire_ok_state: "wire_ok incoming sent contents c (c'\<lparr>cn_state := st\<rparr>) w = wire_ok incoming sent contents c c' w"
  "wire_ok incoming sent contents (c\<lparr>cn_state := st\<rparr>) c' w = wire_ok incoming sent contents c c' w"
  by (simp_all add: wire_ok_def)

lemma wire_ok_same_io: "cn_io c' = cn_io c \<Longrightarrow> wire_ok incoming sent contents c c' []"
  by (simp add: wire_ok_def)

lemma partial_ok_None: "bd_partial_len io = None \<Longrightarrow> partial_ok io"
  by (simp add: partial_ok_def)

lemma conn_ok_close:
  assumes "conn_ok io_ok contents ok c"
  shows "conn_ok io_ok contents ok (c\<lparr>cn_state := state_close (cn_state c)\<rparr>)"
    "conn_ok io_ok contents ok (c\<lparr>cn_state := state_close_read (cn_state c)\<rparr>)"
    "conn_ok io_ok contents ok (c\<lparr>cn_state := state_close_write (cn_state c)\<rparr>)"
    "conn_ok io_ok contents ok (c\<lparr>cn_state := state_try_keep_alive (cn_state c)\<rparr>)"
proof -
  show 1: "conn_ok io_ok contents ok (c\<lparr>cn_state := state_close (cn_state c)\<rparr>)"
    "conn_ok io_ok contents ok (c\<lparr>cn_state := state_close_read (cn_state c)\<rparr>)"
    "conn_ok io_ok contents ok (c\<lparr>cn_state := state_close_write (cn_state c)\<rparr>)"
    using assms
    by (auto simp: conn_ok_def state_close_def state_close_read_def state_close_write_def reading_ok_def writing_ok_def)
  show "conn_ok io_ok contents ok (c\<lparr>cn_state := state_try_keep_alive (cn_state c)\<rparr>)"
  proof (cases "state_try_keep_alive (cn_state c) \<in> {cn_state c, state_close (cn_state c)}")
    case True
    then show ?thesis using assms 1(1) by auto
  next
    case False
    then have "st_reading (cn_state c) = ReadKeepAlive" "state_try_keep_alive (cn_state c) = state_idle (cn_state c)"
      unfolding state_try_keep_alive_def by (auto split: reading.split_asm writing.split_asm if_split_asm)
    then show ?thesis using assms partial_ok_None
      by (auto simp: conn_ok_def state_idle_def is_idle_def reading_ok_def writing_ok_def)
  qed
qed

lemma reading_ok_grow:
  assumes "reading_ok r io" "bd_partial_len io' = bd_partial_len io" "length (bd_read_buf io) \<le> length (bd_read_buf io')"
  shows "reading_ok r io'"
  using assms by (cases r) (auto simp: reading_ok_def partial_ok_def split: option.split_asm option.split)

context conn_world
begin

abbreviation good :: "('io, 'b, 'm) conn \<Rightarrow> bool" where
  "good \<equiv> conn_ok io_ok contents ok"

abbreviation wire :: "('io, 'b, 'm) conn \<Rightarrow> ('io, 'b, 'm) conn \<Rightarrow> byte list \<Rightarrow> bool" where
  "wire \<equiv> wire_ok incoming sent contents"

lemma read_io_ok:
  assumes "good c" "poll_read_from_io (ce_transport E) (cn_io c) = (res, io)"
  shows "good (c\<lparr>cn_io := io\<rparr>) \<and> wire c (c\<lparr>cn_io := io\<rparr>) [] \<and> res \<noteq> Panicked"
proof -
  have *: "bd_read_ok io_ok (cn_io c)" using assms(1) by (simp add: conn_ok_def)
  note p = out.poll_read_ok [OF * assms(2)]
  have "length (bd_read_buf (cn_io c)) \<le> length (bd_read_buf io)"
    using p by (cases "\<exists>n. res = Ready (Inr n)") auto
  then have "reading_ok (st_reading (cn_state c)) io"
    using reading_ok_grow [of _ "cn_io c" io] p assms(1) by (simp add: conn_ok_def)
  then show ?thesis using p assms(1) by (simp add: conn_ok_def wire_ok_def bd_output_def)
qed

lemma maybe_notify_ok:
  assumes "good c"
  shows "\<exists>c'. maybe_notify E c = Some c' \<and> good c' \<and> wire c c' []"
proof -
  obtain res io where rd: "poll_read_from_io (ce_transport E) (cn_io c) = (res, io)" by force
  note r = read_io_ok [OF assms rd]
  have st: "good (c\<lparr>cn_io := io, cn_state := (f (cn_state c))\<rparr>)"
    if "\<And>x. good x \<Longrightarrow> good (x\<lparr>cn_state := f (cn_state x)\<rparr>)" for f
    using that [of "c\<lparr>cn_io := io\<rparr>"] r by simp
  have notify: "good x \<Longrightarrow> good (x\<lparr>cn_state := (cn_state x)\<lparr>st_notify_read := True\<rparr>\<rparr>)"
    "good x \<Longrightarrow> good (x\<lparr>cn_state := (state_close (cn_state x))\<lparr>st_error := e, st_notify_read := True\<rparr>\<rparr>)" for x e
    by (auto simp: conn_ok_def state_close_def reading_ok_def writing_ok_def)
  have w: "wire c (c\<lparr>cn_io := io, cn_state := st\<rparr>) []" for st using r by (simp add: wire_ok_def)
  show ?thesis
    using assms r st [OF notify(1)] st [OF notify(2)] st [OF conn_ok_close(1)] st [OF conn_ok_close(2)] w
      notify(1) [OF assms] wire_ok_refl [of incoming sent contents c] wire_ok_same_io
    unfolding maybe_notify_def Let_def rd
    by (cases res) (auto simp: wire_ok_def split: writing.split sum.split)
qed

lemma try_keep_alive_ok:
  assumes "good c"
  shows "\<exists>c'. try_keep_alive E c = Some c' \<and> good c' \<and> wire c c' []"
  using maybe_notify_ok [OF conn_ok_close(4) [OF assms]] unfolding try_keep_alive_def wire_ok_state by simp

end

section \<open>Reading\<close>

lemma conn_ok_notify:
  "conn_ok io_ok contents ok c \<Longrightarrow> conn_ok io_ok contents ok (c\<lparr>cn_state := (cn_state c)\<lparr>st_notify_read := b\<rparr>\<rparr>)"
  by (simp add: conn_ok_def)

context conn_world
begin

lemma read_mem_frame:
  assumes "bd_read_ok io_ok b" "read_mem (ce_transport E) b n = (res, b')"
  shows "buffer_frame sent b' = buffer_frame sent b"
proof (cases "bd_read_buf b = []")
  case True
  obtain r b1 where r: "poll_read_from_io (ce_transport E) b = (r, b1)" by force
  have "buffer_frame sent b1 = buffer_frame sent b" using out.poll_read_ok [OF assms(1) r] by (simp add: buffer_frame_def)
  moreover have "buffer_frame sent (consume_read_buf k b1) = buffer_frame sent b1" for k
    by (simp add: consume_read_buf_def buffer_frame_def)
  ultimately show ?thesis using assms(2) r True
    by (cases r) (auto simp: read_mem_def Let_def split: sum.split_asm if_split_asm)
next
  case False
  then show ?thesis using assms(2) by (auto simp: read_mem_def Let_def consume_read_buf_def buffer_frame_def)
qed

lemma framed_reader:
  "mem_read (read_mem (ce_transport E)) (bd_stream incoming) (\<lambda>b. bd_read_ok io_ok b \<and> buffer_frame sent b = F)"
proof
  fix r n res r'
  assume "bd_read_ok io_ok r \<and> buffer_frame sent r = F" "read_mem (ce_transport E) r n = (res, r')"
  then show "bd_read_ok io_ok r' \<and> buffer_frame sent r' = F"
    using out.rd.read_invar read_mem_frame by metis
qed (use out.rd.mem_read_axioms [unfolded mem_read_def] in blast)+

lemma decode_ok:
  assumes "bd_read_ok io_ok b" "decoder_inv d"
  shows "\<exists>res d' b'. decode A P (read_mem (ce_transport E)) d b = Some (res, d', b') \<and> res \<noteq> Panicked \<and>
    bd_read_ok io_ok b' \<and> buffer_frame sent b' = buffer_frame sent b \<and>
    (\<exists>xs. bd_stream incoming b = xs @ bd_stream incoming b') \<and> ((\<forall>e. res \<noteq> Ready (Inl e)) \<longrightarrow> decoder_inv d')"
  using mem_read.decode_total [OF framed_reader [of "buffer_frame sent b"], of b d A P] assms by auto

lemma finish_read_ok:
  assumes "good c0" "good (set_reading r c)" "wire c0 c []"
  shows "\<exists>c'. finish_read E c r ret = (Ready ret, c') \<and> good c' \<and> wire c0 c' []"
proof -
  obtain c' where c': "try_keep_alive E (set_reading r c) = Some c'" "good c'" "wire (set_reading r c) c' []"
    using try_keep_alive_ok [OF assms(2)] by blast
  have "wire c0 c' []"
    using wire_ok_trans [of incoming sent contents c0 "set_reading r c" "[]" c' "[]"] assms(3) c'(3)
    by (simp add: set_reading_def wire_ok_state)
  then show ?thesis using c' by (simp add: finish_read_def)
qed

lemma read_body_state_ok:
  assumes "good c" "st_reading (cn_state c) = ReadBody d"
  shows "\<exists>res c'. read_body_state E c d = Some (res, c') \<and> res \<noteq> Panicked \<and> good c' \<and> wire c c' []"
proof -
  have d: "decoder_inv d" "bd_partial_len (cn_io c) = None" "bd_read_ok io_ok (cn_io c)"
    using assms by (auto simp: conn_ok_def reading_ok_def)
  obtain res d' io where dec: "decode (ce_http E) (ce_httparse E) (read_mem (ce_transport E)) d (cn_io c) = Some (res, d', io)"
      "res \<noteq> Panicked" "bd_read_ok io_ok io" "buffer_frame sent io = buffer_frame sent (cn_io c)"
      "\<exists>xs. bd_stream incoming (cn_io c) = xs @ bd_stream incoming io" "(\<forall>e. res \<noteq> Ready (Inl e)) \<longrightarrow> decoder_inv d'"
    using decode_ok [OF d(3,1)] by blast
  let ?c = "set_reading (ReadBody d') (c\<lparr>cn_io := io\<rparr>)"
  have frame: "bd_write_buf io = bd_write_buf (cn_io c)" "bd_partial_len io = None" "sent (bd_io io) = sent (bd_io (cn_io c))"
    using dec(4) d(2) by (auto simp: buffer_frame_def)
  have w: "wire c ?c []" using dec(5) frame by (simp add: wire_ok_def bd_output_def set_reading_def)
  have g: "good (set_reading r ?c)" if "r = ReadKeepAlive \<or> r = ReadClosed" for r
    using assms dec(3) frame that by (auto simp: conn_ok_def set_reading_def reading_ok_def)
  have g0: "good ?c" if "\<forall>e. res \<noteq> Ready (Inl e)"
    using assms dec(3,6) frame that by (auto simp: conn_ok_def set_reading_def reading_ok_def)
  note fin = finish_read_ok [OF assms(1) g w]
  show ?thesis
  proof (cases res)
    case Pending
    then show ?thesis using dec(1) g0 w by (simp add: read_body_state_def)
  next
    case (Ready r)
    show ?thesis
    proof (cases "\<exists>bs. r = Inr (Data bs) \<and> \<not> decoder_is_eof d' \<and> bs \<noteq> []")
      case True
      then show ?thesis using dec(1) g0 w Ready by (auto simp: read_body_state_def)
    next
      case False
      then obtain r' ret where "r' = ReadKeepAlive \<or> r' = ReadClosed"
          "read_body_state E c d = Some (finish_read E ?c r' ret)"
        using dec(1) Ready unfolding read_body_state_def Let_def
        by (cases r rule: sum.exhaust; cases "projr r" rule: frame.exhaust; cases "decoder_is_eof d'")
           (simp_all, blast+)
      then show ?thesis using fin by force
    qed
  qed (use dec(2) in simp)
qed

lemma poll_read_body_ok:
  assumes "good c" "can_read_body c" "protocol_inv (protocol_of c)"
  shows "\<exists>res c'. poll_read_body E c = Some (res, c') \<and> res \<noteq> Panicked \<and> good c' \<and> wire c c' []"
proof (cases "st_reading (cn_state c)")
  case (ReadContinue d)
  then have w: "st_writing (cn_state c) \<noteq> WriteInit" using assms(3) by (auto simp: protocol_inv_def protocol_of_def)
  have "good (set_reading (ReadBody d) c)"
    using assms(1) ReadContinue by (auto simp: conn_ok_def set_reading_def reading_ok_def)
  then show ?thesis using read_body_state_ok [of "set_reading (ReadBody d) c" d] w ReadContinue
    by (auto simp: poll_read_body_def set_reading_def wire_ok_state)
next
  case (ReadBody d)
  then show ?thesis using read_body_state_ok [OF assms(1) ReadBody] by (simp add: poll_read_body_def)
qed (use assms(2) in \<open>simp_all add: can_read_body_def\<close>)

lemma drain_ok:
  assumes "good c" "can_read_body c" "protocol_inv (protocol_of c)"
  shows "\<exists>c'. poll_drain_or_close_read E c = Some (Some c') \<and> good c' \<and> wire c c' []"
proof -
  define c1 where "c1 = (case st_reading (cn_state c) of ReadContinue dec \<Rightarrow> set_reading (ReadBody dec) c | _ \<Rightarrow> c)"
  have c1: "good c1" "can_read_body c1" "protocol_inv (protocol_of c1)" "cn_io c1 = cn_io c"
    using assms
    by (auto simp: c1_def conn_ok_def set_reading_def reading_ok_def can_read_body_def protocol_inv_def protocol_of_def
        split: reading.split)
  obtain res c2 where c2: "poll_read_body E c1 = Some (res, c2)" "res \<noteq> Panicked" "good c2" "wire c1 c2 []"
    using poll_read_body_ok [OF c1(1-3)] by blast
  have "wire c c2 []" using c2(4) c1(4) by (simp add: wire_ok_def)
  then have "good c2 \<and> wire c c2 [] \<and> good (close_read c2) \<and> wire c (close_read c2) []"
    using c2(3) conn_ok_close(2) [OF c2(3)] by (simp add: close_read_def wire_ok_state)
  then show ?thesis using c2(1,2)
    unfolding poll_drain_or_close_read_def Let_def c1_def [symmetric]
    by (auto split: poll.split reading.split)
qed

end

lemma decoder_new_inv: "decoder_inv (decoder_new len mh mb)"
  using decoder_new_chunked [of mh mb] chunked_inv_init [of mh mb]
  by (cases "len = CHUNKED") (auto simp: decoder_inv_def decoder_new_def)

context conn_world
begin

lemma force_io_read_ok:
  assumes "good c"
  shows "\<exists>res c'. force_io_read E c = (res, c') \<and> res \<noteq> Panicked \<and> good c' \<and> wire c c' []"
proof -
  obtain res io where rd: "poll_read_from_io (ce_transport E) (cn_io c) = (res, io)" by force
  note r = read_io_ok [OF assms rd]
  then show ?thesis using conn_ok_close(1) [of io_ok contents ok "c\<lparr>cn_io := io\<rparr>"]
    by (cases res) (auto simp: force_io_read_def rd wire_ok_def split: sum.split)
qed

lemma poll_read_keep_alive_ok:
  assumes "good c"
  shows "\<exists>res c'. poll_read_keep_alive E c = (res, c') \<and> res \<noteq> Panicked \<and> good c' \<and> wire c c' []"
proof -
  obtain res c1 where r: "force_io_read E c = (res, c1)" "res \<noteq> Panicked" "good c1" "wire c c1 []"
    using force_io_read_ok [OF assms] by blast
  have cr: "good (close_read c1)" "wire c (close_read c1) []"
    using conn_ok_close(2) [OF r(3)] r(4) by (simp_all add: close_read_def wire_ok_state)
  have "\<exists>res c'. mid_message_detect_eof E c = (res, c') \<and> res \<noteq> Panicked \<and> good c' \<and> wire c c' []"
    using assms r cr wire_ok_refl by (cases res) (auto simp: mid_message_detect_eof_def split: sum.split)
  moreover have "\<exists>res c'. require_empty_read E c = (res, c') \<and> res \<noteq> Panicked \<and> good c' \<and> wire c c' []"
    using assms r cr wire_ok_refl by (cases res) (auto simp: require_empty_read_def split: sum.split)
  ultimately show ?thesis using assms wire_ok_refl by (auto simp: poll_read_keep_alive_def)
qed

lemma poll_flush_good:
  assumes "good c"
  shows "\<exists>res io. poll_flush (ce_transport E) (ce_encoded E) (cn_io c) = Some (res, io) \<and> res \<noteq> Panicked \<and>
    good (c\<lparr>cn_io := io\<rparr>) \<and> wire c (c\<lparr>cn_io := io\<rparr>) []"
proof -
  have *: "io_ok (bd_io (cn_io c))" "wb_ok (eb_contents contents) (eb_ok ok) (bd_write_buf (cn_io c))"
    using assms by (auto simp: conn_ok_def bd_read_ok_def)
  obtain res io where f: "poll_flush (ce_transport E) (ce_encoded E) (cn_io c) = Some (res, io)"
      "flush_post incoming sent io_ok (eb_contents contents) (eb_ok ok) (cn_io c) res io"
    using out.poll_flush_ok [OF *] by blast
  have "reading_ok (st_reading (cn_state c)) io"
    using reading_ok_grow [of "st_reading (cn_state c)" "cn_io c" io] assms f(2) by (simp add: flush_post_def conn_ok_def)
  then have "good (c\<lparr>cn_io := io\<rparr>)" "wire c (c\<lparr>cn_io := io\<rparr>) []"
    using assms f(2) by (auto simp: flush_post_def conn_ok_def bd_read_ok_def wire_ok_def bd_stream_def)
  then show ?thesis using f by (auto simp: flush_post_def)
qed

lemma flush_ok:
  assumes "good c"
  shows "\<exists>res c'. conn_poll_flush E c = Some (res, c') \<and> res \<noteq> Panicked \<and> good c' \<and> wire c c' []"
proof -
  obtain res io where f: "poll_flush (ce_transport E) (ce_encoded E) (cn_io c) = Some (res, io)" "res \<noteq> Panicked"
      "good (c\<lparr>cn_io := io\<rparr>)" "wire c (c\<lparr>cn_io := io\<rparr>) []"
    using poll_flush_good [OF assms] by blast
  obtain c' where "try_keep_alive E (c\<lparr>cn_io := io\<rparr>) = Some c'" "good c'" "wire (c\<lparr>cn_io := io\<rparr>) c' []"
    using try_keep_alive_ok [OF f(3)] by blast
  then show ?thesis using f wire_ok_trans [OF f(4), of c' "[]"]
    by (cases res) (auto simp: conn_poll_flush_def split: sum.split)
qed

lemma shutdown_ok:
  assumes "good c"
  shows "\<exists>res c'. conn_poll_shutdown E c = Some (res, c') \<and> res \<noteq> Panicked \<and> good c' \<and> wire c c' []"
proof -
  obtain res io where f: "poll_flush (ce_transport E) (ce_encoded E) (cn_io c) = Some (res, io)" "res \<noteq> Panicked"
      "good (c\<lparr>cn_io := io\<rparr>)" "wire c (c\<lparr>cn_io := io\<rparr>) []"
    using poll_flush_good [OF assms] by blast
  obtain r i where s: "io_shutdown (ce_transport E) (bd_io io) = (r, i)" by force
  have "io_ok (bd_io io)" using f(3) by (simp add: conn_ok_def bd_read_ok_def)
  note sh = out.io_shutdown_keeps [OF this s]
  have "reading_ok (st_reading (cn_state c)) (io\<lparr>bd_io := i\<rparr>)"
    using reading_ok_grow [of "st_reading (cn_state c)" io "io\<lparr>bd_io := i\<rparr>"] f(3) by (simp add: conn_ok_def)
  then have "good (c\<lparr>cn_io := io\<lparr>bd_io := i\<rparr>\<rparr>)" "wire c (c\<lparr>cn_io := io\<lparr>bd_io := i\<rparr>\<rparr>) []" "r \<noteq> Panicked"
    using f(3,4) sh by (auto simp: conn_ok_def bd_read_ok_def wire_ok_def bd_stream_def bd_output_def)
  then show ?thesis using f s by (cases res) (auto simp: conn_poll_shutdown_def poll_shutdown_def split: sum.split)
qed

lemma read_head_message_ok:
  assumes "good c" "bd_partial_len (cn_io c) = None"
  shows "\<exists>res c'. read_head_message E c msg = (res, c') \<and> res \<noteq> Panicked \<and> good c' \<and> wire c c' []"
proof -
  define st0 where "st0 = state_busy ((cn_state c)\<lparr>st_h09_responses := False, st_on_informational := None\<rparr>)"
  define st where "st = st0\<lparr>st_keep_alive := ka_and (st_keep_alive st0) (pm_keep_alive msg), st_version := mh_version (pm_head msg)\<rparr>"
  have st: "good (c\<lparr>cn_state := st\<lparr>st_reading := r\<rparr>\<rparr>)" if "r = ReadKeepAlive \<or> (\<exists>d. decoder_inv d \<and> (r = ReadContinue d \<or> r = ReadBody d))" for r
    using assms that by (auto simp: conn_ok_def st_def st0_def state_busy_def reading_ok_def)
  have trailer: "good (x\<lparr>cn_state := (cn_state x)\<lparr>st_allow_trailer_fields := b\<rparr>\<rparr>)" if "good x" for x b
    using that by (simp add: conn_ok_def)
  obtain c' where c': "try_keep_alive E (c\<lparr>cn_state := st\<lparr>st_reading := ReadKeepAlive\<rparr>\<rparr>) = Some c'" "good c'" "wire c c' []"
    using try_keep_alive_ok [OF st] by (auto simp: wire_ok_state)
  note dec = decoder_new_inv [of "pm_decode msg" "st_h1_max_headers st" "st_h1_max_header_size st"]
  show ?thesis
    unfolding read_head_message_def Let_def st0_def [symmetric] st_def [symmetric]
    using c' trailer [OF c'(2)] dec trailer [OF st] wire_ok_refl [of incoming sent contents c]
    by (auto simp: wire_ok_state)
qed

lemma read_head_error_ok:
  assumes "good (close_read c)"
  shows "\<exists>res c'. on_read_head_error E c e = (res, c') \<and> res \<noteq> Panicked \<and> good c' \<and> wire c c' []"
proof -
  define c1 where "c1 = (close_read c)\<lparr>cn_io := consume_leading_lines (cn_io (close_read c))\<rparr>"
  obtain k where k: "consume_leading_lines (cn_io c) = consume_read_buf k (cn_io c)" "k \<le> length (bd_read_buf (cn_io c))"
    using length_takeWhile_le [of _ "bd_read_buf (cn_io c)"]
    by (cases "bd_read_buf (cn_io c) = []") (auto simp: consume_leading_lines_def consume_read_buf_def)
  have g: "good c1" "wire c c1 []"
    using assms k
    by (auto simp: c1_def close_read_def conn_ok_def state_close_read_def consume_read_buf_def bd_read_ok_def reading_ok_def
        wire_ok_def bd_stream_def bd_output_def intro!: exI [of _ "take k (bd_read_buf (cn_io c))"])
  then have "good (close_write c1)" "wire c (close_write c1) []"
    using conn_ok_close(3) [OF g(1)] by (simp_all add: close_write_def wire_ok_state)
  then show ?thesis using g
    unfolding on_read_head_error_def Let_def c1_def [symmetric]
    by (auto simp: on_parse_error_def client_on_error_def split: if_split)
qed

lemma poll_read_head_ok:
  assumes "good c" "can_read_head c"
  shows "\<exists>res c'. poll_read_head E c = Some (res, c') \<and> res \<noteq> Panicked \<and> good c' \<and> wire c c' []"
proof -
  let ?st = "cn_state c"
  have rd: "st_reading ?st = ReadInit" using assms(2) by (auto simp: can_read_head_def split: if_split_asm)
  then have ok: "bd_read_ok io_ok (cn_io c)" "partial_ok (cn_io c)" "parser_ok (st_h1_parser_config ?st)"
    using assms(1) by (auto simp: conn_ok_def reading_ok_def)
  obtain res io ctx where p: "bd_parse (ce_transport E) (client_parse (ce_http E) (st_h1_parser_config ?st)) (cn_io c) (context_of ?st) =
        Some (res, io, ctx)" "parse_post incoming sent io_ok (cn_io c) res io ctx"
    using out.bd_parse_ok [OF client_parse_parse_total [OF ok(3), of "ce_http E"] ok(1,2), of "context_of ?st"] by blast
  let ?c = "\<lparr>cn_io = io, cn_state = context_back ?st ctx\<rparr> :: ('io, 'b, 'm) conn"
  have w: "wire c ?c []" using p(2) by (auto simp: parse_post_def wire_ok_def bd_output_def)
  show ?thesis
  proof (cases res)
    case Pending
    then have "good ?c" using assms(1) p(2) rd by (simp add: conn_ok_def parse_post_def context_back_def reading_ok_def)
    then show ?thesis using p(1) Pending w by (simp add: poll_read_head_def Let_def)
  next
    case (Ready r)
    show ?thesis
    proof (cases r)
      case (Inl e)
      have "good (close_read ?c)"
        using assms(1) p(2)
        by (simp add: conn_ok_def parse_post_def context_back_def reading_ok_def close_read_def state_close_read_def)
      then obtain res' c' where "on_read_head_error E ?c e = (res' :: (http_error + 'm response_head \<times> decoded_length \<times> wants) option poll, c')" "res' \<noteq> Panicked" "good c'" "wire ?c c' []"
        using read_head_error_ok by blast
      then show ?thesis using p(1) Ready Inl wire_ok_trans [OF w, of c' "[]"] by (simp add: poll_read_head_def Let_def)
    next
      case (Inr msg)
      have pl: "bd_partial_len io = None" using p(2) Ready Inr by (simp add: parse_post_def)
      then have "good ?c"
        using assms(1) p(2) rd by (simp add: conn_ok_def parse_post_def context_back_def reading_ok_def partial_ok_def)
      then obtain res' c' where "read_head_message E ?c msg = (res', c')" "res' \<noteq> Panicked" "good c'" "wire ?c c' []"
        using read_head_message_ok [of ?c msg] pl by auto
      then show ?thesis using p(1) Ready Inr wire_ok_trans [OF w, of c' "[]"] by (simp add: poll_read_head_def Let_def)
    qed
  qed (use p(2) in \<open>simp add: parse_post_def\<close>)
qed

end

section \<open>Writing\<close>

lemma writing_of_ok: "writing_ok (writing_of e)"
  by (simp add: writing_of_def writing_ok_def)

context conn_world
begin

lemma set_writing_ok:
  "good c \<Longrightarrow> writing_ok w \<Longrightarrow> good (set_writing w c)" "wire c (set_writing w c') x = wire c c' x"
  by (simp_all add: conn_ok_def set_writing_def wire_ok_def)

lemma write_buf_ok:
  assumes "good c" "wb_ok (eb_contents contents) (eb_ok ok) w"
    "wb_contents (eb_contents contents) w = wb_contents (eb_contents contents) (bd_write_buf (cn_io c)) @ x"
  shows "good (c\<lparr>cn_io := (cn_io c)\<lparr>bd_write_buf := w\<rparr>\<rparr>)" "wire c (c\<lparr>cn_io := (cn_io c)\<lparr>bd_write_buf := w\<rparr>\<rparr>) x"
proof -
  have "reading_ok (st_reading (cn_state c)) ((cn_io c)\<lparr>bd_write_buf := w\<rparr>)"
    using reading_ok_grow [of _ "cn_io c" "(cn_io c)\<lparr>bd_write_buf := w\<rparr>"] assms(1) by (simp add: conn_ok_def)
  then show "good (c\<lparr>cn_io := (cn_io c)\<lparr>bd_write_buf := w\<rparr>\<rparr>)" "wire c (c\<lparr>cn_io := (cn_io c)\<lparr>bd_write_buf := w\<rparr>\<rparr>) x"
    using assms by (simp_all add: conn_ok_def wire_ok_def bd_output_def bd_stream_def bd_read_ok_def)
qed

lemma conn_buffer_ok:
  assumes "good c" "eb_ok ok b" "eb_contents contents b \<noteq> []"
  shows "\<exists>c'. conn_buffer E c b = Some (Some c') \<and> good c' \<and> wire c c' (eb_contents contents b) \<and> cn_state c' = cn_state c"
proof -
  have "wb_ok (eb_contents contents) (eb_ok ok) (bd_write_buf (cn_io c))" using assms(1) by (simp add: conn_ok_def)
  then obtain w where "wb_buffer (ce_encoded E) (ce_encoded E) id (bd_write_buf (cn_io c)) b = Some (Some w)"
      "wb_ok (eb_contents contents) (eb_ok ok) w"
      "wb_contents (eb_contents contents) w = wb_contents (eb_contents contents) (bd_write_buf (cn_io c)) @ eb_contents contents b"
    using bufs.eb.wb_buffer_ok [OF bufs.eb.byte_buf_axioms assms(2,3), of "bd_write_buf (cn_io c)" id] assms(2) by auto
  then show ?thesis using write_buf_ok [OF assms(1), of w] by (simp add: conn_buffer_def bd_buffer_def)
qed

lemma encode_wire:
  assumes "body_piece contents ok chunk" "\<not> encoder_is_eof e"
  shows "\<exists>b. encode (ce_buf E) e chunk = Some (b, wire_encoder e (contents chunk)) \<and> eb_ok ok b \<and>
    eb_contents contents b = wire_chunk e (contents chunk) \<and> eb_contents contents b \<noteq> []"
proof (cases "enc_kind e")
  case (EncChunked t)
  then show ?thesis using bufs.encode_chunked [of chunk e t] assms(1)
    by (auto simp: body_piece_def wire_encoder_def wire_chunk_def render_chunk_def)
next
  case (EncLength n)
  then have n: "unat n \<noteq> 0" using assms(2) by (auto simp: encoder_is_eof_def unat_eq_zero)
  obtain b k where enc: "encode (ce_buf E) e chunk = Some (b, e\<lparr>enc_kind := EncLength k\<rparr>)"
      "eb_contents contents b = take (unat n) (contents chunk)" "unat k = unat n - length (contents chunk)"
    using bufs.encode_length [OF _ _ EncLength, of chunk] assms(1) unfolding body_piece_def by metis
  have "k = of_nat (unat n - length (contents chunk))" using arg_cong [OF enc(3), of "of_nat :: nat \<Rightarrow> u64"] by simp
  moreover have "eb_ok ok b" using enc(1) EncLength assms(1)
    by (auto simp: encode_def Let_def eb_ok_def body_piece_def split: if_split_asm)
  ultimately show ?thesis using enc EncLength n assms(1) by (auto simp: wire_encoder_def wire_chunk_def body_piece_def)
qed

lemma write_body_ok:
  assumes "good c" "st_writing (cn_state c) = WriteBody e" "body_piece contents ok chunk"
  shows "\<exists>c'. write_body E c chunk = Some (Some c') \<and> good c' \<and> wire c c' (wire_chunk e (contents chunk)) \<and>
    cn_state c' = (cn_state c)\<lparr>st_writing := writing_of (wire_encoder e (contents chunk))\<rparr>"
proof -
  have e: "\<not> encoder_is_eof e" using assms(1,2) by (simp add: conn_ok_def writing_ok_def)
  obtain b where b: "encode (ce_buf E) e chunk = Some (b, wire_encoder e (contents chunk))" "eb_ok ok b"
      "eb_contents contents b = wire_chunk e (contents chunk)" "eb_contents contents b \<noteq> []"
    using encode_wire [OF assms(3) e] by blast
  obtain c1 where "conn_buffer E c b = Some (Some c1)" "good c1" "wire c c1 (eb_contents contents b)" "cn_state c1 = cn_state c"
    using conn_buffer_ok [OF assms(1) b(2,4)] by blast
  then show ?thesis using b assms(2) set_writing_ok(1) [OF _ writing_of_ok, of c1 "wire_encoder e (contents chunk)"]
    by (simp add: write_body_def writing_of_def set_writing_def wire_ok_state)
qed

lemma end_body_ok:
  assumes "good c" "st_writing (cn_state c) = WriteBody e"
  shows "\<exists>res c'. end_body E c = Some (Some (res, c')) \<and> good c' \<and>
    wire c c' (if encoder_is_chunked e then [48, 13, 10, 13, 10] else []) \<and>
    (encoder_is_chunked e \<longleftrightarrow> res = Inr ())"
proof -
  have e: "\<not> encoder_is_eof e" using assms(1,2) by (simp add: conn_ok_def writing_ok_def)
  have ww: "good (set_writing w x)" if "good x" "w = WriteKeepAlive \<or> w = WriteClosed" for w x
    using set_writing_ok(1) [OF that(1)] that(2) by (auto simp: writing_ok_def)
  show ?thesis
  proof (cases "enc_kind e")
    case (EncChunked t)
    obtain c1 where "conn_buffer E c (ChunkedEnd [48, 13, 10, 13, 10]) = Some (Some c1)" "good c1"
        "wire c c1 [48, 13, 10, 13, 10]"
      using conn_buffer_ok [OF assms(1), of "ChunkedEnd [48, 13, 10, 13, 10]"] by (auto simp: eb_ok_def eb_contents_def)
    then show ?thesis using EncChunked assms(2) ww
      by (auto simp: end_body_def encoder_end_def encoder_is_chunked_def set_writing_ok(2))
  next
    case (EncLength n)
    then have "n \<noteq> 0" using e by (simp add: encoder_is_eof_def)
    then show ?thesis using EncLength assms ww wire_ok_refl [of incoming sent contents c]
      by (auto simp: end_body_def encoder_end_def encoder_is_chunked_def set_writing_ok(2))
  qed
qed

lemma write_body_and_end_ok:
  assumes "good c" "st_writing (cn_state c) = WriteBody e" "body_piece contents ok chunk"
  shows "\<exists>c'. write_body_and_end E c chunk = Some (Some c') \<and> good c' \<and>
    wire c c' (wire_chunk e (contents chunk) @ (if encoder_is_chunked e then [48, 13, 10, 13, 10] else []))"
proof -
  have e: "\<not> encoder_is_eof e" "wb_ok (eb_contents contents) (eb_ok ok) (bd_write_buf (cn_io c))"
    using assms(1,2) by (auto simp: conn_ok_def writing_ok_def)
  have "\<exists>k w. encode_and_end (ce_buf E) (ce_adapters E) (ce_copy E) e chunk (bd_write_buf (cn_io c)) = Some (Some (k, w)) \<and>
      wb_ok (eb_contents contents) (eb_ok ok) w \<and>
      wb_contents (eb_contents contents) w = wb_contents (eb_contents contents) (bd_write_buf (cn_io c)) @
        (wire_chunk e (contents chunk) @ (if encoder_is_chunked e then [48, 13, 10, 13, 10] else []))"
  proof (cases "enc_kind e")
    case (EncChunked t)
    have "render (message_of [d]) = render_chunk (chunk_of d) @ [48, 13, 10, 13, 10]" for d
      by (simp add: render_def message_of_def render_line_def ext_bytes_def render_trailers_def)
    then show ?thesis using bufs.encode_and_end_chunked [OF EncChunked, of chunk "bd_write_buf (cn_io c)"] assms(3) e(2) EncChunked
      by (auto simp: body_piece_def wire_chunk_def encoder_is_chunked_def)
  next
    case (EncLength n)
    then have "n \<noteq> 0" using e(1) by (simp add: encoder_is_eof_def)
    then show ?thesis using bufs.encode_and_end_length [OF EncLength, of chunk "bd_write_buf (cn_io c)"] assms(3) e(2) EncLength
      by (auto simp: body_piece_def wire_chunk_def encoder_is_chunked_def)
  qed
  then obtain k w where w: "encode_and_end (ce_buf E) (ce_adapters E) (ce_copy E) e chunk (bd_write_buf (cn_io c)) = Some (Some (k, w))"
      "good (c\<lparr>cn_io := (cn_io c)\<lparr>bd_write_buf := w\<rparr>\<rparr>)"
      "wire c (c\<lparr>cn_io := (cn_io c)\<lparr>bd_write_buf := w\<rparr>\<rparr>) (wire_chunk e (contents chunk) @ (if encoder_is_chunked e then [48, 13, 10, 13, 10] else []))"
    using write_buf_ok [OF assms(1)] by metis
  have "writing_ok (if k then WriteKeepAlive else WriteClosed)" by (simp add: writing_ok_def)
  then show ?thesis using w assms(2) set_writing_ok(1) [OF w(2)] set_writing_ok(2) by (simp add: write_body_and_end_def)
qed

lemma write_trailers_ok:
  assumes "good c" "st_writing (cn_state c) = WriteBody e"
  shows "\<exists>c' out. write_trailers E c trailers = Some (Some c') \<and> good c' \<and> wire c c' out"
proof -
  have ww: "good (set_writing w x)" if "good x" "w = WriteKeepAlive \<or> w = WriteClosed" for w x
    using set_writing_ok(1) [OF that(1)] that(2) by (auto simp: writing_ok_def)
  let ?t = "encode_trailers (ce_http E) e trailers :: 'b encoded_buf option option"
  have "?t = Some None \<or>
    (\<exists>buf. ?t = Some (Some (TrailersBuf (([48, 13, 10], buf), [13, 10]))))"
  proof (cases "\<exists>allowed. enc_kind e = EncChunked (Some allowed)")
    case True
    then obtain allowed where a: "enc_kind e = EncChunked (Some allowed)" by blast
    obtain es where "?t = Some (if es = [] then None
          else Some (TrailersBuf (([48, 13, 10], concat (map field_line es)), [13, 10])))"
      using crate.encode_trailers_lines [OF a, of trailers] by metis
    then show ?thesis by (cases "es = []") auto
  next
    case False
    then show ?thesis by (auto simp: encode_trailers_def split: encoder_kind.split option.split)
  qed
  then show ?thesis
  proof
    assume "?t = Some None"
    then show ?thesis using assms wire_ok_refl [of incoming sent contents c] by (auto simp: write_trailers_def)
  next
    assume "\<exists>buf. ?t = Some (Some (TrailersBuf (([48, 13, 10], buf), [13, 10])))"
    then obtain buf where t: "?t = Some (Some (TrailersBuf (([48, 13, 10], buf), [13, 10])))" by blast
    obtain c1 where "conn_buffer E c (TrailersBuf (([48, 13, 10], buf), [13, 10])) = Some (Some c1)" "good c1"
        "wire c c1 (eb_contents contents (TrailersBuf (([48, 13, 10], buf), [13, 10])))"
      using conn_buffer_ok [OF assms(1), of "TrailersBuf (([48, 13, 10], buf), [13, 10])"] by (auto simp: eb_ok_def eb_contents_def)
    then show ?thesis using t assms(2) ww by (auto simp: write_trailers_def set_writing_ok(2))
  qed
qed

end

lemma enforce_version_keeps:
  assumes "enforce_version A st head = (st', head')"
  shows "st_reading st' = st_reading st \<and> st_h1_parser_config st' = st_h1_parser_config st \<and>
    mh_subject head' = mh_subject head \<and> mh_preserve head' = mh_preserve head"
  using assms
  by (auto simp: enforce_version_def fix_keep_alive_def disable_keep_alive_def Let_def
      split: version.split_asm if_split_asm)

context conn_world
begin

lemma connection_only:
  assumes "k \<noteq> CONNECTION"
  shows "hm_get_all (ce_http E) (hm_append (ce_http E) m CONNECTION v) k = hm_get_all (ce_http E) m k"
    "hm_get_all (ce_http E) (hm_insert (ce_http E) m CONNECTION v) k = hm_get_all (ce_http E) m k"
  using assms by (simp_all add: crate.get_all_append crate.get_all_insert)

lemma enforce_version_headers:
  assumes "enforce_version (ce_http E) st head = (st', head')" "k \<noteq> CONNECTION"
  shows "hm_get_all (ce_http E) (mh_headers head') k = hm_get_all (ce_http E) (mh_headers head) k"
  using assms connection_only [OF assms(2)]
  by (auto simp: enforce_version_def fix_keep_alive_def Let_def split: version.split_asm if_split_asm)

lemma headers_buf_ok:
  assumes "good c" "can_headers_buf (cn_io c)"
  shows "good (c\<lparr>cn_io := headers_buf (\<lambda>_. cu_bytes (wb_headers (bd_write_buf (cn_io c))) @ x) (cn_io c)\<rparr>)"
    "wire c (c\<lparr>cn_io := headers_buf (\<lambda>_. cu_bytes (wb_headers (bd_write_buf (cn_io c))) @ x) (cn_io c)\<rparr>) x"
proof -
  let ?w = "bd_write_buf (cn_io c)"
  let ?h = "wb_headers ?w"
  let ?w' = "?w\<lparr>wb_headers := ?h\<lparr>cu_bytes := cu_bytes ?h @ x, cu_cap := max (cu_cap ?h) (length (cu_bytes ?h @ x))\<rparr>\<rparr>"
  have ok: "wb_ok (eb_contents contents) (eb_ok ok) ?w" using assms(1) by (simp add: conn_ok_def)
  then have "bl_contents (eb_contents contents) (wb_queue ?w) = []"
    using assms(2) by (auto simp: can_headers_buf_def bl_remaining_def wb_ok_def bl_ok_def)
  then have "wb_ok (eb_contents contents) (eb_ok ok) ?w'"
      "wb_contents (eb_contents contents) ?w' = wb_contents (eb_contents contents) ?w @ x"
    using ok by (auto simp: wb_ok_def cursor_ok_def wb_contents_def cursor_chunk_def)
  note * = write_buf_ok [OF assms(1) this]
  have "headers_buf (\<lambda>_. cu_bytes ?h @ x) (cn_io c) = (cn_io c)\<lparr>bd_write_buf := ?w'\<rparr>" by (simp add: headers_buf_def Let_def)
  then show "good (c\<lparr>cn_io := headers_buf (\<lambda>_. cu_bytes ?h @ x) (cn_io c)\<rparr>)"
    "wire c (c\<lparr>cn_io := headers_buf (\<lambda>_. cu_bytes ?h @ x) (cn_io c)\<rparr>) x" using * by simp_all
qed

lemma write_head_ok:
  assumes "good c" "can_write_head c" "request_ok (ce_http E) head" "mh_subject head = RequestLine m target"
  shows "\<exists>c' enc h v. write_head E c head body = Some c' \<and> good c' \<and>
    wire c c' (head_bytes (ce_http E) m target v h) \<and>
    st_writing (cn_state c') = writing_of enc \<and> framed (ce_http E) enc h \<and>
    (v \<noteq> HTTP_11 \<longrightarrow> \<not> encoder_is_chunked enc) \<and>
    (\<forall>k. k \<notin> {TRANSFER_ENCODING, CONTENT_LENGTH, CONNECTION} \<longrightarrow>
       hm_get_all (ce_http E) h k = hm_get_all (ce_http E) (mh_headers head) k)"
proof -
  let ?A = "ce_http E"
  have hb: "can_headers_buf (cn_io c)"
    using assms(2) by (auto simp: can_write_head_def split: if_split_asm writing.split_asm)
  define st2 where "st2 = (if connection_any_close ?A (mh_headers head) then disable_keep_alive (state_busy (cn_state c)) else state_busy (cn_state c))"
  obtain st3 head1 where ev: "enforce_version ?A st2 head = (st3, head1)" by force
  note eh = enforce_version_headers [OF ev]
  note es = enforce_version_keeps [OF ev]
  have st2: "st_reading st2 = st_reading (cn_state c)" "st_h1_parser_config st2 = st_h1_parser_config (cn_state c)"
    by (simp_all add: st2_def state_busy_def disable_keep_alive_def)
  have "hm_get_all ?A (mh_headers head1) TRANSFER_ENCODING = hm_get_all ?A (mh_headers head) TRANSFER_ENCODING"
    by (rule eh) (simp add: TRANSFER_ENCODING_def CONNECTION_def ascii_def)
  then have te: "hm_contains_key ?A (mh_headers head1) TRANSFER_ENCODING \<Longrightarrow>
      list_all is_visible_ascii (last (hm_get_all ?A (mh_headers head1) TRANSFER_ENCODING))"
    using assms(3) by (simp add: request_ok_def hm_contains_key_def)
  have sub: "mh_subject head1 = RequestLine m target" "mh_preserve head1 = None"
    using es assms(3,4) by (simp_all add: request_ok_def)
  let ?old = "cu_bytes (wb_headers (bd_write_buf (cn_io c)))"
  obtain enc h where enc: "client_encode ?A head1 body ?old = Some (enc, head1\<lparr>mh_headers := hm_empty ?A\<rparr>, Some m,
        ?old @ head_bytes ?A m target (mh_version head1) h)" "framed ?A enc h"
      "mh_version head1 \<noteq> HTTP_11 \<longrightarrow> \<not> encoder_is_chunked enc"
      "\<forall>k. k \<notin> {TRANSFER_ENCODING, CONTENT_LENGTH} \<longrightarrow> hm_get_all ?A h k = hm_get_all ?A (mh_headers head1) k"
    using crate.client_encode_lines [OF te sub, of body ?old] unfolding head_bytes_def by blast
  let ?io = "headers_buf (\<lambda>_. ?old @ head_bytes ?A m target (mh_version head1) h) (cn_io c)"
  let ?st = "st3\<lparr>st_method := Some m, st_cached_headers := Some (hm_empty ?A),
      st_on_informational := (if mh_on_informational head1 then Some [] else None), st_writing := writing_of enc\<rparr>"
  have eq: "write_head E c head body = Some (c\<lparr>cn_io := ?io, cn_state := ?st\<rparr>)"
    using enc(1) ev unfolding write_head_def encode_head_def Let_def st2_def [symmetric]
    by (simp add: writing_of_def)
  have "good (c\<lparr>cn_io := ?io, cn_state := ?st\<rparr>)"
    using headers_buf_ok(1) [OF assms(1) hb, of "head_bytes ?A m target (mh_version head1) h"] es st2 writing_of_ok
    by (simp add: conn_ok_def)
  moreover have "wire c (c\<lparr>cn_io := ?io, cn_state := ?st\<rparr>) (head_bytes ?A m target (mh_version head1) h)"
    using headers_buf_ok(2) [OF assms(1) hb, of "head_bytes ?A m target (mh_version head1) h"] by (simp add: wire_ok_def)
  moreover have "\<forall>k. k \<notin> {TRANSFER_ENCODING, CONTENT_LENGTH, CONNECTION} \<longrightarrow>
       hm_get_all ?A h k = hm_get_all ?A (mh_headers head) k"
    using enc(4) eh by simp
  moreover have "st_writing (cn_state (c\<lparr>cn_io := ?io, cn_state := ?st\<rparr>)) = writing_of enc" by simp
  ultimately show ?thesis using eq enc(2,3) by blast
qed

end

section \<open>Schedules\<close>

lemma polled_ok: "r = Some (res, c') \<Longrightarrow> res \<noteq> Panicked \<Longrightarrow> \<exists>ev. polled r f = Some (Some (ev, c'))"
  by (cases res) (auto simp: polled_def)

lemma quiet_ok: "quiet (Some (Some c')) = Some (Some ([], c'))"
  by (simp add: quiet_def)

lemma run_trans: "conn_run E c' evs' c'' \<Longrightarrow> conn_run E c evs c' \<Longrightarrow> conn_run E c (evs @ evs') c''"
  by (induction rule: conn_run.induct) (auto intro: conn_run.intros simp flip: append_assoc)

context conn_world
begin

lemma small_ok:
  assumes "good c"
  shows "good (snd (wants_read_again c))" "wire c (snd (wants_read_again c)) []"
    "good (snd (take_error c))" "wire c (snd (take_error c)) []"
    "good (snd (conn_on_upgrade c))" "wire c (snd (conn_on_upgrade c)) []"
    "good (snd (pending_upgrade c))" "wire c (snd (pending_upgrade c)) []"
    "good (close_read c)" "wire c (close_read c) []"
    "good (close_write (close_read c))" "wire c (close_write (close_read c)) []"
proof -
  show "good (snd (take_error c))" "wire c (snd (take_error c)) []"
    using assms wire_ok_refl [of incoming sent contents c]
    by (cases "st_error (cn_state c)"; simp add: take_error_def conn_ok_def wire_ok_state)+
  show "good (close_read c)" "wire c (close_read c) []"
    using conn_ok_close(2) [OF assms] by (simp_all add: close_read_def wire_ok_state wire_ok_refl)
  then show "good (close_write (close_read c))" "wire c (close_write (close_read c)) []"
    using conn_ok_close(3) [of io_ok contents ok "close_read c"] by (simp_all add: close_write_def wire_ok_state)
qed (use assms in \<open>simp_all add: wants_read_again_def conn_on_upgrade_def prepare_upgrade_def pending_upgrade_def
       conn_ok_def wire_ok_state wire_ok_refl\<close>)

lemma conn_step_reads:
  assumes "good c" "protocol_inv (protocol_of c)" "conn_enabled c op" "\<not> op_writes op"
  shows "\<exists>ev c'. conn_step E c op = Some (Some (ev, c')) \<and> good c' \<and> wire c c' []"
proof (cases op)
  case OpReadHead
  then show ?thesis using poll_read_head_ok [OF assms(1)] assms(3) polled_ok by fastforce
next
  case OpReadBody
  then show ?thesis using poll_read_body_ok [OF assms(1) _ assms(2)] assms(3) polled_ok by fastforce
next
  case OpReadKeepAlive
  then show ?thesis using poll_read_keep_alive_ok [OF assms(1)] polled_ok by fastforce
next
  case OpFlush
  then show ?thesis using flush_ok [OF assms(1)] polled_ok by fastforce
next
  case OpShutdown
  then show ?thesis using shutdown_ok [OF assms(1)] polled_ok by fastforce
next
  case OpDrainOrCloseRead
  then show ?thesis using drain_ok [OF assms(1) _ assms(2)] assms(3) quiet_ok by fastforce
qed (use assms small_ok [OF assms(1)] in \<open>simp_all add: quiet_ok\<close>)

lemma conn_step_writes:
  assumes "good c" "conn_enabled c op" "op_writes op" "op_ok E contents ok op"
  shows "\<exists>ev c' out. conn_step E c op = Some (Some (ev, c')) \<and> good c' \<and> wire c c' out"
proof -
  have body: "\<exists>e. st_writing (cn_state c) = WriteBody e" if "can_write_body c"
    using that by (auto simp: can_write_body_def split: writing.split_asm)
  show ?thesis
  proof (cases op)
    case (OpWriteHead head body)
    obtain m t where "mh_subject head = RequestLine m t" by (cases "mh_subject head")
    then show ?thesis using write_head_ok [OF assms(1), of head m t body] assms OpWriteHead by fastforce
  next
    case (OpWriteBody chunk)
    then obtain e where e: "st_writing (cn_state c) = WriteBody e" using body assms(2) by auto
    show ?thesis using write_body_ok [OF assms(1) e, of chunk] assms(4) OpWriteBody by (fastforce simp: quiet_ok)
  next
    case (OpWriteTrailers trailers)
    then obtain e where e: "st_writing (cn_state c) = WriteBody e" using body assms(2) by auto
    show ?thesis using write_trailers_ok [OF assms(1) e, of trailers] OpWriteTrailers by (fastforce simp: quiet_ok)
  next
    case (OpWriteBodyAndEnd chunk)
    then obtain e where e: "st_writing (cn_state c) = WriteBody e" using body assms(2) by auto
    show ?thesis using write_body_and_end_ok [OF assms(1) e, of chunk] assms(4) OpWriteBodyAndEnd by (fastforce simp: quiet_ok)
  next
    case OpEndBody
    then obtain e where e: "st_writing (cn_state c) = WriteBody e" using body assms(2) by auto
    show ?thesis using end_body_ok [OF assms(1) e] OpEndBody by (fastforce simp: quiet_ok)
  qed (use assms(3) in simp_all)
qed

lemma conn_exec_ok:
  assumes "good c" "protocol_inv (protocol_of c)" "list_all (op_ok E contents ok) ops"
  shows "\<exists>evs c' out. conn_exec E c ops = Some (Some (evs, c')) \<and> good c' \<and> wire c c' out \<and> conn_run E c evs c' \<and>
    (list_all (\<lambda>op. \<not> op_writes op) ops \<longrightarrow> out = [])"
  using assms
proof (induction ops arbitrary: c)
  case Nil
  then show ?case using wire_ok_refl [of incoming sent contents c] run_start [of E c] by auto
next
  case (Cons op ops)
  show ?case
  proof (cases "conn_enabled c op")
    case False
    then show ?thesis using Cons.IH [OF Cons.prems(1,2)] Cons.prems(3) by auto
  next
    case True
    obtain ev c1 o1 where s: "conn_step E c op = Some (Some (ev, c1))" "good c1" "wire c c1 o1" "\<not> op_writes op \<longrightarrow> o1 = []"
      using conn_step_reads [OF Cons.prems(1,2) True] conn_step_writes [OF Cons.prems(1) True] Cons.prems(3)
      by (cases "op_writes op") auto
    have "protocol_inv (protocol_of c1)"
      using conn_step_refines [OF True s(1) Cons.prems(2)] Cons.prems(2) protocol_steps_inv by blast
    then obtain evs c2 o2 where r: "conn_exec E c1 ops = Some (Some (evs, c2))" "good c2" "wire c1 c2 o2" "conn_run E c1 evs c2"
        "list_all (\<lambda>op. \<not> op_writes op) ops \<longrightarrow> o2 = []"
      using Cons.IH [OF s(2)] Cons.prems(3) by auto
    have "conn_run E c (ev @ evs) c2" using run_trans [OF r(4) run_step [OF run_start True s(1)]] by simp
    then show ?thesis using s r True wire_ok_trans [OF s(3) r(3)] by (auto intro!: exI [of _ "o1 @ o2"])
  qed
qed

lemma send_chunked:
  assumes "good c" "st_writing (cn_state c) = WriteBody e" "encoder_is_chunked e" "list_all (body_piece contents ok) bs"
  shows "\<exists>c'. send_body E c bs = Some (Some c') \<and> good c' \<and> wire c c' (render (message_of (map contents bs)))"
  using assms(1,2,4)
proof (induction bs arbitrary: c)
  case Nil
  then show ?case using end_body_ok [OF Nil(1,2)] assms(3)
    by (auto simp: can_write_body_def render_def message_of_def render_line_def ext_bytes_def render_trailers_def)
next
  case (Cons b bs)
  have e: "wire_encoder e (contents b) = e" "wire_chunk e (contents b) = render_chunk (chunk_of (contents b))" "\<not> encoder_is_eof e"
    using assms(3) by (auto simp: encoder_is_chunked_def wire_encoder_def wire_chunk_def encoder_is_eof_def split: encoder_kind.split_asm)
  obtain c1 where c1: "write_body E c b = Some (Some c1)" "good c1" "wire c c1 (render_chunk (chunk_of (contents b)))"
      "st_writing (cn_state c1) = WriteBody e"
    using write_body_ok [OF Cons.prems(1,2), of b] Cons.prems(3) e by (auto simp: writing_of_def)
  obtain c2 where "send_body E c1 bs = Some (Some c2)" "good c2" "wire c1 c2 (render (message_of (map contents bs)))"
    using Cons.IH [OF c1(2,4)] Cons.prems(3) by auto
  then show ?case using c1 wire_ok_trans [OF c1(3)] by (fastforce simp: render_def message_of_def)
qed

lemma send_length:
  assumes "good c" "st_writing (cn_state c) = writing_of e" "enc_kind e = EncLength n" "list_all (body_piece contents ok) bs"
    "unat n = length (concat (map contents bs))"
  shows "\<exists>c'. send_body E c bs = Some (Some c') \<and> good c' \<and> wire c c' (concat (map contents bs)) \<and> \<not> can_write_body c'"
  using assms
proof (induction bs arbitrary: c e n)
  case Nil
  then have "n = 0" by (simp add: unat_eq_zero)
  then have "\<not> can_write_body c" using Nil by (simp add: writing_of_def encoder_is_eof_def can_write_body_def)
  then show ?case using Nil(1) wire_ok_refl [of incoming sent contents c] by auto
next
  case (Cons b bs)
  let ?e = "wire_encoder e (contents b)"
  have n: "n \<noteq> 0" "length (contents b) \<le> unat n" using Cons.prems(4,5) by (auto simp: body_piece_def)
  then have w: "st_writing (cn_state c) = WriteBody e" using Cons.prems(2,3) by (simp add: writing_of_def encoder_is_eof_def)
  have e: "enc_kind ?e = EncLength (of_nat (unat n - length (contents b)))" "wire_chunk e (contents b) = contents b"
    using Cons.prems(3) n by (simp_all add: wire_encoder_def wire_chunk_def)
  have u: "unat (of_nat (unat n - length (contents b)) :: u64) = length (concat (map contents bs))"
    using Cons.prems(5) unsigned_less [where w = n and 'a = nat] unat_of_nat_u64 [of "length (concat (map contents bs))"] by simp
  obtain c1 where c1: "write_body E c b = Some (Some c1)" "good c1" "wire c c1 (contents b)"
      "st_writing (cn_state c1) = writing_of ?e"
    using write_body_ok [OF Cons.prems(1) w, of b] Cons.prems(4) e by auto
  obtain c2 where "send_body E c1 bs = Some (Some c2)" "good c2" "wire c1 c2 (concat (map contents bs))" "\<not> can_write_body c2"
    using Cons.IH [OF c1(2,4) e(1) _ u] Cons.prems(4) by auto
  then show ?case using c1 wire_ok_trans [OF c1(3)] by fastforce
qed

end

lemma conn_new_fresh: "parser_ok R \<Longrightarrow> io_ok io \<Longrightarrow> conn_fresh io_ok contents ok (conn_new E R io)"
  by (simp add: conn_fresh_def conn_ok_def conn_new_def bd_new_def bd_read_ok_def wb_ok_def wb_new_def bl_ok_def
      bl_new_def bl_contents_def cursor_ok_def cursor_new_def reading_ok_def partial_ok_def writing_ok_def)

lemma reading_ok_upd:
  "reading_ok r (io\<lparr>bd_write_buf := w\<rparr>) = reading_ok r io" "reading_ok r (io\<lparr>bd_read_buf_strategy := s\<rparr>) = reading_ok r io"
  "bd_read_ok P (io\<lparr>bd_write_buf := w\<rparr>) = bd_read_ok P io" "bd_read_ok P (io\<lparr>bd_read_buf_strategy := s\<rparr>) = bd_read_ok P io"
  by (auto simp: reading_ok_def partial_ok_def bd_read_ok_def split: reading.split option.split)

lemma conn_fresh_settings:
  assumes "conn_fresh io_ok contents ok c"
  shows "parser_ok R \<Longrightarrow> conn_fresh io_ok contents ok (set_h1_parser_config c R)"
    "conn_fresh io_ok contents ok (conn_set_write_strategy_queue c)"
    "conn_fresh io_ok contents ok (conn_set_write_strategy_flatten c)"
    "conn_fresh io_ok contents ok (set_http1_max_headers c n)"
    "conn_fresh io_ok contents ok (set_http1_max_header_size c n)"
    "conn_fresh io_ok contents ok (set_h09_responses c)"
    "conn_fresh io_ok contents ok (conn_set_read_buf_exact_size c n)"
    "conn_set_max_buf_size c n = Some c' \<Longrightarrow> conn_fresh io_ok contents ok c'"
  using assms
  by (auto simp: conn_fresh_def reading_ok_upd conn_ok_def set_h1_parser_config_def conn_set_write_strategy_queue_def
      conn_set_write_strategy_flatten_def set_http1_max_headers_def set_http1_max_header_size_def set_h09_responses_def
      conn_set_read_buf_exact_size_def conn_set_max_buf_size_def set_max_buf_size_def set_read_buf_exact_size_def
      set_write_strategy_queue_def set_write_strategy_flatten_def set_strategy_def wb_ok_def
      split: if_split_asm)

lemma handshake_ok:
  assumes "handshake E PC opts io = Some c" "\<And>i a m. parser_ok (PC i a m)" "io_ok io"
  shows "conn_ok io_ok contents ok c"
proof -
  define c1 where "c1 = set_h1_parser_config (conn_new E (PC False False False) io)
    (PC (ho_ignore_invalid_headers_in_responses opts) (ho_allow_spaces_after_header_name_in_responses opts)
        (ho_allow_obsolete_multiline_headers_in_responses opts))"
  define c2 where "c2 = (case ho_h1_writev opts of Some writev \<Rightarrow>
      (if writev then conn_set_write_strategy_queue c1 else conn_set_write_strategy_flatten c1) | None \<Rightarrow> c1)"
  define c3 where "c3 = (case ho_h1_max_headers opts of Some n \<Rightarrow> set_http1_max_headers c2 n | None \<Rightarrow> c2)"
  define c4 where "c4 = (case ho_h1_max_header_size opts of Some n \<Rightarrow> set_http1_max_header_size c3 n | None \<Rightarrow> c3)"
  define c5 where "c5 = (if ho_h09_responses opts then set_h09_responses c4 else c4)"
  define c6 where "c6 = (case ho_h1_read_buf_exact_size opts of Some sz \<Rightarrow> conn_set_read_buf_exact_size c5 sz | None \<Rightarrow> c5)"
  note fresh = conn_fresh_settings [where io_ok = io_ok and contents = contents and ok = ok]
  have "conn_fresh io_ok contents ok c1" unfolding c1_def using assms(2,3) fresh(1) conn_new_fresh by metis
  then have "conn_fresh io_ok contents ok c2" by (auto simp: c2_def fresh split: option.split)
  then have "conn_fresh io_ok contents ok c3" by (auto simp: c3_def fresh split: option.split)
  then have "conn_fresh io_ok contents ok c4" by (auto simp: c4_def fresh split: option.split)
  then have "conn_fresh io_ok contents ok c5" by (auto simp: c5_def fresh)
  then have "conn_fresh io_ok contents ok c6" by (auto simp: c6_def fresh split: option.split)
  moreover have "(case ho_h1_max_buf_size opts of Some mx \<Rightarrow> conn_set_max_buf_size c6 mx | None \<Rightarrow> Some c6) = Some c"
    using assms(1) unfolding handshake_def Let_def c1_def c2_def c3_def c4_def c5_def c6_def .
  ultimately have "conn_fresh io_ok contents ok c" using fresh(8) by (auto split: option.split_asm)
  then show ?thesis by (simp add: conn_fresh_def)
qed

interpretation sample_world: conn_world sample_env sc_incoming sc_sent sc_ok "\<lambda>b. b" "\<lambda>b. True"
proof (rule conn_world.intro)
  show "http_crate (ce_http sample_env)" using assoc.http_crate_axioms by (simp add: sample_env_def)
  show "transport (ce_transport sample_env) sc_incoming sc_sent sc_ok"
    using script_transport [of sc_ok] by (simp add: sample_env_def)
  show "encoded_bufs (ce_buf sample_env) (\<lambda>b. b) (\<lambda>b. True) (ce_adapters sample_env) (ce_copy sample_env)"
    using slice_encoded.encoded_bufs_axioms by (simp add: sample_env_def)
qed

lemma step_chunk_buf:
  assumes "step rd st r (step_args_of c) = (Ready (Inr st'), a, r')"
  shows "sa_chunk_buf a \<noteq> Some []"
  using assms
  by (auto simp: step_def step_args_of_def read_body_def Let_def split: chunked_state.split_asm prod.split_asm poll.split_asm
      sum.split_asm if_split_asm)

lemma chunked_loop_empty:
  assumes "chunked_loop A P rd c r = Some res" "res = (Ready (Inr (Data [])), c', r')"
  shows "dk_state c' = End"
  using assms(2)
proof (induction rule: chunked_loop.raw_induct [OF _ assms(1)])
  case (1 loop A P rd c r res)
  obtain st a r1 where st: "step rd (dk_state c) r (step_args_of c) = (Ready (Inr st), a, r1)"
    using 1(2,3) by (auto split: prod.split_asm poll.split_asm sum.split_asm)
  show ?case
  proof (cases "st = End")
    case True
    then show ?thesis using 1(2,3) st by (auto simp: Let_def split: option.split_asm)
  next
    case False
    then show ?thesis using 1 st step_chunk_buf [OF st] by (auto simp: Let_def split: option.split_asm)
  qed
qed

lemma decode_empty_eof:
  assumes "decode A P rd d r = Some (Ready (Inr (Data [])), d', r')"
  shows "decoder_is_eof d'"
  using assms
  by (cases d) (auto dest: chunked_loop_empty simp: decode_def Let_def split: prod.split_asm poll.split_asm sum.split_asm if_split_asm)

section \<open>Properties\<close>





text \<open>
  C10.  A body is reported as ended only when it is complete: when \<^verbatim>\<open>poll_read_body\<close> returns the end,
  the decoder has seen the end of its framing, the branch the code marks as unreachable is not
  taken, whatever the reader does, and a truncated body always ends in an error.
\<close>

theorem body_end_is_complete:
  assumes "st_reading (cn_state c) = ReadBody d" "poll_read_body E c = Some (Ready None, c')"
  shows "\<exists>d' io. decode (ce_http E) (ce_httparse E) (read_mem (ce_transport E)) d (cn_io c) =
      Some (Ready (Inr (Data [])), d', io) \<and> decoder_is_eof d'"
proof -
  obtain res d' io where dec: "decode (ce_http E) (ce_httparse E) (read_mem (ce_transport E)) d (cn_io c) = Some (res, d', io)"
    using assms by (auto simp: poll_read_body_def read_body_state_def split: option.split_asm)
  have res: "res = Ready (Inr (Data []))"
    using assms dec
    by (auto simp: poll_read_body_def read_body_state_def finish_read_def Let_def
        split: poll.split_asm sum.split_asm frame.split_asm if_split_asm option.split_asm)
  show ?thesis using dec [unfolded res] decode_empty_eof [OF dec [unfolded res]] by blast
qed

theorem body_end_is_complete_witness:
  "\<exists>c'. poll_read_body sample_env (set_reading (ReadBody (Length 0)) sample_conn) = Some (Ready None, c') \<and>
     (\<exists>d' io. decode assoc_api sample_httparse (read_mem sc_api) (Length 0) (cn_io sample_conn) =
       Some (Ready (Inr (Data [])), d', io) \<and> decoder_is_eof d')"
proof -
  let ?c = "set_reading (ReadBody (Length 0)) sample_conn"
  have "\<exists>c'. poll_read_body sample_env ?c = Some (Ready None, c')"
    by (simp add: poll_read_body_def read_body_state_def decode_def finish_read_def try_keep_alive_def
        state_try_keep_alive_def maybe_notify_def set_reading_def sample_conn_def conn_new_def)
  then show ?thesis using body_end_is_complete [of ?c "Length 0" sample_env]
    by (auto simp: set_reading_def sample_env_def)
qed

end
