(* ===== verification/Masque_Capsule.thy ===== *)
theory Masque_Capsule
  imports Netty_Prelude
begin

text \<open>
  The Capsule Protocol of CONNECT-UDP (\<^verbatim>\<open>src/src/proxy/masque/capsule.rs\<close>): variable-length integers,
  DATAGRAM capsules and the streaming decoder, whose state is the number of bytes still to skip.
  \<open>drain_capsules\<close> and \<open>feed_capsules\<close> are the way a tunnel uses the decoder, on everything that is
  buffered and on one piece of the stream after another; \<open>capsule\<close> is what a sender may write.  The
  lemmas show that the integers round-trip, that more bytes never change what was decoded, and that
  written capsules are read back.
\<close>

section \<open>Definitions\<close>

unbundle bit_operations_syntax

definition MAX_UDP_PAYLOAD :: nat where "MAX_UDP_PAYLOAD = 65527"

definition CAPSULE_DATAGRAM :: u64 where "CAPSULE_DATAGRAM = 0"

definition MAX_DATAGRAM :: nat where "MAX_DATAGRAM = 8 + MAX_UDP_PAYLOAD"

text \<open>\<^verbatim>\<open>BufMut::put_uint\<close>: the low \<open>n\<close> bytes, most significant first.\<close>

definition put_uint :: "u64 \<Rightarrow> nat \<Rightarrow> byte list" where
  "put_uint v n = map (\<lambda>i. ucast (drop_bit (8 * i) v)) (rev [0..<n])"

definition put_varint :: "byte list \<Rightarrow> u64 \<Rightarrow> byte list" where
  "put_varint buf v =
     (let (tag, len) =
        (if v < 0x40 then (0, 1)
         else if v < 0x4000 then (0x4000, 2)
         else if v < 0x40000000 then (0x80000000, 4)
         else (0xC000000000000000, 8)) in
      buf @ put_uint (tag OR v) len)"

definition varint :: "byte list \<Rightarrow> (u64 \<times> nat) option" where
  "varint buf =
     (case buf of
        [] \<Rightarrow> None
      | first # _ \<Rightarrow>
          (let len = 2 ^ unat (drop_bit 6 first) in
           if len \<le> length buf then
             Some (foldl (\<lambda>value b. push_bit 8 value OR ucast b) (ucast (first AND 0x3F)) (drop 1 (take len buf)), len)
           else None))"

definition encode_datagram :: "byte list \<Rightarrow> byte list \<Rightarrow> byte list" where
  "encode_datagram payload buf =
     put_varint (put_varint buf CAPSULE_DATAGRAM) (of_nat (length payload) + 1) @ [0] @ payload"

datatype masque_error =
    InvalidTemplate string
  | InvalidTarget
  | ConnectFailed
  | RequestFailed
  | Unsuccessful nat
  | InvalidResponse
  | Malformed
  | MasqueIo io_error

text \<open>The first statement of the loop: the rest of a capsule that is skipped.\<close>

definition skip_bytes :: "u64 \<Rightarrow> byte list \<Rightarrow> u64 \<times> byte list" where
  "skip_bytes skip buf =
     (if skip > 0 then
        (let n = min (unat skip) (length buf) in (skip - of_nat n, drop n buf))
      else (skip, buf))"

text \<open>One capsule header: the type, the length, and the length of the header.\<close>

definition capsule_header :: "byte list \<Rightarrow> (u64 \<times> u64 \<times> nat) option" where
  "capsule_header buf =
     (case varint buf of
        None \<Rightarrow> None
      | Some (kind, kind_len) \<Rightarrow>
          (case varint (drop kind_len buf) of
             None \<Rightarrow> None
           | Some (len, len_len) \<Rightarrow> Some (kind, len, kind_len + len_len)))"

function capsule_decode :: "u64 \<Rightarrow> byte list \<Rightarrow> (masque_error + byte list option) \<times> u64 \<times> byte list" where
  "capsule_decode skip0 buf0 =
     (case skip_bytes skip0 buf0 of
        (skip, buf) \<Rightarrow>
          if skip > 0 then (Inr None, skip, buf)
          else
            (case capsule_header buf of
               None \<Rightarrow> (Inr None, skip, buf)
             | Some (kind, len, header) \<Rightarrow>
                 if kind = CAPSULE_DATAGRAM then
                   (if unat len \<le> MAX_DATAGRAM then
                      (if length buf < header + unat len then (Inr None, skip, buf)
                       else (Inr (Some (take (unat len) (drop header buf))), skip, drop (header + unat len) buf))
                    else
                      (case varint (drop header buf) of
                         None \<Rightarrow> (Inr None, skip, buf)
                       | Some (context, _) \<Rightarrow>
                           if context = 0 then (Inl Malformed, skip, buf)
                           else capsule_decode len (drop header buf)))
                 else capsule_decode len (drop header buf)))"
  by auto

termination
proof (relation "measure (\<lambda>(s, b). length b)", goal_cases)
  have header: "0 < h \<and> b \<noteq> []" if "capsule_header b = Some (k, l, h)" for b k l h
    using that by (auto simp: capsule_header_def varint_def Let_def split: option.split_asm list.split_asm if_split_asm)
  have skip: "length b' \<le> length b" if "(s', b') = skip_bytes s b" for s b s' b'
    using that by (auto simp: skip_bytes_def Let_def split: if_split_asm)
  {
    case 1
    show ?case by simp
  next
    case 2
    then show ?case by (auto dest!: header skip) (metis diff_less le_less_trans length_greater_0_conv less_le_trans)
  next
    case 3
    then show ?case by (auto dest!: header skip) (metis diff_less le_less_trans length_greater_0_conv less_le_trans)
  }
qed

declare capsule_decode.simps [simp del]

definition is_partial :: "u64 \<Rightarrow> byte list \<Rightarrow> bool" where
  "is_partial skip buf = (skip > 0 \<or> buf \<noteq> [])"

text \<open>
  Every value that is ready, and how the stream was left.  A value has been taken from the buffer
  (\<open>capsule_decode_shrinks\<close>); the comparison of the lengths only shows that the recursion ends.
\<close>

function drain_capsules :: "u64 \<Rightarrow> byte list \<Rightarrow> byte list list \<times> masque_error option \<times> u64 \<times> byte list" where
  "drain_capsules skip buf =
     (case capsule_decode skip buf of
        (Inl e, skip', buf') \<Rightarrow> ([], Some e, skip', buf')
      | (Inr None, skip', buf') \<Rightarrow> ([], None, skip', buf')
      | (Inr (Some v), skip', buf') \<Rightarrow>
          if length buf' < length buf then
            (case drain_capsules skip' buf' of (vs, r) \<Rightarrow> (v # vs, r))
          else ([v], None, skip', buf'))"
  by auto

termination by (relation "measure (\<lambda>(s, b). length b)") auto

declare drain_capsules.simps [simp del]

text \<open>The bytes arrive in pieces; an error ends the stream.\<close>

fun feed_capsules :: "u64 \<Rightarrow> byte list \<Rightarrow> byte list list \<Rightarrow> byte list list \<times> masque_error option \<times> u64 \<times> byte list" where
  "feed_capsules skip buf [] = ([], None, skip, buf)"
| "feed_capsules skip buf (piece # pieces) =
     (case drain_capsules skip (buf @ piece) of
        (vs, Some e, skip', buf') \<Rightarrow> (vs, Some e, skip', buf')
      | (vs, None, skip', buf') \<Rightarrow>
          (case feed_capsules skip' buf' pieces of (ws, r) \<Rightarrow> (vs @ ws, r)))"

text \<open>A capsule as a sender may write it.\<close>

datatype capsule = Datagram "byte list" | OtherCapsule u64 "byte list"

fun capsule_bytes :: "capsule \<Rightarrow> byte list" where
  "capsule_bytes (Datagram payload) = encode_datagram payload []"
| "capsule_bytes (OtherCapsule kind body) = put_varint (put_varint [] kind) (of_nat (length body)) @ body"

fun capsule_ok :: "capsule \<Rightarrow> bool" where
  "capsule_ok (Datagram payload) = (length payload \<le> MAX_UDP_PAYLOAD)"
| "capsule_ok (OtherCapsule kind body) = (kind \<noteq> CAPSULE_DATAGRAM \<and> kind < 2 ^ 62 \<and> length body < 2 ^ 62)"

fun capsule_values :: "capsule list \<Rightarrow> byte list list" where
  "capsule_values [] = []"
| "capsule_values (Datagram payload # cs) = (0 # payload) # capsule_values cs"
| "capsule_values (OtherCapsule kind body # cs) = capsule_values cs"

lemma or_low_bits: "(y :: nat) < 2 ^ k \<Longrightarrow> push_bit k x OR y = 2 ^ k * x + y"
proof -
  assume "y < 2 ^ k"
  then have "take_bit k y = y" by (simp add: take_bit_nat_eq_self_iff)
  then have "\<not> bit (push_bit k x) n \<or> \<not> bit y n" for n
    by (metis bit_push_bit_iff_nat bit_take_bit_iff not_less)
  then have "push_bit k x + y = push_bit k x OR y" by (rule disjunctive_add)
  then show ?thesis by (simp add: push_bit_eq_mult mult.commute)
qed

lemma unat_push_or:
  assumes "unat (v :: u64) * 256 < 2 ^ 64"
  shows "unat (push_bit 8 v OR ucast (b :: byte)) = 256 * unat v + unat b"
proof -
  have "unat (push_bit 8 v) = push_bit 8 (unat v)"
    unfolding unsigned_push_bit_eq using assms by (simp add: take_bit_nat_eq_self_iff push_bit_eq_mult)
  moreover have "unat b < 2 ^ 8" using unsigned_less [where w = b and 'a = nat] by simp
  ultimately show ?thesis using or_low_bits [of "unat b" 8 "unat v"] by (simp add: unsigned_or_eq unat_ucast_byte_u64)
qed

lemma unat_byte_of: "unat (ucast (v :: u64) :: byte) = unat v mod 256"
  by (simp add: unsigned_ucast_eq take_bit_eq_mod)

lemma unat_tag: 
  assumes "unat (v::u64) < 2 ^ k" "unat t = 2 ^ k * x" 
  shows "unat (t OR v) = 2 ^ k * x + unat v"
  using or_low_bits [OF assms(1), of x] assms(2) by (simp add: unsigned_or_eq push_bit_eq_mult mult.commute)

lemma unat_and_63: "unat (b AND 0x3F :: byte) = unat b mod 64"
proof -
  have "(0x3F :: byte) = mask 6" by (simp add: mask_eq_exp_minus_1)
  then have "b AND 0x3F = take_bit 6 b" by (simp add: take_bit_eq_mask)
  then show ?thesis by (simp only: unsigned_take_bit_eq) (simp add: take_bit_eq_mod)
qed

lemma unat_top: "unat (drop_bit 6 (b :: byte)) = unat b div 64"
  by (simp only: unat_drop_bit_eq) (simp add: drop_bit_eq_div)

lemma foldl_be:
  assumes "(unat v + 1) * 256 ^ length bs \<le> 2 ^ 64"
  shows "unat (foldl (\<lambda>value b. push_bit 8 value OR ucast b) (v :: u64) bs) =
    foldl (\<lambda>a b. 256 * a + unat b) (unat v) (bs :: byte list)"
  using assms
proof (induction bs arbitrary: v)
  case (Cons b bs)
  have bound: "(unat v + 1) * 256 * 256 ^ length bs \<le> 2 ^ 64" using Cons.prems by (simp add: algebra_simps)
  have "(unat v + 1) * 256 * 1 \<le> (unat v + 1) * 256 * 256 ^ length bs" by (rule mult_le_mono2) simp
  then have "(unat v + 1) * 256 * 1 \<le> 2 ^ 64" using bound by (rule order_trans)
  then have u: "unat (push_bit 8 v OR ucast b) = 256 * unat v + unat b"
    by (intro unat_push_or) simp
  have "unat b < 256" using unsigned_less [where w = b and 'a = nat] by simp
  then have "256 * x + unat b + 1 \<le> (x + 1) * 256" for x by presburger
  then have "(256 * unat v + unat b + 1) * 256 ^ length bs \<le> (unat v + 1) * 256 * 256 ^ length bs"
    by (rule mult_le_mono1)
  then have "(unat (push_bit 8 v OR ucast b) + 1) * 256 ^ length bs \<le> 2 ^ 64"
    unfolding u using bound by (rule order_trans)
  from Cons.IH [OF this] show ?case using u by simp
qed simp

lemma be_bytes:
  "foldl (\<lambda>a b. 256 * a + unat b) (unat (v :: u64) div 2 ^ (8 * n)) (put_uint v n) = unat v"
proof (induction n)
  case (Suc n)
  have "put_uint v (Suc n) = ucast (drop_bit (8 * n) v) # put_uint v n" by (simp add: put_uint_def)
  moreover have "unat (ucast (drop_bit (8 * n) v) :: byte) = unat v div 2 ^ (8 * n) mod 256"
    unfolding unat_byte_of unat_drop_bit_eq by (simp add: drop_bit_eq_div)
  moreover have "unat v div 2 ^ (8 * Suc n) = unat v div 2 ^ (8 * n) div 256"
  proof -
    have "(2 :: nat) ^ (8 * Suc n) = 2 ^ (8 * n) * 256" by (simp add: power_add)
    then show ?thesis by (simp only: div_mult2_eq)
  qed
  ultimately show ?case using Suc by (simp add: mult_div_mod_eq)
qed (simp add: put_uint_def)

lemma put_uint_low:
  assumes "unat w mod 2 ^ (8 * n) = unat v mod 2 ^ (8 * n)"
  shows "put_uint w n = put_uint v n"
proof -
  have "take_bit (8 * n) w = take_bit (8 * n) v"
  proof -
    have "unat (take_bit (8 * n) w) = unat (take_bit (8 * n) v)"
      unfolding unsigned_take_bit_eq using assms by (simp add: take_bit_eq_mod)
    then show ?thesis by (rule unsigned_word_eqI)
  qed
  then have bits: "bit w k = bit v k" if "k < 8 * n" for k using that by (metis bit_take_bit_iff)
  have "(ucast (drop_bit (8 * i) w) :: byte) = ucast (drop_bit (8 * i) v)" if "i < n" for i
    using that bits by (intro bit_word_eqI) (simp add: bit_simps)
  then show ?thesis by (simp add: put_uint_def)
qed

lemma put_uint_length: "length (put_uint v n) = n"
  by (simp add: put_uint_def)

lemma varint_uint:
  assumes "unat w = 2 ^ (8 * n + 6) * t + unat v" "unat v < 2 ^ (8 * n + 6)" "2 ^ t = Suc n" "t < 4"
  shows "varint (put_uint w (Suc n) @ rest) = Some (v, Suc n)"
proof -
  let ?f = "ucast (drop_bit (8 * n) w) :: byte"
  have p: "put_uint w (Suc n) = ?f # put_uint w n" by (simp add: put_uint_def)
  have d: "unat w div 2 ^ (8 * n) = 64 * t + unat v div 2 ^ (8 * n)"
  proof -
    have "unat w = 64 * t * 2 ^ (8 * n) + unat v" using assms(1) by (simp add: power_add)
    then show ?thesis by simp
  qed
  have q: "unat v div 2 ^ (8 * n) < 64" using assms(2) by (simp add: power_add less_mult_imp_div_less mult.commute)
  have f: "unat ?f = 64 * t + unat v div 2 ^ (8 * n)"
    using d q assms(4) unfolding unat_byte_of unat_drop_bit_eq by (simp add: drop_bit_eq_div)
  have len: "2 ^ unat (drop_bit 6 ?f) = Suc n" using f q assms(3) unfolding unat_top by simp
  have lo: "unat (?f AND 0x3F) = unat v div 2 ^ (8 * n)" using f q unfolding unat_and_63 by simp
  have n: "n = 0 \<or> n = 1 \<or> n = 3 \<or> n = 7" 
  proof -
    have "t \<in> {0, 1, 2, 3}" using assms(4) by auto
    then show ?thesis using assms(3) by auto
  qed
  let ?g = "foldl (\<lambda>value b. push_bit 8 value OR ucast b) (ucast (?f AND 0x3F) :: u64) (put_uint w n)"
  have u0: "unat (ucast (?f AND 0x3F) :: u64) = unat v div 2 ^ (8 * n)" using lo by (simp add: unat_ucast_byte_u64)
  have "(unat v div 2 ^ (8 * n) + 1) * 256 ^ n \<le> 64 * 256 ^ n" using q by (intro mult_le_mono1) simp
  also have "64 * 256 ^ n \<le> (2 :: nat) ^ 64" using n by auto
  finally have "unat ?g = foldl (\<lambda>a b. 256 * a + unat b) (unat v div 2 ^ (8 * n)) (put_uint w n)"
    using foldl_be [of "ucast (?f AND 0x3F)" "put_uint w n"] u0 by (simp add: put_uint_length)
  moreover have "put_uint w n = put_uint v n"
    by (rule put_uint_low) (simp add: assms(1) power_add mult.assoc)
  ultimately have "unat ?g = unat v" using be_bytes [of v n] by simp
  then have "?g = v" by (rule unsigned_word_eqI)
  then show ?thesis using p len put_uint_length [of w n] by (simp add: varint_def)
qed

lemma varint_put:
  assumes "v < 2 ^ 62"
  shows "\<exists>n. put_varint buf v = buf @ put_varint [] v \<and> length (put_varint [] v) = n \<and> n \<in> {1, 2, 4, 8} \<and>
    varint (put_varint [] v @ rest) = Some (v, n)"
proof -
  consider "v < 0x40" | "\<not> v < 0x40" "v < 0x4000" | "\<not> v < 0x4000" "v < 0x40000000" | "\<not> v < 0x40000000"
    by blast
  then show ?thesis
  proof cases
    case 1
    then have "unat v < 2 ^ 6" by (simp add: word_less_nat_alt)
    then have "varint (put_uint v (Suc 0) @ rest) = Some (v, Suc 0)"
      using varint_uint [of v 0 0 v rest] by simp
    then show ?thesis using 1 by (simp add: put_varint_def put_uint_length)
  next
    case 2
    then have b: "unat v < 2 ^ 14" by (simp add: word_less_nat_alt)
    have "unat (0x4000 OR v) = 2 ^ (8 * 1 + 6) * 1 + unat v" using unat_tag [OF b, of "0x4000" 1] by simp
    moreover have "unat v < 2 ^ (8 * 1 + 6)" "(2 :: nat) ^ 1 = Suc 1" "(1 :: nat) < 4" using b by simp_all
    ultimately have "varint (put_uint (0x4000 OR v) (Suc 1) @ rest) = Some (v, Suc 1)" by (rule varint_uint)
    then show ?thesis using 2 by (auto simp: put_varint_def put_uint_length numeral_2_eq_2)
  next
    case 3
    then have b: "unat v < 2 ^ 30" by (simp add: word_less_nat_alt)
    have "unat (0x80000000 OR v) = 2 ^ (8 * 3 + 6) * 2 + unat v" using unat_tag [OF b, of "0x80000000" 2] by simp
    moreover have "unat v < 2 ^ (8 * 3 + 6)" "(2 :: nat) ^ 2 = Suc 3" "(2 :: nat) < 4" using b by simp_all
    ultimately have "varint (put_uint (0x80000000 OR v) (Suc 3) @ rest) = Some (v, Suc 3)" by (rule varint_uint)
    moreover have "\<not> v < 0x40" "\<not> v < 0x4000" using 3 by (auto simp: word_less_nat_alt)
    ultimately show ?thesis using 3 by (simp add: put_varint_def put_uint_length)
  next
    case 4
    have b: "unat v < 2 ^ 62" using assms by (simp add: word_less_nat_alt)
    have "unat (0xC000000000000000 OR v) = 2 ^ (8 * 7 + 6) * 3 + unat v" using unat_tag [OF b, of "0xC000000000000000" 3] by simp
    moreover have "unat v < 2 ^ (8 * 7 + 6)" "(2 :: nat) ^ 3 = Suc 7" "(3 :: nat) < 4" using b by simp_all
    ultimately have "varint (put_uint (0xC000000000000000 OR v) (Suc 7) @ rest) = Some (v, Suc 7)" by (rule varint_uint)
    moreover have "\<not> v < 0x40" "\<not> v < 0x4000" using 4 by (auto simp: word_less_nat_alt)
    ultimately show ?thesis using 4 by (simp add: put_varint_def put_uint_length)
  qed
qed

lemma varint_append: "varint b = Some r \<Longrightarrow> varint (b @ x) = Some r"
  by (cases b) (auto simp: varint_def Let_def take_Cons' split: if_split_asm)

lemma varint_len: "varint b = Some (v, n) \<Longrightarrow> n \<in> {1, 2, 4, 8} \<and> n \<le> length b \<and> b \<noteq> []"
proof -
  assume *: "varint b = Some (v, n)"
  then obtain f r where b: "b = f # r" "n = 2 ^ unat (drop_bit 6 f)" "n \<le> length b"
    by (auto simp: varint_def Let_def split: list.split_asm if_split_asm)
  have "unat f < 256" using unsigned_less [where w = f and 'a = nat] by simp
  then have "unat (drop_bit 6 f) < 4" unfolding unat_top by (intro less_mult_imp_div_less) simp
  then have "unat (drop_bit 6 f) \<in> {0, 1, 2, 3}" by auto
  then show ?thesis using b by auto
qed

lemma capsule_header_len: "capsule_header b = Some (k, l, h) \<Longrightarrow> 2 \<le> h \<and> h \<le> 16 \<and> h \<le> length b"
  by (auto simp: capsule_header_def split: option.split_asm dest!: varint_len)

lemma capsule_header_append: "capsule_header b = Some r \<Longrightarrow> capsule_header (b @ x) = Some r"
proof -
  assume *: "capsule_header b = Some r"
  then obtain k n l m where v: "varint b = Some (k, n)" "varint (drop n b) = Some (l, m)" "r = (k, l, n + m)"
    by (auto simp: capsule_header_def split: option.split_asm)
  have "drop n (b @ x) = drop n b @ x" using varint_len [OF v(1)] by simp
  then show ?thesis using varint_append [OF v(1), of x] varint_append [OF v(2), of x] v(3) by (simp add: capsule_header_def)
qed

lemma skip_bytes_len: "skip_bytes s b = (s', b') \<Longrightarrow> length b' \<le> length b"
  by (auto simp: skip_bytes_def Let_def split: if_split_asm)

lemma skip_bytes_split:
  assumes "skip_bytes s b = (s', b')"
  shows "(s' = 0 \<or> b' = []) \<and> skip_bytes s (b @ x) = skip_bytes s' (b' @ x)"
proof (cases "s = 0")
  case False
  then have s: "s > 0" by (simp add: word_neq_0_conv)
  show ?thesis
  proof (cases "length b < unat s")
    case True
    then have eq: "s' = s - of_nat (length b)" "b' = []" using assms s by (auto simp: skip_bytes_def Let_def)
    have "unat (of_nat (length b) :: u64) = length b"
      by (rule unat_of_nat_u64, rule order.strict_trans [OF True]) simp
    then have u: "unat s' = unat s - length b" "s' > 0"
      using eq True by (simp_all add: unat_sub word_le_nat_alt word_less_nat_alt)
    have "s - of_nat (min (unat s) (length (b @ x))) = s' - of_nat (min (unat s') (length x))"
      using eq(1) u True by (simp add: min_def le_diff_conv add.commute)
    moreover have "min (unat s) (length b + length x) - length b = min (unat s - length b) (length x)" by linarith
    ultimately show ?thesis using eq(2) s u True by (simp add: skip_bytes_def Let_def)
  next
    case False
    then have "s' = 0" "b' = drop (unat s) b" using assms s by (auto simp: skip_bytes_def Let_def min_def)
    then show ?thesis using s False by (simp add: skip_bytes_def Let_def min_def)
  qed
qed (use assms in \<open>auto simp: skip_bytes_def\<close>)

section \<open>More bytes\<close>

lemma capsule_decode_wait:
  assumes "skip_bytes s b = (t, c)" "t > 0 \<or> capsule_header c = None"
  shows "capsule_decode s b = (Inr None, t, c)"
  using assms by (auto simp: capsule_decode.simps [of s b])

lemma capsule_decode_step:
  assumes "skip_bytes s b = (0, c)" "capsule_header c = Some (k, l, h)"
  shows "capsule_decode s b = (if k = CAPSULE_DATAGRAM then
       (if unat l \<le> MAX_DATAGRAM then
          (if length c < h + unat l then (Inr None, 0, c)
           else (Inr (Some (take (unat l) (drop h c))), 0, drop (h + unat l) c))
        else
          (case varint (drop h c) of
             None \<Rightarrow> (Inr None, 0, c)
           | Some (context, _) \<Rightarrow>
               if context = 0 then (Inl Malformed, 0, c) else capsule_decode l (drop h c)))
     else capsule_decode l (drop h c))"
  using assms by (simp add: capsule_decode.simps [of s b])

text \<open>The three ways a call goes: it waits, it is decided by the header, or the loop goes on.\<close>

lemma capsule_decode_cases:
  obtains (wait) t c where "skip_bytes s b = (t, c)" "t > 0 \<or> capsule_header c = None"
      "capsule_decode s b = (Inr None, t, c)"
  | (short) c l h where "skip_bytes s b = (0, c)" "capsule_header c = Some (CAPSULE_DATAGRAM, l, h)" "unat l \<le> MAX_DATAGRAM"
  | (big) c l h where "skip_bytes s b = (0, c)" "capsule_header c = Some (CAPSULE_DATAGRAM, l, h)" "\<not> unat l \<le> MAX_DATAGRAM"
      "varint (drop h c) = None \<or> (\<exists>n. varint (drop h c) = Some (0, n))"
  | (loop) c k l h where "skip_bytes s b = (0, c)" "capsule_header c = Some (k, l, h)"
      "capsule_decode s b = capsule_decode l (drop h c)" "\<And>x. capsule_decode 0 (c @ x) = capsule_decode l (drop h (c @ x))"
      "length (drop h c) < length b"
proof -
  obtain t c where sk: "skip_bytes s b = (t, c)" by force
  show thesis
  proof (cases "t > 0 \<or> capsule_header c = None")
    case True
    then show ?thesis using wait [OF sk] capsule_decode_wait [OF sk] by blast
  next
    case False
    then obtain k l h where "t = 0" and hd: "capsule_header c = Some (k, l, h)" using word_neq_0_conv by auto
    then have sk0: "skip_bytes s b = (0, c)" using sk by simp
    have len: "length (drop h c) < length b" "h \<le> length c"
      using capsule_header_len [OF hd] skip_bytes_len [OF sk] by auto
    have sx: "skip_bytes 0 (c @ x) = (0, c @ x)" for x by (simp add: skip_bytes_def)
    note step = capsule_decode_step [OF sk0 hd] capsule_decode_step [OF sx capsule_header_append [OF hd]]
    show ?thesis
    proof (cases "k = CAPSULE_DATAGRAM \<and> (unat l \<le> MAX_DATAGRAM \<or> varint (drop h c) = None \<or> (\<exists>n. varint (drop h c) = Some (0, n)))")
      case True
      then show ?thesis using short [OF sk0] big [OF sk0] hd by blast
    next
      case go: False
      have "capsule_decode s b = capsule_decode l (drop h c) \<and>
        (\<forall>x. capsule_decode 0 (c @ x) = capsule_decode l (drop h (c @ x)))"
      proof (cases "k = CAPSULE_DATAGRAM")
        case False
        then show ?thesis using step by simp
      next
        case True
        then obtain v n where v: "varint (drop h c) = Some (v, n)" "v \<noteq> 0" "\<not> unat l \<le> MAX_DATAGRAM"
          using go by (cases "varint (drop h c)") auto
        show ?thesis using step len True v(2,3) v(1) varint_append [OF v(1)] by simp
      qed
      then show ?thesis using loop [OF sk0 hd _ _ len(1)] by blast
    qed
  qed
qed

lemma capsule_decode_append:
  assumes "capsule_decode s b = (res, s', b')"
  shows "capsule_decode s (b @ x) =
    (case res of Inr None \<Rightarrow> capsule_decode s' (b' @ x) | _ \<Rightarrow> (res, s', b' @ x))"
  using assms
proof (induction "length b" arbitrary: s b res s' b' rule: less_induct)
  case less
  have again: "capsule_decode s (b @ x) = capsule_decode t (c @ x)" if "skip_bytes s b = (t, c)" for t c
    using skip_bytes_split [OF that, of x] by (simp add: capsule_decode.simps [of s] capsule_decode.simps [of t])
  have sx: "skip_bytes 0 (c @ x) = (0, c @ x)" for c by (simp add: skip_bytes_def)
  show ?case
  proof (cases s b rule: capsule_decode_cases)
    case (wait t c)
    then show ?thesis using less.prems again [OF wait(1)] by simp
  next
    case (short c l h)
    note step = capsule_decode_step [OF short(1,2)] capsule_decode_step [OF sx capsule_header_append [OF short(2)]]
    show ?thesis using step short(3) less.prems again [OF short(1)] capsule_header_len [OF short(2)] by (auto split: if_split_asm)
  next
    case (big c l h)
    note step = capsule_decode_step [OF big(1,2)] capsule_decode_step [OF sx capsule_header_append [OF big(2)]]
    show ?thesis using big(4)
    proof
      assume "varint (drop h c) = None"
      then show ?thesis using step big(3) less.prems again [OF big(1)] by simp
    next
      assume "\<exists>n. varint (drop h c) = Some (0, n)"
      then obtain n where v: "varint (drop h c) = Some (0, n)" by blast
      show ?thesis using step big(3) v varint_append [OF v, of x] less.prems again [OF big(1)] capsule_header_len [OF big(2)] by auto
    qed
  next
    case (loop c k l h)
    have "drop h (c @ x) = drop h c @ x" using capsule_header_len [OF loop(2)] by simp
    then show ?thesis using less.hyps [OF loop(5), of l res s' b'] less.prems loop(3,4) again [OF loop(1)] by simp
  qed
qed

lemma varint_short: "varint b = None \<Longrightarrow> length b < 8"
proof (rule ccontr)
  assume "varint b = None" "\<not> length b < 8"
  then obtain f r where b: "b = f # r" "length b < 2 ^ unat (drop_bit 6 f)"
    by (cases b) (auto simp: varint_def Let_def split: if_split_asm)
  have "unat f div 64 < 4" using unsigned_less [where w = f and 'a = nat] by (intro less_mult_imp_div_less) simp
  then have "unat (drop_bit 6 f) \<le> 3" unfolding unat_top by linarith
  then have "(2 :: nat) ^ unat (drop_bit 6 f) \<le> 2 ^ 3" by (rule power_increasing) simp
  then show False using b(2) \<open>\<not> length b < 8\<close> by simp
qed

lemma capsule_header_short:
  assumes "capsule_header b = None"
  shows "length b < 16"
proof (cases "varint b")
  case None
  then show ?thesis using varint_short [of b] by simp
next
  case (Some r)
  obtain v n where r: "r = (v, n)" by force
  then have "varint (drop n b) = None" using assms Some by (auto simp: capsule_header_def split: option.split_asm)
  then have "length (drop n b) < 8" by (rule varint_short)
  then show ?thesis using varint_len [of b v n] Some r by auto
qed

lemma capsule_decode_shrinks:
  assumes "capsule_decode s b = (res, s', b')"
  shows "length b' \<le> length b \<and> (\<forall>v. res = Inr (Some v) \<longrightarrow> length b' < length b \<and> length v \<le> MAX_DATAGRAM) \<and>
    (res = Inr None \<longrightarrow> length b' < 24 + MAX_DATAGRAM)"
  using assms
proof (induction "length b" arbitrary: s b res s' b' rule: less_induct)
  case less
  show ?case
  proof (cases s b rule: capsule_decode_cases)
    case (wait t c)
    then have "c = [] \<or> length c < 16" using skip_bytes_split [of s b t c] capsule_header_short by fastforce
    then show ?thesis using wait less.prems skip_bytes_len by (fastforce simp: MAX_DATAGRAM_def)
  next
    case (short c l h)
    then show ?thesis using capsule_decode_step [OF short(1,2)] less.prems skip_bytes_len capsule_header_len [OF short(2)]
      by (fastforce split: if_split_asm)
  next
    case (big c l h)
    have "length (drop h c) < 8" if "varint (drop h c) = None" using varint_short [OF that] .
    then show ?thesis using capsule_decode_step [OF big(1,2)] big(3,4) less.prems skip_bytes_len [OF big(1)] capsule_header_len [OF big(2)]
      by (auto simp: MAX_DATAGRAM_def)
  next
    case (loop c k l h)
    then show ?thesis using less.hyps [OF loop(5), of l res s' b'] less.prems by fastforce
  qed
qed

lemma drain_capsules_unfold:
  "drain_capsules s b =
     (case capsule_decode s b of
        (Inl e, s', b') \<Rightarrow> ([], Some e, s', b')
      | (Inr None, s', b') \<Rightarrow> ([], None, s', b')
      | (Inr (Some v), s', b') \<Rightarrow> (case drain_capsules s' b' of (vs, r) \<Rightarrow> (v # vs, r)))"
  using capsule_decode_shrinks [of s b]
  by (subst drain_capsules.simps) (auto split: prod.split sum.split option.split)

lemma drain_capsules_append:
  assumes "drain_capsules s b = (vs, r, s', b')"
  shows "drain_capsules s (b @ x) =
    (case r of
       None \<Rightarrow> (case drain_capsules s' (b' @ x) of (ws, q) \<Rightarrow> (vs @ ws, q))
     | Some e \<Rightarrow> (vs, Some e, s', b' @ x))"
  using assms
proof (induction "length b" arbitrary: s b vs rule: less_induct)
  case less
  obtain res t c where d: "capsule_decode s b = (res, t, c)" by (metis prod_cases3)
  note dx = capsule_decode_append [OF d, of x]
  show ?case
  proof (cases "\<exists>v. res = Inr (Some v)")
    case True
    then obtain v where v: "res = Inr (Some v)" by blast
    obtain us where us: "drain_capsules t c = (us, r, s', b')" "vs = v # us"
      using less.prems d v drain_capsules_unfold [of s b] by (auto split: prod.split_asm)
    have "length c < length b" using capsule_decode_shrinks [OF d] v by blast
    from less.hyps [OF this us(1)] show ?thesis
      using dx v us(2) drain_capsules_unfold [of s "b @ x"] by (auto split: option.split prod.split)
  next
    case False
    then consider (err) e where "res = Inl e" | (wait) "res = Inr None" by (cases res) auto
    then show ?thesis
    proof cases
      case err
      then show ?thesis using less.prems d dx drain_capsules_unfold [of s b] drain_capsules_unfold [of s "b @ x"] by auto
    next
      case wait
      then have "vs = []" "r = None" "s' = t" "b' = c" using less.prems d drain_capsules_unfold [of s b] by auto
      moreover have "drain_capsules s (b @ x) = drain_capsules t (c @ x)"
        using dx wait drain_capsules_unfold [of s "b @ x"] drain_capsules_unfold [of t "c @ x"] by simp
      ultimately show ?thesis by simp
    qed
  qed
qed

lemma drain_capsules_settled:
  assumes "drain_capsules s b = (vs, None, s', b')"
  shows "drain_capsules s' b' = ([], None, s', b')"
  using drain_capsules_append [OF assms, of "[]"] assms by (auto split: prod.split_asm)

lemma feed_capsules_drain:
  assumes "drain_capsules s b = ([], None, s, b)" "feed_capsules s b pieces = (vs, r, s', b')"
  shows "\<exists>t c. drain_capsules s (b @ concat pieces) = (vs, r, t, c) \<and> (r = None \<longrightarrow> t = s' \<and> c = b')"
  using assms
proof (induction pieces arbitrary: s b vs)
  case Nil
  then show ?case by auto
next
  case (Cons p ps)
  obtain us q t c where d: "drain_capsules s (b @ p) = (us, q, t, c)" by (metis prod_cases4)
  note dx = drain_capsules_append [OF d, of "concat ps"]
  show ?case
  proof (cases q)
    case (Some e)
    then show ?thesis using Cons.prems(2) d dx by auto
  next
    case None
    obtain ws where ws: "feed_capsules t c ps = (ws, r, s', b')" "vs = us @ ws"
      using Cons.prems(2) d None by (auto split: prod.split_asm)
    have "drain_capsules t c = ([], None, t, c)" using drain_capsules_settled d None by blast
    from Cons.IH [OF this ws(1)] show ?thesis using dx None ws(2) by auto
  qed
qed

lemma drain_capsules_empty: "drain_capsules 0 [] = ([], None, 0, [])"
  using drain_capsules_unfold [of 0 "[]"] capsule_decode_wait [of 0 "[]" 0 "[]"]
  by (simp add: skip_bytes_def capsule_header_def varint_def)

section \<open>Capsules that were written\<close>

lemma put_varint_append: "put_varint buf v = buf @ put_varint [] v"
  by (simp add: put_varint_def split: prod.split)

lemma capsule_header_written:
  assumes "k < 2 ^ 62" "l < 2 ^ 62"
  shows "capsule_header (put_varint [] k @ put_varint [] l @ rest) =
    Some (k, l, length (put_varint [] k) + length (put_varint [] l))"
  using varint_put [OF assms(1), of "[]" "put_varint [] l @ rest"] varint_put [OF assms(2), of "[]" rest]
  by (auto simp: capsule_header_def)

lemma of_nat_small: "n < 2 ^ 62 \<Longrightarrow> (of_nat n :: u64) < 2 ^ 62 \<and> unat (of_nat n :: u64) = n"
  by (simp add: word_less_nat_alt unat_of_nat_u64)

lemma decode_datagram_written:
  assumes "length payload \<le> MAX_UDP_PAYLOAD"
  shows "capsule_decode 0 (encode_datagram payload [] @ rest) = (Inr (Some (0 # payload)), 0, rest)"
proof -
  let ?l = "of_nat (length payload) + 1 :: u64"
  have l: "?l = of_nat (Suc (length payload))" by simp
  have "Suc (length payload) < 2 ^ 62" using assms by (simp add: MAX_UDP_PAYLOAD_def)
  then have u: "?l < 2 ^ 62" "unat ?l = Suc (length payload)" using of_nat_small l by metis+
  have "encode_datagram payload [] @ rest = put_varint [] CAPSULE_DATAGRAM @ put_varint [] ?l @ 0 # payload @ rest"
    using put_varint_append [of "put_varint [] CAPSULE_DATAGRAM" ?l] by (simp add: encode_datagram_def)
  moreover have "capsule_header (put_varint [] CAPSULE_DATAGRAM @ put_varint [] ?l @ 0 # payload @ rest) =
      Some (CAPSULE_DATAGRAM, ?l, length (put_varint [] CAPSULE_DATAGRAM) + length (put_varint [] ?l))"
    using capsule_header_written [of CAPSULE_DATAGRAM ?l] u(1) by (simp add: CAPSULE_DATAGRAM_def)
  ultimately show ?thesis
    using capsule_decode_step [of 0 "encode_datagram payload [] @ rest"] u(2) assms
    by (simp add: skip_bytes_def MAX_DATAGRAM_def)
qed

lemma drain_other_written:
  assumes "kind \<noteq> CAPSULE_DATAGRAM" "kind < 2 ^ 62" "length body < 2 ^ 62"
  shows "drain_capsules 0 (capsule_bytes (OtherCapsule kind body) @ rest) = drain_capsules 0 rest"
proof -
  let ?l = "of_nat (length body) :: u64"
  note u = of_nat_small [OF assms(3)]
  have eq: "capsule_bytes (OtherCapsule kind body) @ rest = put_varint [] kind @ put_varint [] ?l @ body @ rest"
    using put_varint_append [of "put_varint [] kind" ?l] by simp
  have hd: "capsule_header (put_varint [] kind @ put_varint [] ?l @ body @ rest) =
      Some (kind, ?l, length (put_varint [] kind) + length (put_varint [] ?l))"
    using capsule_header_written [OF assms(2) conjunct1 [OF u]] .
  have "capsule_decode 0 (put_varint [] kind @ put_varint [] ?l @ body @ rest) = capsule_decode ?l (body @ rest)"
    using capsule_decode_step [OF _ hd, of 0] assms(1) by (simp add: skip_bytes_def)
  also have "skip_bytes ?l (body @ rest) = (0, rest)"
    using u by (auto simp: skip_bytes_def Let_def word_neq_0_conv [symmetric] simp del: word_neq_0_conv)
  then have "capsule_decode ?l (body @ rest) = capsule_decode 0 rest"
    by (simp add: capsule_decode.simps [of ?l] capsule_decode.simps [of 0 rest] skip_bytes_def)
  finally show ?thesis
    using eq drain_capsules_unfold [of 0 rest] drain_capsules_unfold [of 0 "capsule_bytes (OtherCapsule kind body) @ rest"] by simp
qed

lemma drain_written:
  assumes "list_all capsule_ok cs"
  shows "drain_capsules 0 (concat (map capsule_bytes cs)) = (capsule_values cs, None, 0, [])"
  using assms
proof (induction cs rule: capsule_values.induct)
  case 1
  show ?case by (simp add: drain_capsules_empty)
next
  case (2 payload cs)
  then show ?case using decode_datagram_written [of payload "concat (map capsule_bytes cs)"]
      drain_capsules_unfold [of 0 "encode_datagram payload [] @ concat (map capsule_bytes cs)"] by simp
next
  case (3 kind body cs)
  then show ?case using drain_other_written [of kind body "concat (map capsule_bytes cs)"] by (simp del: capsule_bytes.simps)
qed

section \<open>Properties\<close>

text \<open>
  C37.  Capsules arrive as they were sent.  For any sequence of datagrams that fit the limit and of
  capsules of other types, however their bytes are cut into pieces, the decoder yields exactly the
  datagrams, each behind its Context ID 0, in order, skips the rest, and ends between two capsules.
\<close>

theorem capsule_stream_exact:
  assumes "list_all capsule_ok cs" "concat pieces = concat (map capsule_bytes cs)"
  shows "feed_capsules 0 [] pieces = (capsule_values cs, None, 0, [])"
proof -
  obtain vs r s b where f: "feed_capsules 0 [] pieces = (vs, r, s, b)" by (metis prod_cases4)
  show ?thesis
    using feed_capsules_drain [OF drain_capsules_empty f] f assms(2) drain_written [OF assms(1)] by auto
qed

theorem capsule_stream_exact_witness:
  "feed_capsules 0 [] [[0, 4, 0, 111], [110], [101, 23, 2, 9], [9, 0, 1, 0]] = ([[0, 111, 110, 101], [0]], None, 0, [])"
proof -
  have eval: "put_varint [] 0 = [0]" "put_varint [] 1 = [1]" "put_varint [] 2 = [2]" "put_varint [] 4 = [4]" "put_varint [] 23 = [23]"
    by (simp_all add: put_varint_def put_uint_def)
  have "concat [[0, 4, 0, 111], [110], [101, 23, 2, 9], [9, 0, 1, 0]] =
      concat (map capsule_bytes [Datagram [111, 110, 101], OtherCapsule 23 [9, 9], Datagram []])"
    using eval put_varint_append [of "put_varint [] 0" 4] put_varint_append [of "put_varint [] 23" 2] put_varint_append [of "put_varint [] 0" 1]
    by (simp add: encode_datagram_def CAPSULE_DATAGRAM_def)
  moreover have "list_all capsule_ok [Datagram [111, 110, 101], OtherCapsule 23 [9, 9], Datagram []]"
    by (simp add: MAX_UDP_PAYLOAD_def CAPSULE_DATAGRAM_def)
  ultimately show ?thesis using capsule_stream_exact by fastforce
qed

text \<open>
  C38.  For any bytes at all, what the capsule decoder yields depends on the bytes alone: the same
  stream cut in two ways gives the same values, the same error and the same remaining state.  A call
  that asks for more holds back less than a maximal capsule and three integers, whatever length the
  peer announces, and a value is never longer than a Context ID and a maximal payload.
\<close>

theorem capsule_fragmentation:
  assumes "concat pieces = concat pieces'"
  shows "(case (feed_capsules 0 [] pieces, feed_capsules 0 [] pieces') of
      ((vs, r, s, b), (vs', r', s', b')) \<Rightarrow> vs = vs' \<and> r = r' \<and> (r = None \<longrightarrow> s = s' \<and> b = b')) \<and>
    (\<forall>skip buf skip' buf'. capsule_decode skip buf = (Inr None, skip', buf') \<longrightarrow> length buf' < 24 + MAX_DATAGRAM) \<and>
    (\<forall>skip buf v skip' buf'. capsule_decode skip buf = (Inr (Some v), skip', buf') \<longrightarrow> length v \<le> MAX_DATAGRAM)"
proof -
  obtain vs r s b where f: "feed_capsules 0 [] pieces = (vs, r, s, b)" by (metis prod_cases4)
  obtain vs' r' s' b' where f': "feed_capsules 0 [] pieces' = (vs', r', s', b')" by (metis prod_cases4)
  have "vs = vs' \<and> r = r' \<and> (r = None \<longrightarrow> s = s' \<and> b = b')"
    using feed_capsules_drain [OF drain_capsules_empty f] feed_capsules_drain [OF drain_capsules_empty f'] assms by auto
  then show ?thesis using f f' capsule_decode_shrinks by simp
qed

theorem capsule_fragmentation_witness:
  "(case (feed_capsules 0 [] [[0, 128], [1, 0, 0, 0]], feed_capsules 0 [] [[0, 128, 1, 0, 0], [0]]) of
      ((vs, r, s, b), (vs', r', s', b')) \<Rightarrow> vs = vs' \<and> r = r')"
  using capsule_fragmentation [of "[[0, 128], [1, 0, 0, 0]]" "[[0, 128, 1, 0, 0], [0]]"] by (auto split: prod.split_asm)

end
