(* ===== verification/Body_Channel.thy ===== *)
theory Body_Channel
  imports Netty_Prelude
begin

text \<open>
  \<^verbatim>\<open>src/src/body/chan.rs\<close>: the one-slot channel that carries the body of a message from the task of
  the connection to the task that reads it.  \<open>chan_state\<close> is the state under the lock, an operation
  of either end is a function on the channel that also says whether it wakes the other end, and
  \<open>chan_step\<close> interleaves the operations of the two ends at the granularity of the code: register,
  critical section, wake.  The lemmas show that no wake-up is lost, that the ends do not wait for
  each other, and that the channel is a queue of the accepted items.
\<close>

section \<open>Definitions\<close>

text \<open>\<^verbatim>\<open>State\<close>, what the lock protects.\<close>

record ('e, 'm) chan_state =
  ch_item :: "('e + byte list) option"
  ch_pending_error :: "'e option"
  ch_trailers :: "'m option"
  ch_sender_open :: bool
  ch_receiver_open :: bool
  ch_want :: bool

text \<open>The channel: the shared state, and the flag that each end keeps for itself.\<close>

record ('e, 'm) channel =
  cc_state :: "('e, 'm) chan_state"
  cc_trailers_sent :: bool
  cc_terminated :: bool

definition body_channel :: "bool \<Rightarrow> ('e, 'm) channel" where
  "body_channel wanter =
     \<lparr>cc_state = \<lparr>ch_item = None, ch_pending_error = None, ch_trailers = None,
        ch_sender_open = True, ch_receiver_open = True, ch_want = (\<not> wanter)\<rparr>,
      cc_trailers_sent = False, cc_terminated = False\<rparr>"

text \<open>
  The operations of the sender.  An operation that changes the state returns the new channel and
  whether it wakes the other end once it has released the lock.
\<close>

datatype closed = Closed

definition sender_poll_ready :: "('e, 'm) channel \<Rightarrow> (closed + unit) poll" where
  "sender_poll_ready ch =
     (let st = cc_state ch in
      if \<not> ch_receiver_open st then Ready (Inl Closed)
      else if ch_want st \<and> ch_item st = None \<and> ch_pending_error st = None then Ready (Inr ())
      else Pending)"

definition sender_send_data ::
    "byte list \<Rightarrow> ('e, 'm) channel \<Rightarrow> (byte list + unit) \<times> ('e, 'm) channel \<times> bool" where
  "sender_send_data chunk ch =
     (let st = cc_state ch in
      if \<not> ch_receiver_open st \<or> \<not> ch_want st \<or> ch_item st \<noteq> None \<or> ch_pending_error st \<noteq> None
      then (Inl chunk, ch, False)
      else (Inr (), ch\<lparr>cc_state := st\<lparr>ch_item := Some (Inr chunk)\<rparr>\<rparr>, True))"

definition sender_send_trailers ::
    "'m \<Rightarrow> ('e, 'm) channel \<Rightarrow> ('m option + unit) \<times> ('e, 'm) channel \<times> bool" where
  "sender_send_trailers trailers ch =
     (if cc_trailers_sent ch then (Inl None, ch, False)
      else
        let ch = ch\<lparr>cc_trailers_sent := True\<rparr>; st = cc_state ch in
        if \<not> ch_receiver_open st then (Inl (Some trailers), ch, False)
        else (Inr (), ch\<lparr>cc_state := st\<lparr>ch_trailers := Some trailers\<rparr>\<rparr>, True))"

definition sender_send_error :: "'e \<Rightarrow> ('e, 'm) channel \<Rightarrow> ('e, 'm) channel \<times> bool" where
  "sender_send_error err ch =
     (let st = cc_state ch in
      if \<not> ch_receiver_open st then (ch, False)
      else
        (ch\<lparr>cc_state :=
           (if ch_item st = None then st\<lparr>ch_item := Some (Inl err)\<rparr>
            else if ch_pending_error st = None then st\<lparr>ch_pending_error := Some err\<rparr>
            else st)\<rparr>, True))"

definition sender_is_closed :: "('e, 'm) channel \<Rightarrow> bool" where
  "sender_is_closed ch = (\<not> ch_receiver_open (cc_state ch))"

definition sender_poll_closed :: "('e, 'm) channel \<Rightarrow> unit poll" where
  "sender_poll_closed ch = (if sender_is_closed ch then Ready () else Pending)"

definition sender_drop :: "('e, 'm) channel \<Rightarrow> ('e, 'm) channel \<times> bool" where
  "sender_drop ch =
     (let st = (cc_state ch)\<lparr>ch_sender_open := False\<rparr> in
      (ch\<lparr>cc_state := st\<rparr>, ch_receiver_open st))"

text \<open>The operations of the receiver.\<close>

definition receiver_poll_next ::
    "('e, 'm) channel \<Rightarrow> ('e + byte list) option poll \<times> ('e, 'm) channel \<times> bool" where
  "receiver_poll_next ch =
     (if cc_terminated ch then (Ready None, ch, False)
      else
        let wake_sender = (\<not> ch_want (cc_state ch));
            st = (cc_state ch)\<lparr>ch_want := True\<rparr> in
        case ch_item st of
          Some item \<Rightarrow>
            (Ready (Some item), ch\<lparr>cc_state := st\<lparr>ch_item := None\<rparr>\<rparr>, ch_sender_open st)
        | None \<Rightarrow>
            (case ch_pending_error st of
               Some err \<Rightarrow>
                 (Ready (Some (Inl err)), ch\<lparr>cc_state := st\<lparr>ch_pending_error := None\<rparr>\<rparr>, wake_sender)
             | None \<Rightarrow>
                 (if ch_sender_open st then (Pending, ch\<lparr>cc_state := st\<rparr>, wake_sender)
                  else (Ready None, ch\<lparr>cc_state := st, cc_terminated := True\<rparr>, wake_sender))))"

definition receiver_take_trailers :: "('e, 'm) channel \<Rightarrow> 'm option \<times> ('e, 'm) channel" where
  "receiver_take_trailers ch =
     (ch_trailers (cc_state ch), ch\<lparr>cc_state := (cc_state ch)\<lparr>ch_trailers := None\<rparr>\<rparr>)"

definition receiver_drop :: "('e, 'm) channel \<Rightarrow> ('e, 'm) channel \<times> bool" where
  "receiver_drop ch =
     (let st = (cc_state ch)\<lparr>ch_receiver_open := False\<rparr> in
      (ch\<lparr>cc_state := st\<rparr>, ch_sender_open st))"

text \<open>
  The two ends run on different threads.  An operation runs in three steps: it registers its
  waker if it polls (\<open>chan_enter\<close>), does its work under the lock (\<open>chan_lock\<close>), and wakes the
  other end after it has released it (\<open>chan_leave\<close>); the steps of the two ends interleave.
  \<open>sy_armed\<close> says that a waker is registered and was not woken since, which is what
  \<^verbatim>\<open>AtomicWaker\<close> documents.
\<close>

datatype side = SenderSide | ReceiverSide

fun peer :: "side \<Rightarrow> side" where
  "peer SenderSide = ReceiverSide"
| "peer ReceiverSide = SenderSide"

datatype ('e, 'm) chan_op =
    SendReady | SendData "byte list" | SendTrailers 'm | SendError 'e | SendClosed | SendDrop
  | RecvNext | RecvTrailers | RecvDrop

datatype ('e, 'm) chan_result =
    ReadyIs "(closed + unit) poll"
  | DataSent "byte list + unit"
  | TrailersSent "'m option + unit"
  | Done
  | ClosedIs "unit poll"
  | NextIs "('e + byte list) option poll"
  | TrailersAre "'m option"

fun op_side :: "('e, 'm) chan_op \<Rightarrow> side" where
  "op_side RecvNext = ReceiverSide"
| "op_side RecvTrailers = ReceiverSide"
| "op_side RecvDrop = ReceiverSide"
| "op_side _ = SenderSide"

fun op_registers :: "('e, 'm) channel \<Rightarrow> ('e, 'm) chan_op \<Rightarrow> bool" where
  "op_registers ch SendReady = True"
| "op_registers ch SendClosed = True"
| "op_registers ch RecvNext = (\<not> cc_terminated ch)"
| "op_registers ch _ = False"

fun op_drops :: "('e, 'm) chan_op \<Rightarrow> bool" where
  "op_drops SendDrop = True"
| "op_drops RecvDrop = True"
| "op_drops _ = False"

fun chan_exec ::
    "('e, 'm) chan_op \<Rightarrow> ('e, 'm) channel \<Rightarrow> ('e, 'm) chan_result \<times> ('e, 'm) channel \<times> bool" where
  "chan_exec SendReady ch = (ReadyIs (sender_poll_ready ch), ch, False)"
| "chan_exec (SendData b) ch = (let (r, ch', w) = sender_send_data b ch in (DataSent r, ch', w))"
| "chan_exec (SendTrailers t) ch = (let (r, ch', w) = sender_send_trailers t ch in (TrailersSent r, ch', w))"
| "chan_exec (SendError e) ch = (let (ch', w) = sender_send_error e ch in (Done, ch', w))"
| "chan_exec SendClosed ch = (ClosedIs (sender_poll_closed ch), ch, False)"
| "chan_exec SendDrop ch = (let (ch', w) = sender_drop ch in (Done, ch', w))"
| "chan_exec RecvNext ch = (let (r, ch', w) = receiver_poll_next ch in (NextIs r, ch', w))"
| "chan_exec RecvTrailers ch = (let (r, ch') = receiver_take_trailers ch in (TrailersAre r, ch', False))"
| "chan_exec RecvDrop ch = (let (ch', w) = receiver_drop ch in (Done, ch', w))"

datatype ('e, 'm) phase =
    Outside "('e, 'm) chan_result option"
  | Entered "('e, 'm) chan_op"
  | Leaving "('e, 'm) chan_op" "('e, 'm) chan_result" bool
  | Gone

record ('e, 'm) chan_system =
  sy_chan :: "('e, 'm) channel"
  sy_phase :: "side \<Rightarrow> ('e, 'm) phase"
  sy_armed :: "side \<Rightarrow> bool"

definition chan_start :: "bool \<Rightarrow> ('e, 'm) chan_system" where
  "chan_start wanter =
     \<lparr>sy_chan = body_channel wanter, sy_phase = (\<lambda>_. Outside None), sy_armed = (\<lambda>_. False)\<rparr>"

type_synonym ('e, 'm) chan_trace = "(('e, 'm) chan_op \<times> ('e, 'm) chan_result) list"

inductive chan_step ::
    "('e, 'm) chan_system \<Rightarrow> ('e, 'm) chan_trace \<Rightarrow> ('e, 'm) chan_system \<Rightarrow> bool" where
  chan_enter:
    "sy_phase s (op_side x) = Outside r \<Longrightarrow>
     chan_step s []
       (s\<lparr>sy_phase := (sy_phase s)(op_side x := Entered x),
          sy_armed := (if op_registers (sy_chan s) x then (sy_armed s)(op_side x := True) else sy_armed s)\<rparr>)"
| chan_lock:
    "sy_phase s (op_side x) = Entered x \<Longrightarrow> chan_exec x (sy_chan s) = (r, ch, w) \<Longrightarrow>
     chan_step s [(x, r)]
       (s\<lparr>sy_chan := ch, sy_phase := (sy_phase s)(op_side x := Leaving x r w)\<rparr>)"
| chan_leave:
    "sy_phase s (op_side x) = Leaving x r w \<Longrightarrow>
     chan_step s []
       (s\<lparr>sy_phase := (sy_phase s)(op_side x := (if op_drops x then Gone else Outside (Some r))),
          sy_armed := (if w then (sy_armed s)(peer (op_side x) := False) else sy_armed s)\<rparr>)"

inductive chan_run ::
    "('e, 'm) chan_system \<Rightarrow> ('e, 'm) chan_trace \<Rightarrow> ('e, 'm) chan_system \<Rightarrow> bool" where
  chan_run_refl: "chan_run s [] s"
| chan_run_step: "chan_run s tr s' \<Longrightarrow> chan_step s' l s'' \<Longrightarrow> chan_run s (tr @ l) s''"

text \<open>What a trace says: the items accepted and received, and that a sender is only dropped after
  it has sent an error.\<close>

fun accepted :: "bool \<Rightarrow> ('e, 'm) chan_trace \<Rightarrow> ('e + byte list) list" where
  "accepted op [] = []"
| "accepted op ((SendData b, DataSent (Inr u)) # tr) = Inr b # accepted op tr"
| "accepted op ((SendError e, r) # tr) = (if op then [Inl e] else []) @ accepted op tr"
| "accepted op ((RecvDrop, r) # tr) = accepted False tr"
| "accepted op (l # tr) = accepted op tr"

fun received :: "('e, 'm) chan_trace \<Rightarrow> ('e + byte list) list" where
  "received [] = []"
| "received ((x, NextIs (Ready (Some i))) # tr) = i # received tr"
| "received (l # tr) = received tr"

fun error_sent :: "('e, 'm) chan_trace \<Rightarrow> bool" where
  "error_sent [] = False"
| "error_sent ((SendError e, r) # tr) = True"
| "error_sent (l # tr) = error_sent tr"

fun disciplined :: "('e, 'm) chan_trace \<Rightarrow> bool" where
  "disciplined [] = True"
| "disciplined ((SendError e, r) # tr) = (list_all (\<lambda>(x, _). op_side x = SenderSide \<longrightarrow> x = SendDrop) tr)"
| "disciplined (l # tr) = disciplined tr"

definition chan_contents :: "('e, 'm) channel \<Rightarrow> ('e + byte list) list" where
  "chan_contents ch =
     (case ch_item (cc_state ch) of None \<Rightarrow> [] | Some i \<Rightarrow> [i]) @
     (case ch_pending_error (cc_state ch) of None \<Rightarrow> [] | Some e \<Rightarrow> [Inl e])"

text \<open>An end is asleep when its last operation was a poll that was not ready and its waker was not
  woken since.\<close>

fun asleep :: "('e, 'm) chan_system \<Rightarrow> side \<Rightarrow> bool" where
  "asleep s SenderSide =
     (sy_armed s SenderSide \<and>
      (sy_phase s SenderSide = Outside (Some (ReadyIs Pending)) \<or>
       sy_phase s SenderSide = Outside (Some (ClosedIs Pending))))"
| "asleep s ReceiverSide =
     (sy_armed s ReceiverSide \<and> sy_phase s ReceiverSide = Outside (Some (NextIs Pending)))"

fun would_wait :: "('e, 'm) chan_system \<Rightarrow> side \<Rightarrow> bool" where
  "would_wait s SenderSide =
     (if sy_phase s SenderSide = Outside (Some (ReadyIs Pending))
      then sender_poll_ready (sy_chan s) = Pending else sender_poll_closed (sy_chan s) = Pending)"
| "would_wait s ReceiverSide = (fst (receiver_poll_next (sy_chan s)) = Pending)"

definition about_to_wake :: "('e, 'm) chan_system \<Rightarrow> side \<Rightarrow> bool" where
  "about_to_wake s d = (case sy_phase s (peer d) of Leaving x r w \<Rightarrow> w | _ \<Rightarrow> False)"

fun last_result :: "('e, 'm) phase \<Rightarrow> ('e, 'm) chan_result option" where
  "last_result (Outside r) = r"
| "last_result (Leaving x r w) = (if op_drops x then None else Some r)"
| "last_result _ = None"

definition dropped :: "('e, 'm) phase \<Rightarrow> bool" where
  "dropped p = (case p of Gone \<Rightarrow> True | Leaving x r w \<Rightarrow> op_drops x | _ \<Rightarrow> False)"

text \<open>The flags in the state say which ends were dropped.\<close>

definition phase_ok :: "('e, 'm) chan_system \<Rightarrow> bool" where
  "phase_ok s =
     (ch_sender_open (cc_state (sy_chan s)) = (\<not> dropped (sy_phase s SenderSide)) \<and>
      ch_receiver_open (cc_state (sy_chan s)) = (\<not> dropped (sy_phase s ReceiverSide)))"

text \<open>Without an error sent there is none pending, and then the last poll of the sender was not
  after an error.\<close>

definition error_ok :: "('e, 'm) chan_trace \<Rightarrow> ('e, 'm) chan_system \<Rightarrow> bool" where
  "error_ok tr s =
     ((ch_pending_error (cc_state (sy_chan s)) \<noteq> None \<longrightarrow> error_sent tr) \<and>
      (disciplined tr \<longrightarrow> error_sent tr \<longrightarrow> (\<forall>p. last_result (sy_phase s SenderSide) \<noteq> Some (ReadyIs p))))"

text \<open>The heart of the wake-ups: an operation of one end that ends the wait of the other wakes it.\<close>

definition next_waits :: "('e, 'm) channel \<Rightarrow> bool" where
  "next_waits ch =
     (\<not> cc_terminated ch \<and> ch_item (cc_state ch) = None \<and> ch_pending_error (cc_state ch) = None \<and>
      ch_sender_open (cc_state ch))"

text \<open>The invariant of the wake-ups.\<close>

definition wake_ok :: "('e, 'm) chan_trace \<Rightarrow> ('e, 'm) chan_system \<Rightarrow> bool" where
  "wake_ok tr s =
     ((disciplined tr \<longrightarrow> sy_armed s SenderSide \<longrightarrow> last_result (sy_phase s SenderSide) = Some (ReadyIs Pending) \<longrightarrow>
         sender_poll_ready (sy_chan s) = Pending \<or> about_to_wake s SenderSide) \<and>
      (sy_armed s SenderSide \<longrightarrow> last_result (sy_phase s SenderSide) = Some (ClosedIs Pending) \<longrightarrow>
         sender_poll_closed (sy_chan s) = Pending \<or> about_to_wake s SenderSide) \<and>
      (last_result (sy_phase s ReceiverSide) = Some (NextIs Pending) \<longrightarrow>
         ch_want (cc_state (sy_chan s)) \<and>
         (sy_armed s ReceiverSide \<longrightarrow> next_waits (sy_chan s) \<or> about_to_wake s ReceiverSide)))"

text \<open>The invariant of the contents.\<close>

definition fifo_ok :: "('e, 'm) chan_trace \<Rightarrow> ('e, 'm) chan_system \<Rightarrow> bool" where
  "fifo_ok tr s =
     (let ch = sy_chan s; st = cc_state ch in
      (disciplined tr \<longrightarrow> accepted True tr = received tr @ chan_contents ch) \<and>
      ch_receiver_open st = (RecvDrop \<notin> fst ` set tr) \<and>
      ch_sender_open st = (SendDrop \<notin> fst ` set tr) \<and>
      (cc_terminated ch \<longrightarrow> \<not> ch_sender_open st \<and> chan_contents ch = []) \<and>
      ((RecvNext, NextIs (Ready None)) \<in> set tr \<longrightarrow> cc_terminated ch) \<and>
      (\<forall>t. ch_trailers st = Some t \<longrightarrow> (SendTrailers t, TrailersSent (Inr ())) \<in> set tr) \<and>
      (\<forall>t. (RecvTrailers, TrailersAre (Some t)) \<in> set tr \<longrightarrow> (SendTrailers t, TrailersSent (Inr ())) \<in> set tr))"

text \<open>An operation that runs without the other end in between.\<close>

definition run_op :: "('e, 'm) chan_op \<Rightarrow> ('e, 'm) chan_system \<Rightarrow> ('e, 'm) chan_system" where
  "run_op x s =
     (let (r, ch, w) = chan_exec x (sy_chan s);
          armed = (if op_registers (sy_chan s) x then (sy_armed s)(op_side x := True) else sy_armed s) in
      s\<lparr>sy_chan := ch,
        sy_phase := (sy_phase s)(op_side x := (if op_drops x then Gone else Outside (Some r))),
        sy_armed := (if w then armed(peer (op_side x) := False) else armed)\<rparr>)"

lemmas sender_ops = sender_poll_ready_def sender_send_data_def sender_send_trailers_def
  sender_send_error_def sender_poll_closed_def sender_is_closed_def sender_drop_def Let_def

lemmas receiver_ops = receiver_poll_next_def receiver_take_trailers_def receiver_drop_def Let_def

lemma op_drops_side:
  "op_side x = SenderSide \<Longrightarrow> op_drops x = (x = SendDrop) \<and> x \<noteq> RecvDrop"
  "op_side x = ReceiverSide \<Longrightarrow> op_drops x = (x = RecvDrop) \<and> x \<noteq> SendDrop"
  by (cases x; simp)+

lemma exec_opens:
  assumes "chan_exec x ch = (r, ch', w)"
  shows "ch_sender_open (cc_state ch') = (ch_sender_open (cc_state ch) \<and> x \<noteq> SendDrop)"
    and "ch_receiver_open (cc_state ch') = (ch_receiver_open (cc_state ch) \<and> x \<noteq> RecvDrop)"
  using assms
  by (cases x; auto simp: sender_ops receiver_ops split: if_split_asm option.split_asm)+

lemma phase_ok_step: "chan_step s l s' \<Longrightarrow> phase_ok s \<Longrightarrow> phase_ok s'"
proof (induction rule: chan_step.induct)
  case (chan_enter s x r)
  then show ?case by (cases "op_side x") (auto simp: phase_ok_def dropped_def)
next
  case (chan_lock s x r ch w)
  then show ?case using exec_opens [OF chan_lock(2)] op_drops_side [of x]
    by (cases "op_side x") (auto simp: phase_ok_def dropped_def)
next
  case (chan_leave s x r w)
  then show ?case by (cases "op_side x") (auto simp: phase_ok_def dropped_def)
qed

lemma phase_ok_run: "chan_run s tr s' \<Longrightarrow> phase_ok s \<Longrightarrow> phase_ok s'"
  by (induction rule: chan_run.induct) (auto dest: phase_ok_step)

lemma phase_ok_start: "phase_ok (chan_start wanter)"
  by (simp add: phase_ok_def chan_start_def body_channel_def dropped_def)

lemma error_sent_append: "error_sent (tr @ tr') = (error_sent tr \<or> error_sent tr')"
  by (induction tr rule: error_sent.induct) auto

lemma error_sent_single: "error_sent [(x, r)] = (\<exists>e. x = SendError e)"
  by (cases x) auto

lemma disciplined_append:
  "disciplined (tr @ tr') =
     (disciplined tr \<and>
      (if error_sent tr then list_all (\<lambda>(x, _). op_side x = SenderSide \<longrightarrow> x = SendDrop) tr'
       else disciplined tr'))"
  by (induction tr rule: error_sent.induct) auto

lemma exec_pending_error:
  assumes "chan_exec x ch = (r, ch', w)" "ch_pending_error (cc_state ch') \<noteq> None"
  shows "ch_pending_error (cc_state ch) \<noteq> None \<or> (\<exists>e. x = SendError e)"
  using assms by (cases x) (auto simp: sender_ops receiver_ops split: if_split_asm option.split_asm)

lemma exec_ready: "chan_exec x ch = (ReadyIs p, ch', w) \<Longrightarrow> x = SendReady \<and> ch' = ch \<and> p = sender_poll_ready ch"
  by (cases x) (auto split: prod.split_asm)

lemma exec_closed: "chan_exec x ch = (ClosedIs p, ch', w) \<Longrightarrow> x = SendClosed \<and> ch' = ch \<and> p = sender_poll_closed ch"
  by (cases x) (auto split: prod.split_asm)

lemma exec_next: "chan_exec x ch = (NextIs p, ch', w) \<Longrightarrow> x = RecvNext \<and> receiver_poll_next ch = (p, ch', w)"
  by (cases x) (auto split: prod.split_asm)

lemma op_side_error: "op_side (SendError e) = SenderSide" by simp

lemma error_ok_step:
  assumes "chan_step s l s'" "error_ok tr s" "phase_ok s"
  shows "error_ok (tr @ l) s'"
  using assms
proof (induction rule: chan_step.induct)
  case (chan_enter s x r)
  then show ?case by (cases "op_side x") (auto simp: error_ok_def)
next
  case (chan_lock s x r ch w)
  have pe: "ch_pending_error (cc_state ch) \<noteq> None \<longrightarrow> error_sent (tr @ [(x, r)])"
    using chan_lock exec_pending_error [OF chan_lock(2)]
    by (auto simp: error_ok_def error_sent_append error_sent_single)
  show ?case
  proof (cases "op_side x")
    case SenderSide
    have "disciplined (tr @ [(x, r)]) \<longrightarrow> error_sent (tr @ [(x, r)]) \<longrightarrow> r \<noteq> ReadyIs p" for p
      using exec_ready [of x "sy_chan s" p ch w] chan_lock(2)
      by (auto simp: disciplined_append error_sent_append)
    then show ?thesis using SenderSide pe by (auto simp: error_ok_def)
  next
    case ReceiverSide
    have "x \<noteq> SendError e" for e using ReceiverSide op_side_error by fastforce
    then show ?thesis using ReceiverSide pe chan_lock
      by (auto simp: error_ok_def disciplined_append error_sent_append error_sent_single)
  qed
next
  case (chan_leave s x r w)
  then show ?case by (cases "op_side x") (auto simp: error_ok_def)
qed

lemma error_ok_start: "error_ok [] (chan_start wanter)"
  by (simp add: error_ok_def chan_start_def body_channel_def)

lemma poll_next_Pending: "fst (receiver_poll_next ch) = Pending \<longleftrightarrow> next_waits ch"
  by (auto simp: receiver_ops next_waits_def split: option.split)

lemma receiver_wakes_ready:
  assumes "chan_exec x ch = (r, ch', w)" "op_side x = ReceiverSide" "sender_poll_ready ch = Pending"
    and "ch_pending_error (cc_state ch) = None" "ch_sender_open (cc_state ch)"
  shows "sender_poll_ready ch' = Pending \<or> w"
  using assms
  by (cases x) (auto simp: sender_poll_ready_def receiver_ops split: if_split_asm option.split_asm)

lemma receiver_wakes_closed:
  assumes "chan_exec x ch = (r, ch', w)" "op_side x = ReceiverSide" "sender_poll_closed ch = Pending"
    and "ch_sender_open (cc_state ch)"
  shows "sender_poll_closed ch' = Pending \<or> w"
  using assms
  by (cases x) (auto simp: sender_poll_closed_def sender_is_closed_def receiver_ops split: if_split_asm option.split_asm)

lemma sender_wakes_next:
  assumes "chan_exec x ch = (r, ch', w)" "op_side x = SenderSide" "next_waits ch"
    and "ch_receiver_open (cc_state ch)"
  shows "next_waits ch' \<or> w"
  using assms
  by (cases x) (auto simp: sender_ops next_waits_def split: if_split_asm)

lemma exec_want: "chan_exec x ch = (r, ch', w) \<Longrightarrow> ch_want (cc_state ch) \<Longrightarrow> ch_want (cc_state ch')"
  by (cases x) (auto simp: sender_ops receiver_ops split: if_split_asm option.split_asm)

lemma wake_ok_start: "wake_ok [] (chan_start wanter)"
  by (simp add: wake_ok_def chan_start_def)

lemma disciplined_prefix: "disciplined (tr @ tr') \<Longrightarrow> disciplined tr"
  by (simp add: disciplined_append)

lemma wake_ok_enter:
  assumes "wake_ok tr s" "sy_phase s (op_side x) = Outside r"
  shows "wake_ok tr (s\<lparr>sy_phase := (sy_phase s)(op_side x := Entered x),
      sy_armed := (if op_registers (sy_chan s) x then (sy_armed s)(op_side x := True) else sy_armed s)\<rparr>)"
  using assms by (cases "op_side x") (auto simp: wake_ok_def about_to_wake_def split: if_split_asm)

lemma wake_ok_leave:
  assumes "wake_ok tr s" "sy_phase s (op_side x) = Leaving x r w"
  shows "wake_ok tr (s\<lparr>sy_phase := (sy_phase s)(op_side x := (if op_drops x then Gone else Outside (Some r))),
      sy_armed := (if w then (sy_armed s)(peer (op_side x) := False) else sy_armed s)\<rparr>)"
  using assms by (cases "op_side x") (auto simp: wake_ok_def about_to_wake_def split: if_split_asm)

lemma next_Pending_state:
  assumes "receiver_poll_next ch = (Pending, ch', w)"
  shows "next_waits ch' \<and> ch_want (cc_state ch')"
  using assms by (auto simp: receiver_ops next_waits_def split: if_split_asm option.split_asm)

lemma wake_ok_lock_sender:
  assumes ok: "wake_ok tr s" "phase_ok s" and x: "sy_phase s SenderSide = Entered x" "op_side x = SenderSide"
    and ex: "chan_exec x (sy_chan s) = (r, ch, w)"
  shows "wake_ok (tr @ [(x, r)]) (s\<lparr>sy_chan := ch, sy_phase := (sy_phase s)(SenderSide := Leaving x r w)\<rparr>)"
proof -
  let ?R = "sy_phase s ReceiverSide"
  have r: "r = ReadyIs Pending \<Longrightarrow> sender_poll_ready ch = Pending" "r = ClosedIs Pending \<Longrightarrow> sender_poll_closed ch = Pending"
    using ex exec_ready exec_closed by fastforce+
  have "ch_want (cc_state ch) \<and> (sy_armed s ReceiverSide \<longrightarrow> next_waits ch \<or> w)"
    if l: "last_result ?R = Some (NextIs Pending)"
  proof -
    have "\<not> dropped ?R"
      using l by (cases ?R) (auto simp: dropped_def split: if_split_asm)
    then have "ch_receiver_open (cc_state (sy_chan s))" using ok(2) by (simp add: phase_ok_def)
    then show ?thesis using l ok(1) x exec_want [OF ex] sender_wakes_next [OF ex x(2)]
      by (auto simp: wake_ok_def about_to_wake_def)
  qed
  then show ?thesis using r by (auto simp: wake_ok_def about_to_wake_def)
qed

lemma wake_ok_lock_receiver:
  assumes ok: "wake_ok tr s" "phase_ok s" "error_ok tr s"
    and x: "sy_phase s ReceiverSide = Entered x" "op_side x = ReceiverSide"
    and ex: "chan_exec x (sy_chan s) = (r, ch, w)"
  shows "wake_ok (tr @ [(x, r)]) (s\<lparr>sy_chan := ch, sy_phase := (sy_phase s)(ReceiverSide := Leaving x r w)\<rparr>)"
proof -
  let ?S = "sy_phase s SenderSide"
  have open_: "ch_sender_open (cc_state (sy_chan s))" if "last_result ?S = Some r'" for r'
    using that ok(2) by (cases ?S) (auto simp: phase_ok_def dropped_def split: if_split_asm)
  have rdy: "sender_poll_ready ch = Pending \<or> w"
    if l: "disciplined (tr @ [(x, r)])" "sy_armed s SenderSide" "last_result ?S = Some (ReadyIs Pending)"
  proof -
    have "ch_pending_error (cc_state (sy_chan s)) = None"
      using l ok(3) disciplined_prefix by (auto simp: error_ok_def)
    moreover have "sender_poll_ready (sy_chan s) = Pending"
      using l ok(1) x disciplined_prefix by (fastforce simp: wake_ok_def about_to_wake_def)
    ultimately show ?thesis using receiver_wakes_ready [OF ex x(2)] open_ [OF l(3)] by simp
  qed
  have cl: "sender_poll_closed ch = Pending \<or> w"
    if l: "sy_armed s SenderSide" "last_result ?S = Some (ClosedIs Pending)"
  proof -
    have "sender_poll_closed (sy_chan s) = Pending"
      using l ok(1) x by (auto simp: wake_ok_def about_to_wake_def)
    then show ?thesis using receiver_wakes_closed [OF ex x(2)] open_ [OF l(2)] by simp
  qed
  have "r = NextIs Pending \<Longrightarrow> next_waits ch \<and> ch_want (cc_state ch)"
    using ex exec_next next_Pending_state by fastforce
  then show ?thesis using rdy cl by (auto simp: wake_ok_def about_to_wake_def)
qed

lemma wake_ok_step:
  assumes "chan_step s l s'" "wake_ok tr s" "phase_ok s" "error_ok tr s"
  shows "wake_ok (tr @ l) s'"
  using assms
proof (induction rule: chan_step.induct)
  case (chan_enter s x r)
  then show ?case using wake_ok_enter by fastforce
next
  case (chan_lock s x r ch w)
  then show ?case
    using wake_ok_lock_sender [of tr s x r ch w] wake_ok_lock_receiver [of tr s x r ch w] by (cases "op_side x") auto
next
  case (chan_leave s x r w)
  then show ?case using wake_ok_leave by fastforce
qed

lemma chan_run_ok:
  assumes "chan_run s tr s'" "s = chan_start wanter"
  shows "phase_ok s' \<and> error_ok tr s' \<and> wake_ok tr s'"
  using assms
proof (induction rule: chan_run.induct)
  case (chan_run_refl s)
  then show ?case using phase_ok_start error_ok_start wake_ok_start by auto
next
  case (chan_run_step s tr s' l s'')
  then show ?case using phase_ok_step error_ok_step wake_ok_step by blast
qed

lemma not_both_wait: "sender_poll_ready ch = Pending \<Longrightarrow> next_waits ch \<Longrightarrow> \<not> ch_want (cc_state ch)"
  by (auto simp: sender_poll_ready_def next_waits_def Let_def split: if_split_asm)

lemma leaving_side_step:
  assumes "chan_step s l s'" "\<And>d x r w. sy_phase s d = Leaving x r w \<Longrightarrow> op_side x = d"
  shows "sy_phase s' d = Leaving x r w \<Longrightarrow> op_side x = d"
  using assms
proof (induction rule: chan_step.induct)
  case (chan_enter s y q)
  from chan_enter(2) have "sy_phase s d = Leaving x r w" by (simp split: if_split_asm)
  then show ?case by (rule chan_enter(3))
next
  case (chan_lock s y q ch v)
  from chan_lock(3) have "sy_phase s d = Leaving x r w \<or> x = y \<and> d = op_side y" by (simp split: if_split_asm)
  then show ?case using chan_lock(4) by blast
next
  case (chan_leave s y q v)
  from chan_leave(2) have "sy_phase s d = Leaving x r w" by (simp split: if_split_asm)
  then show ?case by (rule chan_leave(3))
qed

lemma leaving_side:
  assumes "chan_run s0 tr s" "s0 = chan_start wanter"
  shows "sy_phase s d = Leaving x r w \<Longrightarrow> op_side x = d"
  using assms
proof (induction arbitrary: d x r w rule: chan_run.induct)
  case (chan_run_refl s)
  then show ?case by (simp add: chan_start_def)
next
  case (chan_run_step s tr s' l s'')
  show ?case
    by (rule leaving_side_step [OF chan_run_step(2) _ chan_run_step(4)]) (rule chan_run_step(3) [OF _ chan_run_step(5)])
qed

lemma wake_is_delivered:
  assumes "chan_run (chan_start wanter) tr s" "about_to_wake s d"
  shows "\<exists>s'. chan_step s [] s' \<and> \<not> sy_armed s' d"
proof -
  obtain x r where x: "sy_phase s (peer d) = Leaving x r True"
    using assms(2) by (auto simp: about_to_wake_def split: phase.split_asm)
  then have "op_side x = peer d" using leaving_side [OF assms(1) refl] by blast
  moreover have "peer (peer d) = d" by (cases d) auto
  ultimately show ?thesis using chan_leave [of s x r True] x by fastforce
qed

lemma accepted_append:
  "accepted f (tr @ tr') = accepted f tr @ accepted (f \<and> RecvDrop \<notin> fst ` set tr) tr'"
  by (induction f tr rule: accepted.induct) auto

lemma received_append: "received (tr @ tr') = received tr @ received tr'"
  by (induction tr rule: received.induct) auto

lemma exec_contents:
  assumes "chan_exec x ch = (r, ch', w)"
    and "(\<exists>e. x = SendError e) \<longrightarrow> ch_pending_error (cc_state ch) = None"
  shows "chan_contents ch @ accepted (ch_receiver_open (cc_state ch)) [(x, r)] =
      received [(x, r)] @ chan_contents ch'"
  using assms
  by (cases x) (auto simp: sender_ops receiver_ops chan_contents_def split: if_split_asm option.split_asm)

lemma exec_terminated:
  assumes "chan_exec x ch = (r, ch', w)" "cc_terminated ch'"
    and "cc_terminated ch \<longrightarrow> \<not> ch_sender_open (cc_state ch) \<and> chan_contents ch = []"
    and "op_side x = SenderSide \<longrightarrow> ch_sender_open (cc_state ch)"
  shows "\<not> ch_sender_open (cc_state ch') \<and> chan_contents ch' = []"
  using assms
  by (cases x) (auto simp: sender_ops receiver_ops chan_contents_def split: if_split_asm option.split_asm)

lemma exec_terminated_stays: "chan_exec x ch = (r, ch', w) \<Longrightarrow> cc_terminated ch \<Longrightarrow> cc_terminated ch'"
  by (cases x) (auto simp: sender_ops receiver_ops split: if_split_asm option.split_asm)

lemma exec_end:
  "chan_exec x ch = (r, ch', w) \<Longrightarrow> x = RecvNext \<Longrightarrow> r = NextIs (Ready None) \<Longrightarrow> cc_terminated ch'"
  by (auto simp: receiver_ops split: if_split_asm option.split_asm)

lemma exec_trailers:
  assumes "chan_exec x ch = (r, ch', w)" "ch_trailers (cc_state ch') = Some t"
  shows "ch_trailers (cc_state ch) = Some t \<or> x = SendTrailers t \<and> r = TrailersSent (Inr ())"
  using assms by (cases x) (auto simp: sender_ops receiver_ops split: if_split_asm option.split_asm)

lemma exec_take_trailers:
  "chan_exec x ch = (r, ch', w) \<Longrightarrow> x = RecvTrailers \<Longrightarrow> r = TrailersAre t \<Longrightarrow> ch_trailers (cc_state ch) = t"
  by (auto simp: receiver_ops)

lemma fifo_ok_lock:
  assumes ok: "fifo_ok tr s" "phase_ok s" "error_ok tr s"
    and x: "sy_phase s (op_side x) = Entered x" and ex: "chan_exec x (sy_chan s) = (r, ch, w)"
  shows "fifo_ok (tr @ [(x, r)]) (s\<lparr>sy_chan := ch, sy_phase := (sy_phase s)(op_side x := Leaving x r w)\<rparr>)"
proof -
  let ?tr = "tr @ [(x, r)]"
  have "accepted True ?tr = received ?tr @ chan_contents ch" if d: "disciplined ?tr"
  proof -
    have "\<not> error_sent tr" if "x = SendError e" for e using d that by (auto simp: disciplined_append)
    then have "(\<exists>e. x = SendError e) \<longrightarrow> ch_pending_error (cc_state (sy_chan s)) = None"
      using ok(3) by (auto simp: error_ok_def)
    from exec_contents [OF ex this] show ?thesis
      using ok(1) disciplined_prefix [OF d] by (simp add: fifo_ok_def Let_def accepted_append received_append)
  qed
  moreover have "ch_receiver_open (cc_state ch) = (RecvDrop \<notin> fst ` set ?tr)"
      "ch_sender_open (cc_state ch) = (SendDrop \<notin> fst ` set ?tr)"
    using ok(1) exec_opens [OF ex] by (auto simp: fifo_ok_def Let_def)
  moreover have "cc_terminated ch \<longrightarrow> \<not> ch_sender_open (cc_state ch) \<and> chan_contents ch = []"
  proof -
    have "op_side x = SenderSide \<longrightarrow> ch_sender_open (cc_state (sy_chan s))"
      using ok(2) x by (auto simp: phase_ok_def dropped_def)
    then show ?thesis using ok(1) exec_terminated [OF ex] by (auto simp: fifo_ok_def Let_def)
  qed
  moreover have "(RecvNext, NextIs (Ready None)) \<in> set ?tr \<longrightarrow> cc_terminated ch"
  proof
    assume "(RecvNext, NextIs (Ready None)) \<in> set ?tr"
    then consider "(RecvNext, NextIs (Ready None)) \<in> set tr" | "x = RecvNext" "r = NextIs (Ready None)" by auto
    then show "cc_terminated ch"
      using ok(1) ex [THEN exec_end] exec_terminated_stays [OF ex] by cases (simp_all add: fifo_ok_def Let_def)
  qed
  moreover have "\<forall>t. ch_trailers (cc_state ch) = Some t \<longrightarrow> (SendTrailers t, TrailersSent (Inr ())) \<in> set ?tr"
    using ok(1) exec_trailers [OF ex] by (fastforce simp: fifo_ok_def Let_def)
  moreover have "\<forall>t. (RecvTrailers, TrailersAre (Some t)) \<in> set ?tr \<longrightarrow> (SendTrailers t, TrailersSent (Inr ())) \<in> set ?tr"
  proof (intro allI impI)
    fix t
    assume "(RecvTrailers, TrailersAre (Some t)) \<in> set ?tr"
    then consider "(RecvTrailers, TrailersAre (Some t)) \<in> set tr" | "x = RecvTrailers" "r = TrailersAre (Some t)" by auto
    then show "(SendTrailers t, TrailersSent (Inr ())) \<in> set ?tr"
      using ok(1) ex [THEN exec_take_trailers] by cases (simp_all add: fifo_ok_def Let_def)
  qed
  ultimately show ?thesis by (simp add: fifo_ok_def Let_def)
qed

lemma fifo_ok_run:
  assumes "chan_run s tr s'" "s = chan_start wanter"
  shows "fifo_ok tr s'"
  using assms
proof (induction rule: chan_run.induct)
  case (chan_run_refl s)
  then show ?case by (simp add: fifo_ok_def chan_start_def body_channel_def chan_contents_def)
next
  case (chan_run_step s tr s' l s'')
  note ok = chan_run_ok [OF chan_run_step(1,4)]
  from chan_run_step(2) chan_run_step(3) [OF chan_run_step(4)] ok show ?case
  proof (induction rule: chan_step.induct)
    case (chan_lock s x r ch w)
    then show ?case using fifo_ok_lock by blast
  qed (auto simp: fifo_ok_def)
qed

lemma chan_run_op:
  assumes "chan_run s0 tr s" "sy_phase s (op_side x) = Outside q"
  shows "chan_run s0 (tr @ [(x, fst (chan_exec x (sy_chan s)))]) (run_op x s)"
proof -
  obtain r ch w where e: "chan_exec x (sy_chan s) = (r, ch, w)" by (metis prod_cases3)
  note 1 = chan_run_step [OF assms(1) chan_enter [OF assms(2)]]
  note 2 = chan_run_step [OF 1 chan_lock [of _ x r ch w]]
  note 3 = chan_run_step [OF 2 chan_leave [of _ x r w]]
  show ?thesis using 3 e by (cases w) (simp_all add: run_op_def Let_def split del: if_split)
qed

lemma asleep_waits:
  assumes "chan_run (chan_start wanter) tr s" "disciplined tr" "asleep s d"
  shows "would_wait s d \<or> about_to_wake s d"
  using chan_run_ok [OF assms(1) refl] assms(2,3)
  by (cases d) (auto simp: wake_ok_def poll_next_Pending)

lemma asleep_not_both:
  assumes "chan_run (chan_start wanter) tr s" "disciplined tr" "asleep s ReceiverSide"
    and "sy_phase s SenderSide = Outside (Some (ReadyIs Pending))"
  shows "\<not> asleep s SenderSide"
proof
  assume a: "asleep s SenderSide"
  have "\<not> about_to_wake s SenderSide" "\<not> about_to_wake s ReceiverSide"
    using assms(3,4) by (auto simp: about_to_wake_def)
  then have "sender_poll_ready (sy_chan s) = Pending" "next_waits (sy_chan s)"
    using asleep_waits [OF assms(1,2) a] asleep_waits [OF assms(1-3)] assms(4) by (simp_all add: poll_next_Pending)
  moreover have "ch_want (cc_state (sy_chan s))"
    using chan_run_ok [OF assms(1) refl] assms(3) by (simp add: wake_ok_def)
  ultimately show False using not_both_wait by blast
qed

text \<open>
  The discipline is needed: a sender that is polled after it has sent an error behind
  data can miss its wake-up, because taking the error wakes the sender only when the receiver
  was not wanting before.  Every use of \<^verbatim>\<open>send_error\<close> in the sources is followed by the drop of
  the sender.
\<close>

lemma undisciplined_sender_misses_wakeup:
  fixes e :: 'e
  defines "s \<equiv> run_op RecvNext (run_op SendReady (run_op RecvNext (run_op (SendError e)
    (run_op (SendData [1]) (chan_start False :: ('e, 'm) chan_system)))))"
  shows "(\<exists>tr. chan_run (chan_start False) tr s) \<and> asleep s SenderSide \<and>
    \<not> would_wait s SenderSide \<and> \<not> about_to_wake s SenderSide"
proof -
  let ?start = "chan_start False :: ('e, 'm) chan_system"
  note evals = run_op_def chan_start_def body_channel_def sender_ops receiver_ops
  note 1 = chan_run_op [OF chan_run_refl [of ?start], where x = "SendData [1]" and q = None]
  note 2 = chan_run_op [OF 1, where x = "SendError e"]
  note 3 = chan_run_op [OF 2, where x = RecvNext]
  note 4 = chan_run_op [OF 3, where x = SendReady]
  note 5 = chan_run_op [OF 4, where x = RecvNext]
  have "\<exists>tr. chan_run ?start tr s" unfolding s_def
    by (rule exI, rule 5) (simp_all add: evals)
  moreover have "asleep s SenderSide \<and> \<not> would_wait s SenderSide \<and> \<not> about_to_wake s SenderSide"
    by (simp add: s_def evals about_to_wake_def)
  ultimately show ?thesis by blast
qed





end
