(* ===== verification/Proxy_Io.thy ===== *)
theory Proxy_Io
  imports Http1_Io
begin

text \<open>
  \<^verbatim>\<open>src/src/proxy.rs\<close>: what the proxy connectors share.  The helpers that send and read whole messages over
  the stream of the caller, which is the interface \<open>stream_api\<close> with the contract \<open>byte_stream\<close>, and the
  host and port of a destination, with \<^verbatim>\<open>http::Uri\<close> as a parameter.  The lemmas of the locale
  say what the helpers send and consume; \<open>live_stream\<close> adds that they return.
\<close>

section \<open>Definitions\<close>

text \<open>
  The stream of the caller: \<open>st_read io n\<close> is \<^verbatim>\<open>poll_read\<close> into a slice of \<open>n\<close> bytes, with the bytes
  filled.
\<close>

record 'io stream_api =
  st_read :: "'io \<Rightarrow> nat \<Rightarrow> byte list io_result poll \<times> 'io"
  st_write :: "'io \<Rightarrow> byte list \<Rightarrow> nat io_result poll \<times> 'io"
  st_flush :: "'io \<Rightarrow> unit io_result poll \<times> 'io"

text \<open>
  The helpers for handshakes.  An \<^verbatim>\<open>await\<close> polls again until it is ready; one that never is, or that
  unwinds, has no result (\<open>None\<close>).
\<close>

partial_function (option) stream_flush :: "'io stream_api \<Rightarrow> 'io \<Rightarrow> (unit io_result \<times> 'io) option" where
  "stream_flush S io =
     (case st_flush S io of
        (Ready r, io') \<Rightarrow> Some (r, io')
      | (Pending, io') \<Rightarrow> stream_flush S io'
      | (Panicked, io') \<Rightarrow> None)"

declare stream_flush.simps [code]

partial_function (option) stream_send ::
    "'io stream_api \<Rightarrow> byte list \<Rightarrow> 'io \<Rightarrow> (unit io_result \<times> 'io) option" where
  "stream_send S buf io =
     (if buf = [] then stream_flush S io
      else
        case st_write S io buf of
          (Pending, io') \<Rightarrow> stream_send S buf io'
        | (Panicked, io') \<Rightarrow> None
        | (Ready (Inl e), io') \<Rightarrow> Some (Inl e, io')
        | (Ready (Inr n), io') \<Rightarrow>
            (if n = 0 then Some (Inl write_zero, io')
             else if n > length buf then None
             else stream_send S (drop n buf) io'))"

declare stream_send.simps [code]

partial_function (option) stream_read ::
    "'io stream_api \<Rightarrow> nat \<Rightarrow> 'io \<Rightarrow> (byte list io_result \<times> 'io) option" where
  "stream_read S n io =
     (case st_read S io n of
        (Ready r, io') \<Rightarrow> Some (r, io')
      | (Pending, io') \<Rightarrow> stream_read S n io'
      | (Panicked, io') \<Rightarrow> None)"

declare stream_read.simps [code]

text \<open>The destination: the interface of \<^verbatim>\<open>http::Uri\<close>, a parameter.\<close>

record authority =
  au_as_str :: "byte list"
  au_host :: "byte list"
  au_port_u16 :: "u16 option"

record 'u uri_api =
  ur_host :: "'u \<Rightarrow> byte list option"
  ur_authority :: "'u \<Rightarrow> authority option"
  ur_scheme_str :: "'u \<Rightarrow> byte list option"

definition strip_prefix :: "'a list \<Rightarrow> 'a list \<Rightarrow> 'a list option" where
  "strip_prefix p s = (if take (length p) s = p then Some (drop (length p) s) else None)"

definition dst_host :: "'u uri_api \<Rightarrow> 'u \<Rightarrow> byte list option" where
  "dst_host U uri =
     (case ur_host U uri of
        Some host \<Rightarrow> (if host = [] \<or> host = ascii ''[]'' then None else Some host)
      | None \<Rightarrow> None)"

definition dst_port :: "'u uri_api \<Rightarrow> 'u \<Rightarrow> u16 option" where
  "dst_port U uri =
     (case ur_authority U uri of
        None \<Rightarrow> None
      | Some a \<Rightarrow>
          (case au_port_u16 a of
             Some port \<Rightarrow> (if port \<noteq> 0 then Some port else None)
           | None \<Rightarrow>
               (case strip_prefix (au_host a) (last (split_on 64 (au_as_str a))) of
                  None \<Rightarrow> None
                | Some rest \<Rightarrow>
                    (if rest \<noteq> [] \<and> rest \<noteq> [58] then None
                     else
                       let insecure =
                         (case ur_scheme_str U uri of
                            None \<Rightarrow> False
                          | Some scheme \<Rightarrow> eq_ignore_ascii_case scheme (ascii ''http'') \<or>
                                           eq_ignore_ascii_case scheme (ascii ''ws'')) in
                       Some (if insecure then 80 else 443)))))"

text \<open>The debug view of the URI of a proxy, \<^verbatim>\<open>ProxyDst\<close>.\<close>

definition proxy_dst_fmt :: "'u uri_api \<Rightarrow> 'u \<Rightarrow> byte list" where
  "proxy_dst_fmt U uri =
     (case ur_scheme_str U uri of Some scheme \<Rightarrow> scheme @ ascii ''://'' | None \<Rightarrow> []) @
     last (split_on 64 (case ur_authority U uri of Some a \<Rightarrow> au_as_str a | None \<Rightarrow> []))"

text \<open>
  The connector that the proxy connectors wrap, a \<^verbatim>\<open>tower::Service\<close>: \<open>co_poll_ready\<close> and \<open>co_call\<close>
  act on its state; a call gives the future, which is the outcome it has when awaited.
\<close>

record ('c, 'u, 'io) connector_api =
  co_poll_ready :: "'c \<Rightarrow> (unit + unit) poll \<times> 'c"
  co_call :: "'c \<Rightarrow> 'u \<Rightarrow> (unit + 'io) option \<times> 'c"

text \<open>What the code relies on of a stream, and a stream that is pending only a bounded number of times.\<close>

locale byte_stream =
  fixes S :: "'io stream_api"
    and incoming :: "'io \<Rightarrow> byte list"
    and sent :: "'io \<Rightarrow> byte list"
    and io_ok :: "'io \<Rightarrow> bool"
  assumes st_read_keeps: "\<lbrakk>io_ok io; st_read S io n = (res, io')\<rbrakk> \<Longrightarrow> io_ok io' \<and> sent io' = sent io \<and> res \<noteq> Panicked"
    and st_read_ready: "\<lbrakk>io_ok io; st_read S io n = (Ready (Inr bs), io')\<rbrakk> \<Longrightarrow>
          length bs \<le> n \<and> incoming io = bs @ incoming io' \<and> (bs = [] \<and> 0 < n \<longrightarrow> incoming io = [])"
    and st_read_idle: "\<lbrakk>io_ok io; st_read S io n = (res, io'); \<nexists>bs. res = Ready (Inr bs)\<rbrakk> \<Longrightarrow> incoming io' = incoming io"
    and st_write_keeps: "\<lbrakk>io_ok io; st_write S io bs = (wr, io')\<rbrakk> \<Longrightarrow>
          io_ok io' \<and> incoming io' = incoming io \<and> wr \<noteq> Panicked"
    and st_write_ready: "\<lbrakk>io_ok io; st_write S io bs = (Ready (Inr n), io')\<rbrakk> \<Longrightarrow>
          n \<le> length bs \<and> sent io' = sent io @ take n bs"
    and st_write_idle: "\<lbrakk>io_ok io; st_write S io bs = (wr, io'); \<nexists>n. wr = Ready (Inr n)\<rbrakk> \<Longrightarrow> sent io' = sent io"
    and st_flush_keeps: "\<lbrakk>io_ok io; st_flush S io = (fin, io')\<rbrakk> \<Longrightarrow>
          io_ok io' \<and> incoming io' = incoming io \<and> sent io' = sent io \<and> fin \<noteq> Panicked"

locale live_stream = byte_stream +
  fixes waits :: "'a \<Rightarrow> nat"
  assumes st_read_waits: "\<lbrakk>io_ok io; st_read S io n = (res, io')\<rbrakk> \<Longrightarrow>
          waits io' \<le> waits io \<and> (res = Pending \<longrightarrow> waits io' < waits io)"
    and st_write_waits: "\<lbrakk>io_ok io; st_write S io bs = (res', io')\<rbrakk> \<Longrightarrow>
          waits io' \<le> waits io \<and> (res' = Pending \<longrightarrow> waits io' < waits io)"
    and st_flush_waits: "\<lbrakk>io_ok io; st_flush S io = (fin, io')\<rbrakk> \<Longrightarrow>
          waits io' \<le> waits io \<and> (fin = Pending \<longrightarrow> waits io' < waits io)"

text \<open>The scripted transport as a stream.\<close>

definition sc_stream :: "script stream_api" where
  "sc_stream =
     \<lparr>st_read = (\<lambda>s n.
        if n = 0 then (Ready (Inr []), s)
        else case sc_read_buf s [] n of
               (Ready (Inr k), s', buf, cap) \<Rightarrow> (Ready (Inr buf), s')
             | (Ready (Inl e), s', buf, cap) \<Rightarrow> (Ready (Inl e), s')
             | (Pending, s', buf, cap) \<Rightarrow> (Pending, s')
             | (Panicked, s', buf, cap) \<Rightarrow> (Panicked, s')),
      st_write = sc_write_bytes,
      st_flush = (\<lambda>s. (Ready (Inr ()), s))\<rparr>"

definition sc_stream_waits :: "script \<Rightarrow> nat" where
  "sc_stream_waits s = length (filter (\<lambda>r. r = RecvWait) (sc_recv s)) + length (filter (\<lambda>w. w = None) (sc_write s))"

context byte_stream
begin

lemma stream_flush_keeps:
  assumes "stream_flush S io = Some y" "io_ok io"
  shows "io_ok (snd y) \<and> incoming (snd y) = incoming io \<and> sent (snd y) = sent io"
proof -
  have "S' = S \<longrightarrow> io_ok io \<longrightarrow> io_ok (snd y) \<and> incoming (snd y) = incoming io \<and> sent (snd y) = sent io"
    if "stream_flush S' io = Some y" for S' io y
    by (rule stream_flush.raw_induct [OF _ that])
       (auto split: prod.split_asm poll.split_asm dest: st_flush_keeps)
  then show ?thesis using assms by blast
qed

lemma stream_read_keeps:
  assumes "stream_read S n io = Some (r, io')" "io_ok io"
  shows "io_ok io' \<and> sent io' = sent io \<and>
    (case r of Inl e \<Rightarrow> incoming io' = incoming io
     | Inr bs \<Rightarrow> length bs \<le> n \<and> incoming io = bs @ incoming io' \<and> (bs = [] \<and> 0 < n \<longrightarrow> incoming io = []))"
proof -
  let ?post = "\<lambda>n io y. io_ok (snd y) \<and> sent (snd y) = sent io \<and>
    (case fst y of Inl e \<Rightarrow> incoming (snd y) = incoming io
     | Inr bs \<Rightarrow> length bs \<le> n \<and> incoming io = bs @ incoming (snd y) \<and> (bs = [] \<and> 0 < n \<longrightarrow> incoming io = []))"
  have "S' = S \<longrightarrow> io_ok io \<longrightarrow> ?post n io y" if "stream_read S' n io = Some y" for S' n io y
  proof (rule stream_read.raw_induct [OF _ that], intro impI)
    fix f S' n io y
    assume IH: "\<And>S' n io y. f S' n io = Some y \<Longrightarrow> S' = S \<longrightarrow> io_ok io \<longrightarrow> ?post n io y"
      and body: "(case st_read S' io n of (Ready r, io') \<Rightarrow> Some (r, io') | (Pending, io') \<Rightarrow> f S' n io' | (Panicked, io') \<Rightarrow> None) = Some y"
      and "S' = S" "io_ok io"
    obtain res io' where r: "st_read S io n = (res, io')" by fastforce
    note k = st_read_keeps [OF \<open>io_ok io\<close> r] st_read_idle [OF \<open>io_ok io\<close> r]
    show "?post n io y"
    proof (cases res)
      case Pending
      then show ?thesis using IH [of S n io' y] body k r \<open>S' = S\<close> by (auto split: sum.split)
    next
      case (Ready q)
      show ?thesis
      proof (cases q)
        case (Inr bs)
        show ?thesis using body k r \<open>S' = S\<close> Ready Inr st_read_ready [OF \<open>io_ok io\<close> r [unfolded Ready Inr]] by auto
      qed (use body k r \<open>S' = S\<close> Ready in auto)
    qed (use body r \<open>S' = S\<close> in auto)
  qed
  from this [OF assms(1)] show ?thesis using assms(2) by (cases r) auto
qed

lemma stream_send_step:
  assumes IH: "\<And>buf io y. f S buf io = Some y \<Longrightarrow> io_ok io \<Longrightarrow> P buf io y" and "io_ok io" "buf \<noteq> []"
    and body: "(case st_write S io buf of (Pending, io') \<Rightarrow> f S buf io' | (Panicked, io') \<Rightarrow> None
        | (Ready (Inl e), io') \<Rightarrow> Some (Inl e, io')
        | (Ready (Inr n), io') \<Rightarrow> if n = 0 then Some (Inl write_zero, io') else if n > length buf then None
            else f S (drop n buf) io') = Some y"
    and P: "P = (\<lambda>buf io y. io_ok (snd y) \<and> incoming (snd y) = incoming io \<and>
        (\<exists>k. sent (snd y) = sent io @ take k buf) \<and> (fst y = Inr () \<longrightarrow> sent (snd y) = sent io @ buf))"
  shows "P buf io y"
proof -
  obtain res io' where r: "st_write S io buf = (res, io')" by fastforce
  note k = st_write_keeps [OF \<open>io_ok io\<close> r] st_write_idle [OF \<open>io_ok io\<close> r]
  have sent0: "\<exists>k. sent io = sent io @ take k buf" by (rule exI [of _ 0]) simp
  show ?thesis
  proof (cases res)
    case Pending
    then show ?thesis using IH [of buf io' y] body k r P by auto
  next
    case Ready: (Ready q)
    show ?thesis
    proof (cases q)
      case (Inl e)
      then show ?thesis using body k r Ready sent0 P by auto
    next
      case (Inr n)
      note w = st_write_ready [OF \<open>io_ok io\<close> r [unfolded Ready Inr]]
      show ?thesis
      proof (cases "n = 0")
        case True
        then show ?thesis using body k r Ready Inr w sent0 P by auto
      next
        case False
        have f: "f S (drop n buf) io' = Some y" using body r Ready Inr False w by auto
        have "take n buf @ take j (drop n buf) = take (n + j) buf" for j by (simp add: take_add)
        then show ?thesis using IH [OF f] k w P by (auto simp: append_assoc)
      qed
    qed
  qed (use body r in auto)
qed

lemma stream_send_keeps:
  assumes "stream_send S buf io = Some (r, io')" "io_ok io"
  shows "io_ok io' \<and> incoming io' = incoming io \<and> (\<exists>k. sent io' = sent io @ take k buf) \<and>
    (r = Inr () \<longrightarrow> sent io' = sent io @ buf)"
proof -
  let ?P = "\<lambda>buf io y. io_ok (snd y) \<and> incoming (snd y) = incoming io \<and>
    (\<exists>k. sent (snd y) = sent io @ take k buf) \<and> (fst y = Inr () \<longrightarrow> sent (snd y) = sent io @ buf)"
  have "S' = S \<longrightarrow> io_ok io \<longrightarrow> ?P buf io y" if "stream_send S' buf io = Some y" for S' buf io y
  proof (rule stream_send.raw_induct [OF _ that], intro impI)
    fix f S' buf io y
    assume IH: "\<And>S' buf io y. f S' buf io = Some y \<Longrightarrow> S' = S \<longrightarrow> io_ok io \<longrightarrow> ?P buf io y"
      and body: "(if buf = [] then stream_flush S' io
         else case st_write S' io buf of (Pending, io') \<Rightarrow> f S' buf io' | (Panicked, io') \<Rightarrow> None
           | (Ready (Inl e), io') \<Rightarrow> Some (Inl e, io')
           | (Ready (Inr n), io') \<Rightarrow> if n = 0 then Some (Inl write_zero, io') else if n > length buf then None
               else f S' (drop n buf) io') = Some y"
      and S: "S' = S" "io_ok io"
    show "?P buf io y"
    proof (cases "buf = []")
      case True
      then show ?thesis using body stream_flush_keeps [of io y] S by simp
    next
      case False
      show ?thesis by (rule stream_send_step [OF _ S(2) False _ refl, of f]) (use IH body False S in auto)
    qed
  qed
  from this [OF assms(1)] show ?thesis using assms(2) by simp
qed

end

context live_stream
begin

lemma stream_flush_returns: "io_ok io \<Longrightarrow> \<exists>r io'. stream_flush S io = Some (r, io') \<and> waits io' \<le> waits io"
proof (induction "waits io" arbitrary: io rule: less_induct)
  case less
  obtain res io' where r: "st_flush S io = (res, io')" by fastforce
  note k = st_flush_keeps [OF less(2) r] st_flush_waits [OF less(2) r]
  show ?case
  proof (cases res)
    case Pending
    then show ?thesis using less(1) [of io'] k r by (subst stream_flush.simps) fastforce
  qed (use k r in \<open>subst stream_flush.simps; auto\<close>)+
qed

lemma stream_read_returns: "io_ok io \<Longrightarrow> \<exists>r io'. stream_read S n io = Some (r, io') \<and> waits io' \<le> waits io"
proof (induction "waits io" arbitrary: io rule: less_induct)
  case less
  obtain res io' where r: "st_read S io n = (res, io')" by fastforce
  note k = st_read_keeps [OF less(2) r] st_read_waits [OF less(2) r]
  show ?case
  proof (cases res)
    case Pending
    then show ?thesis using less(1) [of io'] k r by (subst stream_read.simps) fastforce
  qed (use k r in \<open>subst stream_read.simps; auto\<close>)+
qed

lemma stream_send_returns: "io_ok io \<Longrightarrow> \<exists>r io'. stream_send S buf io = Some (r, io') \<and> waits io' \<le> waits io"
proof (induction "length buf + waits io" arbitrary: buf io rule: less_induct)
  case less
  show ?case
  proof (cases "buf = []")
    case True
    then show ?thesis using stream_flush_returns [OF less(2)] by (subst stream_send.simps) simp
  next
    case False
    obtain res io' where r: "st_write S io buf = (res, io')" by fastforce
    note k = st_write_keeps [OF less(2) r] st_write_waits [OF less(2) r]
    show ?thesis
    proof (cases res)
      case Pending
      then show ?thesis using less(1) [of buf io'] k r False by (subst stream_send.simps) fastforce
    next
      case Ready: (Ready q)
      show ?thesis
      proof (cases q)
        case (Inr n)
        have "n \<le> length buf" using st_write_ready [OF less(2) r [unfolded Ready Inr]] by simp
        then show ?thesis using less(1) [of "drop n buf" io'] k r False Ready Inr
          by (subst stream_send.simps) fastforce
      qed (use k r False Ready in \<open>subst stream_send.simps; auto\<close>)
    qed (use k in auto)
  qed
qed

end

lemma sc_stream_sel [simp]:
  "st_write sc_stream = sc_write_bytes" "st_flush sc_stream s = (Ready (Inr ()), s)"
  by (simp_all add: sc_stream_def)

lemma sc_stream_read:
  "st_read sc_stream s n =
     (if n = 0 then (Ready (Inr []), s)
      else case sc_recv s of
        [] \<Rightarrow> (Ready (Inr []), s)
      | RecvWait # rs \<Rightarrow> (Pending, s\<lparr>sc_recv := rs\<rparr>)
      | RecvError e # rs \<Rightarrow> (Ready (Inl e), s\<lparr>sc_recv := rs\<rparr>)
      | Recv bs # rs \<Rightarrow>
          (Ready (Inr (take n bs)), s\<lparr>sc_recv := (if n < length bs then Recv (drop n bs) # rs else rs)\<rparr>))"
  by (auto simp: sc_stream_def sc_read_buf_def Let_def min_def split: list.split recv.split)

interpretation script_stream: live_stream sc_stream sc_incoming sc_sent sc_ok sc_stream_waits
proof
  fix s n res s' bs
  show "sc_ok s \<Longrightarrow> st_read sc_stream s n = (res, s') \<Longrightarrow> sc_ok s' \<and> sc_sent s' = sc_sent s \<and> res \<noteq> Panicked"
    by (auto simp: sc_stream_read sc_ok_def split: if_split_asm list.split_asm recv.split_asm)
  show "sc_ok s \<Longrightarrow> st_read sc_stream s n = (Ready (Inr bs), s') \<Longrightarrow>
      length bs \<le> n \<and> sc_incoming s = bs @ sc_incoming s' \<and> (bs = [] \<and> 0 < n \<longrightarrow> sc_incoming s = [])"
    by (auto simp: sc_stream_read sc_ok_def sc_incoming_def split: if_split_asm list.split_asm recv.split_asm)
  show "sc_ok s \<Longrightarrow> st_read sc_stream s n = (res, s') \<Longrightarrow> \<nexists>bs. res = Ready (Inr bs) \<Longrightarrow> sc_incoming s' = sc_incoming s"
    by (auto simp: sc_stream_read sc_incoming_def split: if_split_asm list.split_asm recv.split_asm)
  show "sc_ok s \<Longrightarrow> st_read sc_stream s n = (res, s') \<Longrightarrow>
      sc_stream_waits s' \<le> sc_stream_waits s \<and> (res = Pending \<longrightarrow> sc_stream_waits s' < sc_stream_waits s)"
    by (auto simp: sc_stream_read sc_stream_waits_def split: if_split_asm list.split_asm recv.split_asm)
qed (auto simp: sc_write_bytes_def sc_ok_def sc_incoming_def sc_stream_waits_def split: list.split_asm option.split_asm)

text \<open>The debug view shows no userinfo: everything up to the last \<^verbatim>\<open>@\<close> of the authority is left out.\<close>

lemma proxy_dst_fmt_no_userinfo:
  assumes "ur_authority U uri = Some a" "au_as_str a = userinfo @ 64 # host" "64 \<notin> set host"
  shows "proxy_dst_fmt U uri = (case ur_scheme_str U uri of Some scheme \<Rightarrow> scheme @ ascii ''://'' | None \<Rightarrow> []) @ host"
  using assms by (simp add: proxy_dst_fmt_def last_split_on_append_sep split_on_no_sep)

end
