(* ===== verification/Proxy_Tunnel.thy ===== *)
theory Proxy_Tunnel
  imports Proxy_Io
begin

text \<open>
  \<^verbatim>\<open>src/src/proxy/tunnel.rs\<close>: a tunnel through an HTTP proxy.  \<open>connect_request\<close> is the request,
  \<open>read_response\<close> the loop that reads the response one or two bytes at a time, and \<open>tunnel\<close> the
  handshake.  The lemmas show that the loop stops at the end of a head, so that no byte of the
  tunnel is consumed, and that it ends.
\<close>

section \<open>Definitions\<close>

text \<open>\<^verbatim>\<open>TunnelError\<close>; the parse errors of \<^verbatim>\<open>httparse\<close> are its own.\<close>

datatype tunnel_error =
    TunnelConnectFailed
  | TunnelIo io_error
  | TunnelParse httparse_error
  | TunnelMissingHost
  | TunnelInvalidPort
  | ProxyAuthRequired
  | ProxyHeadersTooLong
  | TunnelUnexpectedEof
  | TunnelUnsuccessful status_code

definition PROXY_AUTHORIZATION :: header_name where
  "PROXY_AUTHORIZATION = ascii ''proxy-authorization''"

definition TUNNEL_MAX_HEADERS :: nat where
  "TUNNEL_MAX_HEADERS = 64"

definition MAX_RESPONSE_HEAD :: nat where
  "MAX_RESPONSE_HEAD = 8192"

text \<open>The headers of the connector.  That a value is marked sensitive concerns its display only.\<close>

definition tunnel_with_auth :: "'m http_api \<Rightarrow> 'm \<Rightarrow> header_value \<Rightarrow> 'm" where
  "tunnel_with_auth A headers auth = hm_insert A headers PROXY_AUTHORIZATION auth"

text \<open>\<^verbatim>\<open>HeaderMap::extend\<close>: an entry with a name replaces, one without is appended under the name
  before it.\<close>

fun hm_extend_entries ::
    "'m http_api \<Rightarrow> header_name option \<Rightarrow> 'm \<Rightarrow> (header_name option \<times> header_value) list \<Rightarrow> 'm" where
  "hm_extend_entries A cur m [] = m"
| "hm_extend_entries A cur m ((Some k, v) # es) = hm_extend_entries A (Some k) (hm_insert A m k v) es"
| "hm_extend_entries A (Some k) m ((None, v) # es) = hm_extend_entries A (Some k) (hm_append A m k v) es"
| "hm_extend_entries A None m ((None, v) # es) = hm_extend_entries A None m es"

definition tunnel_with_headers :: "'m http_api \<Rightarrow> 'm \<Rightarrow> 'm \<Rightarrow> 'm" where
  "tunnel_with_headers A own headers =
     (let headers = hm_remove A (hm_remove A headers CONTENT_LENGTH) TRANSFER_ENCODING in
      if hm_iter A own = [] then headers
      else hm_extend_entries A None own (hm_into_iter A headers))"

definition header_line :: "header_name \<times> header_value \<Rightarrow> byte list" where
  "header_line nv = fst nv @ ascii '': '' @ snd nv @ CRLF"

definition connect_request ::
    "'m http_api \<Rightarrow> 'u uri_api \<Rightarrow> 'u \<Rightarrow> 'm \<Rightarrow> tunnel_error + byte list" where
  "connect_request A U dst headers =
     (case dst_host U dst of
        None \<Rightarrow> Inl TunnelMissingHost
      | Some host \<Rightarrow>
          (case dst_port U dst of
             None \<Rightarrow> Inl TunnelInvalidPort
           | Some port \<Rightarrow>
               let target = host @ ascii '':'' @ decimal (unat port) in
               Inr (ascii ''CONNECT '' @ target @ ascii '' HTTP/1.1'' @ CRLF @ ascii ''Host: '' @
                 (case hm_get A headers HOST of Some value \<Rightarrow> value | None \<Rightarrow> target) @ CRLF @
                 concat (map header_line (filter (\<lambda>(name, _). name \<noteq> HOST) (hm_iter A headers))) @
                 CRLF)))"

text \<open>\<^verbatim>\<open>read_response\<close>.  Of the fixed buffer the model keeps the part that is filled;
  a slice out of range panics.\<close>

definition ends_with :: "'a list \<Rightarrow> 'a list \<Rightarrow> bool" where
  "ends_with s suffix = (length suffix \<le> length s \<and> drop (length s - length suffix) s = suffix)"

definition read_want :: "byte list \<Rightarrow> nat" where
  "read_want head = (if ends_with head [10] \<or> ends_with head [10, 13] then 1 else 2)"

definition head_may_end :: "byte list \<Rightarrow> bool" where
  "head_may_end head = (ends_with head [10, 10] \<or> ends_with head [10, 13, 10])"

definition skips_parse :: "byte list \<Rightarrow> bool" where
  "skips_parse head =
     (\<not> head_may_end head \<and>
      length (trim_start_by is_ascii_whitespace head) > length (ascii ''HTTP/1.1 200 ''))"

datatype head_outcome = ReadMore | SkipHead nat | TunnelOpen | TunnelFail tunnel_error

definition parse_response_head ::
    "'m http_api \<Rightarrow> response_parser \<Rightarrow> byte list \<Rightarrow> head_outcome" where
  "parse_response_head A R head =
     (if skips_parse head then ReadMore
      else
        case rp_parse R head TUNNEL_MAX_HEADERS of
          HpPartial \<Rightarrow> ReadMore
        | HpError e \<Rightarrow>
            TunnelFail (if e = HpTooManyHeaders then ProxyHeadersTooLong else TunnelParse e)
        | HpComplete res \<Rightarrow>
            (case sc_from_u16 A (rr_code res) of
               None \<Rightarrow> TunnelFail (TunnelParse HpStatus)
             | Some status \<Rightarrow>
                 if 100 \<le> status \<and> status < 200 \<and> status \<noteq> 101 then SkipHead (rr_len res)
                 else if 200 \<le> status \<and> status < 300 then TunnelOpen
                 else if status = 407 then TunnelFail ProxyAuthRequired
                 else TunnelFail (TunnelUnsuccessful status)))"

partial_function (option) read_response ::
    "'m http_api \<Rightarrow> response_parser \<Rightarrow> 'io stream_api \<Rightarrow> byte list \<Rightarrow> nat \<Rightarrow> 'io \<Rightarrow>
     ((tunnel_error + unit) \<times> 'io) option" where
  "read_response A R S buf start io =
     (if length buf = MAX_RESPONSE_HEAD then Some (Inl ProxyHeadersTooLong, io)
      else if start > length buf then None
      else
        let end_pos = min (length buf + read_want (drop start buf)) MAX_RESPONSE_HEAD in
        case stream_read S (end_pos - length buf) io of
          None \<Rightarrow> None
        | Some (Inl e, io') \<Rightarrow> Some (Inl (TunnelIo e), io')
        | Some (Inr bs, io') \<Rightarrow>
            (if bs = [] then Some (Inl TunnelUnexpectedEof, io')
             else
               case parse_response_head A R (drop start (buf @ bs)) of
                 ReadMore \<Rightarrow> read_response A R S (buf @ bs) start io'
               | SkipHead parsed \<Rightarrow> read_response A R S (buf @ bs) (start + parsed) io'
               | TunnelOpen \<Rightarrow> Some (Inr (), io')
               | TunnelFail e \<Rightarrow> Some (Inl e, io')))"

declare read_response.simps [code]

definition tunnel ::
    "'m http_api \<Rightarrow> response_parser \<Rightarrow> 'io stream_api \<Rightarrow> byte list \<Rightarrow> 'io \<Rightarrow>
     ((tunnel_error + unit) \<times> 'io) option" where
  "tunnel A R S req io =
     (case stream_send S req io of
        None \<Rightarrow> None
      | Some (Inl e, io') \<Rightarrow> Some (Inl (TunnelIo e), io')
      | Some (Inr _, io') \<Rightarrow> read_response A R S [] 0 io')"

text \<open>\<^verbatim>\<open>TunnelConnector\<close>; the connector it wraps is passed along with its state.\<close>

record ('u, 'm) tunnel_connector =
  tc_headers :: 'm
  tc_proxy_dst :: 'u

definition tunnel_connector_new :: "'m http_api \<Rightarrow> 'u \<Rightarrow> ('u, 'm) tunnel_connector" where
  "tunnel_connector_new A proxy_dst = \<lparr>tc_headers = hm_empty A, tc_proxy_dst = proxy_dst\<rparr>"

definition tunnel_poll_ready ::
    "('c, 'u, 'io) connector_api \<Rightarrow> 'c \<Rightarrow> (tunnel_error + unit) poll \<times> 'c" where
  "tunnel_poll_ready C inner =
     (case co_poll_ready C inner of
        (Pending, inner') \<Rightarrow> (Pending, inner')
      | (Panicked, inner') \<Rightarrow> (Panicked, inner')
      | (Ready (Inl _), inner') \<Rightarrow> (Ready (Inl TunnelConnectFailed), inner')
      | (Ready (Inr _), inner') \<Rightarrow> (Ready (Inr ()), inner'))"

definition tunnel_call ::
    "'m http_api \<Rightarrow> 'u uri_api \<Rightarrow> response_parser \<Rightarrow> 'io stream_api \<Rightarrow> ('c, 'u, 'io) connector_api \<Rightarrow>
     ('u, 'm) tunnel_connector \<Rightarrow> 'c \<Rightarrow> 'u \<Rightarrow> (tunnel_error + 'io) option \<times> 'c" where
  "tunnel_call A U R S C conn inner dst =
     (case connect_request A U dst (tc_headers conn) of
        Inl e \<Rightarrow> (Some (Inl e), inner)
      | Inr req \<Rightarrow>
          let (connecting, inner') = co_call C inner (tc_proxy_dst conn) in
          (case connecting of
             None \<Rightarrow> None
           | Some (Inl _) \<Rightarrow> Some (Inl TunnelConnectFailed)
           | Some (Inr io) \<Rightarrow>
               (case tunnel A R S req io of
                  None \<Rightarrow> None
                | Some (Inl e, _) \<Rightarrow> Some (Inl e)
                | Some (Inr _, io') \<Rightarrow> Some (Inr io')),
           inner'))"

text \<open>
  What \<^verbatim>\<open>httparse\<close> documents of a complete response head: it consumed some of the buffer, up to and with
  the empty line that ends the head, and what follows the head has no influence on it.
\<close>

definition head_parser :: "response_parser \<Rightarrow> bool" where
  "head_parser R \<longleftrightarrow> (\<forall>buf cap res. rp_parse R buf cap = HpComplete res \<longrightarrow>
     0 < rr_len res \<and> rr_len res \<le> length buf \<and> head_may_end (take (rr_len res) buf) \<and>
     rp_parse R (take (rr_len res) buf) cap = HpComplete res)"

definition head_with :: "'m http_api \<Rightarrow> response_parser \<Rightarrow> (status_code \<Rightarrow> bool) \<Rightarrow> byte list \<Rightarrow> bool" where
  "head_with A R P h \<longleftrightarrow> (\<exists>res status. rp_parse R h TUNNEL_MAX_HEADERS = HpComplete res \<and> rr_len res = length h \<and>
     sc_from_u16 A (rr_code res) = Some status \<and> P status)"

definition interim_head :: "'m http_api \<Rightarrow> response_parser \<Rightarrow> byte list \<Rightarrow> bool" where
  "interim_head A R = head_with A R (\<lambda>s. 100 \<le> s \<and> s < 200 \<and> s \<noteq> 101)"

definition success_head :: "'m http_api \<Rightarrow> response_parser \<Rightarrow> byte list \<Rightarrow> bool" where
  "success_head A R = head_with A R (\<lambda>s. 200 \<le> s \<and> s < 300)"

text \<open>No complete head ends inside what was read of the current one.\<close>

definition incomplete :: "response_parser \<Rightarrow> byte list \<Rightarrow> bool" where
  "incomplete R head \<longleftrightarrow> (\<forall>q \<le> length head. \<forall>res. rp_parse R (take q head) TUNNEL_MAX_HEADERS \<noteq> HpComplete res)"

text \<open>What a call of \<^verbatim>\<open>read_response\<close> does to the stream.\<close>

definition response_post ::
    "'m http_api \<Rightarrow> response_parser \<Rightarrow> ('io \<Rightarrow> byte list) \<Rightarrow> ('io \<Rightarrow> byte list) \<Rightarrow> ('io \<Rightarrow> bool) \<Rightarrow>
     byte list \<Rightarrow> nat \<Rightarrow> 'io \<Rightarrow> (tunnel_error + unit) \<times> 'io \<Rightarrow> bool" where
  "response_post A R incoming sent io_ok buf start io y \<longleftrightarrow>
     io_ok (snd y) \<and> sent (snd y) = sent io \<and>
     (\<exists>xs. incoming io = xs @ incoming (snd y) \<and> length (buf @ xs) \<le> MAX_RESPONSE_HEAD \<and>
        (fst y = Inr () \<longrightarrow>
           (\<exists>hs h. drop start (buf @ xs) = concat hs @ h \<and> list_all (interim_head A R) hs \<and> success_head A R h)))"

text \<open>One turn of the loop.\<close>

definition response_turn ::
    "'m http_api \<Rightarrow> response_parser \<Rightarrow> 'io stream_api \<Rightarrow> (byte list \<Rightarrow> nat \<Rightarrow> 'io \<Rightarrow> ((tunnel_error + unit) \<times> 'io) option) \<Rightarrow>
     byte list \<Rightarrow> nat \<Rightarrow> 'io \<Rightarrow> ((tunnel_error + unit) \<times> 'io) option" where
  "response_turn A R S f buf start io =
     (if length buf = MAX_RESPONSE_HEAD then Some (Inl ProxyHeadersTooLong, io)
      else if start > length buf then None
      else
        let end_pos = min (length buf + read_want (drop start buf)) MAX_RESPONSE_HEAD in
        case stream_read S (end_pos - length buf) io of
          None \<Rightarrow> None
        | Some (Inl e, io') \<Rightarrow> Some (Inl (TunnelIo e), io')
        | Some (Inr bs, io') \<Rightarrow>
            (if bs = [] then Some (Inl TunnelUnexpectedEof, io')
             else
               case parse_response_head A R (drop start (buf @ bs)) of
                 ReadMore \<Rightarrow> f (buf @ bs) start io'
               | SkipHead parsed \<Rightarrow> f (buf @ bs) (start + parsed) io'
               | TunnelOpen \<Rightarrow> Some (Inr (), io')
               | TunnelFail e \<Rightarrow> Some (Inl e, io')))"

text \<open>A response head and a parser for it.\<close>

definition tunnel_reply :: "byte list" where
  "tunnel_reply = ascii ''HTTP/1.1 200'' @ [10, 10]"

definition tunnel_parser :: response_parser where
  "tunnel_parser =
     \<lparr>rp_parse = (\<lambda>buf cap.
        if take 14 buf = tunnel_reply
        then HpComplete \<lparr>rr_len = 14, rr_code = 200, rr_reason = [], rr_version = 1, rr_headers = []\<rparr>
        else HpPartial),
      rp_obs_fold = False\<rparr>"

definition tunnel_script :: "byte list \<Rightarrow> script" where
  "tunnel_script bs = \<lparr>sc_recv = [Recv bs], sc_write = [], sc_sent = [], sc_vectored = False\<rparr>"

lemma head_parserD:
  assumes "head_parser R" "rp_parse R buf cap = HpComplete res"
  shows "0 < rr_len res" "rr_len res \<le> length buf" "head_may_end (take (rr_len res) buf)"
    "rp_parse R (take (rr_len res) buf) cap = HpComplete res"
  using assms unfolding head_parser_def by blast+

lemma ends_with_snoc:
  "ends_with (xs @ [x]) [10] \<longleftrightarrow> x = 10"
  "ends_with (xs @ [x]) [10, 13] \<longleftrightarrow> x = 13 \<and> ends_with xs [10]"
  "ends_with (xs @ [x]) [10, 10] \<longleftrightarrow> x = 10 \<and> ends_with xs [10]"
  "ends_with (xs @ [x]) [10, 13, 10] \<longleftrightarrow> x = 10 \<and> ends_with xs [10, 13]"
  for x :: byte
  by (cases xs rule: rev_cases; auto simp: ends_with_def)+

lemma head_may_end_next: "read_want head = 2 \<Longrightarrow> \<not> head_may_end (head @ [b])"
  by (auto simp: read_want_def head_may_end_def ends_with_snoc split: if_split_asm)

lemma head_parser_Nil: "head_parser R \<Longrightarrow> rp_parse R [] cap \<noteq> HpComplete res"
  using head_parserD(1,2) [of R "[]" cap res] by fastforce

text \<open>Reading as much as is wanted does not step over the end of a head.\<close>

lemma read_stops_at_end:
  assumes "head_parser R" "incomplete R head" "bs \<noteq> []" "length bs \<le> read_want head"
    and "rp_parse R (take q (head @ bs)) TUNNEL_MAX_HEADERS = HpComplete res" "q \<le> length (head @ bs)"
  shows "q = length (head @ bs)"
proof (rule ccontr)
  assume "q \<noteq> length (head @ bs)"
  then have q: "q < length (head @ bs)" using assms(6) by simp
  moreover have "\<not> q \<le> length head" using assms(2,5) by (auto simp: incomplete_def)
  ultimately have "length bs = 2" "q = Suc (length head)" "read_want head = 2"
    using assms(4) by (auto simp: read_want_def split: if_split_asm)
  then obtain b where t: "take q (head @ bs) = head @ [b]" using assms(3) by (cases bs) auto
  define k where "k = rr_len res"
  have k: "0 < k" "k \<le> length (head @ [b])" "head_may_end (take k (head @ [b]))"
      "rp_parse R (take k (head @ [b])) TUNNEL_MAX_HEADERS = HpComplete res"
    using head_parserD [OF assms(1,5)] unfolding t k_def by blast+
  show False
  proof (cases "k \<le> length head")
    case True
    then show False using k(4) assms(2) by (auto simp: incomplete_def)
  next
    case False
    then have "take k (head @ [b]) = head @ [b]" using k(2) by simp
    then show False using k(3) head_may_end_next [OF \<open>read_want head = 2\<close>] by simp
  qed
qed

lemma incomplete_more:
  assumes "head_parser R" "incomplete R head" "bs \<noteq> []" "length bs \<le> read_want head"
    and "\<And>res. rp_parse R (head @ bs) TUNNEL_MAX_HEADERS \<noteq> HpComplete res"
  shows "incomplete R (head @ bs)"
  unfolding incomplete_def
  using read_stops_at_end [OF assms(1-4)] assms(5) by fastforce

lemma complete_not_skipped:
  assumes "head_parser R" "incomplete R head" "bs \<noteq> []" "length bs \<le> read_want head"
    and "rp_parse R (head @ bs) TUNNEL_MAX_HEADERS = HpComplete res"
  shows "rr_len res = length (head @ bs) \<and> \<not> skips_parse (head @ bs)"
proof -
  let ?k = "rr_len res"
  have k: "?k \<le> length (head @ bs)" "head_may_end (take ?k (head @ bs))"
      "rp_parse R (take ?k (head @ bs)) TUNNEL_MAX_HEADERS = HpComplete res"
    using head_parserD [OF assms(1,5)] by blast+
  have "?k = length (head @ bs)" by (rule read_stops_at_end [OF assms(1-4) k(3,1)])
  then show ?thesis using k(2) by (simp add: skips_parse_def)
qed

lemma parse_head_cases:
  assumes "head_parser R" "incomplete R head" "bs \<noteq> []" "length bs \<le> read_want head"
  shows "case parse_response_head A R (head @ bs) of
      ReadMore \<Rightarrow> incomplete R (head @ bs)
    | SkipHead n \<Rightarrow> n = length (head @ bs) \<and> interim_head A R (head @ bs)
    | TunnelOpen \<Rightarrow> success_head A R (head @ bs)
    | TunnelFail e \<Rightarrow> True"
proof (cases "rp_parse R (head @ bs) TUNNEL_MAX_HEADERS")
  case (HpComplete res)
  then show ?thesis using complete_not_skipped [OF assms HpComplete]
    by (auto simp: parse_response_head_def interim_head_def success_head_def head_with_def split: option.split)
next
  case HpPartial
  then show ?thesis using incomplete_more [OF assms] by (simp add: parse_response_head_def)
next
  case (HpError e)
  then show ?thesis using incomplete_more [OF assms] by (simp add: parse_response_head_def)
qed

lemma incomplete_Nil: "head_parser R \<Longrightarrow> incomplete R []"
  using head_parser_Nil by (auto simp: incomplete_def)

lemma response_post_more:
  assumes "response_post A R incoming sent io_ok (buf @ bs) start io' y"
    and "sent io' = sent io" "incoming io = bs @ incoming io'"
  shows "response_post A R incoming sent io_ok buf start io y"
proof -
  obtain xs where "incoming io' = xs @ incoming (snd y)" "length (buf @ bs @ xs) \<le> MAX_RESPONSE_HEAD"
      "fst y = Inr () \<longrightarrow> (\<exists>hs h. drop start (buf @ bs @ xs) = concat hs @ h \<and> list_all (interim_head A R) hs \<and> success_head A R h)"
    using assms(1) unfolding response_post_def by auto
  then show ?thesis using assms unfolding response_post_def by (intro conjI exI [of _ "bs @ xs"]) simp_all
qed

lemma response_post_skip:
  assumes "response_post A R incoming sent io_ok buf (length buf) io y"
    and "start \<le> length buf" "interim_head A R (drop start buf)"
  shows "response_post A R incoming sent io_ok buf start io y"
proof -
  obtain xs where xs: "incoming io = xs @ incoming (snd y)" "length (buf @ xs) \<le> MAX_RESPONSE_HEAD"
      "fst y = Inr () \<longrightarrow> (\<exists>hs h. xs = concat hs @ h \<and> list_all (interim_head A R) hs \<and> success_head A R h)"
    using assms(1) unfolding response_post_def by auto
  have "\<exists>hs h. drop start (buf @ xs) = concat hs @ h \<and> list_all (interim_head A R) hs \<and> success_head A R h"
    if r: "fst y = Inr ()"
  proof -
    obtain hs h where "xs = concat hs @ h" "list_all (interim_head A R) hs" "success_head A R h" using xs(3) [rule_format, OF r] by blast
    then show ?thesis using assms(2,3) by (intro exI [of _ "drop start buf # hs"] exI [of _ h]) simp
  qed
  then show ?thesis using assms(1) xs unfolding response_post_def by blast
qed

lemma response_post_stop:
  assumes "io_ok io'" "sent io' = sent io" "incoming io = bs @ incoming io'" "length (buf @ bs) \<le> MAX_RESPONSE_HEAD"
    and "r = Inr () \<longrightarrow> success_head A R (drop start (buf @ bs))"
  shows "response_post A R incoming sent io_ok buf start io (r, io')"
proof -
  have "\<exists>hs h. drop start (buf @ bs) = concat hs @ h \<and> list_all (interim_head A R) hs \<and> success_head A R h" if "r = Inr ()"
    using assms(5) that by (intro exI [of _ "[]"] exI [of _ "drop start (buf @ bs)"]) simp
  then show ?thesis using assms(1-4) unfolding response_post_def by (intro conjI exI [of _ bs]) simp_all
qed

context byte_stream
begin

lemma response_turn_ok:
  assumes R: "head_parser R" and "io_ok io" and inv: "length buf \<le> MAX_RESPONSE_HEAD" "start \<le> length buf" "incomplete R (drop start buf)"
    and turn: "response_turn A R S f buf start io = Some y"
    and IH: "\<And>buf start io. \<lbrakk>f buf start io = Some y; io_ok io; length buf \<le> MAX_RESPONSE_HEAD; start \<le> length buf;
        incomplete R (drop start buf)\<rbrakk> \<Longrightarrow> response_post A R incoming sent io_ok buf start io y"
  shows "response_post A R incoming sent io_ok buf start io y"
proof (cases "length buf = MAX_RESPONSE_HEAD")
  case True
  then show ?thesis using turn \<open>io_ok io\<close> inv by (auto simp: response_turn_def intro: response_post_stop [where bs = "[]"])
next
  case False
  let ?n = "min (length buf + read_want (drop start buf)) MAX_RESPONSE_HEAD - length buf"
  obtain r io' where r: "stream_read S ?n io = Some (r, io')"
    using turn False inv by (auto simp: response_turn_def Let_def split: option.split_asm)
  note k = stream_read_keeps [OF r \<open>io_ok io\<close>]
  show ?thesis
  proof (cases r)
    case (Inl e)
    then show ?thesis using turn False inv r k
      by (auto simp: response_turn_def Let_def intro: response_post_stop [where bs = "[]"])
  next
    case (Inr bs)
    have bs: "io_ok io'" "sent io' = sent io" "incoming io = bs @ incoming io'" "length bs \<le> read_want (drop start buf)"
        "length (buf @ bs) \<le> MAX_RESPONSE_HEAD"
      using k Inr inv by auto
    show ?thesis
    proof (cases "bs = []")
      case True
      then show ?thesis using turn False inv r Inr bs
        by (auto simp: response_turn_def Let_def intro: response_post_stop [where bs = "[]"])
    next
      case nonempty: False
      let ?h = "drop start (buf @ bs)"
      have t: "(case parse_response_head A R ?h of ReadMore \<Rightarrow> f (buf @ bs) start io' | SkipHead n \<Rightarrow> f (buf @ bs) (start + n) io'
            | TunnelOpen \<Rightarrow> Some (Inr (), io') | TunnelFail e \<Rightarrow> Some (Inl e, io')) = Some y"
        using turn False inv r Inr nonempty by (simp add: response_turn_def Let_def)
      have h: "drop start buf @ bs = ?h" using inv(2) by simp
      note p = parse_head_cases [OF R inv(3) nonempty bs(4), of A, unfolded h]
      show ?thesis
      proof (cases "parse_response_head A R ?h")
        case ReadMore
        then have "response_post A R incoming sent io_ok (buf @ bs) start io' y"
          using IH [of "buf @ bs" start io'] t p bs inv(2) by simp
        then show ?thesis by (rule response_post_more [OF _ bs(2,3)])
      next
        case (SkipHead n)
        then have n: "start + n = length (buf @ bs)" "interim_head A R ?h" using p inv(2) by auto
        have "response_post A R incoming sent io_ok (buf @ bs) (length (buf @ bs)) io' y"
          using IH [of "buf @ bs" "start + n" io'] t SkipHead n bs incomplete_Nil [OF R] by simp
        then have "response_post A R incoming sent io_ok (buf @ bs) start io' y"
          by (rule response_post_skip [OF _ _ n(2)]) (use inv(2) in simp)
        then show ?thesis by (rule response_post_more [OF _ bs(2,3)])
      qed (use t p bs in \<open>auto intro: response_post_stop\<close>)
    qed
  qed
qed

lemma read_response_ok:
  assumes "read_response A R S buf start io = Some y" and "head_parser R" "io_ok io"
    and "length buf \<le> MAX_RESPONSE_HEAD" "start \<le> length buf" "incomplete R (drop start buf)"
  shows "response_post A R incoming sent io_ok buf start io y"
proof -
  have "A' = A \<longrightarrow> R' = R \<longrightarrow> S' = S \<longrightarrow> io_ok io \<longrightarrow> length buf \<le> MAX_RESPONSE_HEAD \<longrightarrow> start \<le> length buf \<longrightarrow>
      incomplete R (drop start buf) \<longrightarrow> response_post A R incoming sent io_ok buf start io y"
    if "read_response A' R' S' buf start io = Some y" for A' R' S' buf start io y
  proof (rule read_response.raw_induct [OF _ that], intro impI)
    fix f A' R' S' buf start io y
    assume IH: "\<And>A' R' S' buf start io y. f A' R' S' buf start io = Some y \<Longrightarrow>
        A' = A \<longrightarrow> R' = R \<longrightarrow> S' = S \<longrightarrow> io_ok io \<longrightarrow> length buf \<le> MAX_RESPONSE_HEAD \<longrightarrow> start \<le> length buf \<longrightarrow>
        incomplete R (drop start buf) \<longrightarrow> response_post A R incoming sent io_ok buf start io y"
      and body: "(if length buf = MAX_RESPONSE_HEAD then Some (Inl ProxyHeadersTooLong, io)
        else if start > length buf then None
        else let end_pos = min (length buf + read_want (drop start buf)) MAX_RESPONSE_HEAD in
          case stream_read S' (end_pos - length buf) io of None \<Rightarrow> None
          | Some (Inl e, io') \<Rightarrow> Some (Inl (TunnelIo e), io')
          | Some (Inr bs, io') \<Rightarrow> (if bs = [] then Some (Inl TunnelUnexpectedEof, io')
               else case parse_response_head A' R' (drop start (buf @ bs)) of
                 ReadMore \<Rightarrow> f A' R' S' (buf @ bs) start io' | SkipHead n \<Rightarrow> f A' R' S' (buf @ bs) (start + n) io'
               | TunnelOpen \<Rightarrow> Some (Inr (), io') | TunnelFail e \<Rightarrow> Some (Inl e, io'))) = Some y"
      and eq: "A' = A" "R' = R" "S' = S" and pre: "io_ok io" "length buf \<le> MAX_RESPONSE_HEAD" "start \<le> length buf" "incomplete R (drop start buf)"
    show "response_post A R incoming sent io_ok buf start io y"
    proof (rule response_turn_ok [OF assms(2) pre, of A "f A R S"])
      show "response_turn A R S (f A R S) buf start io = Some y" using body unfolding eq response_turn_def .
    qed (use IH [of A R S] in blast)
  qed
  from this [OF assms(1)] show ?thesis using assms(3-) by blast
qed

end

context live_stream
begin

lemma read_response_returns:
  assumes "head_parser R"
  shows "\<lbrakk>io_ok io; length buf \<le> MAX_RESPONSE_HEAD; start \<le> length buf; incomplete R (drop start buf)\<rbrakk> \<Longrightarrow>
    \<exists>r io'. read_response A R S buf start io = Some (r, io')"
proof (induction "MAX_RESPONSE_HEAD - length buf" arbitrary: buf start io rule: less_induct)
  case less
  let ?n = "min (length buf + read_want (drop start buf)) MAX_RESPONSE_HEAD - length buf"
  obtain r io' where r: "stream_read S ?n io = Some (r, io')" using stream_read_returns [OF less(2)] by blast
  show ?case
  proof (cases "length buf < MAX_RESPONSE_HEAD \<and> (\<exists>bs. r = Inr bs \<and> bs \<noteq> [])")
    case False
    then show ?thesis using r less(3,4) by (subst read_response.simps) (auto simp: Let_def split: sum.split)
  next
    case True
    then obtain bs where bs: "r = Inr bs" "bs \<noteq> []" by blast
    have k: "io_ok io'" "length bs \<le> ?n" using stream_read_keeps [OF r less(2)] bs by auto
    then have bounds: "length bs \<le> read_want (drop start buf)" "length (buf @ bs) \<le> MAX_RESPONSE_HEAD"
        "MAX_RESPONSE_HEAD - length (buf @ bs) < MAX_RESPONSE_HEAD - length buf"
      using True bs(2) by (auto simp: less_diff_conv2 intro: diff_less_mono2)
    have h: "drop start buf @ bs = drop start (buf @ bs)" using less(4) by simp
    note p = parse_head_cases [OF assms less(5) bs(2) bounds(1), of A, unfolded h]
    note IH = less(1) [OF bounds(3) k(1) bounds(2)]
    show ?thesis
    proof (cases "parse_response_head A R (drop start (buf @ bs))")
      case ReadMore
      then show ?thesis using IH [of start] p r bs True less(4) by (subst read_response.simps) (simp add: Let_def)
    next
      case (SkipHead n)
      then have n: "start + n = length (buf @ bs)" using p less(4) by auto
      then show ?thesis using IH [of "start + n"] SkipHead r bs True less(4) incomplete_Nil [OF assms]
        by (subst read_response.simps) (simp add: Let_def)
    qed (use r bs True less(4) in \<open>subst read_response.simps; simp add: Let_def\<close>)+
  qed
qed

end

lemma length_tunnel_reply: "length tunnel_reply = 14"
  by (simp add: tunnel_reply_def)

lemma tunnel_parser_ok: "head_parser tunnel_parser"
proof -
  have "head_may_end tunnel_reply" by (simp add: tunnel_reply_def head_may_end_def ends_with_def ascii_def)
  moreover have "14 \<le> length buf" if "take 14 buf = tunnel_reply" for buf
    using arg_cong [OF that, of length] by (simp add: length_tunnel_reply)
  ultimately show ?thesis
    by (auto simp: head_parser_def tunnel_parser_def split: if_split_asm)
qed

lemma tunnel_sample_run:
  "tunnel assoc_api tunnel_parser sc_stream [67] (tunnel_script (tunnel_reply @ [83])) =
     Some (Inr (), \<lparr>sc_recv = [Recv [83]], sc_write = [], sc_sent = [67], sc_vectored = False\<rparr>)"
  by (simp add: tunnel_def tunnel_script_def tunnel_reply_def ascii_def stream_send.simps stream_flush.simps
      sc_write_bytes_def read_response.simps stream_read.simps sc_stream_read MAX_RESPONSE_HEAD_def
      read_want_def ends_with_def parse_response_head_def skips_parse_def head_may_end_def
      trim_start_by_def is_ascii_whitespace_def tunnel_parser_def)

lemma tunnel_open_reads:
  assumes "byte_stream S incoming sent io_ok" "head_parser R" "io_ok io"
    and "tunnel A R S req io = Some (Inr (), io')"
  shows "sent io' = sent io @ req \<and>
    (\<exists>hs h. incoming io = concat hs @ h @ incoming io' \<and> list_all (interim_head A R) hs \<and> success_head A R h)"
proof -
  obtain io1 where io1: "stream_send S req io = Some (Inr (), io1)" "read_response A R S [] 0 io1 = Some (Inr (), io')"
    using assms(4) by (auto simp: tunnel_def split: option.split_asm sum.split_asm)
  note s = byte_stream.stream_send_keeps [OF assms(1) io1(1) assms(3)]
  have "response_post A R incoming sent io_ok [] 0 io1 (Inr (), io')"
    by (rule byte_stream.read_response_ok [OF assms(1) io1(2) assms(2)]) (use s incomplete_Nil [OF assms(2)] in simp_all)
  then obtain xs hs h where "sent io' = sent io1" "incoming io1 = xs @ incoming io'"
      "xs = concat hs @ h" "list_all (interim_head A R) hs" "success_head A R h"
    by (auto simp: response_post_def)
  then show ?thesis using s by (intro conjI exI [of _ hs] exI [of _ h]) simp_all
qed

text \<open>
  C28.  Opening a tunnel consumes the response of the proxy and nothing else.  When the handshake
  succeeds, the request was sent in full, and what was read from the stream is a sequence of interim
  response heads and one final head with a 2xx status, to the last byte: the bytes that the origin
  sends behind it stay in the stream.
\<close>

theorem tunnel_reads_exactly:
  assumes "byte_stream S incoming sent io_ok" "head_parser R" "io_ok io"
    and "tunnel A R S req io = Some (Inr (), io')"
  shows "sent io' = sent io @ req \<and>
    (\<exists>hs h. incoming io = concat hs @ h @ incoming io' \<and> list_all (interim_head A R) hs \<and> success_head A R h)"
  by (rule tunnel_open_reads [OF assms])

theorem tunnel_reads_exactly_witness:
  "sc_sent (snd (the (tunnel assoc_api tunnel_parser sc_stream [67] (tunnel_script (tunnel_reply @ [83]))))) = [67] \<and>
   (\<exists>hs h. tunnel_reply @ [83] = concat hs @ h @ [83] \<and> success_head assoc_api tunnel_parser h)"
proof -
  have "sc_ok (tunnel_script (tunnel_reply @ [83]))" by (simp add: sc_ok_def tunnel_script_def tunnel_reply_def)
  from tunnel_reads_exactly [OF script_stream.byte_stream_axioms tunnel_parser_ok this tunnel_sample_run]
  show ?thesis unfolding tunnel_sample_run by (auto simp: tunnel_script_def sc_incoming_def)
qed

text \<open>
  C29.  The handshake of a tunnel always comes to an end, whatever the proxy sends: on a stream that is
  not pending for ever it returns, without a panic, and reads at most the limit, interim responses
  included.
\<close>

theorem tunnel_returns:
  assumes "live_stream S incoming sent io_ok waits" "head_parser R" "io_ok io"
  shows "\<exists>r io' xs. tunnel A R S req io = Some (r, io') \<and> io_ok io' \<and> incoming io = xs @ incoming io' \<and>
    length xs \<le> MAX_RESPONSE_HEAD \<and> (\<exists>k. sent io' = sent io @ take k req)"
proof -
  note bs = live_stream.axioms(1) [OF assms(1)]
  obtain r io1 where io1: "stream_send S req io = Some (r, io1)"
    using live_stream.stream_send_returns [OF assms(1,3)] by blast
  note s = byte_stream.stream_send_keeps [OF bs io1 assms(3)]
  show ?thesis
  proof (cases r)
    case (Inl e)
    then show ?thesis using io1 s by (auto simp: tunnel_def intro!: exI [of _ "[]"])
  next
    case (Inr u)
    obtain y where y: "read_response A R S [] 0 io1 = Some y"
      using live_stream.read_response_returns [OF assms(1,2), of io1 "[]" 0 A] s incomplete_Nil [OF assms(2)] by auto
    have "response_post A R incoming sent io_ok [] 0 io1 y"
      by (rule byte_stream.read_response_ok [OF bs y assms(2)]) (use s incomplete_Nil [OF assms(2)] in simp_all)
    then obtain xs where "io_ok (snd y)" "sent (snd y) = sent io1" "incoming io1 = xs @ incoming (snd y)"
        "length xs \<le> MAX_RESPONSE_HEAD"
      by (auto simp: response_post_def)
    then show ?thesis using io1 s Inr y
      by (intro exI [of _ "fst y"] exI [of _ "snd y"] exI [of _ xs] conjI exI [of _ "length req"]) (simp_all add: tunnel_def)
  qed
qed

theorem tunnel_returns_witness:
  "\<exists>r s'. tunnel assoc_api tunnel_parser sc_stream [67] (tunnel_script [1, 2, 3]) = Some (r, s') \<and> sc_ok s'"
  using tunnel_returns [OF script_stream.live_stream_axioms tunnel_parser_ok, of "tunnel_script [1, 2, 3]" assoc_api "[67]"]
  by (auto simp: sc_ok_def tunnel_script_def)

text \<open>Extending a header map, and the fields a connector can be given.\<close>

lemma extend_get_all:
  assumes "http_crate A" "resolve_names cur es = Some entries"
  shows "hm_get_all A (hm_extend_entries A cur m es) k \<noteq> [] \<longleftrightarrow> hm_get_all A m k \<noteq> [] \<or> k \<in> fst ` set entries"
  using assms
proof (induction A cur m es arbitrary: entries rule: hm_extend_entries.induct)
  case (2 A cur m k' v es)
  then obtain fs where f: "resolve_names (Some k') es = Some fs" "entries = (k', v) # fs" by auto
  show ?case using 2(1) [OF 2(2) f(1)] f(2) http_crate.get_all_insert [OF 2(2), of m k' v k] by auto
next
  case (3 A k' m v es)
  then obtain fs where f: "resolve_names (Some k') es = Some fs" "entries = (k', v) # fs" by auto
  show ?case using 3(1) [OF 3(2) f(1)] f(2) http_crate.get_all_append [OF 3(2), of m k' v k] by auto
qed auto

lemma with_headers_no_content:
  assumes "http_crate A" "k = CONTENT_LENGTH \<or> k = TRANSFER_ENCODING" "hm_get_all A own k = []"
  shows "hm_get_all A (tunnel_with_headers A own headers) k = []"
proof -
  let ?h = "hm_remove A (hm_remove A headers CONTENT_LENGTH) TRANSFER_ENCODING"
  have none: "hm_get_all A ?h k = []" using assms(1,2) by (auto simp: http_crate.get_all_remove)
  have "k \<notin> fst ` set (hm_iter A ?h)"
    using http_crate.contains_key_iter [OF assms(1), of ?h k] none by (simp add: hm_contains_key_def)
  then have "hm_get_all A (hm_extend_entries A None own (hm_into_iter A ?h)) k = []"
    using extend_get_all [OF assms(1) http_crate.into_iter [OF assms(1), of ?h], of own k] assms(3) by blast
  then show ?thesis using none by (simp add: tunnel_with_headers_def Let_def)
qed

text \<open>
  The connector: a destination without host or port is refused before the proxy is contacted; and
  every stream it hands out is one on which the request for that destination, with a single
  \<^verbatim>\<open>Host\<close> line, was written and the final response was a success.
\<close>

lemma tunnel_call_bad_destination:
  assumes "dst_host U dst = None \<or> dst_port U dst = None"
  shows "\<exists>e. tunnel_call A U R S C conn inner dst = (Some (Inl e), inner)"
  using assms by (cases "dst_host U dst") (auto simp: tunnel_call_def connect_request_def)

lemma connect_request_one_host:
  assumes "connect_request A U dst headers = Inr req"
  shows "\<exists>target value lines. req = ascii ''CONNECT '' @ target @ ascii '' HTTP/1.1'' @ CRLF @
      ascii ''Host: '' @ value @ CRLF @ concat (map header_line lines) @ CRLF \<and>
    HOST \<notin> fst ` set lines \<and> set lines \<subseteq> set (hm_iter A headers) \<and>
    (hm_get A headers HOST = None \<longrightarrow> value = target)"
proof -
  obtain host port where "dst_host U dst = Some host" "dst_port U dst = Some port"
    using assms by (auto simp: connect_request_def split: option.split_asm)
  then show ?thesis using assms unfolding connect_request_def
    by (intro exI [of _ "host @ ascii '':'' @ decimal (unat port)"]
        exI [of _ "case hm_get A headers HOST of Some value \<Rightarrow> value | None \<Rightarrow> host @ ascii '':'' @ decimal (unat port)"]
        exI [of _ "filter (\<lambda>(name, _). name \<noteq> HOST) (hm_iter A headers)"])
      (auto simp: Let_def)
qed

lemma tunnel_call_open:
  assumes "byte_stream S incoming sent io_ok" "head_parser R"
    and "\<And>io. fst (co_call C inner (tc_proxy_dst conn)) = Some (Inr io) \<Longrightarrow> io_ok io"
    and "tunnel_call A U R S C conn inner dst = (Some (Inr io'), inner')"
  shows "\<exists>req io. connect_request A U dst (tc_headers conn) = Inr req \<and>
    co_call C inner (tc_proxy_dst conn) = (Some (Inr io), inner') \<and> sent io' = sent io @ req \<and>
    (\<exists>hs h. incoming io = concat hs @ h @ incoming io' \<and> list_all (interim_head A R) hs \<and> success_head A R h)"
proof -
  obtain req io where r: "connect_request A U dst (tc_headers conn) = Inr req"
      "co_call C inner (tc_proxy_dst conn) = (Some (Inr io), inner')" "tunnel A R S req io = Some (Inr (), io')"
    using assms(4) by (auto simp: tunnel_call_def split: sum.split_asm option.split_asm prod.split_asm)
  then show ?thesis using tunnel_open_reads [OF assms(1,2) assms(3) r(3)] by auto
qed

end
