(* ===== verification/Std_Net.thy ===== *)
theory Std_Net
  imports Netty_Prelude
begin

text \<open>
  The part of \<^verbatim>\<open>std::net\<close> and \<^verbatim>\<open>std::str\<close> that the proxy connectors use: IP and socket addresses,
  the parser of textual addresses, and the test for UTF-8.  The lemmas say that a parsed address
  has its width and which characters its text has.
\<close>

section \<open>Definitions\<close>

text \<open>
  \<^verbatim>\<open>std::net\<close>: an address is its octets, four or sixteen; a socket address of version 6 also has the
  flow information and the scope.
\<close>

datatype ip_addr = V4 "byte list" | V6 "byte list"

datatype socket_addr = SocketV4 "byte list" u16 | SocketV6 "byte list" u16 u32 u32

fun ip_ok :: "ip_addr \<Rightarrow> bool" where
  "ip_ok (V4 a) = (length a = 4)"
| "ip_ok (V6 a) = (length a = 16)"

fun sock_ok :: "socket_addr \<Rightarrow> bool" where
  "sock_ok (SocketV4 a p) = (length a = 4)"
| "sock_ok (SocketV6 a p f s) = (length a = 16)"

definition to_canonical :: "ip_addr \<Rightarrow> ip_addr" where
  "to_canonical ip =
     (case ip of
        V4 a \<Rightarrow> V4 a
      | V6 a \<Rightarrow>
          (if take 12 a = replicate 10 0 @ [255, 255] then V4 (drop 12 a) else V6 a))"

definition is_unspecified :: "ip_addr \<Rightarrow> bool" where
  "is_unspecified ip = (case ip of V4 a \<Rightarrow> list_all (\<lambda>b. b = 0) a | V6 a \<Rightarrow> list_all (\<lambda>b. b = 0) a)"

text \<open>\<^verbatim>\<open>Ipv6Addr::is_unicast_link_local\<close>: the prefix \<^verbatim>\<open>fe80::/10\<close>.\<close>

definition is_unicast_link_local :: "byte list \<Rightarrow> bool" where
  "is_unicast_link_local a =
     (case a of b0 # b1 # _ \<Rightarrow> b0 = 0xFE \<and> and b1 0xC0 = 0x80 | _ \<Rightarrow> False)"

fun sock_new :: "ip_addr \<Rightarrow> u16 \<Rightarrow> socket_addr" where
  "sock_new (V4 a) port = SocketV4 a port"
| "sock_new (V6 a) port = SocketV6 a port 0 0"

fun sock_ip :: "socket_addr \<Rightarrow> ip_addr" where
  "sock_ip (SocketV4 a p) = V4 a"
| "sock_ip (SocketV6 a p f s) = V6 a"

fun sock_port :: "socket_addr \<Rightarrow> u16" where
  "sock_port (SocketV4 a p) = p"
| "sock_port (SocketV6 a p f s) = p"

text \<open>
  \<^verbatim>\<open>str::from_utf8\<close>: whether bytes are the UTF-8 encoding of a string, by the ranges of the leading and
  the continuation bytes.
\<close>

definition is_cont :: "byte \<Rightarrow> bool" where
  "is_cont b = (0x80 \<le> b \<and> b \<le> 0xBF)"

fun is_utf8 :: "byte list \<Rightarrow> bool" where
  "is_utf8 [] = True"
| "is_utf8 (a # rest) =
     (if a < 0x80 then is_utf8 rest
      else case rest of
        [] \<Rightarrow> False
      | b # rest2 \<Rightarrow>
          if 0xC2 \<le> a \<and> a \<le> 0xDF then is_cont b \<and> is_utf8 rest2
          else case rest2 of
            [] \<Rightarrow> False
          | c # rest3 \<Rightarrow>
              if 0xE0 \<le> a \<and> a \<le> 0xEF
              then (if a = 0xE0 then 0xA0 \<le> b \<and> b \<le> 0xBF
                    else if a = 0xED then 0x80 \<le> b \<and> b \<le> 0x9F else is_cont b) \<and>
                   is_cont c \<and> is_utf8 rest3
              else case rest3 of
                [] \<Rightarrow> False
              | d # rest4 \<Rightarrow>
                  0xF0 \<le> a \<and> a \<le> 0xF4 \<and>
                  (if a = 0xF0 then 0x90 \<le> b \<and> b \<le> 0xBF
                   else if a = 0xF4 then 0x80 \<le> b \<and> b \<le> 0x8F else is_cont b) \<and>
                  is_cont c \<and> is_cont d \<and> is_utf8 rest4)"

text \<open>\<^verbatim>\<open>put_u16\<close> and \<^verbatim>\<open>u16::from_be_bytes\<close>.\<close>

definition u16_be :: "u16 \<Rightarrow> byte list" where
  "u16_be p = [ucast (drop_bit 8 p), ucast p]"

definition u16_from_be :: "byte \<Rightarrow> byte \<Rightarrow> u16" where
  "u16_from_be hi lo = or (push_bit 8 (ucast hi)) (ucast lo)"

text \<open>
  The parser of \<^verbatim>\<open>std::net\<close>.  A reader takes the text that is left and gives what it read and the
  rest; one that fails takes nothing.
\<close>

type_synonym 'a reader = "byte list \<Rightarrow> ('a \<times> byte list) option"

definition to_digit :: "nat \<Rightarrow> byte \<Rightarrow> nat option" where
  "to_digit radix b =
     (let d = (if 48 \<le> b \<and> b \<le> 57 then Some (unat b - 48)
               else if 97 \<le> b \<and> b \<le> 122 then Some (unat b - 87)
               else if 65 \<le> b \<and> b \<le> 90 then Some (unat b - 55) else None) in
      case d of None \<Rightarrow> None | Some n \<Rightarrow> (if n < radix then Some n else None))"

definition digits_value :: "nat \<Rightarrow> byte list \<Rightarrow> int" where
  "digits_value radix ds = foldl (\<lambda>v b. v * int radix + int (the (to_digit radix b))) 0 ds"

text \<open>\<^verbatim>\<open>read_number\<close>, for a type whose values are below \<open>lim\<close>.\<close>

definition read_number :: "nat \<Rightarrow> nat \<Rightarrow> bool \<Rightarrow> int \<Rightarrow> int reader" where
  "read_number radix max_digits allow_zero_prefix lim bs =
     (let ds = takeWhile (\<lambda>b. to_digit radix b \<noteq> None) bs in
      if ds = [] \<or> length ds > max_digits \<or> (\<not> allow_zero_prefix \<and> hd ds = 48 \<and> length ds > 1) \<or>
         digits_value radix ds \<ge> lim
      then None
      else Some (digits_value radix ds, drop (length ds) bs))"

definition read_separator :: "byte \<Rightarrow> nat \<Rightarrow> 'a reader \<Rightarrow> 'a reader" where
  "read_separator sep i inner bs =
     (if i = 0 then inner bs
      else case bs of [] \<Rightarrow> None | c # rest \<Rightarrow> (if c = sep then inner rest else None))"

fun read_ipv4_from :: "nat \<Rightarrow> nat \<Rightarrow> byte list reader" where
  "read_ipv4_from 0 i bs = Some ([], bs)"
| "read_ipv4_from (Suc n) i bs =
     (case read_separator 46 i (read_number 10 3 False 256) bs of
        None \<Rightarrow> None
      | Some (v, rest) \<Rightarrow>
          (case read_ipv4_from n (Suc i) rest of
             None \<Rightarrow> None
           | Some (vs, rest2) \<Rightarrow> Some (of_int v # vs, rest2)))"

definition read_ipv4_addr :: "byte list reader" where
  "read_ipv4_addr bs = read_ipv4_from 4 0 bs"

text \<open>
  \<^verbatim>\<open>read_groups\<close>: up to \<open>n\<close> groups of two bytes, the last two perhaps as an IPv4 address, which the
  flag tells.
\<close>

fun read_groups :: "nat \<Rightarrow> nat \<Rightarrow> byte list \<Rightarrow> byte list \<times> bool \<times> byte list" where
  "read_groups 0 i bs = ([], False, bs)"
| "read_groups (Suc n) i bs =
     (case (if 0 < n then read_separator 58 i read_ipv4_addr bs else None) of
        Some (octets, rest) \<Rightarrow> (octets, True, rest)
      | None \<Rightarrow>
          (case read_separator 58 i (read_number 16 4 True 65536) bs of
             None \<Rightarrow> ([], False, bs)
           | Some (g, rest) \<Rightarrow>
               (case read_groups n (Suc i) rest of
                  (gs, v4, rest2) \<Rightarrow> (of_int (g div 256) # of_int (g mod 256) # gs, v4, rest2))))"

definition read_ipv6_addr :: "byte list reader" where
  "read_ipv6_addr bs =
     (case read_groups 8 0 bs of
        (head, v4, rest) \<Rightarrow>
          if length head = 16 then Some (head, rest)
          else if v4 then None
          else
            case rest of
              c1 # c2 # rest2 \<Rightarrow>
                (if c1 \<noteq> 58 \<or> c2 \<noteq> 58 then None
                 else
                   case read_groups (8 - (length head div 2 + 1)) 0 rest2 of
                     (tail, _, rest3) \<Rightarrow>
                       Some (head @ replicate (16 - (length head + length tail)) 0 @ tail, rest3))
            | _ \<Rightarrow> None)"

definition parse_with :: "'a reader \<Rightarrow> byte list \<Rightarrow> 'a option" where
  "parse_with inner bs =
     (case inner bs of Some (x, rest) \<Rightarrow> (if rest = [] then Some x else None) | None \<Rightarrow> None)"

definition parse_ipv6 :: "byte list \<Rightarrow> byte list option" where
  "parse_ipv6 bs = parse_with read_ipv6_addr bs"

definition parse_ip :: "byte list \<Rightarrow> ip_addr option" where
  "parse_ip bs =
     parse_with (\<lambda>bs. case read_ipv4_addr bs of
         Some (a, rest) \<Rightarrow> Some (V4 a, rest)
       | None \<Rightarrow> (case read_ipv6_addr bs of Some (a, rest) \<Rightarrow> Some (V6 a, rest) | None \<Rightarrow> None)) bs"

text \<open>\<^verbatim>\<open>u16::from_str\<close>, which takes a leading \<^verbatim>\<open>+\<close>.\<close>

definition is_ascii_digit :: "byte \<Rightarrow> bool" where
  "is_ascii_digit b = (48 \<le> b \<and> b \<le> 57)"

definition u16_from_str :: "byte list \<Rightarrow> u16 option" where
  "u16_from_str s =
     (let ds = (case s of c # rest \<Rightarrow> (if c = 43 then rest else s) | [] \<Rightarrow> s) in
      if ds \<noteq> [] \<and> list_all is_ascii_digit ds \<and> digits_value 10 ds < 65536
      then Some (of_int (digits_value 10 ds)) else None)"

text \<open>The characters of an address.\<close>

definition ip_text :: "byte \<Rightarrow> bool" where
  "ip_text b \<longleftrightarrow> to_digit 16 b \<noteq> None \<or> b = 58 \<or> b = 46"

text \<open>What a reader takes is a prefix, of characters that an address has.\<close>

definition reads_text :: "byte list \<Rightarrow> byte list \<Rightarrow> bool" where
  "reads_text bs rest \<longleftrightarrow> (\<exists>p. bs = p @ rest \<and> list_all ip_text p)"

section \<open>Addresses\<close>

lemma u16_be_roundtrip: "u16_from_be (ucast (drop_bit 8 p)) (ucast p) = p"
  unfolding u16_from_be_def
  by (rule bit_word_eqI) (auto simp: bit_simps)

lemma length_u16_be [simp]: "length (u16_be p) = 2"
  by (simp add: u16_be_def)

lemma to_canonical_ok: "ip_ok ip \<Longrightarrow> ip_ok (to_canonical ip)"
  by (cases ip) (auto simp: to_canonical_def)

lemma to_canonical_idem [simp]: "to_canonical (to_canonical ip) = to_canonical ip"
  by (cases ip) (auto simp: to_canonical_def)

lemma sock_new_sel [simp]: "sock_ip (sock_new ip port) = ip" "sock_port (sock_new ip port) = port"
  by (cases ip; simp)+

lemma sock_new_ok [simp]: "sock_ok (sock_new ip port) = ip_ok ip"
  by (cases ip) simp_all

lemma sock_ip_ok: "sock_ok addr \<Longrightarrow> ip_ok (sock_ip addr)"
  by (cases addr) simp_all


section \<open>The text of an address\<close>

lemma to_digit_10_16: "to_digit 10 b \<noteq> None \<Longrightarrow> to_digit 16 b \<noteq> None"
  by (auto simp: to_digit_def Let_def split: if_splits)

lemma reads_text_refl [simp]: "reads_text bs bs"
  by (simp add: reads_text_def)

lemma reads_text_trans: "reads_text a b \<Longrightarrow> reads_text b c \<Longrightarrow> reads_text a c"
  unfolding reads_text_def by (metis append_assoc list_all_append)

lemma reads_text_Cons: "ip_text c \<Longrightarrow> reads_text bs rest \<Longrightarrow> reads_text (c # bs) rest"
  unfolding reads_text_def by (metis append_Cons list.pred_inject(2))

lemma read_number_text:
  assumes "read_number radix m z lim bs = Some (v, rest)" "radix = 10 \<or> radix = 16"
  shows "reads_text bs rest \<and> v < lim"
proof -
  let ?p = "takeWhile (\<lambda>b. to_digit radix b \<noteq> None) bs"
  have "rest = drop (length ?p) bs" "v < lim"
    using assms(1) by (auto simp: read_number_def Let_def split: if_split_asm)
  then have "bs = ?p @ rest" using takeWhile_eq_take [of "\<lambda>b. to_digit radix b \<noteq> None" bs]
    by (metis append_take_drop_id)
  moreover have "list_all ip_text ?p"
    using assms(2) to_digit_10_16 by (auto simp: list_all_iff ip_text_def dest!: set_takeWhileD)
  ultimately show ?thesis using \<open>v < lim\<close> unfolding reads_text_def by blast
qed

lemma read_separator_text:
  assumes "read_separator sep i inner bs = Some (v, rest)" "ip_text sep"
    and "\<And>bs. inner bs = Some (v, rest) \<Longrightarrow> reads_text bs rest \<and> P v"
  shows "reads_text bs rest \<and> P v"
  using assms by (auto simp: read_separator_def split: if_split_asm list.split_asm intro: reads_text_Cons)

lemma ip_text_sep [simp]: "ip_text 58" "ip_text 46"
  by (simp_all add: ip_text_def)

lemma read_ipv4_from_text:
  "read_ipv4_from n i bs = Some (vs, rest) \<Longrightarrow> reads_text bs rest \<and> length vs = n"
proof (induction n i bs arbitrary: vs rest rule: read_ipv4_from.induct)
  case (2 n i bs)
  obtain v r ws where h: "read_separator 46 i (read_number 10 3 False 256) bs = Some (v, r)"
      "read_ipv4_from n (Suc i) r = Some (ws, rest)" "vs = of_int v # ws"
    using 2(2) by (auto split: option.split_asm prod.split_asm)
  have "reads_text bs r \<and> v < 256"
    by (rule read_separator_text [OF h(1), of "\<lambda>v. v < 256"]) (auto dest: read_number_text)
  then show ?case using 2(1) [OF h(1) refl h(2)] h(3) reads_text_trans by auto
qed simp

lemma read_groups_text:
  "read_groups n i bs = (gs, v4, rest) \<Longrightarrow> reads_text bs rest \<and> even (length gs) \<and> length gs \<le> 2 * n"
proof (induction n i bs arbitrary: gs v4 rest rule: read_groups.induct)
  case (2 n i bs)
  show ?case
  proof (cases "if 0 < n then read_separator 58 i read_ipv4_addr bs else None")
    case (Some y)
    obtain vs r where y: "y = (vs, r)" by fastforce
    have n: "0 < n" "read_separator 58 i read_ipv4_addr bs = Some (vs, r)" using Some y by (auto split: if_split_asm)
    have "reads_text bs r \<and> length vs = 4"
      by (rule read_separator_text [OF n(2), of "\<lambda>vs. length vs = 4"]) (auto simp: read_ipv4_addr_def dest: read_ipv4_from_text)
    then show ?thesis using 2(2) Some y n(1) by auto
  next
    case None
    show ?thesis
    proof (cases "read_separator 58 i (read_number 16 4 True 65536) bs")
      case None2: None
      then show ?thesis using 2(2) None by auto
    next
      case (Some y)
      obtain g r where y: "y = (g, r)" by fastforce
      obtain hs f r2 where r: "read_groups n (Suc i) r = (hs, f, r2)" by (metis prod_cases3)
      have "reads_text bs r \<and> g < 65536"
        by (rule read_separator_text [OF Some [unfolded y], of "\<lambda>g. g < 65536"]) (auto dest: read_number_text)
      then show ?thesis using 2(1) [OF None Some y [symmetric] r] 2(2) None Some y r reads_text_trans by auto
    qed
  qed
qed simp

lemma read_ipv6_text:
  assumes "read_ipv6_addr bs = Some (a, rest)"
  shows "reads_text bs rest \<and> length a = 16"
proof -
  obtain h v4 r where h: "read_groups 8 0 bs = (h, v4, r)" by (metis prod_cases3)
  note k = read_groups_text [OF h]
  show ?thesis
  proof (cases "length h = 16")
    case True
    then show ?thesis using assms h k by (simp add: read_ipv6_addr_def)
  next
    case False
    obtain r2 where r2: "r = 58 # 58 # r2" "\<not> v4"
      using assms h False by (auto simp: read_ipv6_addr_def split: if_split_asm list.split_asm)
    obtain t f r3 where t: "read_groups (8 - (length h div 2 + 1)) 0 r2 = (t, f, r3)" by (metis prod_cases3)
    note k2 = read_groups_text [OF t]
    have a: "a = h @ replicate (16 - (length h + length t)) 0 @ t" "rest = r3"
      using assms h False r2 t by (auto simp: read_ipv6_addr_def split: if_split_asm)
    have "length h + length t \<le> 16" using k k2 False by (auto elim!: evenE)
    moreover have "reads_text r r3" using k2 unfolding r2 by (auto intro!: reads_text_Cons)
    ultimately show ?thesis using a k reads_text_trans by auto
  qed
qed

text \<open>Evaluation, with numerals left as they are.\<close>

lemma read_ipv4_from_numeral:
  "read_ipv4_from (numeral k) i bs =
     (case read_separator 46 i (read_number 10 3 False 256) bs of
        None \<Rightarrow> None
      | Some (v, rest) \<Rightarrow>
          (case read_ipv4_from (pred_numeral k) (Suc i) rest of
             None \<Rightarrow> None
           | Some (vs, rest2) \<Rightarrow> Some (of_int v # vs, rest2)))"
  unfolding numeral_eq_Suc by simp

lemma read_groups_numeral:
  "read_groups (numeral k) i bs =
     (case (if 0 < pred_numeral k then read_separator 58 i read_ipv4_addr bs else None) of
        Some (octets, rest) \<Rightarrow> (octets, True, rest)
      | None \<Rightarrow>
          (case read_separator 58 i (read_number 16 4 True 65536) bs of
             None \<Rightarrow> ([], False, bs)
           | Some (g, rest) \<Rightarrow>
               (case read_groups (pred_numeral k) (Suc i) rest of
                  (gs, v4, rest2) \<Rightarrow> (of_int (g div 256) # of_int (g mod 256) # gs, v4, rest2))))"
  unfolding numeral_eq_Suc [of k] by simp

lemmas ip_eval =
  read_ipv4_from_numeral read_groups_numeral read_ipv4_addr_def read_ipv6_addr_def read_separator_def
  read_number_def to_digit_def digits_value_def parse_with_def parse_ip_def parse_ipv6_def

lemma parse_ipv6_text:
  assumes "parse_ipv6 bs = Some a"
  shows "list_all ip_text bs \<and> bs \<noteq> [] \<and> length a = 16"
proof -
  have r: "read_ipv6_addr bs = Some (a, [])"
    using assms by (auto simp: parse_ipv6_def parse_with_def split: option.split_asm prod.split_asm if_split_asm)
  moreover have "read_ipv6_addr [] = None" by (simp add: ip_eval)
  then have "bs \<noteq> []" using r by auto
  ultimately show ?thesis using read_ipv6_text [OF r] by (auto simp: reads_text_def)
qed

lemma parse_ip_ok:
  assumes "parse_ip bs = Some ip"
  shows "ip_ok ip \<and> list_all ip_text bs"
  using assms read_ipv4_from_text [of 4 0 bs] read_ipv6_text [of bs]
  by (auto simp: parse_ip_def parse_with_def read_ipv4_addr_def reads_text_def split: option.split_asm prod.split_asm if_split_asm)

lemma parse_ip_samples:
  "parse_ip (ascii ''192.0.2.6'') = Some (V4 [192, 0, 2, 6])"
  "parse_ip (ascii ''1.2.3.04'') = None"
  "parse_ip (ascii ''2001:db8::42'') = Some (V6 ([32, 1, 13, 184] @ replicate 10 0 @ [0, 66]))"
  "parse_ip (ascii ''::ffff:1.2.3.4'') = Some (V6 (replicate 10 0 @ [255, 255, 1, 2, 3, 4]))"
  "parse_ip (ascii ''1:2:3'') = None"
  by (simp_all add: ip_eval ascii_def)

end
