(* ===== verification/Socks_Udp.thy ===== *)
theory Socks_Udp
  imports Proxy_Io Std_Net
begin

text \<open>
  UDP over a SOCKS5 proxy (\<^verbatim>\<open>src/src/proxy/socks/udp.rs\<close>): the header in front of every relayed
  datagram and its codec, the in-place unframing of a buffer of datagrams, and the UDP ASSOCIATE
  handshake over the stream interface of \<^verbatim>\<open>Proxy_Io\<close>.  A handshake is a step function on the state of
  the stream; \<^verbatim>\<open>hs_bind\<close> is the \<^verbatim>\<open>?\<close> of the source.  Shown: the codec round-trips and yields only
  well-formed addresses, unframing delivers exactly the payloads of the datagrams, and the handshake
  ends, sends only what was asked for and consumes only the replies.
\<close>

section \<open>Definitions\<close>

definition SOCKS_VERSION :: byte where "SOCKS_VERSION = 0x05"

definition AUTH_VERSION :: byte where "AUTH_VERSION = 0x01"

definition NO_AUTH :: byte where "NO_AUTH = 0x00"

definition USERNAME_PASSWORD :: byte where "USERNAME_PASSWORD = 0x02"

definition NO_ACCEPTABLE_METHODS :: byte where "NO_ACCEPTABLE_METHODS = 0xFF"

definition CMD_UDP_ASSOCIATE :: byte where "CMD_UDP_ASSOCIATE = 0x03"

definition ATYP_IPV4 :: byte where "ATYP_IPV4 = 0x01"

definition ATYP_DOMAIN :: byte where "ATYP_DOMAIN = 0x03"

definition ATYP_IPV6 :: byte where "ATYP_IPV6 = 0x04"

text \<open>\<^verbatim>\<open>Address\<close> and \<^verbatim>\<open>AddressRef\<close>, which differ in who owns the name; a name is its bytes.\<close>

datatype address = Ip socket_addr | Domain "byte list" u16

fun address_port :: "address \<Rightarrow> u16" where
  "address_port (Ip addr) = sock_port addr"
| "address_port (Domain _ port) = port"

datatype associate_error =
    AssociateIo io_error
  | InvalidCredentials
  | NoAcceptableAuth
  | AuthFailed
  | InvalidResponse
  | Reply byte

datatype udp_header_error = Truncated | Reserved | Fragmented | UnsupportedAddress | InvalidDomain

definition put_ip :: "byte list \<Rightarrow> socket_addr \<Rightarrow> byte list" where
  "put_ip buf addr =
     (case to_canonical (sock_ip addr) of
        V4 a \<Rightarrow> buf @ [ATYP_IPV4] @ a
      | V6 a \<Rightarrow> buf @ [ATYP_IPV6] @ a) @ u16_be (sock_port addr)"

definition decode_addr :: "byte \<Rightarrow> byte list \<Rightarrow> udp_header_error + address \<times> byte list" where
  "decode_addr atyp bytes =
     (let with_port = (\<lambda>ip rest.
        case rest of
          hi # lo # rest \<Rightarrow> Inr (Ip (sock_new (to_canonical ip) (u16_from_be hi lo)), rest)
        | _ \<Rightarrow> Inl Truncated) in
      if atyp = ATYP_IPV4 then
        (if length bytes < 4 then Inl Truncated else with_port (V4 (take 4 bytes)) (drop 4 bytes))
      else if atyp = ATYP_IPV6 then
        (if length bytes < 16 then Inl Truncated else with_port (V6 (take 16 bytes)) (drop 16 bytes))
      else if atyp = ATYP_DOMAIN then
        (case bytes of
           [] \<Rightarrow> Inl Truncated
         | len # rest \<Rightarrow>
             if length rest < unat len then Inl Truncated
             else
               case drop (unat len) rest of
                 hi # lo # rest2 \<Rightarrow>
                   (let name = take (unat len) rest in
                    if is_utf8 name \<and> name \<noteq> [] then Inr (Domain name (u16_from_be hi lo), rest2)
                    else Inl InvalidDomain)
               | _ \<Rightarrow> Inl Truncated)
      else Inl UnsupportedAddress)"

definition header_len :: "address \<Rightarrow> nat" where
  "header_len target =
     (case target of
        Ip addr \<Rightarrow> (case to_canonical (sock_ip addr) of V4 _ \<Rightarrow> 10 | V6 _ \<Rightarrow> 22)
      | Domain name _ \<Rightarrow> 7 + length name)"

definition encode_header :: "address \<Rightarrow> byte list \<Rightarrow> (udp_header_error + unit) \<times> byte list" where
  "encode_header target buf =
     (case target of
        Ip addr \<Rightarrow> (Inr (), put_ip (buf @ [0, 0, 0]) addr)
      | Domain name port \<Rightarrow>
          (if length name < 256 \<and> length name > 0
           then (Inr (), buf @ [0, 0, 0, ATYP_DOMAIN, of_nat (length name)] @ name @ u16_be port)
           else (Inl InvalidDomain, buf)))"

definition decode_header :: "byte list \<Rightarrow> udp_header_error + address \<times> byte list" where
  "decode_header datagram =
     (case datagram of
        rsv0 # rsv1 # frag # atyp # rest \<Rightarrow>
          (if rsv0 \<noteq> 0 \<or> rsv1 \<noteq> 0 then Inl Reserved
           else if frag \<noteq> 0 then Inl Fragmented
           else decode_addr atyp rest)
      | _ \<Rightarrow> Inl Truncated)"

text \<open>\<^verbatim>\<open>unframe\<close>, on the buffer it compacts in place.  \<open>None\<close> is a panic, or a loop
  that does not move on, as on a buffer longer than a \<^verbatim>\<open>usize\<close> can measure.\<close>

record unframed =
  uf_source :: address
  uf_len :: nat
  uf_stride :: nat
  uf_consumed :: nat

definition copy_within :: "byte list \<Rightarrow> nat \<Rightarrow> nat \<Rightarrow> nat \<Rightarrow> byte list option" where
  "copy_within buf a b dest =
     (if a \<le> b \<and> b \<le> length buf \<and> dest + (b - a) \<le> length buf
      then Some (take dest buf @ take (b - a) (drop a buf) @ drop (dest + (b - a)) buf)
      else None)"

definition zone :: "socket_addr \<Rightarrow> u32" where
  "zone addr =
     (case addr of
        SocketV6 a _ _ scope \<Rightarrow> (if is_unicast_link_local a then scope else 0)
      | _ \<Rightarrow> 0)"

definition from_relay :: "socket_addr \<Rightarrow> socket_addr \<Rightarrow> bool" where
  "from_relay relay from =
     (to_canonical (sock_ip from) = to_canonical (sock_ip relay) \<and> sock_port from = sock_port relay \<and>
      (zone relay = 0 \<or> zone relay = zone from))"

function unframe_loop ::
    "nat \<Rightarrow> byte list \<Rightarrow> nat \<Rightarrow> nat \<Rightarrow> (address \<times> nat) option \<Rightarrow>
     (byte list \<times> nat \<times> nat \<times> (address \<times> nat) option) option" where
  "unframe_loop stride buf read write cur =
     (if \<not> read < length buf then Some (buf, read, write, cur)
      else
        let end_pos = min (saturating_add read stride) (length buf) in
        if end_pos \<le> read then None
        else
          case decode_header (take (end_pos - read) (drop read buf)) of
            Inl _ \<Rightarrow> unframe_loop stride buf end_pos write cur
          | Inr (source, payload) \<Rightarrow>
              let len = length payload in
              if (case cur of None \<Rightarrow> False | Some (first, st) \<Rightarrow> first \<noteq> source \<or> len > st)
              then Some (buf, read, write, cur)
              else
                let cur' = (case cur of None \<Rightarrow> Some (source, len) | Some _ \<Rightarrow> cur) in
                case copy_within buf (end_pos - len) end_pos write of
                  None \<Rightarrow> None
                | Some buf' \<Rightarrow>
                    if (case cur' of None \<Rightarrow> False | Some (_, st) \<Rightarrow> len < st)
                    then Some (buf', end_pos, write + len, cur')
                    else unframe_loop stride buf' end_pos (write + len) cur')"
  by pat_completeness auto

termination
proof (relation "measure (\<lambda>(stride, buf, read, write, cur). length buf - read)", goal_cases)
  case (3 st buf rd wr cur e y source payload len cur' buf')
  have "length buf' = length buf"
    using 3(9) by (auto simp: copy_within_def split: if_split_asm)
  then show ?case using 3(1-3) by simp
qed simp_all

declare unframe_loop.simps [simp del]

definition unframe ::
    "socket_addr \<Rightarrow> socket_addr \<Rightarrow> byte list \<Rightarrow> nat \<Rightarrow> (unframed option \<times> byte list) option" where
  "unframe relay from buf stride =
     (if \<not> from_relay relay from then Some (None, buf)
      else
        let stride = (if stride = 0 then length buf else stride) in
        case unframe_loop stride buf 0 0 None of
          None \<Rightarrow> None
        | Some (buf', read, write, cur) \<Rightarrow>
            Some (case cur of
                None \<Rightarrow> None
              | Some (source, stride) \<Rightarrow>
                  Some \<lparr>uf_source = source, uf_len = write, uf_stride = stride, uf_consumed = read\<rparr>, buf'))"

text \<open>\<^verbatim>\<open>UdpAssociation\<close>.\<close>

record 'io udp_association =
  ua_io :: 'io
  ua_bound :: address

definition relay_addr :: "'io udp_association \<Rightarrow> socket_addr \<Rightarrow> address" where
  "relay_addr assoc proxy =
     (case ua_bound assoc of
        Domain name port \<Rightarrow> Domain name port
      | Ip bound \<Rightarrow>
          (let proxy_ip = to_canonical (sock_ip proxy);
               ip = (if is_unspecified (sock_ip bound) then proxy_ip else sock_ip bound) in
           Ip (case (ip, proxy) of
                 (V6 a, SocketV6 _ _ _ scope) \<Rightarrow>
                   (if V6 a = proxy_ip then SocketV6 a (sock_port bound) 0 scope
                    else sock_new ip (sock_port bound))
               | _ \<Rightarrow> sock_new ip (sock_port bound))))"

definition ua_into_inner :: "'io udp_association \<Rightarrow> 'io" where
  "ua_into_inner assoc = ua_io assoc"

text \<open>\<^verbatim>\<open>poll_closed\<close> also gives whether the task has woken itself.\<close>

fun poll_closed_loop :: "'io stream_api \<Rightarrow> nat \<Rightarrow> 'io \<Rightarrow> unit io_result poll \<times> bool \<times> 'io" where
  "poll_closed_loop S 0 io = (Pending, True, io)"
| "poll_closed_loop S (Suc n) io =
     (case st_read S io 512 of
        (Pending, io') \<Rightarrow> (Pending, False, io')
      | (Panicked, io') \<Rightarrow> (Panicked, False, io')
      | (Ready (Inl e), io') \<Rightarrow> (Ready (Inl e), False, io')
      | (Ready (Inr bs), io') \<Rightarrow>
          (if bs = [] then (Ready (Inr ()), False, io') else poll_closed_loop S n io'))"

definition poll_closed ::
    "'io stream_api \<Rightarrow> 'io udp_association \<Rightarrow> unit io_result poll \<times> bool \<times> 'io udp_association" where
  "poll_closed S assoc =
     (let (res, woken, io) = poll_closed_loop S 16 (ua_io assoc) in (res, woken, assoc\<lparr>ua_io := io\<rparr>))"

text \<open>The handshake.\<close>

partial_function (option) read_exact_from ::
    "'io stream_api \<Rightarrow> nat \<Rightarrow> byte list \<Rightarrow> 'io \<Rightarrow> (byte list io_result \<times> 'io) option" where
  "read_exact_from S n filled io =
     (if length filled < n then
        (case stream_read S (n - length filled) io of
           None \<Rightarrow> None
         | Some (Inl e, io') \<Rightarrow> Some (Inl e, io')
         | Some (Inr bs, io') \<Rightarrow>
             (if bs = [] then Some (Inl (IoError UnexpectedEof []), io')
              else read_exact_from S n (filled @ bs) io'))
      else Some (Inr filled, io))"

declare read_exact_from.simps [code]

definition read_exact :: "'io stream_api \<Rightarrow> nat \<Rightarrow> 'io \<Rightarrow> (byte list io_result \<times> 'io) option" where
  "read_exact S n io = read_exact_from S n [] io"

text \<open>The steps of an \<^verbatim>\<open>async fn\<close> in sequence: the first error ends it, as \<^verbatim>\<open>?\<close> does.\<close>

type_synonym ('io, 'a) hs_step = "'io \<Rightarrow> ((associate_error + 'a) \<times> 'io) option"

definition hs_fail :: "associate_error \<Rightarrow> ('io, 'a) hs_step" where
  "hs_fail e io = Some (Inl e, io)"

definition hs_return :: "'a \<Rightarrow> ('io, 'a) hs_step" where
  "hs_return a io = Some (Inr a, io)"

definition hs_bind :: "('io, 'a) hs_step \<Rightarrow> ('a \<Rightarrow> ('io, 'b) hs_step) \<Rightarrow> ('io, 'b) hs_step" where
  "hs_bind m f io =
     (case m io of
        None \<Rightarrow> None
      | Some (Inl e, io') \<Rightarrow> Some (Inl e, io')
      | Some (Inr a, io') \<Rightarrow> f a io')"

definition hs_io :: "('io \<Rightarrow> ('a io_result \<times> 'io) option) \<Rightarrow> ('io, 'a) hs_step" where
  "hs_io m io =
     (case m io of
        None \<Rightarrow> None
      | Some (Inl e, io') \<Rightarrow> Some (Inl (AssociateIo e), io')
      | Some (Inr a, io') \<Rightarrow> Some (Inr a, io'))"

definition credential_ok :: "byte list \<Rightarrow> bool" where
  "credential_ok s = (0 < length s \<and> length s < 256)"

definition associate_methods :: "(byte list \<times> byte list) option \<Rightarrow> byte list" where
  "associate_methods auth =
     (case auth of
        Some _ \<Rightarrow> [SOCKS_VERSION, 2, NO_AUTH, USERNAME_PASSWORD]
      | None \<Rightarrow> [SOCKS_VERSION, 1, NO_AUTH])"

definition login_request :: "byte list \<Rightarrow> byte list \<Rightarrow> byte list" where
  "login_request username password =
     [AUTH_VERSION, of_nat (length username)] @ username @ [of_nat (length password)] @ password"

definition authenticate ::
    "'io stream_api \<Rightarrow> byte \<Rightarrow> (byte list \<times> byte list) option \<Rightarrow> ('io, unit) hs_step" where
  "authenticate S sel auth =
     (if sel = NO_AUTH then hs_return ()
      else if sel = USERNAME_PASSWORD \<and> auth \<noteq> None then
        (case auth of
           Some (username, password) \<Rightarrow>
             hs_bind (hs_io (stream_send S (login_request username password))) (\<lambda>_.
             hs_bind (hs_io (read_exact S 2)) (\<lambda>reply.
               case reply of
                 [version, status] \<Rightarrow>
                   (if version \<noteq> AUTH_VERSION then hs_fail InvalidResponse
                    else if status \<noteq> 0 then hs_fail AuthFailed
                    else hs_return ())
               | _ \<Rightarrow> hs_fail InvalidResponse))
         | None \<Rightarrow> hs_fail InvalidResponse)
      else if sel = NO_ACCEPTABLE_METHODS then hs_fail NoAcceptableAuth
      else hs_fail InvalidResponse)"

definition associate_request :: "socket_addr \<Rightarrow> byte list" where
  "associate_request client_addr = put_ip [SOCKS_VERSION, CMD_UDP_ASSOCIATE, 0] client_addr"

definition read_bound :: "'io stream_api \<Rightarrow> byte \<Rightarrow> ('io, byte list) hs_step" where
  "read_bound S atyp =
     (if atyp = ATYP_IPV4 then hs_io (read_exact S (4 + 2))
      else if atyp = ATYP_IPV6 then hs_io (read_exact S (16 + 2))
      else if atyp = ATYP_DOMAIN then
        hs_bind (hs_io (read_exact S 1)) (\<lambda>l.
        hs_bind (hs_io (read_exact S (unat (hd l) + 2))) (\<lambda>rest. hs_return (l @ rest)))
      else hs_fail InvalidResponse)"

definition read_reply :: "'io stream_api \<Rightarrow> ('io, address) hs_step" where
  "read_reply S =
     hs_bind (hs_io (read_exact S 4)) (\<lambda>reply.
       case reply of
         [version, code, rsv, atyp] \<Rightarrow>
           (if version \<noteq> SOCKS_VERSION \<or> rsv \<noteq> 0 then hs_fail InvalidResponse
            else if code \<noteq> 0 then hs_fail (Reply code)
            else
              hs_bind (read_bound S atyp) (\<lambda>addr.
                case decode_addr atyp addr of
                  Inr (bound, _) \<Rightarrow>
                    (if address_port bound \<noteq> 0 then hs_return bound else hs_fail InvalidResponse)
                | Inl _ \<Rightarrow> hs_fail InvalidResponse))
       | _ \<Rightarrow> hs_fail InvalidResponse)"

definition associate ::
    "'io stream_api \<Rightarrow> (byte list \<times> byte list) option \<Rightarrow> socket_addr \<Rightarrow> ('io, address) hs_step" where
  "associate S auth client_addr =
     (if (case auth of None \<Rightarrow> False | Some (u, p) \<Rightarrow> \<not> credential_ok u \<or> \<not> credential_ok p)
      then hs_fail InvalidCredentials
      else
        hs_bind (hs_io (stream_send S (associate_methods auth))) (\<lambda>_.
        hs_bind (hs_io (read_exact S 2)) (\<lambda>greeting.
          case greeting of
            [version, sel] \<Rightarrow>
              (if version \<noteq> SOCKS_VERSION then hs_fail InvalidResponse
               else
                 hs_bind (authenticate S sel auth) (\<lambda>_.
                 hs_bind (hs_io (stream_send S (associate_request client_addr))) (\<lambda>_.
                 read_reply S)))
          | _ \<Rightarrow> hs_fail InvalidResponse)))"

text \<open>What the client may send for what it was answered, and the answers that establish an association.\<close>

definition login_output :: "byte \<Rightarrow> (byte list \<times> byte list) option \<Rightarrow> byte list" where
  "login_output sel auth =
     (if sel = USERNAME_PASSWORD
      then (case auth of Some (username, password) \<Rightarrow> login_request username password | None \<Rightarrow> [])
      else [])"

definition login_answers :: "byte \<Rightarrow> (byte list \<times> byte list) option \<Rightarrow> byte list \<Rightarrow> bool" where
  "login_answers sel auth answers \<longleftrightarrow>
     sel = NO_AUTH \<or> sel = USERNAME_PASSWORD \<and> auth \<noteq> None \<and> take 2 answers = [AUTH_VERSION, 0]"

definition associate_output :: "(byte list \<times> byte list) option \<Rightarrow> socket_addr \<Rightarrow> byte list \<Rightarrow> byte list" where
  "associate_output auth client_addr answers =
     associate_methods auth @
     (case answers of
        version # sel # rest \<Rightarrow>
          (if version = SOCKS_VERSION
           then login_output sel auth @ (if login_answers sel auth rest then associate_request client_addr else [])
           else [])
      | _ \<Rightarrow> [])"

definition associate_answers :: "(byte list \<times> byte list) option \<Rightarrow> byte list \<Rightarrow> address \<Rightarrow> bool" where
  "associate_answers auth answers bound \<longleftrightarrow>
     (\<exists>sel login atyp bnd. answers = [SOCKS_VERSION, sel] @ login @ [SOCKS_VERSION, 0, 0, atyp] @ bnd \<and>
        (sel = NO_AUTH \<and> login = [] \<or> sel = USERNAME_PASSWORD \<and> auth \<noteq> None \<and> login = [AUTH_VERSION, 0]) \<and>
        decode_addr atyp bnd = Inr (bound, []) \<and> address_port bound \<noteq> 0)"

text \<open>What is well-formed, and the form in which an address is read back.\<close>

fun address_ok :: "address \<Rightarrow> bool" where
  "address_ok (Ip addr) = sock_ok addr"
| "address_ok (Domain name port) = (is_utf8 name \<and> 0 < length name \<and> length name < 256)"

fun canonical :: "address \<Rightarrow> address" where
  "canonical (Ip addr) = Ip (sock_new (to_canonical (sock_ip addr)) (sock_port addr))"
| "canonical (Domain name port) = Domain name port"

text \<open>The datagrams in a buffer, and the specification of a run: the payloads of the leading datagrams of
  one source, how many datagrams they take, and their source and stride.\<close>

function datagrams :: "nat \<Rightarrow> byte list \<Rightarrow> byte list list" where
  "datagrams stride buf =
     (if buf = [] \<or> stride = 0 then [] else take stride buf # datagrams stride (drop stride buf))"
  by pat_completeness auto

termination
  by (relation "measure (\<lambda>(stride, buf). length buf)") auto

declare datagrams.simps [simp del]

fun run_of ::
    "(address \<times> nat) option \<Rightarrow> byte list list \<Rightarrow> byte list list \<times> nat \<times> (address \<times> nat) option" where
  "run_of cur [] = ([], 0, cur)"
| "run_of cur (d # ds) =
     (case decode_header d of
        Inl _ \<Rightarrow> (let (ps, k, c) = run_of cur ds in (ps, Suc k, c))
      | Inr (source, payload) \<Rightarrow>
          let (first, st) = (case cur of None \<Rightarrow> (source, length payload) | Some c \<Rightarrow> c) in
          if first \<noteq> source \<or> length payload > st then ([], 0, cur)
          else if length payload < st then ([payload], 1, Some (first, st))
          else (let (ps, k, c) = run_of (Some (first, st)) ds in (payload # ps, Suc k, c)))"

text \<open>The loop computes the run, packs its payloads at the front and leaves the rest alone.\<close>

definition loop_post ::
    "byte list \<Rightarrow> nat \<Rightarrow> nat \<Rightarrow> byte list list \<Rightarrow> byte list list \<times> nat \<times> (address \<times> nat) option \<Rightarrow>
     byte list \<times> nat \<times> nat \<times> (address \<times> nat) option \<Rightarrow> bool" where
  "loop_post buf r wr ds spec y \<longleftrightarrow>
     (case (spec, y) of
        ((ps, k, c), (buf', r', wr', c')) \<Rightarrow>
          c' = c \<and> length buf' = length buf \<and> wr' = wr + length (concat ps) \<and>
          take wr' buf' = take wr buf @ concat ps \<and> r' = r + length (concat (take k ds)) \<and>
          drop r' buf' = drop r' buf \<and> wr' \<le> r' \<and> k \<le> length ds)"

text \<open>The decoded datagrams with a payload, which are what a caller can tell apart in a run.\<close>

fun relayed :: "byte list list \<Rightarrow> (address \<times> byte list) list" where
  "relayed [] = []"
| "relayed (d # ds) =
     (case decode_header d of
        Inl _ \<Rightarrow> relayed ds
      | Inr (source, payload) \<Rightarrow> (if payload = [] then [] else [(source, payload)]) @ relayed ds)"

text \<open>What a run is: payloads of one source, all of the stride but the last.\<close>

definition run_ok ::
    "(address \<times> nat) option \<Rightarrow> byte list list \<Rightarrow> byte list list \<Rightarrow> nat \<Rightarrow> (address \<times> nat) option \<Rightarrow> bool" where
  "run_ok cur ds ps k c \<longleftrightarrow>
     k \<le> length ds \<and> (cur \<noteq> None \<longrightarrow> c = cur) \<and> (c = None \<longrightarrow> ps = [] \<and> relayed ds = []) \<and>
     (cur = None \<longrightarrow> c \<noteq> None \<longrightarrow> 0 < k) \<and>
     (\<forall>source st. c = Some (source, st) \<longrightarrow>
        relayed (take k ds) = map (Pair source) (filter (\<lambda>p. p \<noteq> []) ps) \<and>
        list_all (\<lambda>p. length p = st) (butlast ps) \<and> (ps \<noteq> [] \<longrightarrow> length (last ps) \<le> st))"

text \<open>A caller that unframes until nothing is left, as the sources' tests do.\<close>

fun unframe_all ::
    "nat \<Rightarrow> socket_addr \<Rightarrow> socket_addr \<Rightarrow> byte list \<Rightarrow> nat \<Rightarrow> (address \<times> byte list \<times> nat) list option" where
  "unframe_all 0 relay from buf stride = None"
| "unframe_all (Suc n) relay from buf stride =
     (case unframe relay from buf stride of
        None \<Rightarrow> None
      | Some (None, buf') \<Rightarrow> Some []
      | Some (Some u, buf') \<Rightarrow>
          map_option ((#) (uf_source u, take (uf_len u) buf', uf_stride u))
            (unframe_all n relay from (drop (uf_consumed u) buf') stride))"

definition split_run :: "address \<times> byte list \<times> nat \<Rightarrow> (address \<times> byte list) list" where
  "split_run r = (case r of (source, bytes, stride) \<Rightarrow> map (Pair source) (datagrams stride bytes))"

text \<open>What a step of a handshake sends and consumes.\<close>

definition hs_post ::
    "('io \<Rightarrow> byte list) \<Rightarrow> ('io \<Rightarrow> byte list) \<Rightarrow> ('io \<Rightarrow> bool) \<Rightarrow> ('io, 'a) hs_step \<Rightarrow>
     (associate_error + 'a \<Rightarrow> byte list \<Rightarrow> byte list \<Rightarrow> bool) \<Rightarrow> bool" where
  "hs_post incoming sent io_ok m P \<longleftrightarrow>
     (\<forall>io y io'. io_ok io \<longrightarrow> m io = Some (y, io') \<longrightarrow>
        io_ok io' \<and> (\<exists>inp out. incoming io = inp @ incoming io' \<and> sent io' = sent io @ out \<and> P y inp out))"

text \<open>Whether a step of a handshake comes back.\<close>

definition hs_live :: "('io \<Rightarrow> bool) \<Rightarrow> ('io, 'a) hs_step \<Rightarrow> bool" where
  "hs_live io_ok m \<longleftrightarrow> (\<forall>io. io_ok io \<longrightarrow> m io \<noteq> None)"

definition sample_run :: "byte list" where
  "sample_run = [0, 0, 0, 3, 1, 97, 0, 80, 1, 2] @ [0, 0, 0, 3, 1, 98, 0, 80, 3, 4] @ [0, 0, 0, 3, 1, 98, 0, 80, 5]"

definition sample_relay :: socket_addr where
  "sample_relay = SocketV4 [10, 0, 0, 1] 1080"

definition sample_proxy :: script where
  "sample_proxy =
     \<lparr>sc_recv = [Recv [5, 0, 5, 0], RecvWait, Recv [0, 1, 10, 0, 0, 1, 4, 56]], sc_write = [], sc_sent = [], sc_vectored = False\<rparr>"

lemmas socks_consts = SOCKS_VERSION_def AUTH_VERSION_def NO_AUTH_def USERNAME_PASSWORD_def
  NO_ACCEPTABLE_METHODS_def CMD_UDP_ASSOCIATE_def ATYP_IPV4_def ATYP_DOMAIN_def ATYP_IPV6_def

lemma unat_of_nat_length: "length name < 256 \<Longrightarrow> unat (of_nat (length name) :: byte) = length name"
  by (rule unat_of_nat_byte)

text \<open>The bytes of a header after its reserved bytes: the type, and what \<^verbatim>\<open>decode_addr\<close> reads.\<close>

lemma decode_addr_ip:
  assumes "ip_ok ip"
  shows "decode_addr (case ip of V4 _ \<Rightarrow> ATYP_IPV4 | V6 _ \<Rightarrow> ATYP_IPV6)
      ((case ip of V4 a \<Rightarrow> a | V6 a \<Rightarrow> a) @ u16_be port @ rest) =
    Inr (Ip (sock_new (to_canonical ip) port), rest)"
  using assms by (cases ip) (auto simp: decode_addr_def socks_consts Let_def u16_be_def u16_be_roundtrip)

lemma decode_addr_domain:
  assumes "is_utf8 name" "0 < length name" "length name < 256"
  shows "decode_addr ATYP_DOMAIN ([of_nat (length name)] @ name @ u16_be port @ rest) = Inr (Domain name port, rest)"
  using assms unat_of_nat_length [of name]
  by (auto simp: decode_addr_def socks_consts Let_def u16_be_def u16_be_roundtrip)

lemma encode_ip:
  "encode_header (Ip addr) buf = (Inr (), buf @ [0, 0, 0] @
     [case to_canonical (sock_ip addr) of V4 _ \<Rightarrow> ATYP_IPV4 | V6 _ \<Rightarrow> ATYP_IPV6] @
     (case to_canonical (sock_ip addr) of V4 a \<Rightarrow> a | V6 a \<Rightarrow> a) @ u16_be (sock_port addr))"
  by (simp add: encode_header_def put_ip_def split: ip_addr.split)

lemma decode_encode:
  assumes "address_ok a"
  shows "\<exists>h. encode_header a [] = (Inr (), h) \<and> length h = header_len a \<and> decode_header (h @ payload) = Inr (canonical a, payload)"
proof (cases a)
  case (Ip addr)
  let ?ip = "to_canonical (sock_ip addr)"
  have ok: "ip_ok ?ip" using assms Ip by (simp add: sock_ip_ok to_canonical_ok)
  show ?thesis using ok decode_addr_ip [OF ok, of "sock_port addr" payload, unfolded to_canonical_idem]
    unfolding Ip encode_ip by (cases ?ip) (auto simp: decode_header_def header_len_def Ip)
next
  case (Domain name port)
  then show ?thesis using assms decode_addr_domain [of name port payload]
    by (auto simp: encode_header_def decode_header_def header_len_def)
qed

text \<open>Cutting a header anywhere is noticed.\<close>

lemma decode_addr_cut_ip:
  assumes "ip_ok ip" "n < length ((case ip of V4 a \<Rightarrow> a | V6 a \<Rightarrow> a) @ u16_be port)"
  shows "decode_addr (case ip of V4 _ \<Rightarrow> ATYP_IPV4 | V6 _ \<Rightarrow> ATYP_IPV6)
      (take n ((case ip of V4 a \<Rightarrow> a | V6 a \<Rightarrow> a) @ u16_be port)) = Inl Truncated"
  using assms
  by (cases ip) (auto simp: decode_addr_def socks_consts Let_def u16_be_def take_Cons' split: list.split)

lemma decode_addr_cut_domain:
  assumes "length name < 256" "n < length ([of_nat (length name) :: byte] @ name @ u16_be port)"
  shows "decode_addr ATYP_DOMAIN (take n ([of_nat (length name)] @ name @ u16_be port)) = Inl Truncated"
  using assms unat_of_nat_length [of name]
  by (cases n) (auto simp: decode_addr_def socks_consts Let_def u16_be_def take_Cons' split: list.split)

lemma decode_cut:
  assumes "address_ok a" "encode_header a [] = (Inr (), h)" "n < length h"
  shows "decode_header (take n h) = Inl Truncated"
proof -
  obtain t body where h: "h = 0 # 0 # 0 # t # body"
    and cut: "\<And>k. k < length body \<Longrightarrow> decode_addr t (take k body) = Inl Truncated"
  proof (cases a)
    case (Ip addr)
    have ok: "ip_ok (to_canonical (sock_ip addr))" using assms(1) Ip by (simp add: sock_ip_ok to_canonical_ok)
    show ?thesis using that assms(2) decode_addr_cut_ip [OF ok] unfolding Ip encode_ip by auto
  next
    case (Domain name port)
    then show ?thesis using that assms(1,2) decode_addr_cut_domain [of name _ port]
      by (auto simp: encode_header_def)
  qed
  show ?thesis
  proof (cases "n < 4")
    case True
    then have "n = 0 \<or> n = 1 \<or> n = 2 \<or> n = 3" by auto
    then show ?thesis unfolding h by (auto simp: decode_header_def numeral_eq_Suc)
  next
    case False
    then obtain k where n: "n = Suc (Suc (Suc (Suc k)))" by (intro that [of "n - 4"]) simp
    then show ?thesis using cut [of k] assms(3) unfolding h n by (simp add: decode_header_def)
  qed
qed

text \<open>What a decoded header says: a well-formed canonical address, and the payload is the rest.\<close>

lemma decode_addr_sound:
  assumes "decode_addr t bytes = Inr (a, rest)"
  shows "address_ok a \<and> canonical a = a \<and> (\<exists>h. bytes = h @ rest \<and> 3 < length h)"
proof -
  have port: "\<exists>hi lo. r = hi # lo # rest \<and> a = Ip (sock_new (to_canonical ip) (u16_from_be hi lo))"
    if "(case r of hi # lo # rest \<Rightarrow> Inr (Ip (sock_new (to_canonical ip) (u16_from_be hi lo)), rest) | _ \<Rightarrow> Inl Truncated) =
        (Inr (a, rest) :: udp_header_error + _)" for ip r
    using that by (auto split: list.split_asm)
  have split: "\<exists>h. bytes = h @ rest \<and> 3 < length h" if "drop n bytes = hi # lo # rest" "2 \<le> n" "n \<le> length bytes" for n hi lo
    using that append_take_drop_id [of n bytes] by (intro exI [of _ "take n bytes @ [hi, lo]"]) auto
  consider (v4) "t = ATYP_IPV4" | (v6) "t = ATYP_IPV6" | (domain) "t = ATYP_DOMAIN"
    using assms by (auto simp: decode_addr_def split: if_split_asm)
  then show ?thesis
  proof cases
    case v4
    then have l: "4 \<le> length bytes" using assms by (auto simp: decode_addr_def split: if_split_asm)
    then obtain hi lo where "drop 4 bytes = hi # lo # rest" "a = Ip (sock_new (to_canonical (V4 (take 4 bytes))) (u16_from_be hi lo))"
      using assms v4 port [where r = "drop 4 bytes" and ip = "V4 (take 4 bytes)"] by (auto simp: decode_addr_def)
    then show ?thesis using l split [of 4 hi lo] by (auto intro!: to_canonical_ok)
  next
    case v6
    then have l: "16 \<le> length bytes" using assms by (auto simp: decode_addr_def socks_consts split: if_split_asm)
    then obtain hi lo where "drop 16 bytes = hi # lo # rest" "a = Ip (sock_new (to_canonical (V6 (take 16 bytes))) (u16_from_be hi lo))"
      using assms v6 port [where r = "drop 16 bytes" and ip = "V6 (take 16 bytes)"] by (auto simp: decode_addr_def socks_consts)
    then show ?thesis using l split [of 16 hi lo] by (auto intro!: to_canonical_ok)
  next
    case domain
    then obtain len r where b: "bytes = len # r" "unat len \<le> length r"
      using assms by (auto simp: decode_addr_def socks_consts split: list.split_asm if_split_asm)
    then obtain hi lo where d: "drop (unat len) r = hi # lo # rest" "is_utf8 (take (unat len) r)" "take (unat len) r \<noteq> []"
        "a = Domain (take (unat len) r) (u16_from_be hi lo)"
      using assms domain by (auto simp: decode_addr_def socks_consts Let_def split: list.split_asm if_split_asm)
    then have n: "0 < unat len" by auto
    have "bytes = (len # take (unat len) r @ [hi, lo]) @ rest" using b d(1) append_take_drop_id [of "unat len" r] by simp
    then show ?thesis using b d n by (intro conjI exI [of _ "len # take (unat len) r @ [hi, lo]"]) auto
  qed
qed

lemma decode_header_sound:
  assumes "decode_header d = Inr (a, payload)"
  shows "address_ok a \<and> canonical a = a \<and> (\<exists>h. d = h @ payload \<and> 7 < length h)"
proof -
  obtain t rest where d: "d = 0 # 0 # 0 # t # rest" "decode_addr t rest = Inr (a, payload)"
    using assms by (auto simp: decode_header_def split: list.split_asm if_split_asm)
  obtain h where "rest = h @ payload" "3 < length h" using decode_addr_sound [OF d(2)] by blast
  then show ?thesis using decode_addr_sound [OF d(2)] d(1)
    by (intro conjI exI [of _ "0 # 0 # 0 # t # h"]) auto
qed

lemma datagrams_Nil [simp]: "datagrams stride [] = []"
  by (simp add: datagrams.simps)

lemma datagrams_Cons:
  "buf \<noteq> [] \<Longrightarrow> 0 < stride \<Longrightarrow> datagrams stride buf = take stride buf # datagrams stride (drop stride buf)"
  by (subst datagrams.simps) simp

lemma concat_datagrams: "0 < stride \<Longrightarrow> concat (datagrams stride buf) = buf"
proof (induction "length buf" arbitrary: buf rule: less_induct)
  case less
  then show ?case by (cases "buf = []") (simp_all add: datagrams_Cons)
qed

lemma copy_payload:
  assumes "e \<le> length buf" "r \<le> e" "wr \<le> r" "take (e - r) (drop r buf) = h @ payload"
  shows "\<exists>buf'. copy_within buf (e - length payload) e wr = Some buf' \<and> length buf' = length buf \<and>
    take (wr + length payload) buf' = take wr buf @ payload \<and> drop e buf' = drop e buf \<and> wr + length payload \<le> e"
proof -
  have len: "e - r = length h + length payload" using arg_cong [OF assms(4), of length] assms(1,2) by simp
  have "drop (length h) (take (e - r) (drop r buf)) = payload" using assms(4) by simp
  then have p: "take (length payload) (drop (e - length payload) buf) = payload"
    using len assms(2) by (auto simp: drop_take add.commute intro: back_subst [of "\<lambda>n. take (length payload) (drop n buf) = payload"])
  have e: "length payload \<le> e" "wr + length payload \<le> e" using len assms(2,3) by auto
  then show ?thesis using p assms(1) by (auto simp: copy_within_def)
qed

lemma loop_post_stop:
  "wr \<le> r \<Longrightarrow> r \<le> length buf \<Longrightarrow> loop_post buf r wr ds ([], 0, cur) (buf, r, wr, cur)"
  by (simp add: loop_post_def)

lemma loop_post_skip:
  assumes "loop_post buf e wr ds (ps, k, c) y" "e = r + length d" "drop e buf = concat ds"
  shows "loop_post buf r wr (d # ds) (ps, Suc k, c) y"
  using assms by (auto simp: loop_post_def split: prod.split_asm)

lemma loop_post_payload:
  assumes "loop_post buf1 e (wr + length p) ds (ps, k, c) y" "e = r + length d"
    and "length buf1 = length buf" "take (wr + length p) buf1 = take wr buf @ p" "drop e buf1 = drop e buf"
  shows "loop_post buf r wr (d # ds) (p # ps, Suc k, c) y"
proof -
  obtain buf' r' wr' c' where y: "y = (buf', r', wr', c')" by (metis prod_cases4)
  have r': "e \<le> r'" "drop r' buf' = drop r' buf1" using assms(1) y by (auto simp: loop_post_def)
  have "drop r' buf1 = drop (r' - e) (drop e buf1)" "drop r' buf = drop (r' - e) (drop e buf)" using r'(1) by simp_all
  then have "drop r' buf' = drop r' buf" using r'(2) assms(5) by metis
  then show ?thesis using assms(1-4) y by (auto simp: loop_post_def)
qed

lemma unframe_loop_skip:
  assumes "r < length buf" "r < e" "e = min (saturating_add r stride) (length buf)"
    and "decode_header (take (e - r) (drop r buf)) = Inl err"
  shows "unframe_loop stride buf r wr cur = unframe_loop stride buf e wr cur"
  using assms(1,2,4) by (subst unframe_loop.simps) (simp add: Let_def assms(3) [symmetric])

lemma unframe_loop_take:
  assumes "r < length buf" "r < e" "e = min (saturating_add r stride) (length buf)"
    and "decode_header (take (e - r) (drop r buf)) = Inr (source, payload)"
    and "copy_within buf (e - length payload) e wr = Some buf1"
    and "(case cur of None \<Rightarrow> (source, length payload) | Some c \<Rightarrow> c) = (first, st)"
  shows "unframe_loop stride buf r wr cur =
    (if first \<noteq> source \<or> length payload > st then Some (buf, r, wr, cur)
     else if length payload < st then Some (buf1, e, wr + length payload, Some (first, st))
     else unframe_loop stride buf1 e (wr + length payload) (Some (first, st)))"
  using assms(1,2,4-6) by (cases cur) (subst unframe_loop.simps, simp add: Let_def assms(3) [symmetric])+

lemma run_of_take:
  assumes "decode_header d = Inr (source, payload)"
    and "(case cur of None \<Rightarrow> (source, length payload) | Some c \<Rightarrow> c) = (first, st)"
  shows "run_of cur (d # ds) =
    (if first \<noteq> source \<or> length payload > st then ([], 0, cur)
     else if length payload < st then ([payload], 1, Some (first, st))
     else (let (ps, k, c) = run_of (Some (first, st)) ds in (payload # ps, Suc k, c)))"
  using assms by simp

lemma unframe_loop_turn:
  assumes r: "r < length buf" "r < e" "e = min (saturating_add r stride) (length buf)" "wr \<le> r"
    and d: "d = take (e - r) (drop r buf)" and D: "drop e buf = concat D"
    and IH: "\<And>b w c. \<lbrakk>length b = length buf; w \<le> e; drop e b = drop e buf\<rbrakk> \<Longrightarrow>
      \<exists>y. unframe_loop stride b e w c = Some y \<and> loop_post b e w D (run_of c D) y"
  shows "\<exists>y. unframe_loop stride buf r wr cur = Some y \<and> loop_post buf r wr (d # D) (run_of cur (d # D)) y"
proof (cases "decode_header d")
  case (Inl err)
  obtain y where y: "unframe_loop stride buf e wr cur = Some y" "loop_post buf e wr D (run_of cur D) y"
    using IH [of buf wr cur] r by auto
  obtain ps k c where rn: "run_of cur D = (ps, k, c)" by (metis prod_cases3)
  have "e = r + length d" using r d by auto
  then show ?thesis using y(1) unframe_loop_skip [OF r(1-3) Inl [unfolded d]] loop_post_skip [OF y(2) [unfolded rn] _ D] Inl rn by auto
next
  case (Inr sp)
  obtain source payload where sp: "decode_header d = Inr (source, payload)" using Inr by (cases sp) auto
  obtain h where h: "take (e - r) (drop r buf) = h @ payload" using decode_header_sound [OF sp] d by auto
  have e: "e \<le> length buf" "r \<le> e" "e = r + length d" using r d by auto
  obtain buf1 where b1: "copy_within buf (e - length payload) e wr = Some buf1" "length buf1 = length buf"
      "take (wr + length payload) buf1 = take wr buf @ payload" "drop e buf1 = drop e buf" "wr + length payload \<le> e"
    using copy_payload [OF e(1,2) r(4) h] by blast
  obtain first st where fs: "(case cur of None \<Rightarrow> (source, length payload) | Some c \<Rightarrow> c) = (first, st)" by fastforce
  note loop = unframe_loop_take [OF r(1-3) sp [unfolded d] b1(1) fs] and run = run_of_take [OF sp fs, of D]
  show ?thesis
  proof (cases "first \<noteq> source \<or> length payload > st")
    case True
    then show ?thesis using r(1,4) unfolding loop run by (auto intro: loop_post_stop)
  next
    case go: False
    obtain y where y: "unframe_loop stride buf1 e (wr + length payload) (Some (first, st)) = Some y"
        "loop_post buf1 e (wr + length payload) D (run_of (Some (first, st)) D) y"
      using IH [of buf1 "wr + length payload" "Some (first, st)"] b1 by auto
    have one: "loop_post buf r wr (d # D) ([payload], 1, Some (first, st)) (buf1, e, wr + length payload, Some (first, st))"
      using loop_post_payload [OF loop_post_stop [of "wr + length payload" e buf1 D "Some (first, st)"] e(3) b1(2-4)] b1(2,5) e(1) by simp
    obtain ps k c where rn: "run_of (Some (first, st)) D = (ps, k, c)" by (metis prod_cases3)
    have "loop_post buf r wr (d # D) (payload # ps, Suc k, c) y"
      by (rule loop_post_payload [OF y(2) [unfolded rn] e(3) b1(2-4)])
    then show ?thesis using go one y(1) rn unfolding loop run by (cases y) auto
  qed
qed

lemma unframe_loop_run:
  assumes "0 < stride" "length buf \<le> usize_max"
  shows "\<lbrakk>length buf' = length buf; r \<le> length buf'; wr \<le> r; ds = datagrams stride (drop r buf')\<rbrakk> \<Longrightarrow>
    \<exists>y. unframe_loop stride buf' r wr cur = Some y \<and> loop_post buf' r wr ds (run_of cur ds) y"
proof (induction "length buf' - r" arbitrary: buf' r wr cur ds rule: less_induct)
  case less
  show ?case
  proof (cases "r < length buf'")
    case False
    then show ?thesis using less by (subst unframe_loop.simps) (auto intro: loop_post_stop)
  next
    case True
    define e where "e = min (saturating_add r stride) (length buf')"
    have e: "r < e" "e \<le> length buf'" "e = min (r + stride) (length buf')"
      using True assms less(2) by (auto simp: e_def saturating_add_def)
    define d where "d = take (e - r) (drop r buf')"
    have "d = take stride (drop r buf')" using e(3) True by (auto simp: d_def min_def)
    moreover have "drop stride (drop r buf') = drop e buf'" using e(3) by (auto simp: min_def add.commute)
    ultimately have ds: "ds = d # datagrams stride (drop e buf')"
      using datagrams_Cons [of "drop r buf'" stride] True assms(1) less(5) by simp
    show ?thesis unfolding ds
    proof (rule unframe_loop_turn [OF True e(1) e_def less(4) d_def])
      show "drop e buf' = concat (datagrams stride (drop e buf'))" by (simp add: concat_datagrams [OF assms(1)])
    qed (rule less(1), use e less(2) in auto)
  qed
qed

lemma relayed_append: "relayed (ds @ ds') = relayed ds @ relayed ds'"
  by (induction ds) (auto split: sum.split)

lemma run_ok_payload:
  assumes "run_ok (Some (first, length payload)) ds ps k c" "decode_header d = Inr (first, payload)"
    and "cur = None \<or> cur = Some (first, length payload)"
  shows "run_ok cur (d # ds) (payload # ps) (Suc k) c"
  using assms by (auto simp: run_ok_def)

lemma run_of_ok: "run_of cur ds = (ps, k, c) \<Longrightarrow> run_ok cur ds ps k c"
proof (induction ds arbitrary: cur ps k c)
  case Nil
  then show ?case by (auto simp: run_ok_def)
next
  case (Cons d ds)
  show ?case
  proof (cases "decode_header d")
    case (Inl err)
    obtain ps' k' c' where r: "run_of cur ds = (ps', k', c')" by (metis prod_cases3)
    have eq: "ps = ps'" "k = Suc k'" "c = c'" using Cons(2) Inl r by auto
    show ?thesis using Cons(1) [OF r] Inl unfolding eq by (simp add: run_ok_def)
  next
    case (Inr sp)
    obtain s payload where sp: "decode_header d = Inr (s, payload)" using Inr by (cases sp) auto
    obtain first st where fs: "(case cur of None \<Rightarrow> (s, length payload) | Some c \<Rightarrow> c) = (first, st)" by fastforce
    note step = run_of_take [OF sp fs, of ds]
    have cur: "cur = None \<and> first = s \<and> st = length payload \<or> cur = Some (first, st)"
      using fs by (cases cur) auto
    consider "first \<noteq> s \<or> length payload > st" | "first = s" "length payload < st" | "first = s" "length payload = st" by linarith
    then show ?thesis
    proof cases
      case 1
      then have eq: "ps = []" "k = 0" "c = cur" "cur = Some (first, st)" using Cons(2) step cur by auto
      show ?thesis unfolding eq by (simp add: run_ok_def)
    next
      case 2
      then have eq: "ps = [payload]" "k = 1" "c = Some (first, st)" "cur = Some (first, st)" using Cons(2) step cur by auto
      show ?thesis using sp 2 unfolding eq by (simp add: run_ok_def)
    next
      case 3
      obtain ps' k' c' where r: "run_of (Some (first, st)) ds = (ps', k', c')" by (metis prod_cases3)
      have eq: "ps = payload # ps'" "k = Suc k'" "c = c'" using Cons(2) step 3 r by auto
      show ?thesis unfolding eq by (rule run_ok_payload) (use Cons(1) [OF r] 3 sp cur in auto)
    qed
  qed
qed

text \<open>Splitting the packed payloads of a run at its stride gives them back.\<close>

lemma datagrams_split:
  assumes "list_all (\<lambda>p. length p = st) (butlast ps)" "ps \<noteq> [] \<longrightarrow> length (last ps) \<le> st"
  shows "datagrams st (concat ps) = filter (\<lambda>p. p \<noteq> []) ps"
  using assms
proof (induction ps)
  case (Cons p ps)
  show ?case
  proof (cases "ps = []")
    case True
    show ?thesis
    proof (cases "p = []")
      case False
      then have "0 < st" using Cons.prems True by (cases st) auto
      then show ?thesis using True False Cons.prems datagrams_Cons [OF False] by simp
    qed (simp add: True)
  next
    case False
    then have p: "length p = st" and IH: "datagrams st (concat ps) = filter (\<lambda>p. p \<noteq> []) ps"
      using Cons by auto
    show ?thesis
    proof (cases "st = 0")
      case False
      then show ?thesis using p IH datagrams_Cons [of "p @ concat ps" st] by auto
    qed (use p IH in simp)
  qed
qed simp

lemma datagrams_drop:
  assumes "0 < stride" "k \<le> length (datagrams stride buf)"
  shows "datagrams stride (drop (length (concat (take k (datagrams stride buf)))) buf) = drop k (datagrams stride buf)"
  using assms(2)
proof (induction k arbitrary: buf)
  case (Suc k)
  show ?case
  proof (cases "buf = []")
    case False
    note c = datagrams_Cons [OF False assms(1)]
    have "length (take stride buf) = min (length buf) stride" by simp
    then have "drop (length (take stride buf) + n) buf = drop n (drop stride buf)" for n
      by (cases "length buf \<le> stride") (simp_all add: add.commute min_def)
    then show ?thesis using Suc(1) [of "drop stride buf"] Suc(2) c by simp
  qed (use Suc in simp)
qed simp

text \<open>One call.\<close>

lemma unframe_run:
  assumes "from_relay relay from" "length buf \<le> usize_max" "0 < stride"
    and "run_of None (datagrams stride buf) = (ps, k, c)"
  shows "\<exists>buf' r. unframe relay from buf stride =
      Some (map_option (\<lambda>(source, st). \<lparr>uf_source = source, uf_len = length (concat ps), uf_stride = st, uf_consumed = r\<rparr>) c, buf') \<and>
    take (length (concat ps)) buf' = concat ps \<and> r = length (concat (take k (datagrams stride buf))) \<and>
    drop r buf' = drop r buf \<and> length buf' = length buf"
proof -
  obtain y where y: "unframe_loop stride buf 0 0 None = Some y"
      "loop_post buf 0 0 (datagrams stride buf) (ps, k, c) y"
    using unframe_loop_run [OF assms(3,2) refl, of 0 0 _ None] assms(4) by auto
  obtain buf' r wr c' where "y = (buf', r, wr, c')" by (metis prod_cases4)
  then show ?thesis using y assms(1,3)
    by (auto simp: unframe_def loop_post_def split: option.split)
qed

lemma unframe_all_relayed:
  assumes "from_relay relay from" "0 < stride"
  shows "\<lbrakk>length buf \<le> usize_max; length buf < fuel\<rbrakk> \<Longrightarrow>
    \<exists>runs. unframe_all fuel relay from buf stride = Some runs \<and>
      concat (map split_run runs) = relayed (datagrams stride buf)"
proof (induction fuel arbitrary: buf)
  case (Suc fuel)
  let ?ds = "datagrams stride buf"
  obtain ps k c where r: "run_of None ?ds = (ps, k, c)" by (metis prod_cases3)
  note ok = run_of_ok [OF r, unfolded run_ok_def]
  obtain buf' n where u: "unframe relay from buf stride =
      Some (map_option (\<lambda>(source, st). \<lparr>uf_source = source, uf_len = length (concat ps), uf_stride = st, uf_consumed = n\<rparr>) c, buf')"
      "take (length (concat ps)) buf' = concat ps" "n = length (concat (take k ?ds))" "drop n buf' = drop n buf"
    using unframe_run [OF assms(1) Suc(2) assms(2) r] by blast
  show ?case
  proof (cases c)
    case None
    then show ?thesis using u(1) ok by simp
  next
    case (Some ss)
    obtain source st where c: "c = Some (source, st)" using Some by (cases ss) auto
    have k: "0 < k" "k \<le> length ?ds" using ok c by auto
    have "buf \<noteq> []" using k by auto
    then have "take k ?ds \<noteq> []" "hd ?ds \<noteq> []" using k datagrams_Cons [of buf stride] assms(2) by auto
    then have n: "0 < n" using u(3) k datagrams_Cons [OF \<open>buf \<noteq> []\<close> assms(2)] by (cases k) auto
    obtain runs where rs: "unframe_all fuel relay from (drop n buf) stride = Some runs"
        "concat (map split_run runs) = relayed (datagrams stride (drop n buf))"
    proof -
      have "0 < length buf" using \<open>buf \<noteq> []\<close> by simp
      then have "length (drop n buf) < fuel" "length (drop n buf) \<le> usize_max"
        using Suc(2,3) n unfolding length_drop by arith+
      then show ?thesis using Suc(1) [of "drop n buf"] that by blast
    qed
    have "relayed ?ds = relayed (take k ?ds) @ relayed (datagrams stride (drop n buf))"
      using datagrams_drop [OF assms(2) k(2)] u(3) relayed_append [of "take k ?ds" "drop k ?ds"] by simp
    moreover have "split_run (source, concat ps, st) = relayed (take k ?ds)"
      using ok c datagrams_split [of st ps] by (simp add: split_run_def)
    ultimately show ?thesis using u rs c by simp
  qed
qed simp

context byte_stream
begin

lemma poll_closed_loop_keeps:
  assumes "poll_closed_loop S n io = (res, woken, io')" "io_ok io"
  shows "io_ok io' \<and> sent io' = sent io \<and> res \<noteq> Panicked \<and> (woken \<longrightarrow> res = Pending) \<and>
    (res = Ready (Inr ()) \<longrightarrow> incoming io' = []) \<and>
    (\<exists>bs. incoming io = bs @ incoming io' \<and> length bs \<le> n * 512 \<and> (woken \<longrightarrow> n \<le> length bs))"
  using assms
proof (induction n arbitrary: io)
  case (Suc n)
  obtain q io1 where r: "st_read S io 512 = (q, io1)" by fastforce
  note k = st_read_keeps [OF Suc.prems(2) r] st_read_idle [OF Suc.prems(2) r]
  show ?case
  proof (cases "\<exists>bs. q = Ready (Inr bs)")
    case False
    then show ?thesis using Suc.prems k r by (auto split: poll.split_asm sum.split_asm)
  next
    case True
    then obtain bs where q: "q = Ready (Inr bs)" by blast
    note b = st_read_ready [OF Suc.prems(2) r [unfolded q]]
    show ?thesis
    proof (cases "bs = []")
      case True
      then show ?thesis using Suc.prems k r q b by auto
    next
      case False
      obtain bs' where h: "incoming io1 = bs' @ incoming io'" "length bs' \<le> n * 512" "woken \<longrightarrow> n \<le> length bs'"
        "io_ok io'" "sent io' = sent io1" "res \<noteq> Panicked" "woken \<longrightarrow> res = Pending" "res = Ready (Inr ()) \<longrightarrow> incoming io' = []"
        using Suc.IH [of io1] Suc.prems(1) False k r q by auto
      moreover have "woken \<longrightarrow> Suc n \<le> length bs + length bs'" using h(3) False by (cases bs) auto
      ultimately show ?thesis using k b by (intro conjI exI [of _ "bs @ bs'"]) auto
    qed
  qed
qed (auto intro: exI [of _ "[]"])

lemma read_exact_from_keeps:
  assumes "read_exact_from S n filled io = Some (r, io')" "io_ok io" "length filled \<le> n"
  shows "io_ok io' \<and> sent io' = sent io \<and> (\<exists>bs. incoming io = bs @ incoming io' \<and> length (filled @ bs) \<le> n \<and>
    (\<forall>a. r = Inr a \<longrightarrow> a = filled @ bs \<and> length a = n))"
proof -
  let ?P = "\<lambda>n filled io y. io_ok (snd y) \<and> sent (snd y) = sent io \<and>
    (\<exists>bs. incoming io = bs @ incoming (snd y) \<and> length (filled @ bs) \<le> n \<and>
      (\<forall>a. fst y = Inr a \<longrightarrow> a = filled @ bs \<and> length a = n))"
  have "S' = S \<longrightarrow> io_ok io \<longrightarrow> length filled \<le> n \<longrightarrow> ?P n filled io y"
    if "read_exact_from S' n filled io = Some y" for S' n filled io y
  proof (rule read_exact_from.raw_induct [OF _ that], intro impI)
    fix f S' n filled io y
    assume IH: "\<And>S' n filled io y. f S' n filled io = Some y \<Longrightarrow> S' = S \<longrightarrow> io_ok io \<longrightarrow> length filled \<le> n \<longrightarrow> ?P n filled io y"
      and body: "(if length filled < n then
        (case stream_read S' (n - length filled) io of None \<Rightarrow> None | Some (Inl e, io') \<Rightarrow> Some (Inl e, io')
         | Some (Inr bs, io') \<Rightarrow> (if bs = [] then Some (Inl (IoError UnexpectedEof []), io') else f S' n (filled @ bs) io'))
        else Some (Inr filled, io)) = Some y"
      and pre: "S' = S" "io_ok io" "length filled \<le> n"
    show "?P n filled io y"
    proof (cases "length filled < n")
      case False
      then show ?thesis using body pre by auto
    next
      case True
      obtain r io' where r: "stream_read S (n - length filled) io = Some (r, io')"
        using body True pre by (auto split: option.split_asm)
      note k = stream_read_keeps [OF r pre(2)]
      show ?thesis
      proof (cases "\<exists>bs. r = Inr bs \<and> bs \<noteq> []")
        case False
        then show ?thesis using body True pre r k by (cases r) auto
      next
        case nonempty: True
        then obtain bs where bs: "r = Inr bs" "bs \<noteq> []" by blast
        have f: "f S n (filled @ bs) io' = Some y" using body True pre r bs by simp
        have "?P n (filled @ bs) io' y" using IH [OF f] k bs True by auto
        then show ?thesis using k bs by auto
      qed
    qed
  qed
  from this [OF assms(1)] show ?thesis using assms(2,3) by simp
qed

lemma read_exact_keeps:
  assumes "read_exact S n io = Some (r, io')" "io_ok io"
  shows "io_ok io' \<and> sent io' = sent io \<and> (\<exists>bs. incoming io = bs @ incoming io' \<and> length bs \<le> n \<and>
    (\<forall>a. r = Inr a \<longrightarrow> a = bs \<and> length a = n))"
  using read_exact_from_keeps [OF assms(1) [unfolded read_exact_def] assms(2)] by simp

end

lemma hs_post_mono:
  "hs_post incoming sent io_ok m P \<Longrightarrow> (\<And>y inp out. P y inp out \<Longrightarrow> Q y inp out) \<Longrightarrow> hs_post incoming sent io_ok m Q"
  unfolding hs_post_def by meson

lemma hs_post_fail: "P (Inl e) [] [] \<Longrightarrow> hs_post incoming sent io_ok (hs_fail e) P"
  by (auto simp: hs_post_def hs_fail_def)

lemma hs_post_return: "P (Inr a) [] [] \<Longrightarrow> hs_post incoming sent io_ok (hs_return a) P"
  by (auto simp: hs_post_def hs_return_def)

lemma hs_post_bind:
  assumes m: "hs_post incoming sent io_ok m P"
    and f: "\<And>a i1 o1. P (Inr a) i1 o1 \<Longrightarrow> hs_post incoming sent io_ok (f a) (\<lambda>y i2 o2. Q y (i1 @ i2) (o1 @ o2))"
    and e: "\<And>e inp out. P (Inl e) inp out \<Longrightarrow> Q (Inl e) inp out"
  shows "hs_post incoming sent io_ok (hs_bind m f) Q"
  unfolding hs_post_def
proof (intro allI impI)
  fix io y io'
  assume io: "io_ok io" and b: "hs_bind m f io = Some (y, io')"
  then obtain y1 io1 where 1: "m io = Some (y1, io1)" by (auto simp: hs_bind_def split: option.split_asm)
  obtain i1 o1 where p: "io_ok io1" "incoming io = i1 @ incoming io1" "sent io1 = sent io @ o1" "P y1 i1 o1"
    using m io 1 unfolding hs_post_def by blast
  show "io_ok io' \<and> (\<exists>inp out. incoming io = inp @ incoming io' \<and> sent io' = sent io @ out \<and> Q y inp out)"
  proof (cases y1)
    case (Inl er)
    then show ?thesis using b 1 p e [of er i1 o1] by (auto simp: hs_bind_def)
  next
    case (Inr a)
    then have fa: "f a io1 = Some (y, io')" using b 1 by (simp add: hs_bind_def)
    obtain i2 o2 where q: "io_ok io'" "incoming io1 = i2 @ incoming io'" "sent io' = sent io1 @ o2" "Q y (i1 @ i2) (o1 @ o2)"
      using f [of a i1 o1] p Inr fa unfolding hs_post_def by blast
    show ?thesis using p q by (intro conjI exI [of _ "i1 @ i2"] exI [of _ "o1 @ o2"]) simp_all
  qed
qed

context byte_stream
begin

lemma hs_send:
  "hs_post incoming sent io_ok (hs_io (stream_send S bs)) (\<lambda>y inp out. inp = [] \<and> (\<exists>k. out = take k bs) \<and> (y = Inr () \<longrightarrow> out = bs))"
  unfolding hs_post_def
proof (intro allI impI)
  fix io y io'
  assume io: "io_ok io" and h: "hs_io (stream_send S bs) io = Some (y, io')"
  then obtain r where r: "stream_send S bs io = Some (r, io')" "y = Inr () \<longrightarrow> r = Inr ()"
    by (auto simp: hs_io_def split: option.split_asm sum.split_asm)
  from stream_send_keeps [OF r(1) io] r(2)
  show "io_ok io' \<and> (\<exists>inp out. incoming io = inp @ incoming io' \<and> sent io' = sent io @ out \<and>
      inp = [] \<and> (\<exists>k. out = take k bs) \<and> (y = Inr () \<longrightarrow> out = bs))" by auto
qed

lemma hs_read:
  "hs_post incoming sent io_ok (hs_io (read_exact S n)) (\<lambda>y inp out. out = [] \<and> (\<forall>a. y = Inr a \<longrightarrow> a = inp \<and> length inp = n))"
  unfolding hs_post_def
proof (intro allI impI)
  fix io y io'
  assume io: "io_ok io" and h: "hs_io (read_exact S n) io = Some (y, io')"
  then obtain r where r: "read_exact S n io = Some (r, io')" "\<forall>a. y = Inr a \<longrightarrow> r = Inr a"
    by (auto simp: hs_io_def split: option.split_asm sum.split_asm)
  from read_exact_keeps [OF r(1) io] r(2)
  show "io_ok io' \<and> (\<exists>inp out. incoming io = inp @ incoming io' \<and> sent io' = sent io @ out \<and>
      out = [] \<and> (\<forall>a. y = Inr a \<longrightarrow> a = inp \<and> length inp = n))" by auto
qed

end

lemma take_within: "\<exists>k'. ys @ take k xs = take k' (ys @ xs @ zs)"
  by (rule exI [of _ "length ys + min k (length xs)"]) (simp add: min_def)

lemma take_all_ex: "\<exists>k. xs = take k xs"
  by (rule exI [of _ "length xs"]) simp

lemma list_of_length_2: "length xs = 2 \<longleftrightarrow> (\<exists>a b. xs = [a, b])"
  by (auto simp: length_Suc_conv numeral_2_eq_2)

lemma list_of_length_4: "length xs = 4 \<longleftrightarrow> (\<exists>a b c d. xs = [a, b, c, d])"
  by (auto simp: length_Suc_conv numeral_eq_Suc)

lemma drop_leaves_two: "drop k xs = a # b # rest \<Longrightarrow> length xs = k + 2 \<Longrightarrow> rest = []"
  by (drule arg_cong [of _ _ length]) simp

lemma decode_addr_read:
  assumes "atyp = ATYP_IPV4 \<and> length bnd = 6 \<or> atyp = ATYP_IPV6 \<and> length bnd = 18 \<or>
      atyp = ATYP_DOMAIN \<and> bnd \<noteq> [] \<and> length bnd = unat (hd bnd) + 3"
    and "decode_addr atyp bnd = Inr (bound, rest)"
  shows "rest = []"
  using assms
  by (auto simp: decode_addr_def ATYP_IPV4_def ATYP_IPV6_def ATYP_DOMAIN_def Let_def split: if_splits list.split_asm
      dest: drop_leaves_two [of 4] drop_leaves_two [of 16] drop_leaves_two)

context byte_stream
begin

lemma authenticate_spec:
  "hs_post incoming sent io_ok (authenticate S sel auth)
     (\<lambda>y inp out. (\<exists>k. out = take k (login_output sel auth)) \<and>
        (y = Inr () \<longrightarrow> out = login_output sel auth \<and>
           (sel = NO_AUTH \<and> inp = [] \<or> sel = USERNAME_PASSWORD \<and> auth \<noteq> None \<and> inp = [AUTH_VERSION, 0])))"
    (is "hs_post _ _ _ _ ?Q")
proof (cases "sel = USERNAME_PASSWORD \<and> auth \<noteq> None")
  case True
  then obtain u p where a: "auth = Some (u, p)" by auto
  have o: "login_output sel auth = login_request u p" using True a by (simp add: login_output_def)
  have "hs_post incoming sent io_ok
     (hs_bind (hs_io (stream_send S (login_request u p))) (\<lambda>_.
             hs_bind (hs_io (read_exact S 2)) (\<lambda>reply.
               case reply of
                 [version, status] \<Rightarrow>
                   (if version \<noteq> AUTH_VERSION then hs_fail InvalidResponse
                    else if status \<noteq> 0 then hs_fail AuthFailed
                    else hs_return ())
               | _ \<Rightarrow> hs_fail InvalidResponse))) ?Q"
    by (rule hs_post_bind [OF hs_send], rule hs_post_bind [OF hs_read])
       (use True o in \<open>auto simp: list_of_length_2 a intro!: hs_post_fail hs_post_return exI [of _ "length (login_request u p)"]\<close>)
  then show ?thesis using True a by (simp add: authenticate_def NO_AUTH_def USERNAME_PASSWORD_def)
next
  case False
  have "\<exists>k. [] = take k (login_output sel auth)" by (rule exI [of _ 0]) simp
  then show ?thesis using False
    by (auto simp: authenticate_def login_output_def NO_AUTH_def USERNAME_PASSWORD_def intro!: hs_post_return hs_post_fail)
qed

lemma read_bound_spec:
  "hs_post incoming sent io_ok (read_bound S atyp)
     (\<lambda>y inp out. out = [] \<and> (\<forall>bnd. y = Inr bnd \<longrightarrow> bnd = inp \<and>
        (atyp = ATYP_IPV4 \<and> length bnd = 6 \<or> atyp = ATYP_IPV6 \<and> length bnd = 18 \<or>
         atyp = ATYP_DOMAIN \<and> bnd \<noteq> [] \<and> length bnd = unat (hd bnd) + 3)))" (is "hs_post _ _ _ _ ?Q")
proof -
  have d: "hs_post incoming sent io_ok (hs_bind (hs_io (read_exact S 1)) (\<lambda>l.
        hs_bind (hs_io (read_exact S (unat (hd l) + 2))) (\<lambda>rest. hs_return (l @ rest)))) ?Q" if "atyp = ATYP_DOMAIN"
    by (rule hs_post_bind [OF hs_read], rule hs_post_bind [OF hs_read], rule hs_post_return)
       (use that in \<open>auto simp: length_Suc_conv\<close>)
  have i: "hs_post incoming sent io_ok (hs_io (read_exact S n)) ?Q" if "atyp = ATYP_IPV4 \<and> n = 6 \<or> atyp = ATYP_IPV6 \<and> n = 18" for n
    by (rule hs_post_mono [OF hs_read]) (use that in auto)
  show ?thesis unfolding read_bound_def using d i by (auto intro!: hs_post_fail)
qed

lemma read_reply_spec:
  "hs_post incoming sent io_ok (read_reply S)
     (\<lambda>y inp out. out = [] \<and> (\<forall>bound. y = Inr bound \<longrightarrow>
        (\<exists>atyp bnd. inp = [SOCKS_VERSION, 0, 0, atyp] @ bnd \<and> decode_addr atyp bnd = Inr (bound, []) \<and> address_port bound \<noteq> 0)))"
    (is "hs_post _ _ _ _ ?Q")
  unfolding read_reply_def
proof (rule hs_post_bind [OF hs_read])
  fix reply i1 o1 :: "byte list"
  assume r: "o1 = [] \<and> (\<forall>a. Inr reply = Inr a \<longrightarrow> a = i1 \<and> length i1 = 4)"
  then obtain v c z t where i1: "i1 = reply" "reply = [v, c, z, t]" "o1 = []" by (auto simp: list_of_length_4)
  have b: "hs_post incoming sent io_ok
      (hs_bind (read_bound S t) (\<lambda>addr. case decode_addr t addr of
           Inr (bound, _) \<Rightarrow> (if address_port bound \<noteq> 0 then hs_return bound else hs_fail InvalidResponse)
         | Inl _ \<Rightarrow> hs_fail InvalidResponse)) (\<lambda>y i2 o2. ?Q y ([SOCKS_VERSION, 0, 0, t] @ i2) o2)"
    by (rule hs_post_bind [OF read_bound_spec])
       (auto intro!: hs_post_fail hs_post_return split: sum.split, auto intro: decode_addr_read [rotated])
  show "hs_post incoming sent io_ok
      (case reply of [version, code, rsv, atyp] \<Rightarrow>
           (if version \<noteq> SOCKS_VERSION \<or> rsv \<noteq> 0 then hs_fail InvalidResponse
            else if code \<noteq> 0 then hs_fail (Reply code)
            else hs_bind (read_bound S atyp) (\<lambda>addr. case decode_addr atyp addr of
                  Inr (bound, _) \<Rightarrow> (if address_port bound \<noteq> 0 then hs_return bound else hs_fail InvalidResponse)
                | Inl _ \<Rightarrow> hs_fail InvalidResponse))
       | _ \<Rightarrow> hs_fail InvalidResponse) (\<lambda>y i2 o2. ?Q y (i1 @ i2) (o1 @ o2))"
    using b by (auto simp: i1 intro!: hs_post_fail)
qed auto

lemma associate_selected_spec:
  "hs_post incoming sent io_ok
     (hs_bind (authenticate S sel auth) (\<lambda>_.
        hs_bind (hs_io (stream_send S (associate_request client_addr))) (\<lambda>_. read_reply S)))
     (\<lambda>y i2 o2. (\<exists>k. associate_methods auth @ o2 = take k (associate_output auth client_addr (SOCKS_VERSION # sel # i2))) \<and>
        (\<forall>bound. y = Inr bound \<longrightarrow> associate_methods auth @ o2 = associate_output auth client_addr (SOCKS_VERSION # sel # i2) \<and>
           associate_answers auth (SOCKS_VERSION # sel # i2) bound))"
    (is "hs_post _ _ _ _ ?Q")
proof (rule hs_post_bind [OF authenticate_spec])
  fix a :: unit and i1 o1
  assume h: "(\<exists>k. o1 = take k (login_output sel auth)) \<and>
      (Inr a = Inr () \<longrightarrow> o1 = login_output sel auth \<and>
         (sel = NO_AUTH \<and> i1 = [] \<or> sel = USERNAME_PASSWORD \<and> auth \<noteq> None \<and> i1 = [AUTH_VERSION, 0]))"
  then have o: "associate_output auth client_addr (SOCKS_VERSION # sel # i1 @ i) =
      associate_methods auth @ o1 @ associate_request client_addr" for i
    by (auto simp: associate_output_def login_answers_def)
  have w: "associate_answers auth (SOCKS_VERSION # sel # i1 @ SOCKS_VERSION # 0 # 0 # atyp # bnd) bound"
    if "decode_addr atyp bnd = Inr (bound, [])" "address_port bound \<noteq> 0" for atyp bnd bound
    unfolding associate_answers_def using h that by (intro exI [of _ sel] exI [of _ i1] exI [of _ atyp] exI [of _ bnd]) auto
  have e: "\<exists>k'. associate_methods auth @ o1 @ take k (associate_request client_addr) =
      take k' (associate_methods auth @ o1 @ associate_request client_addr)" for k
    using take_within [of "associate_methods auth @ o1" k _ "[]"] by simp
  show "hs_post incoming sent io_ok (hs_bind (hs_io (stream_send S (associate_request client_addr))) (\<lambda>_. read_reply S))
     (\<lambda>y i2 o2. ?Q y (i1 @ i2) (o1 @ o2))"
  proof (rule hs_post_bind [OF hs_send])
    fix a :: unit and i2 o2 :: "byte list"
    assume "i2 = [] \<and> (\<exists>k. o2 = take k (associate_request client_addr)) \<and> (Inr a = Inr () \<longrightarrow> o2 = associate_request client_addr)"
    then show "hs_post incoming sent io_ok (read_reply S)
       (\<lambda>y i3 o3. ?Q y (i1 @ i2 @ i3) (o1 @ o2 @ o3))"
      by (intro hs_post_mono [OF read_reply_spec]) (auto simp: o w take_all_ex simp del: take_append)
  qed (use e in \<open>auto simp: o [of "[]", simplified]\<close>)
qed (use take_within [of "associate_methods auth"] take_within [of "associate_methods auth" _ _ "[]"] in
      \<open>auto simp: associate_output_def simp del: take_append\<close>)

lemma associate_spec:
  "hs_post incoming sent io_ok (associate S auth client_addr)
     (\<lambda>y inp out. (\<exists>k. out = take k (associate_output auth client_addr inp)) \<and>
        (\<forall>bound. y = Inr bound \<longrightarrow> out = associate_output auth client_addr inp \<and> associate_answers auth inp bound))"
    (is "hs_post _ _ _ _ ?Q")
proof -
  have m: "\<exists>k'. take k (associate_methods auth) = take k' (associate_output auth client_addr inp)" for k inp
    using take_within [of "[]" k "associate_methods auth"] by (auto simp: associate_output_def)
  note m' = m [of "length (associate_methods auth)", simplified]
  have g: "hs_post incoming sent io_ok
      (case greeting of
            [version, sel] \<Rightarrow>
              (if version \<noteq> SOCKS_VERSION then hs_fail InvalidResponse
               else
                 hs_bind (authenticate S sel auth) (\<lambda>_.
                 hs_bind (hs_io (stream_send S (associate_request client_addr))) (\<lambda>_.
                 read_reply S)))
          | _ \<Rightarrow> hs_fail InvalidResponse) (\<lambda>y i2 o2. ?Q y (greeting @ i2) (associate_methods auth @ o2))"
    if "length greeting = 2" for greeting
    using that associate_selected_spec by (auto simp: list_of_length_2 m' intro!: hs_post_fail)
  show ?thesis unfolding associate_def
  proof (cases "case auth of None \<Rightarrow> False | Some (u, p) \<Rightarrow> \<not> credential_ok u \<or> \<not> credential_ok p", goal_cases)
    case 1
    then show ?case using m [of 0] by (simp add: hs_post_fail)
  next
    case 2
    have "hs_post incoming sent io_ok (hs_bind (hs_io (stream_send S (associate_methods auth))) (\<lambda>_.
        hs_bind (hs_io (read_exact S 2)) (\<lambda>greeting.
          case greeting of
            [version, sel] \<Rightarrow>
              (if version \<noteq> SOCKS_VERSION then hs_fail InvalidResponse
               else
                 hs_bind (authenticate S sel auth) (\<lambda>_.
                 hs_bind (hs_io (stream_send S (associate_request client_addr))) (\<lambda>_.
                 read_reply S)))
          | _ \<Rightarrow> hs_fail InvalidResponse))) ?Q"
      by (rule hs_post_bind [OF hs_send], rule hs_post_bind [OF hs_read]) (use m m' g in auto)
    then show ?case using 2 by (simp only: if_False)
  qed
qed

end

lemma hs_live_fail: "hs_live io_ok (hs_fail e)"
  by (simp add: hs_live_def hs_fail_def)

lemma hs_live_return: "hs_live io_ok (hs_return a)"
  by (simp add: hs_live_def hs_return_def)

lemma hs_live_bind:
  assumes "hs_live io_ok m" "hs_post incoming sent io_ok m P" "\<And>a. hs_live io_ok (f a)"
  shows "hs_live io_ok (hs_bind m f)"
  unfolding hs_live_def
proof (intro allI impI)
  fix io
  assume io: "io_ok io"
  obtain y io' where m: "m io = Some (y, io')" using assms(1) io by (fastforce simp: hs_live_def)
  have "io_ok io'" using assms(2) io m unfolding hs_post_def by blast
  then show "hs_bind m f io \<noteq> None" using m assms(3) by (cases y) (auto simp: hs_bind_def hs_live_def)
qed

context live_stream
begin

lemma read_exact_from_returns:
  "io_ok io \<Longrightarrow> length filled \<le> n \<Longrightarrow> read_exact_from S n filled io \<noteq> None"
proof (induction "n - length filled" arbitrary: filled io rule: less_induct)
  case less
  show ?case
  proof (cases "length filled < n")
    case False
    then show ?thesis by (simp add: read_exact_from.simps)
  next
    case True
    obtain r io' where r: "stream_read S (n - length filled) io = Some (r, io')"
      using stream_read_returns [OF less.prems(1)] by fastforce
    note k = stream_read_keeps [OF r less.prems(1)]
    show ?thesis
    proof (cases "\<exists>bs. r = Inr bs \<and> bs \<noteq> []")
      case False
      then show ?thesis using True r by (subst read_exact_from.simps) (cases r, auto)
    next
      case nonempty: True
      then obtain bs where bs: "r = Inr bs" "bs \<noteq> []" by blast
      then have "0 < length bs" "length bs \<le> n - length filled" "io_ok io'" using k by auto
      then have "read_exact_from S n (filled @ bs) io' \<noteq> None" using True by (intro less.hyps) (simp_all del: length_greater_0_conv)
      then show ?thesis using True r bs by (subst read_exact_from.simps) simp
    qed
  qed
qed

lemma live_send: "hs_live io_ok (hs_io (stream_send S bs))"
  unfolding hs_live_def hs_io_def using stream_send_returns [of _ bs] by (fastforce split: option.split sum.split)

lemma live_read: "hs_live io_ok (hs_io (read_exact S n))"
  unfolding hs_live_def hs_io_def read_exact_def using read_exact_from_returns [of _ "[]" n]
  by (fastforce split: option.split sum.split)

lemmas live_handshake = hs_live_fail hs_live_return
  hs_live_bind [OF live_send hs_send] hs_live_bind [OF live_read hs_read] live_read

lemma authenticate_live: "hs_live io_ok (authenticate S sel auth)"
  unfolding authenticate_def by (auto intro!: live_handshake split: list.split option.split)

lemma read_bound_live: "hs_live io_ok (read_bound S atyp)"
  unfolding read_bound_def by (auto intro!: live_handshake)

lemma read_reply_live: "hs_live io_ok (read_reply S)"
  unfolding read_reply_def
  by (auto intro!: live_handshake hs_live_bind [OF read_bound_live read_bound_spec] split: list.split sum.split)

lemma associate_live: "hs_live io_ok (associate S auth client_addr)"
  unfolding associate_def
  by (auto intro!: live_handshake hs_live_bind [OF authenticate_live authenticate_spec] read_reply_live split: list.split)

end

text \<open>
  Watching an association: the end is reported only when the proxy has closed its side and all it sent
  was read, a poll discards at most eight kilobytes, and one that gives up after that has woken the
  task.
\<close>

lemma poll_closed_bounded:
  assumes "byte_stream S incoming sent io_ok" "io_ok (ua_io assoc)" "poll_closed S assoc = (res, woken, assoc')"
  shows "ua_bound assoc' = ua_bound assoc \<and> sent (ua_io assoc') = sent (ua_io assoc) \<and>
    (res = Ready (Inr ()) \<longrightarrow> incoming (ua_io assoc') = []) \<and> (woken \<longrightarrow> res = Pending) \<and>
    (\<exists>bs. incoming (ua_io assoc) = bs @ incoming (ua_io assoc') \<and> length bs \<le> 8192)"
  using byte_stream.poll_closed_loop_keeps [OF assms(1) _ assms(2), of 16] assms(3)
  by (fastforce simp: poll_closed_def split: prod.split_asm)

text \<open>
  C32.  The header of a relayed datagram survives the round trip: what is encoded for a well-formed
  address is as long as announced, and decoding the datagram gives the address, in canonical form, and
  the payload.  No proper prefix of the header is taken for a header.
\<close>

theorem udp_header_roundtrip:
  assumes "address_ok a"
  shows "\<exists>h. encode_header a [] = (Inr (), h) \<and> length h = header_len a \<and>
    decode_header (h @ payload) = Inr (canonical a, payload) \<and>
    (\<forall>n < length h. decode_header (take n h) = Inl Truncated)"
  using decode_encode [OF assms, of payload] decode_cut [OF assms] by blast

theorem udp_header_roundtrip_witness:
  "\<exists>h. encode_header (Domain [97] 80) [] = (Inr (), h) \<and> length h = 8 \<and>
    decode_header (h @ [1, 2]) = Inr (Domain [97] 80, [1, 2])"
  using udp_header_roundtrip [of "Domain [97] 80" "[1, 2]"] by (auto simp: header_len_def is_utf8.simps)

text \<open>
  C33.  Whatever datagram is decoded, the address that comes out is well formed: an IP address has its
  width and is canonical, a domain name is a non-empty UTF-8 string of at most 255 bytes.  The payload
  is the rest of the datagram behind a header of at least eight bytes.
\<close>

theorem decoded_address_ok:
  assumes "decode_header d = Inr (a, payload)"
  shows "address_ok a \<and> canonical a = a \<and> (\<exists>h. d = h @ payload \<and> 7 < length h)"
  by (rule decode_header_sound [OF assms])

theorem decoded_address_ok_witness:
  "address_ok (Domain [97] 80) \<and> (\<exists>h. [0, 0, 0, 3, 1, 97, 0, 80, 1] = h @ [1 :: byte] \<and> 7 < length h)"
proof -
  have "decode_header [0, 0, 0, 3, 1, 97, 0, 80, 1] = Inr (Domain [97] 80, [1])" by code_simp
  from decoded_address_ok [OF this] show ?thesis by simp
qed

text \<open>
  C31.  Unframing a buffer of relayed datagrams in place loses nothing and mixes nothing: calling it on
  what is left until no run comes back, and cutting each run at its stride, gives the payloads of the
  datagrams of the buffer with their sources, in order, without the malformed and the empty ones.  A
  buffer that does not come from the relay gives nothing.  It
  neither panics nor fails to end.
\<close>

theorem unframe_delivers:
  assumes "0 < stride" "length buf \<le> usize_max" "length buf < fuel"
  shows "\<exists>runs. unframe_all fuel relay from buf stride = Some runs \<and>
    concat (map split_run runs) = (if from_relay relay from then relayed (datagrams stride buf) else [])"
proof (cases "from_relay relay from")
  case True
  then show ?thesis using unframe_all_relayed [OF True assms] by simp
next
  case False
  then show ?thesis using assms(3) by (cases fuel) (simp_all add: unframe_def)
qed

theorem unframe_delivers_witness:
  "\<exists>runs. unframe_all 40 sample_relay sample_relay sample_run 10 = Some runs \<and>
    concat (map split_run runs) = [(Domain [97] 80, [1, 2]), (Domain [98] 80, [3, 4]), (Domain [98] 80, [5])]"
proof -
  have "relayed (datagrams 10 sample_run) = [(Domain [97] 80, [1, 2]), (Domain [98] 80, [3, 4]), (Domain [98] 80, [5])]"
    by code_simp
  moreover have "from_relay sample_relay sample_relay" by code_simp
  moreover have "length sample_run = 29" by code_simp
  ultimately show ?thesis using unframe_delivers [of 10 sample_run 40 sample_relay sample_relay]
    by (simp)
qed

text \<open>
  C30.  The UDP ASSOCIATE handshake sends nothing the proxy has not asked for: at every outcome what was
  sent is a prefix of the greeting, of the login if and only if the proxy selected it, and of the
  request once the proxy accepted the client.  It always ends.  It succeeds only on answers that the
  protocol allows, with a relay address of the reply whose port is not zero, and takes from the stream
  no byte behind the reply.
\<close>

theorem associate_exchange:
  assumes "live_stream S incoming sent io_ok waits" "io_ok io"
  shows "\<exists>y io' inp out. associate S auth client_addr io = Some (y, io') \<and>
    incoming io = inp @ incoming io' \<and> sent io' = sent io @ out \<and>
    (\<exists>k. out = take k (associate_output auth client_addr inp)) \<and>
    (\<forall>bound. y = Inr bound \<longrightarrow> out = associate_output auth client_addr inp \<and> associate_answers auth inp bound)"
proof -
  obtain y io' where a: "associate S auth client_addr io = Some (y, io')"
    using live_stream.associate_live [OF assms(1), of auth client_addr] assms(2) by (fastforce simp: hs_live_def)
  then show ?thesis
    using byte_stream.associate_spec [OF live_stream.axioms(1) [OF assms(1)], of auth client_addr, unfolded hs_post_def] assms(2)
    by blast
qed

theorem associate_exchange_witness:
  "\<exists>y s' inp out. associate sc_stream None sample_relay sample_proxy = Some (y, s') \<and>
    sc_incoming sample_proxy = inp @ sc_incoming s' \<and> sc_sent s' = out \<and>
    (\<forall>bound. y = Inr bound \<longrightarrow> out = associate_output None sample_relay inp)"
  using associate_exchange [OF script_stream.live_stream_axioms, of sample_proxy None sample_relay]
  by (fastforce simp: sc_ok_def sample_proxy_def)

end
