(* ===== verification/Socks_Connect.thy ===== *)
theory Socks_Connect
  imports Proxy_Io Std_Net
begin

text \<open>
  The SOCKS connector (\<^verbatim>\<open>src/src/proxy/socks.rs\<close>): what it accepts, who resolves the name, the adapter that
  flushes before each read, and the handshake it selects.  The handshakes themselves are those of
  \<^verbatim>\<open>tokio-socks\<close>, a parameter; so are the wrapped connector and the resolver.  Shown: what is handed to
  the library always fits the protocol, and a client whose proxy resolves names never does.
\<close>

section \<open>Definitions\<close>

definition MAX_HOST_LEN :: nat where "MAX_HOST_LEN = 255"

definition MAX_USER_ID_LEN :: nat where "MAX_USER_ID_LEN = 255"

definition MAX_CREDENTIAL_LEN :: nat where "MAX_CREDENTIAL_LEN = 255"

definition SOCKS4A_MAX_ID_AND_HOST :: nat where "SOCKS4A_MAX_ID_AND_HOST = 503"

datatype socks_version = SocksV4 | SocksV5

datatype dns_resolve = DnsLocal | DnsRemote

record 'u socks_connector =
  sk_proxy_dst :: 'u
  sk_auth :: "(byte list \<times> byte list) option"
  sk_version :: socks_version
  sk_dns_resolve :: dns_resolve

datatype socks_error =
    SocksConnectFailed
  | DnsResolveFailure
  | DnsFailure
  | SocksHandshake
  | AddressNotSupported
  | HostTooLong
  | InvalidUserId
  | SocksInvalidCredentials
  | SocksUtf8
  | SocksMissingHost
  | SocksInvalidPort

definition socks_new :: "'u \<Rightarrow> 'u socks_connector" where
  "socks_new proxy_dst =
     \<lparr>sk_proxy_dst = proxy_dst, sk_auth = None, sk_version = SocksV5, sk_dns_resolve = DnsLocal\<rparr>"

definition set_auth :: "'u socks_connector \<Rightarrow> (byte list \<times> byte list) option \<Rightarrow> 'u socks_connector" where
  "set_auth c auth = c\<lparr>sk_auth := auth\<rparr>"

definition set_version :: "'u socks_connector \<Rightarrow> socks_version \<Rightarrow> 'u socks_connector" where
  "set_version c version = c\<lparr>sk_version := version\<rparr>"

definition set_dns_mode :: "'u socks_connector \<Rightarrow> dns_resolve \<Rightarrow> 'u socks_connector" where
  "set_dns_mode c dns_resolve = c\<lparr>sk_dns_resolve := dns_resolve\<rparr>"

definition unbracket :: "byte list \<Rightarrow> byte list" where
  "unbracket host =
     (case strip_prefix [91] host of
        None \<Rightarrow> host
      | Some h \<Rightarrow> (if h \<noteq> [] \<and> last h = 93 then butlast h else host))"

text \<open>\<^verbatim>\<open>check\<close>: first the destination, then the credentials.\<close>

fun is_ipv6 :: "ip_addr \<Rightarrow> bool" where
  "is_ipv6 (V4 _) = False"
| "is_ipv6 (V6 _) = True"

definition check_addr ::
    "'u socks_connector \<Rightarrow> byte list \<Rightarrow> u16 \<Rightarrow> socks_error + socket_addr option" where
  "check_addr c host port =
     (case parse_ip host of
        Some ip \<Rightarrow>
          (if sk_version c = SocksV4 \<and> is_ipv6 ip then Inl AddressNotSupported
           else Inr (Some (sock_new ip port)))
      | None \<Rightarrow>
          (if sk_dns_resolve c = DnsRemote \<and> length host > MAX_HOST_LEN then Inl HostTooLong
           else Inr None))"

fun check_credentials :: "byte list list \<Rightarrow> socks_error + unit" where
  "check_credentials [] = Inr ()"
| "check_credentials (v # vs) =
     (if \<not> (1 \<le> length v \<and> length v \<le> MAX_CREDENTIAL_LEN) then Inl SocksInvalidCredentials
      else if \<not> is_utf8 v then Inl SocksUtf8
      else check_credentials vs)"

definition check_auth ::
    "'u socks_connector \<Rightarrow> byte list \<Rightarrow> socket_addr option \<Rightarrow> socks_error + unit" where
  "check_auth c host addr =
     (case sk_auth c of
        None \<Rightarrow> Inr ()
      | Some (username, password) \<Rightarrow>
          (case sk_version c of
             SocksV4 \<Rightarrow>
               (if length username > MAX_USER_ID_LEN \<or> 0 \<in> set username then Inl InvalidUserId
                else if \<not> is_utf8 username then Inl SocksUtf8
                else if sk_dns_resolve c = DnsRemote \<and> addr = None \<and>
                        length username + length host > SOCKS4A_MAX_ID_AND_HOST
                then Inl HostTooLong
                else Inr ())
           | SocksV5 \<Rightarrow> check_credentials [username, password]))"

definition check :: "'u uri_api \<Rightarrow> 'u socks_connector \<Rightarrow> 'u \<Rightarrow> socks_error + u16 \<times> socket_addr option" where
  "check U c dst =
     (case map_option unbracket (dst_host U dst) of
        None \<Rightarrow> Inl SocksMissingHost
      | Some host \<Rightarrow>
          (case dst_port U dst of
             None \<Rightarrow> Inl SocksInvalidPort
           | Some port \<Rightarrow>
               (case check_addr c host port of
                  Inl e \<Rightarrow> Inl e
                | Inr addr \<Rightarrow>
                    (case check_auth c host addr of
                       Inl e \<Rightarrow> Inl e
                     | Inr _ \<Rightarrow> Inr (port, addr)))))"

text \<open>
  The resolver of the caller: whether it became ready, and the addresses a call for a name yields.
  A future that never completes has no outcome.
\<close>

record 'r resolver_api =
  rv_ready :: "'r \<Rightarrow> (unit + 'r) option"
  rv_call :: "'r \<Rightarrow> byte list \<Rightarrow> (unit + socket_addr list) option"

fun set_port :: "socket_addr \<Rightarrow> u16 \<Rightarrow> socket_addr" where
  "set_port (SocketV4 a _) port = SocketV4 a port"
| "set_port (SocketV6 a _ f s) port = SocketV6 a port f s"

fun is_ipv4_sock :: "socket_addr \<Rightarrow> bool" where
  "is_ipv4_sock (SocketV4 _ _) = True"
| "is_ipv4_sock (SocketV6 _ _ _ _) = False"

definition resolve ::
    "'r resolver_api \<Rightarrow> 'r \<Rightarrow> byte list \<Rightarrow> u16 \<Rightarrow> socks_version \<Rightarrow> (socks_error + socket_addr) option" where
  "resolve R resolver host port version =
     (case rv_ready R resolver of
        None \<Rightarrow> None
      | Some (Inl _) \<Rightarrow> Some (Inl DnsResolveFailure)
      | Some (Inr resolver') \<Rightarrow>
          (case rv_call R resolver' host of
             None \<Rightarrow> None
           | Some (Inl _) \<Rightarrow> Some (Inl DnsResolveFailure)
           | Some (Inr addrs) \<Rightarrow>
               (case (case version of
                        SocksV4 \<Rightarrow> List.find is_ipv4_sock addrs
                      | SocksV5 \<Rightarrow> (case addrs of [] \<Rightarrow> None | a # _ \<Rightarrow> Some a)) of
                  None \<Rightarrow> Some (Inl DnsFailure)
                | Some addr \<Rightarrow> Some (Inr (set_port addr port)))))"

text \<open>
  \<^verbatim>\<open>Socket\<close>: the stream of the caller as \<^verbatim>\<open>tokio-socks\<close> sees it, which flushes before each read.
\<close>

definition socks_socket :: "'io stream_api \<Rightarrow> 'io stream_api" where
  "socks_socket S =
     \<lparr>st_read = (\<lambda>io n.
        case st_flush S io of
          (Pending, io') \<Rightarrow> (Pending, io')
        | (Panicked, io') \<Rightarrow> (Panicked, io')
        | (Ready (Inl e), io') \<Rightarrow> (Ready (Inl e), io')
        | (Ready (Inr _), io') \<Rightarrow> st_read S io' n),
      st_write = st_write S,
      st_flush = st_flush S\<rparr>"

text \<open>
  The handshakes of \<^verbatim>\<open>tokio-socks\<close>, a parameter: over a stream, for a target, with what identifies
  the client.
\<close>

datatype target_addr = TargetIp socket_addr | TargetDomain "byte list" u16

record 'io socks_api =
  s4_connect_with_userid :: "'io stream_api \<Rightarrow> 'io \<Rightarrow> target_addr \<Rightarrow> byte list \<Rightarrow> (unit + 'io) option"
  s4_connect :: "'io stream_api \<Rightarrow> 'io \<Rightarrow> target_addr \<Rightarrow> (unit + 'io) option"
  s5_connect_with_password ::
    "'io stream_api \<Rightarrow> 'io \<Rightarrow> target_addr \<Rightarrow> byte list \<Rightarrow> byte list \<Rightarrow> (unit + 'io) option"
  s5_connect :: "'io stream_api \<Rightarrow> 'io \<Rightarrow> target_addr \<Rightarrow> (unit + 'io) option"

definition handshake_outcome :: "(unit + 'io) option \<Rightarrow> (socks_error + 'io) option" where
  "handshake_outcome r =
     (case r of
        None \<Rightarrow> None
      | Some (Inl _) \<Rightarrow> Some (Inl SocksHandshake)
      | Some (Inr io) \<Rightarrow> Some (Inr io))"

definition socks_handshake ::
    "'io socks_api \<Rightarrow> 'io stream_api \<Rightarrow> 'io \<Rightarrow> target_addr \<Rightarrow> socks_version \<Rightarrow>
     (byte list \<times> byte list) option \<Rightarrow> (socks_error + 'io) option" where
  "socks_handshake K S io target version auth =
     (let socket = socks_socket S in
      case (version, auth) of
        (SocksV4, Some (user_id, _)) \<Rightarrow>
          (if user_id \<noteq> [] then
             (if is_utf8 user_id
              then handshake_outcome (s4_connect_with_userid K socket io target user_id)
              else Some (Inl SocksUtf8))
           else handshake_outcome (s4_connect K socket io target))
      | (SocksV4, None) \<Rightarrow> handshake_outcome (s4_connect K socket io target)
      | (SocksV5, Some (username, password)) \<Rightarrow>
          (if \<not> is_utf8 username then Some (Inl SocksUtf8)
           else if \<not> is_utf8 password then Some (Inl SocksUtf8)
           else handshake_outcome (s5_connect_with_password K socket io target username password))
      | (SocksV5, None) \<Rightarrow> handshake_outcome (s5_connect K socket io target))"

text \<open>
  \<^verbatim>\<open>try_join\<close> of two futures: both values, or the error that is seen first; \<open>first\<close> says that the left
  one completes no later than the right one.
\<close>

definition try_join :: "bool \<Rightarrow> ('e + 'a) option \<Rightarrow> ('e + 'b) option \<Rightarrow> ('e + 'a \<times> 'b) option" where
  "try_join first x y =
     (case (x, y) of
        (Some (Inl e), Some (Inl e')) \<Rightarrow> Some (Inl (if first then e else e'))
      | (Some (Inl e), _) \<Rightarrow> Some (Inl e)
      | (_, Some (Inl e')) \<Rightarrow> Some (Inl e')
      | (Some (Inr a), Some (Inr b)) \<Rightarrow> Some (Inr (a, b))
      | _ \<Rightarrow> None)"

definition socks_target ::
    "'r resolver_api \<Rightarrow> 'r option \<Rightarrow> byte list \<Rightarrow> u16 \<Rightarrow> socks_version \<Rightarrow> socket_addr option \<Rightarrow>
     (socks_error + target_addr) option" where
  "socks_target R resolver host port version addr =
     (case (addr, resolver) of
        (Some addr, _) \<Rightarrow> Some (Inr (TargetIp addr))
      | (None, Some resolver) \<Rightarrow>
          (case resolve R resolver host port version of
             None \<Rightarrow> None
           | Some (Inl e) \<Rightarrow> Some (Inl e)
           | Some (Inr addr) \<Rightarrow> Some (Inr (TargetIp addr)))
      | (None, None) \<Rightarrow> Some (Inr (TargetDomain host port)))"

definition socks_poll_ready ::
    "('c, 'u, 'io) connector_api \<Rightarrow> 'c \<Rightarrow> (socks_error + unit) poll \<times> 'c" where
  "socks_poll_ready C inner =
     (case co_poll_ready C inner of
        (Pending, inner') \<Rightarrow> (Pending, inner')
      | (Panicked, inner') \<Rightarrow> (Panicked, inner')
      | (Ready (Inl _), inner') \<Rightarrow> (Ready (Inl SocksConnectFailed), inner')
      | (Ready (Inr _), inner') \<Rightarrow> (Ready (Inr ()), inner'))"

definition socks_call ::
    "'u uri_api \<Rightarrow> 'io socks_api \<Rightarrow> 'io stream_api \<Rightarrow> ('c, 'u, 'io) connector_api \<Rightarrow> 'r resolver_api \<Rightarrow> bool \<Rightarrow>
     'u socks_connector \<Rightarrow> 'c \<Rightarrow> 'r \<Rightarrow> 'u \<Rightarrow> (socks_error + 'io) option \<times> 'c" where
  "socks_call U K S C R first c inner resolver dst =
     (case check U c dst of
        Inl e \<Rightarrow> (Some (Inl e), inner)
      | Inr (port, addr) \<Rightarrow>
          let rs = (if addr = None \<and> sk_dns_resolve c = DnsLocal then Some resolver else None);
              (connecting, inner') = co_call C inner (sk_proxy_dst c) in
          (case map_option unbracket (dst_host U dst) of
             None \<Rightarrow> Some (Inl SocksMissingHost)
           | Some host \<Rightarrow>
               (case try_join first (socks_target R rs host port (sk_version c) addr)
                       (case connecting of
                          None \<Rightarrow> None
                        | Some (Inl _) \<Rightarrow> Some (Inl SocksConnectFailed)
                        | Some (Inr io) \<Rightarrow> Some (Inr io)) of
                  None \<Rightarrow> None
                | Some (Inl e) \<Rightarrow> Some (Inl e)
                | Some (Inr (target, io)) \<Rightarrow>
                    socks_handshake K S io target (sk_version c) (sk_auth c)),
           inner'))"

text \<open>What the protocol and the library can encode.\<close>

definition target_fits :: "socks_version \<Rightarrow> dns_resolve \<Rightarrow> nat \<Rightarrow> target_addr \<Rightarrow> bool" where
  "target_fits version dns id_len target =
     (case target of
        TargetIp a \<Rightarrow> version = SocksV4 \<longrightarrow> is_ipv4_sock a
      | TargetDomain host _ \<Rightarrow>
          dns = DnsRemote \<and> length host \<le> 255 \<and> (version = SocksV4 \<longrightarrow> id_len + length host \<le> 503))"

definition credentials_fit :: "socks_version \<Rightarrow> (byte list \<times> byte list) option \<Rightarrow> bool" where
  "credentials_fit version auth =
     (case (version, auth) of
        (_, None) \<Rightarrow> True
      | (SocksV4, Some (user_id, _)) \<Rightarrow> length user_id \<le> 255 \<and> 0 \<notin> set user_id \<and> is_utf8 user_id
      | (SocksV5, Some (username, password)) \<Rightarrow>
          length username \<in> {1..255} \<and> is_utf8 username \<and> length password \<in> {1..255} \<and> is_utf8 password)"

definition user_id_len :: "(byte list \<times> byte list) option \<Rightarrow> nat" where
  "user_id_len auth = (case auth of Some (user_id, _) \<Rightarrow> length user_id | None \<Rightarrow> 0)"

text \<open>The handshake that fits the version and the credentials; an empty SOCKS4 user ID is sent as none.\<close>

definition expected_handshake ::
    "'io socks_api \<Rightarrow> 'io stream_api \<Rightarrow> 'io \<Rightarrow> target_addr \<Rightarrow> socks_version \<Rightarrow>
     (byte list \<times> byte list) option \<Rightarrow> (unit + 'io) option" where
  "expected_handshake K S io target version auth =
     (case (version, auth) of
        (SocksV4, None) \<Rightarrow> s4_connect K (socks_socket S) io target
      | (SocksV4, Some (user_id, _)) \<Rightarrow>
          (if user_id = [] then s4_connect K (socks_socket S) io target
           else s4_connect_with_userid K (socks_socket S) io target user_id)
      | (SocksV5, None) \<Rightarrow> s5_connect K (socks_socket S) io target
      | (SocksV5, Some (username, password)) \<Rightarrow>
          s5_connect_with_password K (socks_socket S) io target username password)"

definition connect_errors :: "socks_error set" where
  "connect_errors = {SocksConnectFailed, DnsResolveFailure, DnsFailure}"

text \<open>A destination, a connector and handshakes for examples.\<close>

definition example_uri :: "unit uri_api" where
  "example_uri =
     \<lparr>ur_host = (\<lambda>_. Some (ascii ''a'')),
      ur_authority = (\<lambda>_. Some \<lparr>au_as_str = ascii ''a'', au_host = ascii ''a'', au_port_u16 = None\<rparr>),
      ur_scheme_str = (\<lambda>_. Some (ascii ''http''))\<rparr>"

definition example_socks :: "script socks_api" where
  "example_socks =
     \<lparr>s4_connect_with_userid = (\<lambda>S io t u. Some (Inr io)), s4_connect = (\<lambda>S io t. Some (Inr io)),
      s5_connect_with_password = (\<lambda>S io t u p. Some (Inr io)), s5_connect = (\<lambda>S io t. Some (Inr io))\<rparr>"

definition example_connector :: "(nat, unit, script) connector_api" where
  "example_connector =
     \<lparr>co_poll_ready = (\<lambda>n. (Ready (Inr ()), n)),
      co_call = (\<lambda>n _. (Some (Inr \<lparr>sc_recv = [], sc_write = [], sc_sent = [], sc_vectored = False\<rparr>), Suc n))\<rparr>"

definition no_resolver :: "unit resolver_api" where
  "no_resolver = \<lparr>rv_ready = (\<lambda>_. None), rv_call = (\<lambda>_ _. None)\<rparr>"

definition some_resolver :: "unit resolver_api" where
  "some_resolver = \<lparr>rv_ready = (\<lambda>_. Some (Inr ())), rv_call = (\<lambda>_ _. Some (Inr [SocketV4 [10, 0, 0, 1] 0]))\<rparr>"

lemma socks_socket_sel [simp]:
  "st_write (socks_socket S) = st_write S" "st_flush (socks_socket S) = st_flush S"
  by (simp_all add: socks_socket_def)

context byte_stream
begin

lemma socks_socket_read:
  assumes "io_ok io" "st_read (socks_socket S) io n = (res, io')"
  shows "(\<exists>io1. io_ok io1 \<and> incoming io1 = incoming io \<and> sent io1 = sent io \<and> st_flush S io = (Ready (Inr ()), io1) \<and>
            st_read S io1 n = (res, io')) \<or>
         (io_ok io' \<and> incoming io' = incoming io \<and> sent io' = sent io \<and> res \<noteq> Panicked \<and> (\<nexists>bs. res = Ready (Inr bs)))"
proof -
  obtain fin io1 where f: "st_flush S io = (fin, io1)" by fastforce
  note k = st_flush_keeps [OF assms(1) f]
  then show ?thesis using assms(2) f
    by (auto simp: socks_socket_def split: poll.split_asm sum.split_asm)
qed

lemma socks_socket_stream: "byte_stream (socks_socket S) incoming sent io_ok"
proof
  fix io n res io'
  assume io: "io_ok io" and r: "st_read (socks_socket S) io n = (res, io')"
  note c = socks_socket_read [OF io r]
  show "io_ok io' \<and> sent io' = sent io \<and> res \<noteq> Panicked" using c st_read_keeps by metis
  show "incoming io' = incoming io" if "\<nexists>bs. res = Ready (Inr bs)" using c st_read_idle that by metis
next
  fix io n bs io'
  assume io: "io_ok io" and r: "st_read (socks_socket S) io n = (Ready (Inr bs), io')"
  show "length bs \<le> n \<and> incoming io = bs @ incoming io' \<and> (bs = [] \<and> 0 < n \<longrightarrow> incoming io = [])"
    using socks_socket_read [OF io r] st_read_ready by force
qed (unfold socks_socket_sel, (rule st_write_keeps st_write_ready st_write_idle st_flush_keeps; assumption)+)

end

text \<open>The scripted transport behind the adapter.\<close>

interpretation script_socket: byte_stream "socks_socket sc_stream" sc_incoming sc_sent sc_ok
  by (rule script_stream.socks_socket_stream)

lemma check_cases:
  assumes "check U c dst = Inr (port, addr)"
  shows "\<exists>host. map_option unbracket (dst_host U dst) = Some host \<and> dst_port U dst = Some port \<and>
    check_addr c host port = Inr addr \<and> check_auth c host addr = Inr ()"
  using assms by (auto simp: check_def split: option.split_asm sum.split_asm)

lemma check_auth_fits:
  assumes "check_auth c host addr = Inr ()"
  shows "credentials_fit (sk_version c) (sk_auth c)"
  using assms
  by (auto simp: check_auth_def credentials_fit_def MAX_USER_ID_LEN_def MAX_CREDENTIAL_LEN_def
      split: option.split_asm socks_version.split_asm if_split_asm socks_version.split)

lemma set_port_v4: "is_ipv4_sock (set_port a p) = is_ipv4_sock a"
  by (cases a) auto

lemma resolve_v4: "resolve R r host port SocksV4 = Some (Inr a) \<Longrightarrow> is_ipv4_sock a"
  by (auto simp: resolve_def set_port_v4 find_Some_iff split: option.split_asm sum.split_asm)

lemma socks_target_fits:
  assumes "check_addr c host port = Inr addr" "check_auth c host addr = Inr ()"
    and "rs = (if addr = None \<and> sk_dns_resolve c = DnsLocal then Some resolver else None)"
    and "socks_target R rs host port (sk_version c) addr = Some (Inr target)"
  shows "target_fits (sk_version c) (sk_dns_resolve c) (user_id_len (sk_auth c)) target"
proof (cases addr)
  case (Some a)
  then obtain ip where "a = sock_new ip port" "sk_version c = SocksV4 \<longrightarrow> \<not> is_ipv6 ip"
    using assms(1) by (auto simp: check_addr_def split: option.split_asm if_split_asm)
  then show ?thesis using assms(4) Some by (cases ip) (auto simp: socks_target_def target_fits_def)
next
  case None
  show ?thesis
  proof (cases "sk_dns_resolve c")
    case DnsLocal
    then show ?thesis using assms None resolve_v4 [of R resolver host port]
      by (auto simp: socks_target_def target_fits_def split: option.split_asm sum.split_asm)
  next
    case DnsRemote
    then have h: "target = TargetDomain host port" "length host \<le> 255" using assms None
      by (auto simp: socks_target_def check_addr_def MAX_HOST_LEN_def split: option.split_asm if_split_asm)
    then show ?thesis using assms(2) DnsRemote None
      by (auto simp: target_fits_def check_auth_def user_id_len_def SOCKS4A_MAX_ID_AND_HOST_def
          split: option.split option.split_asm if_split_asm)
  qed
qed

lemma handshake_expected:
  assumes "credentials_fit version auth"
  shows "socks_handshake K S io target version auth = handshake_outcome (expected_handshake K S io target version auth)"
  using assms
  by (auto simp: socks_handshake_def expected_handshake_def credentials_fit_def Let_def
      split: socks_version.split option.split)

lemma socks_target_error:
  "socks_target R rs host port version addr = Some (Inl e) \<Longrightarrow> e \<in> connect_errors"
  by (auto simp: socks_target_def resolve_def connect_errors_def split: option.split_asm sum.split_asm)

lemma try_join_cases:
  assumes "try_join first x y = z"
  shows "z = None \<or> (\<exists>e. z = Some (Inl e) \<and> (x = Some (Inl e) \<or> y = Some (Inl e))) \<or>
    (\<exists>a b. z = Some (Inr (a, b)) \<and> x = Some (Inr a) \<and> y = Some (Inr b))"
  using assms by (cases x; cases y) (auto simp: try_join_def split: sum.split_asm if_split_asm)

lemma socks_call_outcome:
  assumes "check U c dst = Inr (port, addr)" "socks_call U K S C R first c inner resolver dst = (res, inner')"
  shows "inner' = snd (co_call C inner (sk_proxy_dst c)) \<and>
    (res = None \<or> (\<exists>e \<in> connect_errors. res = Some (Inl e)) \<or>
     (\<exists>io target. fst (co_call C inner (sk_proxy_dst c)) = Some (Inr io) \<and>
        target_fits (sk_version c) (sk_dns_resolve c) (user_id_len (sk_auth c)) target \<and>
        credentials_fit (sk_version c) (sk_auth c) \<and>
        res = handshake_outcome (expected_handshake K S io target (sk_version c) (sk_auth c))))"
proof -
  obtain host where h: "map_option unbracket (dst_host U dst) = Some host"
      "check_addr c host port = Inr addr" "check_auth c host addr = Inr ()"
    using check_cases [OF assms(1)] by blast
  define rs where "rs = (if addr = None \<and> sk_dns_resolve c = DnsLocal then Some resolver else None)"
  define con where "con = (case fst (co_call C inner (sk_proxy_dst c)) of None \<Rightarrow> None
      | Some (Inl _) \<Rightarrow> Some (Inl SocksConnectFailed) | Some (Inr io) \<Rightarrow> Some (Inr io))"
  let ?t = "socks_target R rs host port (sk_version c) addr"
  note fit = check_auth_fits [OF h(3)]
  have call: "inner' = snd (co_call C inner (sk_proxy_dst c))"
    "res = (case try_join first ?t con of None \<Rightarrow> None | Some (Inl e) \<Rightarrow> Some (Inl e)
        | Some (Inr (target, io)) \<Rightarrow> socks_handshake K S io target (sk_version c) (sk_auth c))"
    using assms h(1) by (auto simp: socks_call_def rs_def con_def Let_def split: prod.split_asm)
  have con_err: "con = Some (Inl e) \<Longrightarrow> e \<in> connect_errors" for e
    by (auto simp: con_def connect_errors_def split: option.split_asm sum.split_asm)
  have con_ok: "con = Some (Inr io) \<Longrightarrow> fst (co_call C inner (sk_proxy_dst c)) = Some (Inr io)" for io
    by (auto simp: con_def split: option.split_asm sum.split_asm)
  from try_join_cases [OF refl, of first ?t con] show ?thesis
    using call socks_target_error [of R rs host port "sk_version c" addr] con_err con_ok fit
      socks_target_fits [OF h(2,3) rs_def] handshake_expected [OF fit]
    by (elim disjE exE conjE) force+
qed

text \<open>With the names resolved by the proxy the name is sent, and with a resolver an address.\<close>

lemma socks_call_samples:
  "fst (socks_call example_uri example_socks sc_stream example_connector no_resolver True
       (set_dns_mode (socks_new ()) DnsRemote) 0 () ()) \<noteq> None"
  "fst (socks_call example_uri example_socks sc_stream example_connector no_resolver True (socks_new ()) 0 () ()) = None"
  "socks_target some_resolver (Some ()) (ascii ''a'') 80 SocksV4 None = Some (Inr (TargetIp (SocketV4 [10, 0, 0, 1] 80)))"
  by code_simp+

lemma socks_call_remote:
  assumes "sk_dns_resolve c = DnsRemote"
  shows "socks_call U K S C R first c inner r dst = socks_call U K S C R' first c inner r' dst"
proof -
  have "socks_target R None = socks_target R' None"
    by (intro ext) (simp add: socks_target_def split: option.split)
  then show ?thesis using assms by (simp add: socks_call_def split: sum.split option.split prod.split)
qed

text \<open>
  C36.  A SOCKS connector refuses a bad destination or bad credentials before it contacts the proxy.
  Otherwise it connects once, and the handshake it runs is the one for its version and credentials,
  with a target and credentials that the protocol can carry: no IPv6 over SOCKS4, names only when the
  proxy resolves them, within the limits on lengths, and valid UTF-8.  When the proxy resolves names,
  the outcome does not depend on the resolver of the client: it is never asked.
\<close>

theorem socks_connect_sound:
  "((\<exists>e. check U c dst = Inl e \<and> socks_call U K S C R first c inner r dst = (Some (Inl e), inner)) \<or>
    (\<exists>res. socks_call U K S C R first c inner r dst = (res, snd (co_call C inner (sk_proxy_dst c))) \<and>
       (res = None \<or> (\<exists>e \<in> connect_errors. res = Some (Inl e)) \<or>
        (\<exists>io target. fst (co_call C inner (sk_proxy_dst c)) = Some (Inr io) \<and>
           target_fits (sk_version c) (sk_dns_resolve c) (user_id_len (sk_auth c)) target \<and>
           credentials_fit (sk_version c) (sk_auth c) \<and>
           res = handshake_outcome (expected_handshake K S io target (sk_version c) (sk_auth c)))))) \<and>
   (sk_dns_resolve c = DnsRemote \<longrightarrow>
      socks_call U K S C R first c inner r dst = socks_call U K S C R' first c inner r' dst)"
proof (intro conjI impI)
  show "sk_dns_resolve c = DnsRemote \<Longrightarrow>
      socks_call U K S C R first c inner r dst = socks_call U K S C R' first c inner r' dst"
    by (rule socks_call_remote)
  obtain res inner' where s: "socks_call U K S C R first c inner r dst = (res, inner')" by fastforce
  show "(\<exists>e. check U c dst = Inl e \<and> socks_call U K S C R first c inner r dst = (Some (Inl e), inner)) \<or>
    (\<exists>res. socks_call U K S C R first c inner r dst = (res, snd (co_call C inner (sk_proxy_dst c))) \<and>
       (res = None \<or> (\<exists>e \<in> connect_errors. res = Some (Inl e)) \<or>
        (\<exists>io target. fst (co_call C inner (sk_proxy_dst c)) = Some (Inr io) \<and>
           target_fits (sk_version c) (sk_dns_resolve c) (user_id_len (sk_auth c)) target \<and>
           credentials_fit (sk_version c) (sk_auth c) \<and>
           res = handshake_outcome (expected_handshake K S io target (sk_version c) (sk_auth c)))))"
  proof (cases "check U c dst")
    case (Inl e)
    then show ?thesis by (simp add: socks_call_def)
  next
    case (Inr pa)
    then show ?thesis using socks_call_outcome [OF _ s, of "fst pa" "snd pa"] s by auto
  qed
qed

theorem socks_connect_sound_witness:
  "sk_dns_resolve (set_dns_mode (socks_new ()) DnsRemote) = DnsRemote \<and>
   socks_call example_uri example_socks sc_stream example_connector no_resolver True
       (set_dns_mode (socks_new ()) DnsRemote) 0 () () =
   socks_call example_uri example_socks sc_stream example_connector some_resolver True
       (set_dns_mode (socks_new ()) DnsRemote) 0 () ()"
  using socks_connect_sound [of example_uri "set_dns_mode (socks_new ()) DnsRemote" "()" example_socks sc_stream
      example_connector no_resolver True 0 "()" some_resolver "()"]
  by (simp add: set_dns_mode_def)

end
