(* ===== verification/Masque_Template.thy ===== *)
theory Masque_Template
  imports Masque_Capsule Proxy_Io Std_Net
begin

text \<open>
  CONNECT-UDP URI templates (\<^verbatim>\<open>src/src/proxy/masque/template.rs\<close>): parsing and validating a template,
  the hosts it accepts, percent-encoding and expansion.  \<^verbatim>\<open>http::Uri\<close> is a parameter.  Shown: expansion
  is that of RFC 6570, defined here on the text of the template, and a target cannot put a delimiter
  into the URI.
\<close>

section \<open>Definitions\<close>

text \<open>
  \<^verbatim>\<open>Part\<close>, \<^verbatim>\<open>Op\<close> and \<^verbatim>\<open>Var\<close>: the path and query of a template, in pieces.
\<close>

datatype template_op = Simple | Query | QueryContinuation

datatype template_var = VarHost | VarPort | VarOther

datatype template_part = Literal "byte list" | Expr template_op "template_var list"

record 'u template =
  tp_raw :: "byte list"
  tp_proxy :: 'u
  tp_parts :: "template_part list"

text \<open>The parser and printer of \<^verbatim>\<open>http::Uri\<close>, a parameter.\<close>

record 'u uri_text =
  ut_parse :: "byte list \<Rightarrow> 'u option"
  ut_to_string :: "'u \<Rightarrow> byte list"

text \<open>\<^verbatim>\<open>split_once\<close> with a character and with a string, and \<^verbatim>\<open>strip_suffix\<close> with a character.\<close>

fun split_once :: "'a \<Rightarrow> 'a list \<Rightarrow> ('a list \<times> 'a list) option" where
  "split_once c [] = None"
| "split_once c (x # xs) =
     (if x = c then Some ([], xs) else map_option (\<lambda>(a, b). (x # a, b)) (split_once c xs))"

fun split_once_str :: "'a list \<Rightarrow> 'a list \<Rightarrow> ('a list \<times> 'a list) option" where
  "split_once_str p [] = (if p = [] then Some ([], []) else None)"
| "split_once_str p (x # xs) =
     (if take (length p) (x # xs) = p then Some ([], drop (length p) (x # xs))
      else map_option (\<lambda>(a, b). (x # a, b)) (split_once_str p xs))"

definition strip_suffix_char :: "'a \<Rightarrow> 'a list \<Rightarrow> 'a list option" where
  "strip_suffix_char c s = (if s \<noteq> [] \<and> last s = c then Some (butlast s) else None)"

definition is_ascii_alphanumeric :: "byte \<Rightarrow> bool" where
  "is_ascii_alphanumeric b = ((48 \<le> b \<and> b \<le> 57) \<or> (65 \<le> b \<and> b \<le> 90) \<or> (97 \<le> b \<and> b \<le> 122))"

definition TARGET_HOST :: "byte list" where "TARGET_HOST = ascii ''target_host''"

definition TARGET_PORT :: "byte list" where "TARGET_PORT = ascii ''target_port''"

definition is_reg_name :: "byte list \<Rightarrow> bool" where
  "is_reg_name host =
     list_all (\<lambda>b. is_ascii_alphanumeric b \<or> b = 39 \<or> b \<in> set (ascii ''-._~!$&()*+,;='')) host"

definition parse_host :: "byte list \<Rightarrow> byte list option" where
  "parse_host host =
     (case (case strip_prefix [91] host of None \<Rightarrow> None | Some h \<Rightarrow> strip_suffix_char 93 h) of
        Some ip \<Rightarrow> (if parse_ipv6 ip \<noteq> None then Some ip else None)
      | None \<Rightarrow>
          (if host \<noteq> [] \<and> (parse_ipv6 host \<noteq> None \<or> is_reg_name host) then Some host else None))"

definition is_unreserved :: "byte \<Rightarrow> bool" where
  "is_unreserved b = (is_ascii_alphanumeric b \<or> b = 45 \<or> b = 46 \<or> b = 95 \<or> b = 126)"

fun percent_encode :: "byte list \<Rightarrow> byte list \<Rightarrow> byte list" where
  "percent_encode [] out = out"
| "percent_encode (b # value) out =
     percent_encode value
       (if is_unreserved b then out @ [b]
        else out @ [37, hex_digit (unat (drop_bit 4 b)), hex_digit (unat (and b 15))])"

definition template_var_of :: "byte list \<Rightarrow> masque_error + template_var" where
  "template_var_of name =
     (if name = TARGET_HOST then Inr VarHost
      else if name = TARGET_PORT then Inr VarPort
      else if name = [] then Inl (InvalidTemplate ''empty variable name'')
      else if last name = 42 \<or> 58 \<in> set name then Inl (InvalidTemplate ''level 4 modifiers'')
      else Inr VarOther)"

fun template_vars :: "byte list list \<Rightarrow> masque_error + template_var list" where
  "template_vars [] = Inr []"
| "template_vars (name # names) =
     (case template_var_of name of
        Inl e \<Rightarrow> Inl e
      | Inr v \<Rightarrow> (case template_vars names of Inl e \<Rightarrow> Inl e | Inr vs \<Rightarrow> Inr (v # vs)))"

definition template_operator :: "byte list \<Rightarrow> masque_error + template_op \<times> byte list" where
  "template_operator expr =
     (case expr of
        [] \<Rightarrow> Inr (Simple, expr)
      | c # list \<Rightarrow>
          (if c = 63 then Inr (Query, list)
           else if c = 38 then Inr (QueryContinuation, list)
           else if c \<in> set (ascii ''+#./;'')
           then Inl (InvalidTemplate ''reserved, fragment, label or path expansion'')
           else if c \<in> set (ascii ''=,!@|'') then Inl (InvalidTemplate ''reserved operator'')
           else Inr (Simple, expr)))"

function parse_parts :: "byte list \<Rightarrow> masque_error + template_part list" where
  "parse_parts rest =
     (case rest of
        [] \<Rightarrow> Inr []
      | c # expr \<Rightarrow>
          if c \<noteq> 123 then
            (let literal = takeWhile (\<lambda>b. b \<noteq> 123) rest in
             if 35 \<in> set literal then Inl (InvalidTemplate ''variables outside the path and query'')
             else
               case parse_parts (drop (length literal) rest) of
                 Inl e \<Rightarrow> Inl e
               | Inr parts \<Rightarrow> Inr (Literal literal # parts))
          else
            (case split_once 125 expr of
               None \<Rightarrow> Inl (InvalidTemplate ''unclosed expression'')
             | Some (expr, after) \<Rightarrow>
                 (case template_operator expr of
                    Inl e \<Rightarrow> Inl e
                  | Inr (operator, list) \<Rightarrow>
                      (case template_vars (split_on 44 list) of
                         Inl e \<Rightarrow> Inl e
                       | Inr vars \<Rightarrow>
                           (case parse_parts after of
                              Inl e \<Rightarrow> Inl e
                            | Inr parts \<Rightarrow> Inr (Expr operator vars # parts))))))"
  by pat_completeness auto

termination
proof (relation "measure length", goal_cases)
  case (3 rest c expr e after operator list vars)
  have "length b < length xs" if "split_once 125 xs = Some (a, b)" for a b and xs :: "byte list"
    using that by (induction xs arbitrary: a b) (auto split: if_split_asm)
  then show ?case using 3 by fastforce
qed auto

declare parse_parts.simps [simp del]

definition defined_vars :: "byte list \<Rightarrow> byte list \<Rightarrow> template_var list \<Rightarrow> (byte list \<times> byte list) list" where
  "defined_vars host port vars =
     List.map_filter (\<lambda>var. case var of
         VarHost \<Rightarrow> Some (TARGET_HOST, host)
       | VarPort \<Rightarrow> Some (TARGET_PORT, port)
       | VarOther \<Rightarrow> None) vars"

fun push_vars :: "template_op \<Rightarrow> nat \<Rightarrow> (byte list \<times> byte list) list \<Rightarrow> byte list \<Rightarrow> byte list" where
  "push_vars operator i [] uri = uri"
| "push_vars operator i ((name, value) # defined) uri =
     (let uri = (case operator of
                   Simple \<Rightarrow> (if i = 0 then uri else uri @ [44])
                 | Query \<Rightarrow> (if i = 0 then uri @ [63] else uri @ [38])
                 | QueryContinuation \<Rightarrow> uri @ [38]);
          uri = (if operator \<noteq> Simple then uri @ name @ [61] else uri) in
      push_vars operator (Suc i) defined (percent_encode value uri))"

fun push_parts :: "byte list \<Rightarrow> byte list \<Rightarrow> template_part list \<Rightarrow> byte list \<Rightarrow> byte list" where
  "push_parts host port [] uri = uri"
| "push_parts host port (Literal literal # parts) uri = push_parts host port parts (uri @ literal)"
| "push_parts host port (Expr operator vars # parts) uri =
     push_parts host port parts (push_vars operator 0 (defined_vars host port vars) uri)"

definition template_expand :: "'u uri_text \<Rightarrow> 'u template \<Rightarrow> byte list \<Rightarrow> u16 \<Rightarrow> masque_error + 'u" where
  "template_expand T t host port =
     (case parse_host host of
        None \<Rightarrow> Inl InvalidTarget
      | Some host \<Rightarrow>
          (if port = 0 then Inl InvalidTarget
           else
             case ut_parse T (push_parts host (decimal (unat port)) (tp_parts t)
                                (butlast (ut_to_string T (tp_proxy t)))) of
               None \<Rightarrow> Inl InvalidTarget
             | Some uri \<Rightarrow> Inr uri))"

text \<open>The port of the proxy: nothing, or a colon and digits that are not zero.\<close>

definition valid_proxy_port :: "'u uri_api \<Rightarrow> 'u \<Rightarrow> byte list \<Rightarrow> bool" where
  "valid_proxy_port U proxy host =
     (case ur_authority U proxy of
        None \<Rightarrow> False
      | Some a \<Rightarrow>
          (case strip_prefix host (au_as_str a) of
             None \<Rightarrow> False
           | Some rest \<Rightarrow>
               (if rest = [] then True
                else
                  case strip_prefix [58] rest of
                    None \<Rightarrow> False
                  | Some port \<Rightarrow>
                      list_all is_ascii_digit port \<and>
                      (case u16_from_str port of None \<Rightarrow> False | Some p \<Rightarrow> p \<noteq> 0))))"

definition has_var :: "template_var \<Rightarrow> template_part list \<Rightarrow> bool" where
  "has_var v parts = list_ex (\<lambda>part. case part of Expr _ vars \<Rightarrow> v \<in> set vars | Literal _ \<Rightarrow> False) parts"

definition template_new :: "'u uri_api \<Rightarrow> 'u uri_text \<Rightarrow> byte list \<Rightarrow> masque_error + 'u template" where
  "template_new U T raw =
     (let invalid = (\<lambda>reason. Inl (InvalidTemplate reason)) in
      if \<not> list_all (\<lambda>b. 0x21 \<le> b \<and> b \<le> 0x7E) raw then invalid ''characters outside 0x21-0x7E''
      else
        case split_once_str (ascii ''://'') raw of
          None \<Rightarrow> invalid ''not in absolute form''
        | Some (scheme, rest) \<Rightarrow>
            if 47 \<notin> set rest then invalid ''path must start with a slash''
            else
              let authority = takeWhile (\<lambda>b. b \<noteq> 47) rest;
                  path = dropWhile (\<lambda>b. b \<noteq> 47) rest in
              if scheme = [] \<or> authority = [] then invalid ''empty scheme or authority''
              else if set scheme \<inter> {123, 125} \<noteq> {} \<or> set authority \<inter> {123, 125, 63, 35} \<noteq> {}
              then invalid ''variables outside the path and query''
              else if 64 \<in> set authority then invalid ''userinfo in the authority''
              else
                case ut_parse T (scheme @ ascii ''://'' @ authority @ [47]) of
                  None \<Rightarrow> invalid ''invalid scheme or authority''
                | Some proxy \<Rightarrow>
                    (case dst_host U proxy of
                       None \<Rightarrow> invalid ''empty host''
                     | Some host \<Rightarrow>
                         if parse_host host = None then invalid ''invalid host''
                         else if \<not> valid_proxy_port U proxy host then invalid ''invalid port''
                         else
                           case parse_parts path of
                             Inl e \<Rightarrow> Inl e
                           | Inr parts \<Rightarrow>
                               if \<not> has_var VarHost parts \<or> \<not> has_var VarPort parts
                               then invalid ''missing target_host or target_port''
                               else
                                 let parsed = \<lparr>tp_raw = raw, tp_proxy = proxy, tp_parts = parts\<rparr> in
                                 case template_expand T parsed (ascii ''localhost'') 443 of
                                   Inl _ \<Rightarrow> invalid ''not a valid URI once expanded''
                                 | Inr _ \<Rightarrow> Inr parsed))"

definition template_well_known :: "'u uri_api \<Rightarrow> 'u uri_text \<Rightarrow> byte list \<Rightarrow> masque_error + 'u template" where
  "template_well_known U T proxy =
     template_new U T (ascii ''https://'' @ proxy @
       ascii ''/.well-known/masque/udp/{target_host}/{target_port}/'')"

text \<open>
  RFC 6570, read off its text: an expression is a list of names behind an operator that says what
  comes first, what separates and whether the names are shown; undefined names are left out, and of
  the values all but unreserved characters are percent-encoded.
\<close>

definition rfc_encode :: "byte \<Rightarrow> byte list" where
  "rfc_encode b =
     (if b \<in> {65..90} \<union> {97..122} \<union> {48..57} \<union> set (ascii ''-._~'') then [b]
      else [37, hex_digit (unat b div 16), hex_digit (unat b mod 16)])"

fun rfc_join :: "byte list \<Rightarrow> byte list list \<Rightarrow> byte list" where
  "rfc_join sep [] = []"
| "rfc_join sep [s] = s"
| "rfc_join sep (s # ss) = s @ sep @ rfc_join sep ss"

definition rfc_list :: "byte list \<Rightarrow> byte list \<Rightarrow> bool \<Rightarrow> (byte list \<times> byte list) list \<Rightarrow> byte list" where
  "rfc_list first sep named defined =
     (if defined = [] then []
      else first @ rfc_join sep
        (map (\<lambda>(name, value). (if named then name @ [61] else []) @ concat (map rfc_encode value)) defined))"

definition rfc_defined :: "(byte list \<Rightarrow> byte list option) \<Rightarrow> byte list \<Rightarrow> (byte list \<times> byte list) list" where
  "rfc_defined env names =
     concat (map (\<lambda>name. case env name of None \<Rightarrow> [] | Some value \<Rightarrow> [(name, value)]) (split_on 44 names))"

definition rfc_expression :: "(byte list \<Rightarrow> byte list option) \<Rightarrow> byte list \<Rightarrow> byte list" where
  "rfc_expression env e =
     (if take 1 e = [63] then rfc_list [63] [38] True (rfc_defined env (drop 1 e))
      else if take 1 e = [38] then rfc_list [38] [38] True (rfc_defined env (drop 1 e))
      else rfc_list [] [44] False (rfc_defined env e))"

function rfc_expand :: "(byte list \<Rightarrow> byte list option) \<Rightarrow> byte list \<Rightarrow> byte list" where
  "rfc_expand env [] = []"
| "rfc_expand env (c # s) =
     (if c = 123
      then rfc_expression env (takeWhile (\<lambda>b. b \<noteq> 125) s) @ rfc_expand env (drop 1 (dropWhile (\<lambda>b. b \<noteq> 125) s))
      else c # rfc_expand env s)"
  by pat_completeness auto

termination
  by (relation "measure (\<lambda>(env, s). length s)") (auto simp: le_imp_less_Suc length_dropWhile_le le_diff_conv le_SucI)

definition target_env :: "byte list \<Rightarrow> byte list \<Rightarrow> byte list \<Rightarrow> byte list option" where
  "target_env host port = [TARGET_HOST \<mapsto> host, TARGET_PORT \<mapsto> port]"

definition var_text :: "bool \<Rightarrow> byte list \<times> byte list \<Rightarrow> byte list" where
  "var_text named = (\<lambda>(name, value). (if named then name @ [61] else []) @ concat (map rfc_encode value))"

text \<open>The characters that structure a URI, and the inverse of the encoding.\<close>

definition is_delimiter :: "byte \<Rightarrow> bool" where
  "is_delimiter b \<longleftrightarrow> \<not> is_unreserved b \<and> b \<noteq> 37"

fun percent_decode :: "byte list \<Rightarrow> byte list" where
  "percent_decode [] = []"
| "percent_decode (c # s) =
     (if c = 37 then
        (case s of
           a # b # s' \<Rightarrow> of_nat (16 * the (to_digit 16 a) + the (to_digit 16 b)) # percent_decode s'
         | _ \<Rightarrow> [])
      else c # percent_decode s)"

text \<open>URIs as their text, for examples.\<close>

definition sample_authority :: "byte list \<Rightarrow> byte list" where
  "sample_authority u = (case split_once_str (ascii ''://'') u of Some (_, rest) \<Rightarrow> takeWhile (\<lambda>b. b \<noteq> 47) rest | None \<Rightarrow> [])"

definition sample_uri :: "byte list uri_api" where
  "sample_uri =
     \<lparr>ur_host = (\<lambda>u. Some (takeWhile (\<lambda>b. b \<noteq> 58) (sample_authority u))),
      ur_authority = (\<lambda>u. Some \<lparr>au_as_str = sample_authority u, au_host = takeWhile (\<lambda>b. b \<noteq> 58) (sample_authority u),
         au_port_u16 = u16_from_str (drop 1 (dropWhile (\<lambda>b. b \<noteq> 58) (sample_authority u)))\<rparr>),
      ur_scheme_str = (\<lambda>u. map_option fst (split_once_str (ascii ''://'') u))\<rparr>"

definition sample_text :: "byte list uri_text" where
  "sample_text = \<lparr>ut_parse = Some, ut_to_string = (\<lambda>u. u)\<rparr>"

definition sample_template :: "byte list" where
  "sample_template = ascii ''h://p/{target_host}{?x,target_port}''"

definition sample_parsed :: "byte list template" where
  "sample_parsed =
     \<lparr>tp_raw = sample_template, tp_proxy = ascii ''h://p/'',
      tp_parts = [Literal [47], Expr Simple [VarHost], Expr Query [VarOther, VarPort]]\<rparr>"

lemma unreserved_rfc: "is_unreserved b \<longleftrightarrow> b \<in> {65..90} \<union> {97..122} \<union> {48..57} \<union> set (ascii ''-._~'')"
  by (auto simp: is_unreserved_def is_ascii_alphanumeric_def ascii_def)

lemma unat_high_nibble: "unat (drop_bit 4 (b :: byte)) = unat b div 16"
  by (simp add: drop_bit_eq_div unat_div_distrib)

lemma unat_low_nibble: "unat (and (b :: byte) 15) = unat b mod 16"
proof -
  have "and b 15 = take_bit 4 b" by (simp add: take_bit_eq_mask mask_eq_exp_minus_1)
  then show ?thesis by (simp add: take_bit_eq_mod unat_mod_distrib)
qed

lemma percent_encode_rfc: "percent_encode v out = out @ concat (map rfc_encode v)"
  by (induction v arbitrary: out)
    (simp_all add: rfc_encode_def unreserved_rfc [symmetric] unat_high_nibble unat_low_nibble del: Un_iff)

lemma rfc_join_Cons: "rfc_join sep (s # ss) = s @ concat (map ((@) sep) ss)"
  by (induction ss arbitrary: s) auto

lemma push_vars_later:
  "push_vars operator (Suc i) defined uri =
     uri @ concat (map (\<lambda>d. (if operator = Simple then [44] else [38]) @ var_text (operator \<noteq> Simple) d) defined)"
  by (induction defined arbitrary: uri i) (auto simp: percent_encode_rfc var_text_def Let_def split: template_op.split)

lemma push_vars_rfc:
  "push_vars operator 0 defined uri =
     uri @ (case operator of
              Simple \<Rightarrow> rfc_list [] [44] False defined
            | Query \<Rightarrow> rfc_list [63] [38] True defined
            | QueryContinuation \<Rightarrow> rfc_list [38] [38] True defined)"
proof (cases defined)
  case (Cons d ds)
  obtain name v where "d = (name, v)" by fastforce
  then show ?thesis using Cons
    by (cases operator)
      (simp_all add: rfc_list_def rfc_join_Cons push_vars_later percent_encode_rfc var_text_def [abs_def] Let_def comp_def split_def)
qed (simp add: rfc_list_def split: template_op.split)

lemma target_names: "TARGET_HOST \<noteq> TARGET_PORT"
  by (simp add: TARGET_HOST_def TARGET_PORT_def ascii_def)

lemma defined_vars_rfc:
  "template_vars names = Inr vars \<Longrightarrow>
   defined_vars host port vars =
     concat (map (\<lambda>name. case target_env host port name of None \<Rightarrow> [] | Some value \<Rightarrow> [(name, value)]) names)"
proof (induction names arbitrary: vars)
  case (Cons name names)
  obtain v vs where v: "template_var_of name = Inr v" "template_vars names = Inr vs" "vars = v # vs"
    using Cons.prems by (auto split: sum.split_asm)
  have "(case v of VarHost \<Rightarrow> [(TARGET_HOST, host)] | VarPort \<Rightarrow> [(TARGET_PORT, port)] | VarOther \<Rightarrow> []) =
      (case target_env host port name of None \<Rightarrow> [] | Some value \<Rightarrow> [(name, value)])"
    using v(1) target_names by (auto simp: template_var_of_def target_env_def split: if_split_asm)
  then show ?case using Cons.IH [OF v(2)] v(3)
    by (cases v) (simp_all add: defined_vars_def List.map_filter_simps)
qed (simp add: defined_vars_def List.map_filter_simps)

lemma operator_rfc:
  assumes "template_operator e = Inr (operator, list)" "template_vars (split_on 44 list) = Inr vars"
  shows "push_vars operator 0 (defined_vars host port vars) uri = uri @ rfc_expression (target_env host port) e"
proof (cases e)
  case Nil
  then show ?thesis using assms defined_vars_rfc [OF assms(2)]
    by (auto simp: template_operator_def rfc_expression_def rfc_defined_def push_vars_rfc)
next
  case (Cons c cs)
  then show ?thesis using assms defined_vars_rfc [OF assms(2)]
    by (auto simp: template_operator_def rfc_expression_def rfc_defined_def push_vars_rfc split: if_split_asm)
qed

lemma rfc_expand_literal: "123 \<notin> set lit \<Longrightarrow> rfc_expand env (lit @ rest) = lit @ rfc_expand env rest"
  by (induction lit) auto

lemma split_once_while:
  "split_once c xs = Some (a, b) \<Longrightarrow> takeWhile (\<lambda>x. x \<noteq> c) xs = a \<and> dropWhile (\<lambda>x. x \<noteq> c) xs = c # b"
  by (induction xs arbitrary: a b) (auto split: if_split_asm)

lemma parse_parts_cases:
  assumes "parse_parts rest = Inr parts"
  shows "rest = [] \<and> parts = [] \<or>
    (\<exists>lit rest2 parts2. rest = lit @ rest2 \<and> lit \<noteq> [] \<and> 123 \<notin> set lit \<and> 35 \<notin> set lit \<and>
       parse_parts rest2 = Inr parts2 \<and> parts = Literal lit # parts2) \<or>
    (\<exists>s e after operator list vars parts2. rest = 123 # s \<and> split_once 125 s = Some (e, after) \<and>
       template_operator e = Inr (operator, list) \<and> template_vars (split_on 44 list) = Inr vars \<and>
       parse_parts after = Inr parts2 \<and> parts = Expr operator vars # parts2)"
proof (cases rest)
  case (Cons c s)
  show ?thesis
  proof (cases "c = 123")
    case True
    then show ?thesis using assms Cons
      by (subst (asm) parse_parts.simps) (auto split: option.split_asm sum.split_asm prod.split_asm)
  next
    case False
    let ?l = "takeWhile (\<lambda>b. b \<noteq> 123) rest"
    obtain ps where p: "35 \<notin> set ?l" "parse_parts (drop (length ?l) rest) = Inr ps" "parts = Literal ?l # ps"
      using assms Cons False
      by (subst (asm) parse_parts.simps) (auto simp: Let_def split: if_split_asm sum.split_asm)
    have "rest = ?l @ drop (length ?l) rest" by (metis append_take_drop_id takeWhile_eq_take)
    moreover have "?l \<noteq> []" using Cons False by simp
    moreover have "123 \<notin> set ?l" by (auto dest: set_takeWhileD)
    ultimately show ?thesis using p by blast
  qed
qed (use assms in \<open>simp add: parse_parts.simps\<close>)

lemma push_parts_rfc:
  "parse_parts rest = Inr parts \<Longrightarrow>
   push_parts host port parts uri = uri @ rfc_expand (target_env host port) rest"
proof (induction rest arbitrary: parts uri rule: measure_induct_rule [where f = length])
  case (less rest)
  from parse_parts_cases [OF less.prems] show ?case
  proof (elim disjE exE conjE)
    fix lit rest2 parts2
    assume h: "rest = lit @ rest2" "lit \<noteq> []" "123 \<notin> set lit" "parse_parts rest2 = Inr parts2" "parts = Literal lit # parts2"
    then show ?thesis using less.IH [of rest2 parts2] by (simp add: rfc_expand_literal)
  next
    fix s e after operator list vars parts2
    assume h: "rest = 123 # s" "split_once 125 s = Some (e, after)" "template_operator e = Inr (operator, list)"
      "template_vars (split_on 44 list) = Inr vars" "parse_parts after = Inr parts2" "parts = Expr operator vars # parts2"
    note w = split_once_while [OF h(2)]
    then have "length after < length rest" using length_dropWhile_le [of "\<lambda>x. x \<noteq> 125" s] h(1) by simp
    then show ?thesis using less.IH [of after parts2] h w operator_rfc [OF h(3,4)] by simp
  qed simp
qed

lemma hex_digit_value: "d < 16 \<Longrightarrow> to_digit 16 (hex_digit d) = Some d"
proof -
  assume "d < 16"
  then have "d \<in> {0, 1, 2, 3, 4, 5, 6, 7, 8, 9, 10, 11, 12, 13, 14, 15}" by (simp, presburger)
  then show ?thesis by (elim insertE) (simp_all add: hex_digit_def to_digit_def)
qed

lemma decode_rfc_encode: "percent_decode (rfc_encode b @ s) = b # percent_decode s"
proof (cases "is_unreserved b")
  case True
  then have "b \<noteq> 37" by (auto simp: is_unreserved_def is_ascii_alphanumeric_def)
  then show ?thesis using True by (simp add: rfc_encode_def unreserved_rfc [symmetric] del: Un_iff)
next
  case False
  have "unat b div 16 < 16" using unat_byte_less [of b] by (simp del: unat_byte_less)
  then show ?thesis using False
    by (simp add: rfc_encode_def unreserved_rfc [symmetric] hex_digit_value del: Un_iff of_nat_add of_nat_mult)
qed

lemma decode_encoded: "percent_decode (concat (map rfc_encode v)) = v"
  by (induction v) (simp_all add: decode_rfc_encode)

lemma hex_digit_unreserved: "d < 16 \<Longrightarrow> is_unreserved (hex_digit d)"
proof -
  assume "d < 16"
  then have "d \<in> {0, 1, 2, 3, 4, 5, 6, 7, 8, 9, 10, 11, 12, 13, 14, 15}" by (simp, presburger)
  then show ?thesis by (elim insertE) (simp_all add: hex_digit_def is_unreserved_def is_ascii_alphanumeric_def)
qed

lemma encoded_no_delimiter: "filter is_delimiter (concat (map rfc_encode v)) = []"
proof (induction v)
  case (Cons b v)
  have "unat b div 16 < 16" using unat_byte_less [of b] by (simp del: unat_byte_less)
  then have "filter is_delimiter (rfc_encode b) = []"
    by (cases "is_unreserved b")
      (simp_all add: rfc_encode_def unreserved_rfc [symmetric] is_delimiter_def hex_digit_unreserved del: Un_iff)
  then show ?case using Cons by simp
qed simp

lemma push_vars_delimiters:
  assumes "map fst ds1 = map fst ds2"
  shows "filter is_delimiter (push_vars operator i ds1 uri1) = filter is_delimiter (push_vars operator i ds2 uri2)
     \<longleftrightarrow> filter is_delimiter uri1 = filter is_delimiter uri2"
  using assms
proof (induction ds1 arbitrary: ds2 i uri1 uri2)
  case (Cons d ds1)
  obtain n v1 where d: "d = (n, v1)" by fastforce
  obtain v2 es where e: "ds2 = (n, v2) # es" "map fst ds1 = map fst es" using Cons.prems d by (cases ds2) auto
  have c: "filter is_delimiter (concat (map rfc_encode v)) = []" for v by (rule encoded_no_delimiter)
  show ?case using Cons.IH [OF e(2)] d e
    by (auto simp: percent_encode_rfc c Let_def simp del: filter_concat split: template_op.split)
qed simp

lemma defined_vars_names: "map fst (defined_vars h1 p1 vars) = map fst (defined_vars h2 p2 vars)"
  by (induction vars) (auto simp: defined_vars_def List.map_filter_simps split: template_var.split option.split)

lemma push_parts_delimiters:
  "filter is_delimiter uri1 = filter is_delimiter uri2 \<Longrightarrow>
   filter is_delimiter (push_parts h1 p1 parts uri1) = filter is_delimiter (push_parts h2 p2 parts uri2)"
proof (induction parts arbitrary: uri1 uri2)
  case (Cons part parts)
  show ?case using Cons.prems
    by (cases part) (auto intro!: Cons.IH simp: push_vars_delimiters [OF defined_vars_names [of h1 p1 _ h2 p2]])
qed simp

lemma template_new_cases:
  assumes "template_new U T raw = Inr t"
  shows "\<exists>scheme authority path host. raw = scheme @ ascii ''://'' @ authority @ path \<and> tp_raw t = raw \<and>
    64 \<notin> set authority \<and> ut_parse T (scheme @ ascii ''://'' @ authority @ [47]) = Some (tp_proxy t) \<and>
    dst_host U (tp_proxy t) = Some host \<and> parse_host host \<noteq> None \<and> valid_proxy_port U (tp_proxy t) host \<and>
    parse_parts path = Inr (tp_parts t) \<and> has_var VarHost (tp_parts t) \<and> has_var VarPort (tp_parts t)"
proof -
  have split: "raw = a @ ascii ''://'' @ b" if "split_once_str (ascii ''://'') raw = Some (a, b)" for a b
    using that
  proof (induction raw arbitrary: a b)
    case (Cons x xs)
    show ?case
    proof (cases "take (length (ascii ''://'')) (x # xs) = ascii ''://''")
      case True
      then show ?thesis using Cons.prems append_take_drop_id [of "length (ascii ''://'')" "x # xs"] by auto
    next
      case False
      then show ?thesis using Cons by auto
    qed
  qed (simp add: ascii_def)
  obtain scheme rest where s: "split_once_str (ascii ''://'') raw = Some (scheme, rest)"
    using assms by (auto simp: template_new_def Let_def split: if_split_asm option.split_asm)
  have "raw = scheme @ ascii ''://'' @ takeWhile (\<lambda>b. b \<noteq> 47) rest @ dropWhile (\<lambda>b. b \<noteq> 47) rest"
    using split [OF s] by simp
  then show ?thesis using assms s unfolding template_new_def Let_def
    by - (rule exI [of _ scheme], rule exI [of _ "takeWhile (\<lambda>b. b \<noteq> 47) rest"],
        rule exI [of _ "dropWhile (\<lambda>b. b \<noteq> 47) rest"],
        auto split: if_split_asm option.split_asm sum.split_asm)
qed


lemma sample_template_new:
  "template_new sample_uri sample_text sample_template =
     Inr sample_parsed"
proof -
  have l: "parse_host (ascii ''localhost'') = Some (ascii ''localhost'')" by code_simp
  have p: "parse_parts (ascii ''/{target_host}{?x,target_port}'') = Inr (tp_parts sample_parsed)" by code_simp
  have s: "split_once_str (ascii ''://'') sample_template = Some (ascii ''h'', ascii ''p/{target_host}{?x,target_port}'')"
    by code_simp
  have c: "list_all (\<lambda>b. 33 \<le> b \<and> b \<le> 126) sample_template" "47 \<in> set (ascii ''p/{target_host}{?x,target_port}'')"
    "takeWhile (\<lambda>b. b \<noteq> 47) (ascii ''p/{target_host}{?x,target_port}'') = ascii ''p''"
    "dropWhile (\<lambda>b. b \<noteq> 47) (ascii ''p/{target_host}{?x,target_port}'') = ascii ''/{target_host}{?x,target_port}''"
    "ascii ''h'' @ ascii ''://'' @ ascii ''p'' @ [47] = ascii ''h://p/''"
    by code_simp+
  have h: "dst_host sample_uri (ascii ''h://p/'') = Some (ascii ''p'')" "parse_host (ascii ''p'') \<noteq> None"
    "valid_proxy_port sample_uri (ascii ''h://p/'') (ascii ''p'')"
    "has_var VarHost (tp_parts sample_parsed)" "has_var VarPort (tp_parts sample_parsed)"
    by code_simp+
  have a: "set (ascii ''h'') = {104}" "set (ascii ''p'') = {112}" "ascii ''h'' \<noteq> []" "ascii ''p'' \<noteq> []"
    by (simp_all add: ascii_def)
  show ?thesis
    unfolding template_new_def s Let_def option.case prod.case c a using h
    by (simp add: a c p h l template_expand_def sample_text_def) (simp add: sample_parsed_def)
qed


text \<open>
  C35.  A target cannot inject structure into the URI: whatever the host and port, the delimiters of the
  expansion are those the template itself contributes, and a value can be read back from its encoding.
\<close>

theorem template_no_injection:
  "filter is_delimiter (push_parts host port parts uri) = filter is_delimiter (push_parts host' port' parts uri) \<and>
   (\<exists>enc. percent_encode v out = out @ enc \<and> filter is_delimiter enc = [] \<and> percent_decode enc = v)"
  using push_parts_delimiters [of uri uri host port parts host' port']
  by (simp add: percent_encode_rfc decode_encoded encoded_no_delimiter del: filter_concat)

text \<open>What a host may be: never empty, and without any character that could end it.\<close>

lemma parse_host_chars:
  assumes "parse_host host = Some h"
  shows "h \<noteq> [] \<and> (list_all ip_text h \<or> is_reg_name h) \<and> set h \<inter> {47, 63, 35, 64, 91, 93, 37} = {}"
proof -
  have ip: "set h \<inter> {47, 63, 35, 64, 91, 93, 37} = {}" if "list_all ip_text h"
  proof -
    have "\<not> ip_text c" if "c \<in> {47, 63, 35, 64, 91, 93, 37}" for c :: byte
      using that by (elim insertE) (simp_all add: ip_text_def to_digit_def)
    then show ?thesis using that unfolding list_all_iff by blast
  qed
  have reg: "set h \<inter> {47, 63, 35, 64, 91, 93, 37} = {}" if "is_reg_name h"
  proof -
    have "\<not> (is_ascii_alphanumeric c \<or> c = 39 \<or> c \<in> set (ascii ''-._~!$&()*+,;=''))"
      if "c \<in> {47, 63, 35, 64, 91, 93, 37}" for c :: byte
      using that by (elim insertE) (simp_all add: is_ascii_alphanumeric_def ascii_def)
    then show ?thesis using that unfolding is_reg_name_def list_all_iff by blast
  qed
  have "(parse_ipv6 h \<noteq> None) \<or> (h \<noteq> [] \<and> is_reg_name h)"
    using assms by (auto simp: parse_host_def split: option.split_asm if_split_asm)
  then show ?thesis using ip reg parse_ipv6_text [of h] by (metis not_None_eq)
qed

end
