(* ===== verification/Http3_Datagram.thy ===== *)
theory Http3_Datagram
  imports Masque_Capsule "HOL-Library.AList" "HOL-Library.Sublist"
begin

text \<open>
  HTTP Datagrams over HTTP/3 (\<^verbatim>\<open>src/src/proto/http3/datagram.rs\<close>): the registry of the sessions of a
  connection with its byte and packet budgets (\<open>registry\<close>, \<open>dg_entry\<close>, the operations \<open>rg_...\<close>), the
  handle of one request (\<open>dg_request\<close>, \<open>rq_...\<close>), and the driver that moves packets between the registry
  and the QUIC connection (\<open>dg_driver\<close>, \<open>drive_...\<close>).  Every operation runs under the lock of the
  registry, so an execution is a sequence of operations (\<open>dg_run\<close>), in any order.  \<open>reg_ok\<close> is the
  invariant of the budgets and of the ready queue.  The framing is a crate's: the locale
  \<open>datagram_framing\<close> has what is relied on, and \<open>rfc9297_codec\<close>, the framing of RFC 9297 over the
  variable-length integers of \<open>Masque_Capsule\<close>, meets it.
\<close>

section \<open>Definitions\<close>

text \<open>Arithmetic of \<^verbatim>\<open>usize\<close> as a release build does it: it wraps.\<close>

definition usize_add :: "nat \<Rightarrow> nat \<Rightarrow> nat" where
  "usize_add a b = (a + b) mod 2 ^ 64"

definition usize_sub :: "nat \<Rightarrow> nat \<Rightarrow> nat" where
  "usize_sub a b = (if b \<le> a then a - b else a + 2 ^ 64 - b)"

definition PACKETS :: nat where "PACKETS = 64"

definition SESSION_BYTES :: nat where "SESSION_BYTES = 128 * 1024"

definition CONNECTION_BYTES :: nat where "CONNECTION_BYTES = 1024 * 1024"

text \<open>
  \<^verbatim>\<open>Entry\<close> and \<^verbatim>\<open>State\<close>.  \<open>en_alive\<close> says whether the weak reference to the request can be upgraded.
  The map of sessions is an association list.
\<close>

record dg_entry =
  en_alive :: bool
  en_semantics :: bool
  en_send_open :: bool
  en_recv_open :: bool
  en_incoming :: "byte list list"
  en_outgoing :: "byte list list"
  en_incoming_bytes :: nat
  en_outgoing_bytes :: nat

record registry =
  rg_streams :: "(u64 \<times> dg_entry) list"
  rg_ready :: "u64 list"
  rg_incoming :: nat
  rg_outgoing :: nat
  rg_max_size :: "nat option"
  rg_negotiated :: bool
  rg_closed :: bool

text \<open>
  \<^verbatim>\<open>RequestState\<close>: whether the request is cancelled as invalid, why it was aborted, and the body that
  an invalid request stops: \<open>rq_stop\<close> is whether it is still there, once attached.
\<close>

datatype abort_reason = AbortDatagram | AbortMessage

record dg_request =
  rq_id :: u64
  rq_invalid :: bool
  rq_abort :: "abort_reason option"
  rq_stop :: "bool option"
  rq_stopped :: bool

datatype reset_code = H3_MESSAGE_ERROR | H3_DATAGRAM_ERROR

datatype dg_send_error = DgUnavailable | DgTooLarge | DgFull | DgClosed

text \<open>Who is woken: the driver, the senders that wait for room, the reader of a session.\<close>

datatype dg_wake = WakeDriver | NotifyCapacity | WakeReceived u64

text \<open>
  The framing of HTTP Datagrams is that of the crate \<^verbatim>\<open>http3_datagram\<close>, a parameter.
\<close>

record 'e datagram_codec =
  dc_encode :: "u64 \<Rightarrow> byte list \<Rightarrow> byte list"
  dc_decode :: "byte list \<Rightarrow> 'e + u64 \<times> byte list"

definition entry_new :: "bool \<Rightarrow> dg_entry" where
  "entry_new semantics =
     \<lparr>en_alive = True, en_semantics = semantics, en_send_open = True, en_recv_open = True,
      en_incoming = [], en_outgoing = [], en_incoming_bytes = 0, en_outgoing_bytes = 0\<rparr>"

definition registry_new :: "nat option \<Rightarrow> registry" where
  "registry_new max_size =
     \<lparr>rg_streams = [], rg_ready = [], rg_incoming = 0, rg_outgoing = 0, rg_max_size = max_size,
      rg_negotiated = False, rg_closed = False\<rparr>"

abbreviation rg_get :: "registry \<Rightarrow> u64 \<Rightarrow> dg_entry option" where
  "rg_get rg sid \<equiv> map_of (rg_streams rg) sid"

definition rg_put :: "registry \<Rightarrow> u64 \<Rightarrow> dg_entry \<Rightarrow> registry" where
  "rg_put rg sid e = rg\<lparr>rg_streams := AList.update sid e (rg_streams rg)\<rparr>"

definition rg_register :: "registry \<Rightarrow> u64 \<Rightarrow> bool \<Rightarrow> registry \<times> dg_request" where
  "rg_register rg sid semantics =
     (if rg_closed rg then rg else rg_put rg sid (entry_new semantics),
      \<lparr>rq_id = sid, rq_invalid = False, rq_abort = None, rq_stop = None, rq_stopped = False\<rparr>)"

definition rg_set_negotiated :: "registry \<Rightarrow> bool \<Rightarrow> registry" where
  "rg_set_negotiated rg enabled = rg\<lparr>rg_negotiated := enabled\<rparr>"

definition rg_close :: "registry \<Rightarrow> registry \<times> dg_wake list" where
  "rg_close rg =
     (rg\<lparr>rg_closed := True, rg_incoming := 0, rg_outgoing := 0, rg_ready := [], rg_streams := []\<rparr>,
      map (WakeReceived \<circ> fst) (filter (en_alive \<circ> snd) (rg_streams rg)) @ [WakeDriver, NotifyCapacity])"

text \<open>\<^verbatim>\<open>receive\<close> gives the outcome, the registry, the request to invalidate, and who is woken.\<close>

definition rg_receive ::
    "'e datagram_codec \<Rightarrow> registry \<Rightarrow> byte list \<Rightarrow> ('e + unit) \<times> registry \<times> u64 option \<times> dg_wake list" where
  "rg_receive D rg packet =
     (case dc_decode D packet of
        Inl e \<Rightarrow> (Inl e, rg, None, [])
      | Inr (sid, payload) \<Rightarrow>
          let capacity = usize_sub CONNECTION_BYTES (rg_incoming rg) in
          (case rg_get rg sid of
             None \<Rightarrow> (Inr (), rg, None, [])
           | Some entry \<Rightarrow>
               if \<not> en_recv_open entry then (Inr (), rg, None, [])
               else if \<not> en_alive entry then (Inr (), rg, None, [])
               else if \<not> en_semantics entry then (Inr (), rg, Some sid, [])
               else
                 let sz = length payload in
                 if length (en_incoming entry) = PACKETS \<or>
                    sz > usize_sub SESSION_BYTES (en_incoming_bytes entry) \<or> sz > capacity
                 then (Inr (), rg, None, [])
                 else
                   let entry' = entry\<lparr>en_incoming := en_incoming entry @ [payload],
                          en_incoming_bytes := usize_add (en_incoming_bytes entry) sz\<rparr> in
                   (Inr (), (rg_put rg sid entry')\<lparr>rg_incoming := usize_add (rg_incoming rg) sz\<rparr>,
                    None, [WakeReceived sid])))"

text \<open>\<^verbatim>\<open>next\<close>, the loop over the sessions that are ready.\<close>

fun rg_next_from :: "registry \<Rightarrow> u64 list \<Rightarrow> (u64 \<times> byte list) option \<times> registry \<times> dg_wake list" where
  "rg_next_from rg [] = (None, rg\<lparr>rg_ready := []\<rparr>, [])"
| "rg_next_from rg (sid # ready) =
     (case rg_get rg sid of
        None \<Rightarrow> rg_next_from rg ready
      | Some entry \<Rightarrow>
          (case en_outgoing entry of
             [] \<Rightarrow> rg_next_from rg ready
           | packet # outgoing \<Rightarrow>
               let entry' = entry\<lparr>en_outgoing := outgoing,
                      en_outgoing_bytes := usize_sub (en_outgoing_bytes entry) (length packet)\<rparr> in
               (Some (sid, packet),
                (rg_put rg sid entry')
                  \<lparr>rg_ready := (if outgoing \<noteq> [] then ready @ [sid] else ready),
                   rg_outgoing := usize_sub (rg_outgoing rg) (length packet)\<rparr>,
                [NotifyCapacity])))"

definition rg_next :: "registry \<Rightarrow> (u64 \<times> byte list) option \<times> registry \<times> dg_wake list" where
  "rg_next rg = rg_next_from rg (rg_ready rg)"

definition prefix_size :: "u64 \<Rightarrow> nat" where
  "prefix_size sid =
     (let q = sid div 4 in
      if q \<le> 63 then 1 else if q \<le> 16383 then 2 else if q \<le> 1073741823 then 4 else 8)"

definition rq_max_size :: "registry \<Rightarrow> u64 \<Rightarrow> nat option" where
  "rq_max_size rg sid =
     (case rg_get rg sid of
        None \<Rightarrow> None
      | Some entry \<Rightarrow>
          (if \<not> rg_negotiated rg \<or> \<not> en_send_open entry then None
           else map_option (\<lambda>mx. mx - prefix_size sid) (rg_max_size rg)))"

text \<open>The check that a packet of \<open>sz\<close> bytes has no room.\<close>

definition dg_no_room :: "registry \<Rightarrow> dg_entry \<Rightarrow> nat \<Rightarrow> bool" where
  "dg_no_room rg entry sz =
     (length (en_outgoing entry) = PACKETS \<or>
      sz > usize_sub SESSION_BYTES (en_outgoing_bytes entry) \<or>
      sz > usize_sub CONNECTION_BYTES (rg_outgoing rg))"

definition rq_ready :: "registry \<Rightarrow> u64 \<Rightarrow> dg_send_error + unit" where
  "rq_ready rg sid =
     (case rg_get rg sid of
        None \<Rightarrow> Inl DgClosed
      | Some entry \<Rightarrow>
          if \<not> en_send_open entry then Inl DgClosed
          else
            case (if rg_negotiated rg then rg_max_size rg else None) of
              None \<Rightarrow> Inl DgUnavailable
            | Some mx \<Rightarrow>
                if mx < prefix_size sid then Inl DgTooLarge
                else if dg_no_room rg entry (min mx SESSION_BYTES) then Inl DgFull
                else Inr ())"

definition rq_try_send_buf ::
    "'e datagram_codec \<Rightarrow> registry \<Rightarrow> u64 \<Rightarrow> byte list \<Rightarrow> (dg_send_error + unit) \<times> registry \<times> dg_wake list" where
  "rq_try_send_buf D rg sid payload =
     (case rg_get rg sid of
        None \<Rightarrow> (Inl DgClosed, rg, [])
      | Some entry \<Rightarrow>
          if \<not> en_send_open entry then (Inl DgClosed, rg, [])
          else
            case (if rg_negotiated rg then rg_max_size rg else None) of
              None \<Rightarrow> (Inl DgUnavailable, rg, [])
            | Some mx \<Rightarrow>
                if length payload + prefix_size sid > usize_max then (Inl DgTooLarge, rg, [])
                else
                  let sz = length payload + prefix_size sid in
                  if sz > mx \<or> sz > SESSION_BYTES then (Inl DgTooLarge, rg, [])
                  else if dg_no_room rg entry sz then (Inl DgFull, rg, [])
                  else
                    let packet = dc_encode D sid payload;
                        entry' = entry\<lparr>en_outgoing := en_outgoing entry @ [packet],
                          en_outgoing_bytes := usize_add (en_outgoing_bytes entry) sz\<rparr> in
                    (Inr (),
                     (rg_put rg sid entry')
                       \<lparr>rg_outgoing := usize_add (rg_outgoing rg) sz,
                        rg_ready := (if en_outgoing entry = [] then rg_ready rg @ [sid] else rg_ready rg)\<rparr>,
                     [WakeDriver]))"

definition rq_poll_recv :: "registry \<Rightarrow> u64 \<Rightarrow> byte list option poll \<times> registry" where
  "rq_poll_recv rg sid =
     (case rg_get rg sid of
        None \<Rightarrow> (Ready None, rg)
      | Some entry \<Rightarrow>
          (case en_incoming entry of
             packet # incoming \<Rightarrow>
               (Ready (Some packet),
                (rg_put rg sid (entry\<lparr>en_incoming := incoming,
                   en_incoming_bytes := usize_sub (en_incoming_bytes entry) (length packet)\<rparr>))
                  \<lparr>rg_incoming := usize_sub (rg_incoming rg) (length packet)\<rparr>)
           | [] \<Rightarrow> (if \<not> en_recv_open entry then (Ready None, rg) else (Pending, rg))))"

definition rq_close_send :: "registry \<Rightarrow> u64 \<Rightarrow> registry \<times> dg_wake list" where
  "rq_close_send rg sid =
     (case rg_get rg sid of
        None \<Rightarrow> rg
      | Some entry \<Rightarrow>
          (rg_put rg sid (entry\<lparr>en_send_open := False, en_outgoing_bytes := 0, en_outgoing := []\<rparr>))
            \<lparr>rg_outgoing := usize_sub (rg_outgoing rg) (en_outgoing_bytes entry),
             rg_ready := filter (\<lambda>i. i \<noteq> sid) (rg_ready rg)\<rparr>,
      [WakeDriver, NotifyCapacity])"

definition rq_close_recv :: "registry \<Rightarrow> u64 \<Rightarrow> registry \<times> dg_wake list" where
  "rq_close_recv rg sid =
     (case rg_get rg sid of
        None \<Rightarrow> rg
      | Some entry \<Rightarrow>
          (rg_put rg sid (entry\<lparr>en_recv_open := False, en_incoming_bytes := 0, en_incoming := []\<rparr>))
            \<lparr>rg_incoming := usize_sub (rg_incoming rg) (en_incoming_bytes entry)\<rparr>,
      [WakeReceived sid])"

definition rq_close :: "registry \<Rightarrow> u64 \<Rightarrow> registry \<times> dg_wake list" where
  "rq_close rg sid =
     (case rg_get rg sid of
        None \<Rightarrow> rg
      | Some entry \<Rightarrow>
          rg\<lparr>rg_streams := AList.delete sid (rg_streams rg),
             rg_incoming := usize_sub (rg_incoming rg) (en_incoming_bytes entry),
             rg_outgoing := usize_sub (rg_outgoing rg) (en_outgoing_bytes entry),
             rg_ready := filter (\<lambda>i. i \<noteq> sid) (rg_ready rg)\<rparr>,
      [WakeReceived sid, WakeDriver, NotifyCapacity])"

text \<open>The request itself.  \<^verbatim>\<open>OnceLock::set\<close> keeps the first value.\<close>

definition rq_attach :: "dg_request \<Rightarrow> dg_request" where
  "rq_attach rq = (case rq_stop rq of None \<Rightarrow> rq\<lparr>rq_stop := Some True\<rparr> | Some _ \<Rightarrow> rq)"

definition rq_invalidate :: "dg_request \<Rightarrow> dg_request" where
  "rq_invalidate rq =
     (let rq = rq\<lparr>rq_invalid := True\<rparr> in
      if rq_stop rq = Some True then rq\<lparr>rq_stopped := True\<rparr> else rq)"

definition rq_abort_session ::
    "registry \<Rightarrow> dg_request \<Rightarrow> abort_reason \<Rightarrow> registry \<times> dg_request \<times> dg_wake list" where
  "rq_abort_session rg rq reason =
     (let rq = (case rq_abort rq of None \<Rightarrow> rq\<lparr>rq_abort := Some reason\<rparr> | Some _ \<Rightarrow> rq);
          rq = rq_invalidate rq;
          (rg, w1) = rq_close_recv rg (rq_id rq);
          (rg, w2) = rq_close_send rg (rq_id rq) in
      (rg, rq, w1 @ w2))"

definition rq_invalid_code :: "dg_request \<Rightarrow> reset_code" where
  "rq_invalid_code rq =
     (case rq_abort rq of Some AbortMessage \<Rightarrow> H3_MESSAGE_ERROR | _ \<Rightarrow> H3_DATAGRAM_ERROR)"

text \<open>
  The driver, over the datagram halves of the QUIC connection.  \<^verbatim>\<open>DatagramError\<close> is a failed connection
  or another failure, which loses the packet.
\<close>

datatype dg_send_outcome = DgSent | DgLost | DgConnectionError

record ('s, 'r) quic_datagrams =
  qd_max_size :: "'s \<Rightarrow> nat option"
  qd_poll_send :: "'s \<Rightarrow> byte list \<Rightarrow> dg_send_outcome poll \<times> 's"
  qd_poll_recv :: "'r \<Rightarrow> (unit + byte list option) poll \<times> 'r"

datatype 'e drive_error = DriveMalformed 'e | DriveConnection

record ('s, 'r) dg_driver =
  dv_sender :: 's
  dv_receiver :: 'r
  dv_registry :: registry
  dv_pending :: "(u64 \<times> byte list) option"
  dv_invalid :: "u64 list"
  dv_wakes :: "dg_wake list"
  dv_woken :: bool

text \<open>
  The two loops of \<^verbatim>\<open>poll\<close>, with the turns that are left.  The requests to invalidate and the wakes are
  collected, and \<open>dv_woken\<close> says that the driver has woken itself.  An early return is \<open>Inl\<close>.
\<close>

fun drive_receive ::
    "('s, 'r) quic_datagrams \<Rightarrow> 'e datagram_codec \<Rightarrow> nat \<Rightarrow> ('s, 'r) dg_driver \<Rightarrow>
     ((('e drive_error + unit) poll) + unit) \<times> ('s, 'r) dg_driver" where
  "drive_receive Q D 0 dv = (Inr (), dv\<lparr>dv_woken := True\<rparr>)"
| "drive_receive Q D (Suc n) dv =
     (case qd_poll_recv Q (dv_receiver dv) of
        (Ready (Inr (Some packet)), r) \<Rightarrow>
          (case rg_receive D (dv_registry dv) packet of
             (Inl e, rg, bad, ws) \<Rightarrow> (Inl (Ready (Inl (DriveMalformed e))), dv\<lparr>dv_receiver := r\<rparr>)
           | (Inr _, rg, bad, ws) \<Rightarrow>
               drive_receive Q D n
                 (dv\<lparr>dv_receiver := r, dv_registry := rg, dv_invalid := dv_invalid dv @ (case bad of None \<Rightarrow> [] | Some i \<Rightarrow> [i]),
                     dv_wakes := dv_wakes dv @ ws\<rparr>))
      | (Ready (Inr None), r) \<Rightarrow> (Inl (Ready (Inr ())), dv\<lparr>dv_receiver := r\<rparr>)
      | (Ready (Inl _), r) \<Rightarrow> (Inl (Ready (Inl DriveConnection)), dv\<lparr>dv_receiver := r\<rparr>)
      | (Pending, r) \<Rightarrow> (Inr (), dv\<lparr>dv_receiver := r\<rparr>)
      | (Panicked, r) \<Rightarrow> (Inl Panicked, dv\<lparr>dv_receiver := r\<rparr>))"

definition drive_take :: "('s, 'r) dg_driver \<Rightarrow> ('s, 'r) dg_driver" where
  "drive_take dv =
     (if dv_pending dv = None then
        (case rg_next (dv_registry dv) of
           (p, rg, ws) \<Rightarrow> dv\<lparr>dv_pending := p, dv_registry := rg, dv_wakes := dv_wakes dv @ ws\<rparr>)
      else dv)"

fun drive_send ::
    "('s, 'r) quic_datagrams \<Rightarrow> nat \<Rightarrow> ('s, 'r) dg_driver \<Rightarrow>
     ((('e drive_error + unit) poll) + unit) \<times> ('s, 'r) dg_driver" where
  "drive_send Q 0 dv = (Inr (), dv\<lparr>dv_woken := True\<rparr>)"
| "drive_send Q (Suc n) dv =
     (let dv = drive_take dv in
      case dv_pending dv of
        None \<Rightarrow> (Inr (), dv)
      | Some (sid, packet) \<Rightarrow>
          (case rg_get (dv_registry dv) sid of
             Some entry \<Rightarrow>
               if \<not> en_send_open entry then drive_send Q n (dv\<lparr>dv_pending := None\<rparr>)
               else
                 (case qd_poll_send Q (dv_sender dv) packet of
                    (Pending, s) \<Rightarrow> (Inr (), dv\<lparr>dv_sender := s\<rparr>)
                  | (Panicked, s) \<Rightarrow> (Inl Panicked, dv\<lparr>dv_sender := s\<rparr>)
                  | (Ready DgConnectionError, s) \<Rightarrow> (Inl (Ready (Inl DriveConnection)), dv\<lparr>dv_sender := s\<rparr>)
                  | (Ready _, s) \<Rightarrow> drive_send Q n (dv\<lparr>dv_sender := s, dv_pending := None\<rparr>))
           | None \<Rightarrow> drive_send Q n (dv\<lparr>dv_pending := None\<rparr>)))"

definition drive_max_size :: "('s, 'r) quic_datagrams \<Rightarrow> ('s, 'r) dg_driver \<Rightarrow> ('s, 'r) dg_driver" where
  "drive_max_size Q dv =
     (let max_size = qd_max_size Q (dv_sender dv); rg = dv_registry dv in
      dv\<lparr>dv_registry := rg\<lparr>rg_max_size := max_size\<rparr>,
         dv_wakes := dv_wakes dv @ (if rg_max_size rg \<noteq> max_size then [NotifyCapacity] else [])\<rparr>)"

definition drive_poll ::
    "('s, 'r) quic_datagrams \<Rightarrow> 'e datagram_codec \<Rightarrow> ('s, 'r) dg_driver \<Rightarrow>
     ('e drive_error + unit) poll \<times> ('s, 'r) dg_driver" where
  "drive_poll Q D dv =
     (case drive_receive Q D 32 (drive_max_size Q dv) of
        (Inl early, dv1) \<Rightarrow> (early, dv1)
      | (Inr _, dv1) \<Rightarrow>
          (case drive_send Q 32 dv1 of
             (Inl early, dv2) \<Rightarrow> (early, dv2)
           | (Inr _, dv2) \<Rightarrow> (Pending, dv2)))"

text \<open>
  The operations on a registry, as they happen one after the other under its lock, with what they
  return and whom they wake.  \<open>DgDropped\<close> is the end of the last strong reference to a request.
\<close>

datatype dg_op =
    DgRegister u64 bool
  | DgNegotiated bool
  | DgCloseAll
  | DgReceive "byte list"
  | DgNext
  | DgTrySend u64 "byte list"
  | DgPollRecv u64
  | DgCloseSend u64
  | DgCloseRecv u64
  | DgRemove u64
  | DgMaxSize "nat option"
  | DgDropped u64

datatype dg_result =
    DgDone
  | DgSendResult "dg_send_error + unit"
  | DgNextResult "(u64 \<times> byte list) option"
  | DgRecvResult "byte list option poll"

fun dg_exec :: "'e datagram_codec \<Rightarrow> dg_op \<Rightarrow> registry \<Rightarrow> dg_result \<times> registry \<times> dg_wake list" where
  "dg_exec D (DgRegister sid semantics) rg = (DgDone, fst (rg_register rg sid semantics), [])"
| "dg_exec D (DgNegotiated enabled) rg = (DgDone, rg_set_negotiated rg enabled, [])"
| "dg_exec D DgCloseAll rg = (DgDone, rg_close rg)"
| "dg_exec D (DgReceive packet) rg = (case rg_receive D rg packet of (r, rg', bad, ws) \<Rightarrow> (DgDone, rg', ws))"
| "dg_exec D DgNext rg = (case rg_next rg of (p, rg', ws) \<Rightarrow> (DgNextResult p, rg', ws))"
| "dg_exec D (DgTrySend sid payload) rg =
     (case rq_try_send_buf D rg sid payload of (r, rg', ws) \<Rightarrow> (DgSendResult r, rg', ws))"
| "dg_exec D (DgPollRecv sid) rg = (case rq_poll_recv rg sid of (r, rg') \<Rightarrow> (DgRecvResult r, rg', []))"
| "dg_exec D (DgCloseSend sid) rg = (DgDone, rq_close_send rg sid)"
| "dg_exec D (DgCloseRecv sid) rg = (DgDone, rq_close_recv rg sid)"
| "dg_exec D (DgRemove sid) rg = (DgDone, rq_close rg sid)"
| "dg_exec D (DgMaxSize mx) rg =
     (DgDone, rg\<lparr>rg_max_size := mx\<rparr>, if rg_max_size rg \<noteq> mx then [NotifyCapacity] else [])"
| "dg_exec D (DgDropped sid) rg =
     (DgDone, case rg_get rg sid of None \<Rightarrow> rg | Some e \<Rightarrow> rg_put rg sid (e\<lparr>en_alive := False\<rparr>), [])"

text \<open>The identifier of a stream is used once.\<close>

fun dg_enabled :: "dg_op \<Rightarrow> registry \<Rightarrow> bool" where
  "dg_enabled (DgRegister sid _) rg = (rg_get rg sid = None)"
| "dg_enabled _ rg = True"

inductive dg_run :: "'e datagram_codec \<Rightarrow> nat option \<Rightarrow> (dg_op \<times> dg_result) list \<Rightarrow> registry \<Rightarrow> bool"
  for D :: "'e datagram_codec" and mx :: "nat option" where
  dg_start: "dg_run D mx [] (registry_new mx)"
| dg_then: "dg_run D mx tr rg \<Longrightarrow> dg_enabled p rg \<Longrightarrow> dg_exec D p rg = (r, rg', ws) \<Longrightarrow> dg_run D mx (tr @ [(p, r)]) rg'"

text \<open>The counters are the sizes of the queues, within their limits, and the sessions that are ready are
  those with packets to send, each once.\<close>

definition stream_sum :: "(dg_entry \<Rightarrow> nat) \<Rightarrow> (u64 \<times> dg_entry) list \<Rightarrow> nat" where
  "stream_sum f xs = sum_list (map (f \<circ> snd) xs)"

definition queue_ok :: "nat \<Rightarrow> byte list list \<Rightarrow> bool" where
  "queue_ok bytes q \<longleftrightarrow> bytes = sum_list (map length q) \<and> bytes \<le> SESSION_BYTES \<and> length q \<le> PACKETS"

definition entry_ok :: "dg_entry \<Rightarrow> bool" where
  "entry_ok e \<longleftrightarrow>
     queue_ok (en_incoming_bytes e) (en_incoming e) \<and> queue_ok (en_outgoing_bytes e) (en_outgoing e) \<and>
     (\<not> en_send_open e \<longrightarrow> en_outgoing e = []) \<and> (\<not> en_recv_open e \<longrightarrow> en_incoming e = [])"

definition has_outgoing :: "registry \<Rightarrow> u64 set" where
  "has_outgoing rg = {sid. \<exists>e. rg_get rg sid = Some e \<and> en_outgoing e \<noteq> []}"

definition reg_ok :: "registry \<Rightarrow> bool" where
  "reg_ok rg \<longleftrightarrow>
     distinct (map fst (rg_streams rg)) \<and> (\<forall>sid e. rg_get rg sid = Some e \<longrightarrow> entry_ok e) \<and>
     rg_incoming rg = stream_sum en_incoming_bytes (rg_streams rg) \<and> rg_incoming rg \<le> CONNECTION_BYTES \<and>
     rg_outgoing rg = stream_sum en_outgoing_bytes (rg_streams rg) \<and> rg_outgoing rg \<le> CONNECTION_BYTES \<and>
     distinct (rg_ready rg) \<and> set (rg_ready rg) = has_outgoing rg \<and> (rg_closed rg \<longrightarrow> rg_streams rg = [])"

text \<open>What the framing is relied on for: the prefix has the size the budgets count, and a payload is
  read back under the stream it was framed for.\<close>

locale datagram_framing =
  fixes D :: "'e datagram_codec"
  assumes encode_length: "length (dc_encode D sid payload) = prefix_size sid + length payload"
    and decode_encode_datagram: "sid mod 4 = 0 \<Longrightarrow> sid < 2 ^ 62 \<Longrightarrow> dc_decode D (dc_encode D sid payload) = Inr (sid, payload)"

declare map_of_eq_Some_iff [simp del]

text \<open>Taking packets repeatedly.\<close>

fun dg_nexts :: "nat \<Rightarrow> registry \<Rightarrow> (u64 \<times> byte list) option list \<times> registry" where
  "dg_nexts 0 rg = ([], rg)"
| "dg_nexts (Suc n) rg =
     (case rg_next rg of (p, rg', ws) \<Rightarrow> (case dg_nexts n rg' of (ps, rg'') \<Rightarrow> (p # ps, rg'')))"

definition first_packet :: "registry \<Rightarrow> u64 \<Rightarrow> byte list" where
  "first_packet rg sid = (case rg_get rg sid of Some e \<Rightarrow> hd (en_outgoing e) | None \<Rightarrow> [])"

text \<open>What a sequence of operations did for one session.\<close>

fun dg_accepted :: "'e datagram_codec \<Rightarrow> u64 \<Rightarrow> (dg_op \<times> dg_result) list \<Rightarrow> byte list list" where
  "dg_accepted D sid [] = []"
| "dg_accepted D sid ((DgTrySend i payload, DgSendResult (Inr _)) # tr) =
     (if i = sid then [dc_encode D sid payload] else []) @ dg_accepted D sid tr"
| "dg_accepted D sid (_ # tr) = dg_accepted D sid tr"

fun dg_taken :: "u64 \<Rightarrow> (dg_op \<times> dg_result) list \<Rightarrow> byte list list" where
  "dg_taken sid [] = []"
| "dg_taken sid ((DgNext, DgNextResult (Some (i, packet))) # tr) =
     (if i = sid then [packet] else []) @ dg_taken sid tr"
| "dg_taken sid (_ # tr) = dg_taken sid tr"

fun dg_arrived :: "'e datagram_codec \<Rightarrow> u64 \<Rightarrow> (dg_op \<times> dg_result) list \<Rightarrow> byte list list" where
  "dg_arrived D sid [] = []"
| "dg_arrived D sid ((DgReceive packet, _) # tr) =
     (case dc_decode D packet of Inr (i, payload) \<Rightarrow> (if i = sid then [payload] else []) | Inl _ \<Rightarrow> []) @ dg_arrived D sid tr"
| "dg_arrived D sid (_ # tr) = dg_arrived D sid tr"

fun dg_delivered :: "u64 \<Rightarrow> (dg_op \<times> dg_result) list \<Rightarrow> byte list list" where
  "dg_delivered sid [] = []"
| "dg_delivered sid ((DgPollRecv i, DgRecvResult (Ready (Some packet))) # tr) =
     (if i = sid then [packet] else []) @ dg_delivered sid tr"
| "dg_delivered sid (_ # tr) = dg_delivered sid tr"

fun dg_discards :: "u64 \<Rightarrow> dg_op \<Rightarrow> bool" where
  "dg_discards sid DgCloseAll = True"
| "dg_discards sid (DgCloseSend i) = (i = sid)"
| "dg_discards sid (DgRemove i) = (i = sid)"
| "dg_discards sid _ = False"

definition send_queue :: "registry \<Rightarrow> u64 \<Rightarrow> byte list list" where
  "send_queue rg sid = (case rg_get rg sid of Some e \<Rightarrow> en_outgoing e | None \<Rightarrow> [])"

definition recv_queue :: "registry \<Rightarrow> u64 \<Rightarrow> byte list list" where
  "recv_queue rg sid = (case rg_get rg sid of Some e \<Rightarrow> en_incoming e | None \<Rightarrow> [])"

text \<open>The framing of RFC 9297: the Quarter Stream ID as a variable-length integer, then the payload.\<close>

definition rfc9297_codec :: "unit datagram_codec" where
  "rfc9297_codec =
     \<lparr>dc_encode = (\<lambda>sid payload. put_varint [] (sid div 4) @ payload),
      dc_decode = (\<lambda>packet.
        case varint packet of
          None \<Rightarrow> Inl ()
        | Some (q, n) \<Rightarrow> (if q < 2 ^ 60 then Inr (q * 4, drop n packet) else Inl ()))\<rparr>"

definition recv_waits :: "registry \<Rightarrow> u64 \<Rightarrow> bool" where
  "recv_waits rg sid \<longleftrightarrow> fst (rq_poll_recv rg sid) = Pending"

text \<open>Several operations in a row, each one enabled.\<close>

fun dg_execs :: "'e datagram_codec \<Rightarrow> dg_op list \<Rightarrow> registry \<Rightarrow> ((dg_op \<times> dg_result) list \<times> registry) option" where
  "dg_execs D [] rg = Some ([], rg)"
| "dg_execs D (p # ps) rg =
     (if dg_enabled p rg then
        (case dg_exec D p rg of
           (r, rg', ws) \<Rightarrow> map_option (\<lambda>(tr, rg''). ((p, r) # tr, rg'')) (dg_execs D ps rg'))
      else None)"

text \<open>What the driver does to the registry is a run of its operations.\<close>

definition dg_continues :: "'e datagram_codec \<Rightarrow> registry \<Rightarrow> registry \<Rightarrow> bool" where
  "dg_continues D rg rg' \<longleftrightarrow> (\<exists>ps tr. dg_execs D ps rg = Some (tr, rg'))"

definition dg_demo_ops :: "dg_op list" where
  "dg_demo_ops = [DgNegotiated True, DgRegister 0 True, DgRegister 4 True, DgTrySend 0 [1], DgTrySend 4 [2], DgTrySend 0 [3],
     DgReceive [1, 9]]"

definition dg_demo_trace :: "(dg_op \<times> dg_result) list" where
  "dg_demo_trace = zip dg_demo_ops [DgDone, DgDone, DgDone, DgSendResult (Inr ()), DgSendResult (Inr ()), DgSendResult (Inr ()), DgDone]"

definition dg_demo :: registry where
  "dg_demo =
     \<lparr>rg_streams =
        [(0, (entry_new True)\<lparr>en_outgoing := [[0, 1], [0, 3]], en_outgoing_bytes := 4\<rparr>),
         (4, (entry_new True)\<lparr>en_outgoing := [[1, 2]], en_outgoing_bytes := 2, en_incoming := [[9]], en_incoming_bytes := 1\<rparr>)],
      rg_ready = [0, 4], rg_incoming = 1, rg_outgoing = 6, rg_max_size = Some 200000, rg_negotiated = True, rg_closed = False\<rparr>"

text \<open>A transport that has nothing to receive and refuses every packet.\<close>

definition idle_quic :: "(unit, unit) quic_datagrams" where
  "idle_quic = \<lparr>qd_max_size = (\<lambda>_. Some 200000), qd_poll_send = (\<lambda>s _. (Pending, s)), qd_poll_recv = (\<lambda>r. (Pending, r))\<rparr>"

definition idle_driver :: "(unit, unit) dg_driver" where
  "idle_driver = \<lparr>dv_sender = (), dv_receiver = (), dv_registry = dg_demo, dv_pending = None, dv_invalid = [], dv_wakes = [], dv_woken = False\<rparr>"

lemmas dg_limits = PACKETS_def SESSION_BYTES_def CONNECTION_BYTES_def

lemma usize_sub_le [simp]: "b \<le> a \<Longrightarrow> usize_sub a b = a - b"
  by (simp add: usize_sub_def)

lemma usize_add_small: "a + b < 2 ^ 64 \<Longrightarrow> usize_add a b = a + b"
  by (simp add: usize_add_def)

lemma stream_sum_update:
  "distinct (map fst xs) \<Longrightarrow> map_of xs k = Some e \<Longrightarrow>
   stream_sum f (AList.update k e' xs) + f e = stream_sum f xs + f e'"
proof (induction xs)
  case (Cons x xs)
  then show ?case by (cases x) (auto simp: stream_sum_def)
qed simp

lemma stream_sum_new:
  "map_of xs k = None \<Longrightarrow> stream_sum f (AList.update k e' xs) = stream_sum f xs + f e'"
  by (induction xs) (auto simp: stream_sum_def)

lemma stream_sum_delete:
  "distinct (map fst xs) \<Longrightarrow> map_of xs k = Some e \<Longrightarrow> stream_sum f (AList.delete k xs) + f e = stream_sum f xs"
proof (induction xs)
  case (Cons x xs)
  then show ?case
    by (cases x) (auto simp: stream_sum_def AList.delete_eq filter_True filter_id_conv map_of_eq_None_iff
        dest!: map_of_SomeD intro!: arg_cong [of _ _ sum_list] arg_cong [of _ _ "map _"] filter_True, force)
qed simp

lemma stream_sum_member: "map_of xs k = Some e \<Longrightarrow> f e \<le> stream_sum f xs"
  by (induction xs) (auto simp: stream_sum_def split: if_split_asm)

lemma rg_get_put [simp]: "rg_get (rg_put rg sid e) i = (if i = sid then Some e else rg_get rg i)"
  by (simp add: rg_put_def update_conv')

lemma reg_ok_put:
  assumes "reg_ok rg" "rg_get rg sid = Some e" "entry_ok e'"
    and "rg_streams rg' = AList.update sid e' (rg_streams rg)"
    and "rg_incoming rg' + en_incoming_bytes e = rg_incoming rg + en_incoming_bytes e'" "rg_incoming rg' \<le> CONNECTION_BYTES"
    and "rg_outgoing rg' + en_outgoing_bytes e = rg_outgoing rg + en_outgoing_bytes e'" "rg_outgoing rg' \<le> CONNECTION_BYTES"
    and "distinct (rg_ready rg')"
    and "set (rg_ready rg') = (if en_outgoing e' \<noteq> [] then insert sid (set (rg_ready rg)) else set (rg_ready rg) - {sid})"
    and "rg_closed rg' = rg_closed rg"
  shows "reg_ok rg'"
proof -
  note ok = assms(1) [unfolded reg_ok_def]
  have d: "distinct (map fst (rg_streams rg))" using ok by simp
  have get: "rg_get rg' i = (if i = sid then Some e' else rg_get rg i)" for i
    using assms(4) by (simp add: update_conv')
  have "rg_incoming rg' = stream_sum en_incoming_bytes (rg_streams rg')"
    "rg_outgoing rg' = stream_sum en_outgoing_bytes (rg_streams rg')"
    using stream_sum_update [OF d assms(2), of en_incoming_bytes e'] stream_sum_update [OF d assms(2), of en_outgoing_bytes e']
      assms(4,5,7) ok by simp_all
  moreover have "set (rg_ready rg') = has_outgoing rg'"
    using ok assms(10) by (auto simp: has_outgoing_def get split: if_split_asm)
  moreover have "\<not> rg_closed rg" using ok assms(2) by auto
  ultimately show ?thesis using ok assms get unfolding reg_ok_def
    by (auto simp: distinct_update split: if_split_asm)
qed

lemma reg_ok_entry: "reg_ok rg \<Longrightarrow> rg_get rg sid = Some e \<Longrightarrow> entry_ok e"
  by (simp add: reg_ok_def)

lemma reg_ok_limits: "reg_ok rg \<Longrightarrow> rg_incoming rg \<le> CONNECTION_BYTES \<and> rg_outgoing rg \<le> CONNECTION_BYTES"
  by (simp add: reg_ok_def)

lemma reg_ok_shares:
  assumes "reg_ok rg" "rg_get rg sid = Some e"
  shows "en_incoming_bytes e \<le> rg_incoming rg" "en_outgoing_bytes e \<le> rg_outgoing rg"
  using assms stream_sum_member [OF assms(2)] by (auto simp: reg_ok_def)

lemma reg_ok_ready: "reg_ok rg \<Longrightarrow> rg_get rg sid = Some e \<Longrightarrow> sid \<in> set (rg_ready rg) \<longleftrightarrow> en_outgoing e \<noteq> []"
  by (auto simp: reg_ok_def has_outgoing_def)

lemma reg_ok_distinct: "reg_ok rg \<Longrightarrow> distinct (rg_ready rg)"
  by (simp add: reg_ok_def)

lemma registry_new_ok: "reg_ok (registry_new mx)"
  by (simp add: reg_ok_def registry_new_def stream_sum_def has_outgoing_def)

lemma register_ok:
  assumes "reg_ok rg" "rg_get rg sid = None"
  shows "reg_ok (fst (rg_register rg sid semantics))"
proof -
  have e: "entry_ok (entry_new semantics)" by (simp add: entry_new_def entry_ok_def queue_ok_def)
  have get: "map_of (AList.update sid x (rg_streams rg)) i = (if i = sid then Some x else rg_get rg i)" for x i
    by (simp add: update_conv')
  show ?thesis using assms e stream_sum_new [OF assms(2), of en_incoming_bytes "entry_new semantics"]
      stream_sum_new [OF assms(2), of en_outgoing_bytes "entry_new semantics"]
    by (auto simp: rg_register_def rg_put_def reg_ok_def has_outgoing_def get distinct_update entry_new_def split: if_split_asm)
qed

lemma close_all_ok: "reg_ok (fst (rg_close rg))"
  by (simp add: rg_close_def reg_ok_def stream_sum_def has_outgoing_def)

lemma receive_ok:
  assumes "reg_ok rg" "rg_receive D rg packet = (r, rg', bad, ws)"
  shows "reg_ok rg'"
proof (cases "rg' = rg")
  case False
  obtain sid payload e where h: "dc_decode D packet = Inr (sid, payload)" "rg_get rg sid = Some e"
      "en_recv_open e" "length (en_incoming e) \<noteq> PACKETS"
      "length payload \<le> usize_sub SESSION_BYTES (en_incoming_bytes e)"
      "length payload \<le> usize_sub CONNECTION_BYTES (rg_incoming rg)"
      "rg' = (rg_put rg sid (e\<lparr>en_incoming := en_incoming e @ [payload],
          en_incoming_bytes := usize_add (en_incoming_bytes e) (length payload)\<rparr>))
          \<lparr>rg_incoming := usize_add (rg_incoming rg) (length payload)\<rparr>"
    using assms(2) False by (auto simp: rg_receive_def Let_def split: sum.split_asm option.split_asm if_split_asm)
  note e = reg_ok_entry [OF assms(1) h(2)] and l = reg_ok_limits [OF assms(1)]
  have b: "en_incoming_bytes e \<le> SESSION_BYTES" using e by (simp add: entry_ok_def queue_ok_def)
  have room: "en_incoming_bytes e + length payload \<le> SESSION_BYTES" "rg_incoming rg + length payload \<le> CONNECTION_BYTES"
    using h(5,6) b l by auto
  then have add: "usize_add (en_incoming_bytes e) (length payload) = en_incoming_bytes e + length payload"
      "usize_add (rg_incoming rg) (length payload) = rg_incoming rg + length payload"
    by (auto intro!: usize_add_small simp: dg_limits)
  have ok: "entry_ok (e\<lparr>en_incoming := en_incoming e @ [payload], en_incoming_bytes := en_incoming_bytes e + length payload\<rparr>)"
    using e h(3,4) room by (auto simp: entry_ok_def queue_ok_def)
  show ?thesis unfolding h(7) add
    by (rule reg_ok_put [OF assms(1) h(2) ok])
      (use room l reg_ok_ready [OF assms(1) h(2)] reg_ok_distinct [OF assms(1)] in \<open>auto simp: rg_put_def\<close>)
qed (use assms in simp)

lemma next_from_ready:
  assumes "reg_ok rg" "rg_ready rg = sid # ready"
  shows "\<exists>e packet outgoing. rg_get rg sid = Some e \<and> en_outgoing e = packet # outgoing"
  using assms by (auto simp: reg_ok_def has_outgoing_def neq_Nil_conv dest: arg_cong [of _ _ "\<lambda>X. sid \<in> X"])

lemma next_step:
  assumes "reg_ok rg" "rg_ready rg = sid # ready"
  obtains e packet outgoing where "rg_get rg sid = Some e" "en_outgoing e = packet # outgoing"
    "rg_next rg = (Some (sid, packet),
       (rg_put rg sid (e\<lparr>en_outgoing := outgoing, en_outgoing_bytes := en_outgoing_bytes e - length packet\<rparr>))
         \<lparr>rg_ready := (if outgoing \<noteq> [] then ready @ [sid] else ready), rg_outgoing := rg_outgoing rg - length packet\<rparr>,
       [NotifyCapacity])"
    "length packet \<le> en_outgoing_bytes e" "length packet \<le> rg_outgoing rg"
proof -
  obtain e packet outgoing where e: "rg_get rg sid = Some e" "en_outgoing e = packet # outgoing"
    using next_from_ready [OF assms] by blast
  have l: "length packet \<le> en_outgoing_bytes e"
    using reg_ok_entry [OF assms(1) e(1)] e(2) by (auto simp: entry_ok_def queue_ok_def)
  moreover have "length packet \<le> rg_outgoing rg" using l reg_ok_shares(2) [OF assms(1) e(1)] by simp
  ultimately show thesis using that [OF e] assms(2) e by (auto simp: rg_next_def Let_def)
qed

lemma next_ok:
  assumes "reg_ok rg" "rg_next rg = (p, rg', ws)"
  shows "reg_ok rg'"
proof (cases "rg_ready rg")
  case Nil
  then have "rg' = rg" using assms by (cases rg) (simp add: rg_next_def)
  then show ?thesis using assms by simp
next
  case (Cons sid ready)
  obtain e packet outgoing where e: "rg_get rg sid = Some e" "en_outgoing e = packet # outgoing"
    "rg_next rg = (Some (sid, packet),
       (rg_put rg sid (e\<lparr>en_outgoing := outgoing, en_outgoing_bytes := en_outgoing_bytes e - length packet\<rparr>))
         \<lparr>rg_ready := (if outgoing \<noteq> [] then ready @ [sid] else ready), rg_outgoing := rg_outgoing rg - length packet\<rparr>,
       [NotifyCapacity])"
    "length packet \<le> en_outgoing_bytes e" "length packet \<le> rg_outgoing rg"
    by (rule next_step [OF assms(1) Cons])
  have d: "distinct (sid # ready)" using reg_ok_distinct [OF assms(1)] Cons by simp
  have ok: "entry_ok (e\<lparr>en_outgoing := outgoing, en_outgoing_bytes := en_outgoing_bytes e - length packet\<rparr>)"
    using reg_ok_entry [OF assms(1) e(1)] e(2) by (auto simp: entry_ok_def queue_ok_def)
  have rg': "rg' = (rg_put rg sid (e\<lparr>en_outgoing := outgoing, en_outgoing_bytes := en_outgoing_bytes e - length packet\<rparr>))
         \<lparr>rg_ready := (if outgoing \<noteq> [] then ready @ [sid] else ready), rg_outgoing := rg_outgoing rg - length packet\<rparr>"
    using assms(2) e(3) by simp
  show ?thesis unfolding rg'
    by (rule reg_ok_put [OF assms(1) e(1) ok])
      (use e(4,5) d Cons reg_ok_limits [OF assms(1)] in \<open>auto simp: rg_put_def\<close>)
qed

lemma try_send_step:
  assumes "reg_ok rg" "rq_try_send_buf D rg sid payload = (Inr (), rg', ws)"
  obtains e where "rg_get rg sid = Some e" "en_send_open e"
    "length (en_outgoing e) < PACKETS"
    "en_outgoing_bytes e + (length payload + prefix_size sid) \<le> SESSION_BYTES"
    "rg_outgoing rg + (length payload + prefix_size sid) \<le> CONNECTION_BYTES"
    "rg' = (rg_put rg sid (e\<lparr>en_outgoing := en_outgoing e @ [dc_encode D sid payload],
         en_outgoing_bytes := en_outgoing_bytes e + (length payload + prefix_size sid)\<rparr>))
       \<lparr>rg_outgoing := rg_outgoing rg + (length payload + prefix_size sid),
        rg_ready := (if en_outgoing e = [] then rg_ready rg @ [sid] else rg_ready rg)\<rparr>"
    "ws = [WakeDriver]"
proof -
  let ?n = "length payload + prefix_size sid"
  obtain e where e: "rg_get rg sid = Some e" "en_send_open e" "\<not> dg_no_room rg e ?n" "ws = [WakeDriver]"
      "rg' = (rg_put rg sid (e\<lparr>en_outgoing := en_outgoing e @ [dc_encode D sid payload],
         en_outgoing_bytes := usize_add (en_outgoing_bytes e) ?n\<rparr>))
       \<lparr>rg_outgoing := usize_add (rg_outgoing rg) ?n,
        rg_ready := (if en_outgoing e = [] then rg_ready rg @ [sid] else rg_ready rg)\<rparr>"
    using assms(2)
    by (auto simp: rq_try_send_buf_def Let_def split: option.split_asm if_split_asm)
  have q: "en_outgoing_bytes e \<le> SESSION_BYTES" "length (en_outgoing e) \<le> PACKETS"
    using reg_ok_entry [OF assms(1) e(1)] by (auto simp: entry_ok_def queue_ok_def)
  note l = reg_ok_limits [OF assms(1)]
  have room: "length (en_outgoing e) < PACKETS" "en_outgoing_bytes e + ?n \<le> SESSION_BYTES" "rg_outgoing rg + ?n \<le> CONNECTION_BYTES"
    using e(3) q l by (auto simp: dg_no_room_def)
  then have "usize_add (en_outgoing_bytes e) ?n = en_outgoing_bytes e + ?n" "usize_add (rg_outgoing rg) ?n = rg_outgoing rg + ?n"
    by (auto intro!: usize_add_small simp: dg_limits)
  then show thesis using that [OF e(1,2) room] e(4,5) by simp
qed

lemma try_send_refused: "rq_try_send_buf D rg sid payload = (Inl k, rg', ws) \<Longrightarrow> rg' = rg \<and> ws = []"
  by (auto simp: rq_try_send_buf_def Let_def split: option.split_asm if_split_asm)

context datagram_framing
begin

lemma try_send_ok:
  assumes "reg_ok rg" "rq_try_send_buf D rg sid payload = (r, rg', ws)"
  shows "reg_ok rg'"
proof (cases r)
  case (Inl k)
  then show ?thesis using assms try_send_refused by metis
next
  case (Inr u)
  let ?n = "length payload + prefix_size sid"
  obtain e where e: "rg_get rg sid = Some e" "en_send_open e" "length (en_outgoing e) < PACKETS"
    "en_outgoing_bytes e + ?n \<le> SESSION_BYTES" "rg_outgoing rg + ?n \<le> CONNECTION_BYTES"
    "rg' = (rg_put rg sid (e\<lparr>en_outgoing := en_outgoing e @ [dc_encode D sid payload],
         en_outgoing_bytes := en_outgoing_bytes e + ?n\<rparr>))
       \<lparr>rg_outgoing := rg_outgoing rg + ?n,
        rg_ready := (if en_outgoing e = [] then rg_ready rg @ [sid] else rg_ready rg)\<rparr>"
    using try_send_step [OF assms(1), of D sid payload rg' ws] assms(2) Inr by auto
  have ok: "entry_ok (e\<lparr>en_outgoing := en_outgoing e @ [dc_encode D sid payload], en_outgoing_bytes := en_outgoing_bytes e + ?n\<rparr>)"
    using reg_ok_entry [OF assms(1) e(1)] e(2,3,4) by (auto simp: entry_ok_def queue_ok_def encode_length)
  show ?thesis unfolding e(6)
    by (rule reg_ok_put [OF assms(1) e(1) ok])
      (use e(5) reg_ok_limits [OF assms(1)] reg_ok_ready [OF assms(1) e(1)] reg_ok_distinct [OF assms(1)] in \<open>auto simp: rg_put_def\<close>)
qed

end

lemma poll_recv_step:
  assumes "reg_ok rg" "rq_poll_recv rg sid = (Ready (Some packet), rg')"
  obtains e incoming where "rg_get rg sid = Some e" "en_incoming e = packet # incoming"
    "length packet \<le> en_incoming_bytes e" "length packet \<le> rg_incoming rg"
    "rg' = (rg_put rg sid (e\<lparr>en_incoming := incoming, en_incoming_bytes := en_incoming_bytes e - length packet\<rparr>))
       \<lparr>rg_incoming := rg_incoming rg - length packet\<rparr>"
proof -
  obtain e incoming where e: "rg_get rg sid = Some e" "en_incoming e = packet # incoming"
    using assms(2) by (auto simp: rq_poll_recv_def split: option.split_asm list.split_asm if_split_asm)
  have l: "length packet \<le> en_incoming_bytes e"
    using reg_ok_entry [OF assms(1) e(1)] e(2) by (auto simp: entry_ok_def queue_ok_def)
  moreover have "length packet \<le> rg_incoming rg" using l reg_ok_shares(1) [OF assms(1) e(1)] by simp
  ultimately show thesis using that [OF e] assms(2) e by (auto simp: rq_poll_recv_def)
qed

lemma poll_recv_idle: "rq_poll_recv rg sid = (r, rg') \<Longrightarrow> \<nexists>packet. r = Ready (Some packet) \<Longrightarrow> rg' = rg \<and> (r = Pending \<or> r = Ready None)"
  by (auto simp: rq_poll_recv_def split: option.split_asm list.split_asm if_split_asm)

lemma poll_recv_ok:
  assumes "reg_ok rg" "rq_poll_recv rg sid = (r, rg')"
  shows "reg_ok rg'"
proof (cases "\<exists>packet. r = Ready (Some packet)")
  case False
  then show ?thesis using poll_recv_idle [OF assms(2)] assms(1) by simp
next
  case True
  then obtain packet where "rq_poll_recv rg sid = (Ready (Some packet), rg')" using assms(2) by blast
  then obtain e incoming where e: "rg_get rg sid = Some e" "en_incoming e = packet # incoming"
    "length packet \<le> en_incoming_bytes e" "length packet \<le> rg_incoming rg"
    "rg' = (rg_put rg sid (e\<lparr>en_incoming := incoming, en_incoming_bytes := en_incoming_bytes e - length packet\<rparr>))
       \<lparr>rg_incoming := rg_incoming rg - length packet\<rparr>"
    using poll_recv_step [OF assms(1)] by metis
  have ok: "entry_ok (e\<lparr>en_incoming := incoming, en_incoming_bytes := en_incoming_bytes e - length packet\<rparr>)"
    using reg_ok_entry [OF assms(1) e(1)] e(2) by (auto simp: entry_ok_def queue_ok_def)
  show ?thesis unfolding e(5)
    by (rule reg_ok_put [OF assms(1) e(1) ok])
      (use e(3,4) reg_ok_limits [OF assms(1)] reg_ok_ready [OF assms(1) e(1)] reg_ok_distinct [OF assms(1)] in \<open>auto simp: rg_put_def\<close>)
qed

lemma close_send_ok:
  assumes "reg_ok rg"
  shows "reg_ok (fst (rq_close_send rg sid))"
proof (cases "rg_get rg sid")
  case (Some e)
  note s = reg_ok_shares(2) [OF assms Some]
  have ok: "entry_ok (e\<lparr>en_send_open := False, en_outgoing_bytes := 0, en_outgoing := []\<rparr>)"
    using reg_ok_entry [OF assms Some] by (auto simp: entry_ok_def queue_ok_def)
  show ?thesis unfolding rq_close_send_def Some
    by (rule reg_ok_put [OF assms Some ok])
      (use s reg_ok_limits [OF assms] reg_ok_distinct [OF assms] in \<open>auto simp: rg_put_def\<close>)
qed (use assms in \<open>simp add: rq_close_send_def\<close>)

lemma close_recv_ok:
  assumes "reg_ok rg"
  shows "reg_ok (fst (rq_close_recv rg sid))"
proof (cases "rg_get rg sid")
  case (Some e)
  note s = reg_ok_shares(1) [OF assms Some]
  have ok: "entry_ok (e\<lparr>en_recv_open := False, en_incoming_bytes := 0, en_incoming := []\<rparr>)"
    using reg_ok_entry [OF assms Some] by (auto simp: entry_ok_def queue_ok_def)
  show ?thesis unfolding rq_close_recv_def Some
    by (rule reg_ok_put [OF assms Some ok])
      (use s reg_ok_limits [OF assms] reg_ok_ready [OF assms Some] reg_ok_distinct [OF assms] in \<open>auto simp: rg_put_def\<close>)
qed (use assms in \<open>simp add: rq_close_recv_def\<close>)

lemma remove_ok:
  assumes "reg_ok rg"
  shows "reg_ok (fst (rq_close rg sid))"
proof (cases "rg_get rg sid")
  case (Some e)
  note s = reg_ok_shares [OF assms Some]
  have d: "distinct (map fst (rg_streams rg))" using assms by (simp add: reg_ok_def)
  have get: "map_of (AList.delete sid (rg_streams rg)) i = (if i = sid then None else rg_get rg i)" for i
    by (simp add: delete_conv')
  show ?thesis using assms s Some stream_sum_delete [OF d Some, of en_incoming_bytes] stream_sum_delete [OF d Some, of en_outgoing_bytes]
    by (auto simp: rq_close_def reg_ok_def has_outgoing_def get distinct_delete split: if_split_asm)
qed (use assms in \<open>simp add: rq_close_def\<close>)

lemma dropped_ok:
  assumes "reg_ok rg" "rg_get rg sid = Some e"
  shows "reg_ok (rg_put rg sid (e\<lparr>en_alive := False\<rparr>))"
proof -
  have ok: "entry_ok (e\<lparr>en_alive := False\<rparr>)" using reg_ok_entry [OF assms] by (auto simp: entry_ok_def)
  show ?thesis
    by (rule reg_ok_put [OF assms ok])
      (use reg_ok_limits [OF assms(1)] reg_ok_ready [OF assms] reg_ok_distinct [OF assms(1)] in \<open>auto simp: rg_put_def\<close>)
qed

lemma reg_ok_frame: "reg_ok (rg\<lparr>rg_max_size := mx\<rparr>) = reg_ok rg" "reg_ok (rg\<lparr>rg_negotiated := b\<rparr>) = reg_ok rg"
  by (simp_all add: reg_ok_def has_outgoing_def)

context datagram_framing
begin

lemma dg_exec_ok:
  assumes "reg_ok rg" "dg_enabled p rg" "dg_exec D p rg = (r, rg', ws)"
  shows "reg_ok rg'"
proof -
  have f: "rg' = fst x" if "(DgDone, x) = (r, rg', ws)" for x using that by auto
  show ?thesis
  proof (cases p)
    case (DgDropped sid)
    then show ?thesis using assms dropped_ok by (auto split: option.split_asm)
  next
    case DgCloseAll
    then show ?thesis using f [of "rg_close rg"] assms(3) close_all_ok [of rg] by simp
  next
    case (DgCloseSend sid)
    then show ?thesis using f [of "rq_close_send rg sid"] assms(1,3) close_send_ok [of rg sid] by simp
  next
    case (DgCloseRecv sid)
    then show ?thesis using f [of "rq_close_recv rg sid"] assms(1,3) close_recv_ok [of rg sid] by simp
  next
    case (DgRemove sid)
    then show ?thesis using f [of "rq_close rg sid"] assms(1,3) remove_ok [of rg sid] by simp
  next
    case (DgReceive packet)
    then show ?thesis using assms(3) receive_ok [OF assms(1), of D packet] by (auto split: prod.split_asm)
  next
    case DgNext
    then show ?thesis using assms(3) next_ok [OF assms(1)] by (auto split: prod.split_asm)
  next
    case (DgTrySend sid payload)
    then show ?thesis using assms(3) try_send_ok [OF assms(1), of sid payload] by (auto split: prod.split_asm)
  next
    case (DgPollRecv sid)
    then show ?thesis using assms(3) poll_recv_ok [OF assms(1), of sid] by (auto split: prod.split_asm)
  qed (use assms register_ok in \<open>auto simp: rg_set_negotiated_def reg_ok_frame\<close>)
qed

lemma dg_run_ok: "dg_run D mx tr rg \<Longrightarrow> reg_ok rg"
  by (induction rule: dg_run.induct) (auto intro: registry_new_ok dg_exec_ok)

end

lemma dg_accepted_append: "dg_accepted D sid (tr @ tr') = dg_accepted D sid tr @ dg_accepted D sid tr'"
  by (induction D sid tr rule: dg_accepted.induct) auto

lemma dg_taken_append: "dg_taken sid (tr @ tr') = dg_taken sid tr @ dg_taken sid tr'"
  by (induction sid tr rule: dg_taken.induct) auto

lemma dg_arrived_append: "dg_arrived D sid (tr @ tr') = dg_arrived D sid tr @ dg_arrived D sid tr'"
  by (induction D sid tr rule: dg_arrived.induct) auto

lemma dg_delivered_append: "dg_delivered sid (tr @ tr') = dg_delivered sid tr @ dg_delivered sid tr'"
  by (induction sid tr rule: dg_delivered.induct) auto

lemma send_queue_put [simp]: "send_queue (rg_put rg sid e) i = (if i = sid then en_outgoing e else send_queue rg i)"
  by (simp add: send_queue_def)

lemma recv_queue_put [simp]: "recv_queue (rg_put rg sid e) i = (if i = sid then en_incoming e else recv_queue rg i)"
  by (simp add: recv_queue_def)

lemma queue_frame [simp]:
  "send_queue (rg\<lparr>rg_ready := a\<rparr>) i = send_queue rg i" "send_queue (rg\<lparr>rg_incoming := b\<rparr>) i = send_queue rg i"
  "send_queue (rg\<lparr>rg_outgoing := c\<rparr>) i = send_queue rg i" "send_queue (rg\<lparr>rg_max_size := d\<rparr>) i = send_queue rg i"
  "send_queue (rg\<lparr>rg_negotiated := f\<rparr>) i = send_queue rg i"
  "recv_queue (rg\<lparr>rg_ready := a\<rparr>) i = recv_queue rg i" "recv_queue (rg\<lparr>rg_incoming := b\<rparr>) i = recv_queue rg i"
  "recv_queue (rg\<lparr>rg_outgoing := c\<rparr>) i = recv_queue rg i" "recv_queue (rg\<lparr>rg_max_size := d\<rparr>) i = recv_queue rg i"
  "recv_queue (rg\<lparr>rg_negotiated := f\<rparr>) i = recv_queue rg i"
  by (simp_all add: send_queue_def recv_queue_def)

text \<open>The round robin serves the sessions that are ready in turn.\<close>

lemma next_serves:
  assumes "reg_ok rg" "rg_ready rg = sid # ready"
  shows "\<exists>rg' more. rg_next rg = (Some (sid, first_packet rg sid), rg', [NotifyCapacity]) \<and>
    rg_ready rg' = ready @ more \<and> (\<forall>i. i \<noteq> sid \<longrightarrow> first_packet rg' i = first_packet rg i)"
proof -
  obtain e packet outgoing where e: "rg_get rg sid = Some e" "en_outgoing e = packet # outgoing"
    "rg_next rg = (Some (sid, packet),
       (rg_put rg sid (e\<lparr>en_outgoing := outgoing, en_outgoing_bytes := en_outgoing_bytes e - length packet\<rparr>))
         \<lparr>rg_ready := (if outgoing \<noteq> [] then ready @ [sid] else ready), rg_outgoing := rg_outgoing rg - length packet\<rparr>,
       [NotifyCapacity])" (is "_ = (_, ?next, _)")
    by (rule next_step [OF assms])
  have "rg_get ?next i = (if i = sid then Some (e\<lparr>en_outgoing := outgoing, en_outgoing_bytes := en_outgoing_bytes e - length packet\<rparr>)
      else rg_get rg i)" for i
    by (simp add: rg_put_def update_conv')
  then have "\<forall>i. i \<noteq> sid \<longrightarrow> first_packet ?next i = first_packet rg i" by (simp add: first_packet_def)
  moreover have "first_packet rg sid = packet" using e(1,2) by (simp add: first_packet_def)
  moreover have "rg_ready ?next = ready @ (if outgoing \<noteq> [] then [sid] else [])" by simp
  ultimately show ?thesis using e(3) by blast
qed

lemma nexts_fair:
  assumes "reg_ok rg" "rg_ready rg = as @ bs"
  shows "fst (dg_nexts (length as) rg) = map (\<lambda>sid. Some (sid, first_packet rg sid)) as"
  using assms
proof (induction as arbitrary: rg bs)
  case (Cons sid as)
  obtain rg' more where n: "rg_next rg = (Some (sid, first_packet rg sid), rg', [NotifyCapacity])"
      "rg_ready rg' = (as @ bs) @ more" "\<forall>i. i \<noteq> sid \<longrightarrow> first_packet rg' i = first_packet rg i"
    using next_serves [OF Cons.prems(1), of sid "as @ bs"] Cons.prems(2) by auto
  have "sid \<notin> set as" using reg_ok_distinct [OF Cons.prems(1)] Cons.prems(2) by auto
  then have "map (\<lambda>sid. Some (sid, first_packet rg' sid)) as = map (\<lambda>sid. Some (sid, first_packet rg sid)) as"
    using n(3) by auto
  then show ?case using Cons.IH [of rg' "bs @ more"] next_ok [OF Cons.prems(1) n(1)] n(1,2)
    by (auto split: prod.split)
qed simp

lemma fst_eqI: "(DgDone, x) = (r, rg', ws) \<Longrightarrow> rg' = fst x \<and> ws = snd x \<and> r = DgDone"
  by auto

lemma send_queue_receive: "rg_receive D rg packet = (r, rg', bad, ws) \<Longrightarrow> send_queue rg' sid = send_queue rg sid"
  by (auto simp: rg_receive_def Let_def send_queue_def split: sum.split_asm option.split_asm if_split_asm)

lemma recv_queue_receive:
  assumes "rg_receive D rg packet = (r, rg', bad, ws)"
  shows "subseq (recv_queue rg' sid) (recv_queue rg sid @ dg_arrived D sid [(DgReceive packet, x)])"
  using assms
  by (auto simp: rg_receive_def Let_def recv_queue_def split: sum.split_asm option.split_asm if_split_asm)

lemma next_queues:
  assumes "reg_ok rg" "rg_next rg = (p, rg', ws)"
  shows "dg_taken sid [(DgNext, DgNextResult p)] @ send_queue rg' sid = send_queue rg sid \<and> recv_queue rg' sid = recv_queue rg sid"
proof (cases "rg_ready rg")
  case Nil
  then show ?thesis using assms by (auto simp: rg_next_def)
next
  case (Cons i ready)
  show ?thesis
    by (rule next_step [OF assms(1) Cons]) (use assms(2) in \<open>auto simp: send_queue_def recv_queue_def rg_put_def update_conv'\<close>)
qed

lemma try_send_queues:
  assumes "reg_ok rg" "rq_try_send_buf D rg i payload = (r, rg', ws)"
  shows "send_queue rg' sid = send_queue rg sid @ dg_accepted D sid [(DgTrySend i payload, DgSendResult r)] \<and>
    recv_queue rg' sid = recv_queue rg sid"
proof (cases r)
  case (Inl k)
  then show ?thesis using try_send_refused assms(2) by fastforce
next
  case (Inr u)
  show ?thesis
    by (rule try_send_step [OF assms(1), of D i payload rg' ws])
      (use assms(2) Inr in \<open>auto simp: send_queue_def recv_queue_def rg_put_def update_conv'\<close>)
qed

lemma poll_recv_queues:
  assumes "reg_ok rg" "rq_poll_recv rg i = (r, rg')"
  shows "dg_delivered sid [(DgPollRecv i, DgRecvResult r)] @ recv_queue rg' sid = recv_queue rg sid \<and> send_queue rg' sid = send_queue rg sid"
proof (cases "\<exists>packet. r = Ready (Some packet)")
  case False
  then show ?thesis using poll_recv_idle [OF assms(2)] by auto
next
  case True
  then obtain packet where p: "r = Ready (Some packet)" by blast
  show ?thesis
    by (rule poll_recv_step [OF assms(1), of i packet rg'])
      (use assms(2) p in \<open>auto simp: send_queue_def recv_queue_def rg_put_def update_conv'\<close>)
qed

lemma close_queues:
  "send_queue (fst (rq_close_send rg i)) sid = (if i = sid then [] else send_queue rg sid)"
  "recv_queue (fst (rq_close_send rg i)) sid = recv_queue rg sid"
  "send_queue (fst (rq_close_recv rg i)) sid = send_queue rg sid"
  "recv_queue (fst (rq_close_recv rg i)) sid = (if i = sid then [] else recv_queue rg sid)"
  "send_queue (fst (rq_close rg i)) sid = (if i = sid then [] else send_queue rg sid)"
  "recv_queue (fst (rq_close rg i)) sid = (if i = sid then [] else recv_queue rg sid)"
  "send_queue (fst (rg_close rg)) sid = []" "recv_queue (fst (rg_close rg)) sid = []"
  by (auto simp: rq_close_send_def rq_close_recv_def rq_close_def rg_close_def send_queue_def recv_queue_def
      rg_put_def update_conv' delete_conv' split: option.split)

lemma register_queues:
  assumes "rg_get rg i = None"
  shows "send_queue (fst (rg_register rg i b)) sid = send_queue rg sid \<and> recv_queue (fst (rg_register rg i b)) sid = recv_queue rg sid"
  using assms by (auto simp: rg_register_def send_queue_def recv_queue_def rg_put_def update_conv' entry_new_def)

lemma dropped_queues:
  "rg_get rg i = Some e \<Longrightarrow> send_queue (rg_put rg i (e\<lparr>en_alive := False\<rparr>)) sid = send_queue rg sid \<and>
    recv_queue (rg_put rg i (e\<lparr>en_alive := False\<rparr>)) sid = recv_queue rg sid"
  by (auto simp: send_queue_def recv_queue_def)

lemma exec_queues:
  assumes "reg_ok rg" "dg_enabled p rg" "dg_exec D p rg = (r, rg', ws)"
  shows "(if dg_discards sid p then dg_taken sid [(p, r)] = [] \<and> send_queue rg' sid = [] \<and> dg_accepted D sid [(p, r)] = []
     else dg_taken sid [(p, r)] @ send_queue rg' sid = send_queue rg sid @ dg_accepted D sid [(p, r)]) \<and>
    subseq (dg_delivered sid [(p, r)] @ recv_queue rg' sid) (recv_queue rg sid @ dg_arrived D sid [(p, r)])"
proof (cases p)
  case (DgReceive packet)
  obtain x bad where "rg_receive D rg packet = (x, rg', bad, ws)" "r = DgDone"
    using assms(3) DgReceive by (auto split: prod.split_asm)
  then show ?thesis using send_queue_receive [of D rg packet x rg' bad ws sid] recv_queue_receive [of D rg packet x rg' bad ws sid r] DgReceive
    by simp
next
  case DgNext
  obtain x where x: "rg_next rg = (x, rg', ws)" "r = DgNextResult x" using assms(3) DgNext by (auto split: prod.split_asm)
  show ?thesis using next_queues [OF assms(1) x(1), of sid] DgNext x(2) by auto
next
  case (DgTrySend i payload)
  obtain x where x: "rq_try_send_buf D rg i payload = (x, rg', ws)" "r = DgSendResult x"
    using assms(3) DgTrySend by (auto split: prod.split_asm)
  show ?thesis using try_send_queues [OF assms(1) x(1), of sid] DgTrySend x(2) by auto
next
  case (DgPollRecv i)
  obtain x where x: "rq_poll_recv rg i = (x, rg')" "r = DgRecvResult x" using assms(3) DgPollRecv by (auto split: prod.split_asm)
  show ?thesis using poll_recv_queues [OF assms(1) x(1), of sid] DgPollRecv x(2) by auto
next
  case (DgRegister i b)
  then show ?thesis using assms register_queues [of rg i b sid] by auto
next
  case (DgDropped i)
  then show ?thesis using assms(3) dropped_queues [of rg i _ sid] by (auto split: option.split_asm)
next
  case DgCloseAll
  note fin = fst_eqI [OF assms(3) [unfolded DgCloseAll dg_exec.simps]]
  show ?thesis using fin by (simp add: DgCloseAll close_queues)
next
  case (DgCloseSend i)
  note fin = fst_eqI [OF assms(3) [unfolded DgCloseSend dg_exec.simps]]
  show ?thesis using fin by (simp add: DgCloseSend close_queues)
next
  case (DgCloseRecv i)
  note fin = fst_eqI [OF assms(3) [unfolded DgCloseRecv dg_exec.simps]]
  show ?thesis using fin by (simp add: DgCloseRecv close_queues)
next
  case (DgRemove i)
  note fin = fst_eqI [OF assms(3) [unfolded DgRemove dg_exec.simps]]
  show ?thesis using fin by (simp add: DgRemove close_queues)
qed (use assms in \<open>auto simp: rg_set_negotiated_def\<close>)

context datagram_framing
begin

lemma run_queues:
  assumes "dg_run D mx tr rg"
  shows "subseq (dg_taken sid tr @ send_queue rg sid) (dg_accepted D sid tr) \<and>
    (list_all (\<lambda>(p, r). \<not> dg_discards sid p) tr \<longrightarrow> dg_taken sid tr @ send_queue rg sid = dg_accepted D sid tr) \<and>
    subseq (dg_delivered sid tr @ recv_queue rg sid) (dg_arrived D sid tr)"
  using assms
proof (induction rule: dg_run.induct)
  case dg_start
  show ?case by (simp add: registry_new_def send_queue_def recv_queue_def)
next
  case (dg_then tr rg p r rg' ws)
  note q = exec_queues [OF dg_run_ok [OF dg_then.hyps(1)] dg_then.hyps(2,3), of sid]
  have s: "subseq (dg_taken sid tr @ dg_taken sid [(p, r)] @ send_queue rg' sid) (dg_accepted D sid tr @ dg_accepted D sid [(p, r)])"
  proof (cases "dg_discards sid p")
    case True
    then show ?thesis using q dg_then.IH subseq_order.order_trans [of "dg_taken sid tr" "dg_taken sid tr @ send_queue rg sid"] by auto
  next
    case False
    then have "dg_taken sid tr @ dg_taken sid [(p, r)] @ send_queue rg' sid = (dg_taken sid tr @ send_queue rg sid) @ dg_accepted D sid [(p, r)]"
      using q by simp
    then show ?thesis using list_emb_append_mono [OF conjunct1 [OF dg_then.IH] subseq_order.order_refl] by simp
  qed
  have d: "subseq (dg_delivered sid tr @ dg_delivered sid [(p, r)] @ recv_queue rg' sid) (dg_arrived D sid tr @ dg_arrived D sid [(p, r)])"
  proof -
    have a: "subseq (dg_delivered sid tr @ dg_delivered sid [(p, r)] @ recv_queue rg' sid)
        (dg_delivered sid tr @ recv_queue rg sid @ dg_arrived D sid [(p, r)])" using q by (simp add: list_emb_append_mono)
    have b: "subseq ((dg_delivered sid tr @ recv_queue rg sid) @ dg_arrived D sid [(p, r)]) (dg_arrived D sid tr @ dg_arrived D sid [(p, r)])"
      using dg_then.IH by (intro list_emb_append_mono) simp_all
    show ?thesis by (rule subseq_order.order_trans [OF a b [unfolded append_assoc]])
  qed
  have e: "dg_taken sid tr @ dg_taken sid [(p, r)] @ send_queue rg' sid = dg_accepted D sid tr @ dg_accepted D sid [(p, r)]"
    if "list_all (\<lambda>(p, r). \<not> dg_discards sid p) (tr @ [(p, r)])"
  proof -
    have "dg_taken sid [(p, r)] @ send_queue rg' sid = send_queue rg sid @ dg_accepted D sid [(p, r)]"
      "dg_accepted D sid tr = dg_taken sid tr @ send_queue rg sid" using that q dg_then.IH by simp_all
    then show ?thesis by simp
  qed
  show ?case unfolding dg_taken_append dg_accepted_append dg_delivered_append dg_arrived_append append_assoc
    using s d e by blast
qed

end

lemma quarter_less: "(sid :: u64) div 4 < 2 ^ 62"
proof -
  have "unat sid div 4 < 2 ^ 62" using unat_less_pow [of sid] by (simp add: less_mult_imp_div_less del: unat_u64_less)
  then show ?thesis by (simp add: word_less_nat_alt unat_div_distrib)
qed

interpretation rfc9297: datagram_framing rfc9297_codec
proof
  fix sid :: u64 and payload
  let ?q = "sid div 4"
  show "length (dc_encode rfc9297_codec sid payload) = prefix_size sid + length payload"
    by (auto simp: rfc9297_codec_def put_varint_def prefix_size_def Let_def put_uint_def word_less_nat_alt word_le_nat_alt)
  assume s: "sid mod 4 = 0" "sid < 2 ^ 62"
  obtain n where n: "length (put_varint [] ?q) = n" "varint (put_varint [] ?q @ payload) = Some (?q, n)"
    using varint_put [OF quarter_less, of "[]" sid payload] by blast
  have "?q < 2 ^ 60" using s(2) by (simp add: word_less_nat_alt unat_div_distrib)
  moreover have "?q * 4 = sid" using s(1) by (metis add.right_neutral mult.commute mult_div_mod_eq)
  ultimately show "dc_decode rfc9297_codec (dc_encode rfc9297_codec sid payload) = Inr (sid, payload)"
    using n by (simp add: rfc9297_codec_def)
qed

lemma recv_waits_iff: "recv_waits rg sid \<longleftrightarrow> (\<exists>e. rg_get rg sid = Some e \<and> en_incoming e = [] \<and> en_recv_open e)"
  by (auto simp: recv_waits_def rq_poll_recv_def split: option.split list.split)

lemma exec_get:
  assumes "reg_ok rg" "dg_enabled p rg" "dg_exec D p rg = (r, rg', ws)" "rg_get rg sid = Some e"
  shows "WakeReceived sid \<in> set ws \<or> (p = DgCloseAll \<and> \<not> en_alive e) \<or>
    (\<exists>e'. rg_get rg' sid = Some e' \<and> en_recv_open e' = en_recv_open e \<and>
       (en_incoming e = [] \<longrightarrow> en_incoming e' = []))"
proof (cases p)
  case (DgReceive packet)
  then show ?thesis using assms(3,4)
    by (auto simp: rg_receive_def Let_def split: sum.split_asm option.split_asm if_split_asm)
next
  case DgNext
  show ?thesis
  proof (cases "rg_ready rg")
    case Nil
    then show ?thesis using assms(3,4) DgNext by (auto simp: rg_next_def)
  next
    case (Cons i ready)
    show ?thesis
      by (rule next_step [OF assms(1) Cons], cases "i = sid")
        (use assms(3,4) DgNext in \<open>auto simp: rg_put_def update_conv'\<close>)
  qed
next
  case (DgTrySend i payload)
  obtain x where x: "rq_try_send_buf D rg i payload = (x, rg', ws)" using assms(3) DgTrySend by (auto split: prod.split_asm)
  show ?thesis
  proof (cases x)
    case (Inl k)
    then show ?thesis using try_send_refused x assms(4) by blast
  next
    case (Inr u)
    show ?thesis
      by (rule try_send_step [OF assms(1), of D i payload rg' ws], use x Inr in simp, cases "i = sid")
        (use x Inr assms(4) in \<open>auto simp: rg_put_def update_conv'\<close>)
  qed
next
  case (DgPollRecv i)
  then show ?thesis using assms(3,4)
    by (auto simp: rq_poll_recv_def rg_put_def update_conv' split: option.split_asm list.split_asm if_split_asm)
next
  case DgCloseAll
  have "WakeReceived sid \<in> set (snd (rg_close rg)) \<or> \<not> en_alive e"
    using map_of_SomeD [OF assms(4)] by (force simp: rg_close_def)
  then show ?thesis using fst_eqI [OF assms(3) [unfolded DgCloseAll dg_exec.simps]] DgCloseAll by auto
next
  case (DgCloseSend i)
  then show ?thesis using fst_eqI [OF assms(3) [unfolded DgCloseSend dg_exec.simps]] assms(4)
    by (auto simp: rq_close_send_def rg_put_def update_conv' split: option.split)
next
  case (DgCloseRecv i)
  then show ?thesis using fst_eqI [OF assms(3) [unfolded DgCloseRecv dg_exec.simps]] assms(4)
    by (auto simp: rq_close_recv_def rg_put_def update_conv' split: option.split)
next
  case (DgRemove i)
  then show ?thesis using fst_eqI [OF assms(3) [unfolded DgRemove dg_exec.simps]] assms(4)
    by (auto simp: rq_close_def delete_conv' split: option.split)
qed (use assms in \<open>auto simp: rg_register_def rg_set_negotiated_def split: option.split_asm\<close>)

lemma exec_wakes_reader:
  assumes "reg_ok rg" "dg_enabled p rg" "dg_exec D p rg = (r, rg', ws)"
    and "recv_waits rg sid" "\<not> recv_waits rg' sid" "\<And>e. rg_get rg sid = Some e \<Longrightarrow> en_alive e"
  shows "WakeReceived sid \<in> set ws"
proof -
  obtain e where e: "rg_get rg sid = Some e" "en_incoming e = []" "en_recv_open e"
    using assms(4) by (auto simp: recv_waits_iff)
  show ?thesis using exec_get [OF assms(1-3) e(1)] e assms(5,6) by (auto simp: recv_waits_iff)
qed

lemma ready_full_iff:
  "rq_ready rg sid = Inl DgFull \<longleftrightarrow>
   (\<exists>e mx. rg_get rg sid = Some e \<and> en_send_open e \<and> rg_negotiated rg \<and> rg_max_size rg = Some mx \<and>
      prefix_size sid \<le> mx \<and> dg_no_room rg e (min mx SESSION_BYTES))"
  by (auto simp: rq_ready_def split: option.split)

lemma exec_usage:
  assumes "reg_ok rg" "dg_enabled p rg" "dg_exec D p rg = (r, rg', ws)" "rg_get rg sid = Some e"
  shows "NotifyCapacity \<in> set ws \<or> p = DgNegotiated False \<or>
    (\<exists>e'. rg_get rg' sid = Some e' \<and> en_send_open e' = en_send_open e \<and> length (en_outgoing e) \<le> length (en_outgoing e') \<and>
       en_outgoing_bytes e \<le> en_outgoing_bytes e' \<and> rg_outgoing rg \<le> rg_outgoing rg' \<and>
       rg_max_size rg' = rg_max_size rg \<and> (rg_negotiated rg \<longrightarrow> rg_negotiated rg'))"
proof (cases p)
  case (DgReceive packet)
  then show ?thesis using assms(3,4)
    by (fastforce simp: rg_receive_def Let_def rg_put_def update_conv' split: sum.split_asm option.split_asm if_split_asm)
next
  case DgNext
  show ?thesis
  proof (cases "rg_ready rg")
    case Nil
    then show ?thesis using assms(3,4) DgNext by (auto simp: rg_next_def)
  next
    case (Cons i ready)
    show ?thesis by (rule next_step [OF assms(1) Cons]) (use assms(3) DgNext in auto)
  qed
next
  case (DgTrySend i payload)
  obtain x where x: "rq_try_send_buf D rg i payload = (x, rg', ws)" using assms(3) DgTrySend by (auto split: prod.split_asm)
  show ?thesis
  proof (cases x)
    case (Inl k)
    then show ?thesis using try_send_refused x assms(4) by blast
  next
    case (Inr u)
    show ?thesis
      by (rule try_send_step [OF assms(1), of D i payload rg' ws], use x Inr in simp, cases "i = sid")
        (use assms(4) in \<open>auto simp: rg_put_def update_conv'\<close>)
  qed
next
  case (DgPollRecv i)
  then show ?thesis using assms(3,4)
    by (fastforce simp: rq_poll_recv_def rg_put_def update_conv' split: option.split_asm list.split_asm if_split_asm)
next
  case DgCloseAll
  then show ?thesis using fst_eqI [OF assms(3) [unfolded DgCloseAll dg_exec.simps]] by (simp add: rg_close_def)
next
  case (DgCloseSend i)
  then show ?thesis using fst_eqI [OF assms(3) [unfolded DgCloseSend dg_exec.simps]] by (simp add: rq_close_send_def)
next
  case (DgCloseRecv i)
  then show ?thesis using fst_eqI [OF assms(3) [unfolded DgCloseRecv dg_exec.simps]] assms(4)
    by (cases "rg_get rg i") (auto simp: rq_close_recv_def rg_put_def update_conv')
next
  case (DgRemove i)
  then show ?thesis using fst_eqI [OF assms(3) [unfolded DgRemove dg_exec.simps]] by (simp add: rq_close_def)
next
  case (DgNegotiated b)
  then show ?thesis using assms by (cases b) (auto simp: rg_set_negotiated_def)
qed (use assms in \<open>auto simp: rg_register_def rg_put_def update_conv' split: option.split_asm\<close>)

lemma no_room_mono:
  assumes "reg_ok rg" "rg_get rg sid = Some e" "reg_ok rg'" "rg_get rg' sid = Some e'"
    and "length (en_outgoing e) \<le> length (en_outgoing e')" "en_outgoing_bytes e \<le> en_outgoing_bytes e'" "rg_outgoing rg \<le> rg_outgoing rg'"
    and "dg_no_room rg e n"
  shows "dg_no_room rg' e' n"
proof -
  have q: "en_outgoing_bytes e \<le> SESSION_BYTES" "en_outgoing_bytes e' \<le> SESSION_BYTES" "length (en_outgoing e') \<le> PACKETS"
    using reg_ok_entry [OF assms(1,2)] reg_ok_entry [OF assms(3,4)] by (auto simp: entry_ok_def queue_ok_def)
  then show ?thesis using assms(5-8) reg_ok_limits [OF assms(1)] reg_ok_limits [OF assms(3)]
    by (auto simp: dg_no_room_def)
qed

lemma exec_wakes_sender:
  assumes "reg_ok rg" "reg_ok rg'" "dg_enabled p rg" "dg_exec D p rg = (r, rg', ws)"
    and "rq_ready rg sid = Inl DgFull" "rq_ready rg' sid \<noteq> Inl DgFull" "p \<noteq> DgNegotiated False"
  shows "NotifyCapacity \<in> set ws"
proof (rule ccontr)
  assume n: "NotifyCapacity \<notin> set ws"
  obtain e mx where e: "rg_get rg sid = Some e" "en_send_open e" "rg_negotiated rg" "rg_max_size rg = Some mx"
      "prefix_size sid \<le> mx" "dg_no_room rg e (min mx SESSION_BYTES)"
    using assms(5) by (auto simp: ready_full_iff)
  obtain e' where e': "rg_get rg' sid = Some e'" "en_send_open e'" "length (en_outgoing e) \<le> length (en_outgoing e')"
      "en_outgoing_bytes e \<le> en_outgoing_bytes e'" "rg_outgoing rg \<le> rg_outgoing rg'" "rg_max_size rg' = Some mx" "rg_negotiated rg'"
    using exec_usage [OF assms(1,3,4) e(1)] n assms(7) e(2-4) by auto
  have "rq_ready rg' sid = Inl DgFull"
    using no_room_mono [OF assms(1) e(1) assms(2) e'(1,3,4,5) e(6)] e' e(5) by (auto simp: ready_full_iff)
  then show False using assms(6) by simp
qed

text \<open>The driver.\<close>

lemma drive_receive_ok:
  assumes "reg_ok (dv_registry dv)" "drive_receive Q D n dv = (res, dv')"
  shows "reg_ok (dv_registry dv')"
  using assms
proof (induction n arbitrary: dv)
  case (Suc n)
  then show ?case
    by (auto split: prod.split_asm poll.split_asm sum.split_asm option.split_asm elim!: Suc.IH [rotated] dest: receive_ok)
qed auto

lemma drive_take_ok: "reg_ok (dv_registry dv) \<Longrightarrow> reg_ok (dv_registry (drive_take dv))"
  using next_ok by (auto simp: drive_take_def split: prod.split)

lemma drive_send_ok:
  assumes "reg_ok (dv_registry dv)" "drive_send Q n dv = (res, dv')"
  shows "reg_ok (dv_registry dv')"
  using assms
proof (induction n arbitrary: dv)
  case (Suc n)
  then show ?case using drive_take_ok [OF Suc.prems(1)]
    by (auto simp: Let_def split: prod.split_asm poll.split_asm option.split_asm if_split_asm dg_send_outcome.split_asm elim!: Suc.IH [rotated])
qed auto

lemma drive_poll_ok:
  assumes "reg_ok (dv_registry dv)" "drive_poll Q D dv = (res, dv')"
  shows "reg_ok (dv_registry dv')"
proof -
  have "reg_ok (dv_registry (drive_max_size Q dv))" using assms(1) by (simp add: drive_max_size_def Let_def reg_ok_frame)
  moreover obtain r1 dv1 where r: "drive_receive Q D 32 (drive_max_size Q dv) = (r1, dv1)" by fastforce
  ultimately have "reg_ok (dv_registry dv1)" by (rule drive_receive_ok)
  then show ?thesis using assms(2) r
    by (auto simp: drive_poll_def split: prod.split_asm sum.split_asm dest: drive_send_ok)
qed

lemma drive_receive_stops:
  assumes "drive_receive Q D n dv = (Inr (), dv')" "\<not> dv_woken dv'"
  shows "\<exists>r. qd_poll_recv Q r = (Pending, dv_receiver dv')"
  using assms
proof (induction n arbitrary: dv)
  case (Suc n)
  then show ?case by (auto split: prod.split_asm poll.split_asm sum.split_asm option.split_asm)
qed auto

lemma drive_send_stops:
  assumes "drive_send Q n dv = (Inr (), dv')" "\<not> dv_woken dv'" "reg_ok (dv_registry dv)"
  shows "(dv_pending dv' = None \<and> rg_ready (dv_registry dv') = []) \<or> 
    (\<exists>s sid packet. dv_pending dv' = Some (sid, packet) \<and> qd_poll_send Q s packet = (Pending, dv_sender dv'))"
  using assms
proof (induction n arbitrary: dv)
  case (Suc n)
  let ?dv = "drive_take dv"
  have ok: "reg_ok (dv_registry ?dv)" by (rule drive_take_ok [OF Suc.prems(3)])
  show ?case
  proof (cases "dv_pending ?dv")
    case None
    then have "rg_ready (dv_registry ?dv) = []"
      using next_from_ready [OF Suc.prems(3)]
      by (cases "rg_ready (dv_registry dv)") (auto simp: drive_take_def rg_next_def split: prod.split_asm if_split_asm)
    then show ?thesis using Suc.prems(1) None by (auto simp: Let_def)
  next
    case (Some p)
    obtain sid packet where p: "p = (sid, packet)" by fastforce
    then show ?thesis using Suc.prems Some ok
      by (auto simp: Let_def split: prod.split_asm poll.split_asm option.split_asm if_split_asm dg_send_outcome.split_asm dest!: Suc.IH)
  qed
qed auto

lemma dg_execs_run: "dg_run D mx tr rg \<Longrightarrow> dg_execs D ps rg = Some (tr', rg') \<Longrightarrow> dg_run D mx (tr @ tr') rg'"
proof (induction ps arbitrary: tr tr' rg)
  case (Cons p ps)
  obtain r rg1 ws where e: "dg_exec D p rg = (r, rg1, ws)" by (cases "dg_exec D p rg") auto
  obtain tr1 where "dg_enabled p rg" "dg_execs D ps rg1 = Some (tr1, rg')" "tr' = (p, r) # tr1"
    using Cons.prems(2) e by (auto split: if_split_asm)
  then show ?case using Cons.IH [OF dg_then [OF Cons.prems(1) _ e], of tr1] by simp
qed auto

lemma dg_continues_refl [simp, intro]: "dg_continues D rg rg"
  unfolding dg_continues_def by (rule exI [of _ "[]"]) simp

lemma dg_continues_step: "dg_exec D p rg = (r, rg1, ws) \<Longrightarrow> dg_enabled p rg \<Longrightarrow> dg_continues D rg1 rg' \<Longrightarrow> dg_continues D rg rg'"
  unfolding dg_continues_def by (elim exE) (rule exI [of _ "p # _"], auto)

lemma continues_receive:
  "rg_receive D rg packet = (x, rg1, bad, ws) \<Longrightarrow> dg_continues D rg1 rg' \<Longrightarrow> dg_continues D rg rg'"
  by (rule dg_continues_step [of D "DgReceive packet"]) auto

lemma drive_receive_continues:
  assumes "drive_receive Q D n dv = (res, dv')"
  shows "dg_continues D (dv_registry dv) (dv_registry dv')"
  using assms
proof (induction n arbitrary: dv)
  case (Suc n)
  then show ?case
    by (auto split: prod.split_asm poll.split_asm sum.split_asm option.split_asm
        dest!: Suc.IH intro: continues_receive)
qed auto

lemma drive_take_continues:
  assumes "dg_continues D (dv_registry (drive_take dv)) rg'"
  shows "dg_continues D (dv_registry dv) rg'"
  using assms dg_continues_step [of D DgNext] by (auto simp: drive_take_def split: prod.split_asm if_split_asm)

lemma drive_send_continues:
  assumes "drive_send Q n dv = (res, dv')"
  shows "dg_continues D (dv_registry dv) (dv_registry dv')"
  using assms
proof (induction n arbitrary: dv)
  case (Suc n)
  show ?case
    by (rule drive_take_continues) (use Suc.prems in \<open>auto simp: Let_def
      split: prod.split_asm poll.split_asm option.split_asm if_split_asm dg_send_outcome.split_asm dest!: Suc.IH\<close>)
qed auto

lemma dg_continues_trans: "dg_continues D rg rg1 \<Longrightarrow> dg_continues D rg1 rg' \<Longrightarrow> dg_continues D rg rg'"
proof -
  have "dg_execs D ps rg = Some (tr, rg1) \<Longrightarrow> dg_continues D rg1 rg' \<Longrightarrow> dg_continues D rg rg'" for ps tr
    by (induction ps arbitrary: rg tr) (auto split: if_split_asm prod.split_asm intro: dg_continues_step)
  then show "dg_continues D rg rg1 \<Longrightarrow> dg_continues D rg1 rg' \<Longrightarrow> dg_continues D rg rg'" unfolding dg_continues_def [of D rg rg1] by blast
qed

lemma drive_poll_continues:
  assumes "drive_poll Q D dv = (res, dv')"
  shows "dg_continues D (dv_registry dv) (dv_registry dv')"
proof -
  let ?mx = "qd_max_size Q (dv_sender dv)"
  have m: "dg_exec D (DgMaxSize ?mx) (dv_registry dv) = (DgDone, dv_registry (drive_max_size Q dv),
      if rg_max_size (dv_registry dv) \<noteq> ?mx then [NotifyCapacity] else [])"
    by (simp add: drive_max_size_def Let_def)
  obtain r1 dv1 where r: "drive_receive Q D 32 (drive_max_size Q dv) = (r1, dv1)" by fastforce
  have "dg_continues D (dv_registry dv) (dv_registry dv1)"
    by (rule dg_continues_step [OF m _ drive_receive_continues [OF r]]) simp
  moreover have "dg_continues D (dv_registry dv1) (dv_registry dv')"
    using assms r by (auto simp: drive_poll_def split: prod.split_asm sum.split_asm dest: drive_send_continues)
  ultimately show ?thesis by (rule dg_continues_trans)
qed

lemma drive_send_keeps:
  assumes "drive_send Q n dv = (res, dv')"
  shows "dv_receiver dv' = dv_receiver dv \<and> (dv_woken dv \<longrightarrow> dv_woken dv')"
  using assms
proof (induction n arbitrary: dv)
  case (Suc n)
  have "dv_receiver (drive_take dv) = dv_receiver dv" "dv_woken (drive_take dv) = dv_woken dv"
    by (auto simp: drive_take_def split: prod.split)
  then show ?case using Suc.prems
    by (auto simp: Let_def split: prod.split_asm poll.split_asm option.split_asm if_split_asm dg_send_outcome.split_asm dest!: Suc.IH)
qed auto

lemma drive_early [simp]: "drive_receive Q D n dv \<noteq> (Inl Pending, dv')" "drive_send Q n dv \<noteq> (Inl Pending, dv')"
  by (induction n arbitrary: dv)
    (auto simp: Let_def split: prod.split poll.split sum.split option.split dg_send_outcome.split)

lemma drive_poll_sleeps:
  fixes D :: "'e datagram_codec"
  assumes "reg_ok (dv_registry dv)" "drive_poll Q D dv = (Pending, dv')" "\<not> dv_woken dv'"
  shows "(\<exists>r. qd_poll_recv Q r = (Pending, dv_receiver dv')) \<and>
      (dv_pending dv' = None \<and> rg_ready (dv_registry dv') = [] \<or>
       (\<exists>s sid packet. dv_pending dv' = Some (sid, packet) \<and> qd_poll_send Q s packet = (Pending, dv_sender dv')))"
proof -
  obtain r1 dv1 where r: "drive_receive Q D 32 (drive_max_size Q dv) = (r1, dv1)" by fastforce
  obtain r2 dv2 where s: "drive_send Q 32 dv1 = (r2 :: (('e drive_error + unit) poll) + unit, dv2)" by fastforce
  have "r1 = Inr ()" "r2 = Inr ()" "dv2 = dv'"
    using assms(2) r s by (cases r1; cases r2; auto simp: drive_poll_def)+
  moreover have "reg_ok (dv_registry dv1)"
    by (rule drive_receive_ok [OF _ r]) (use assms(1) in \<open>simp add: drive_max_size_def Let_def reg_ok_frame\<close>)
  ultimately show ?thesis
    using drive_receive_stops r drive_send_stops s drive_send_keeps [OF s] assms(3) by metis
qed

lemma continues_run: "dg_run D mx tr rg \<Longrightarrow> dg_continues D rg rg' \<Longrightarrow> \<exists>tr'. dg_run D mx (tr @ tr') rg'"
  unfolding dg_continues_def using dg_execs_run by blast

context datagram_framing
begin

text \<open>A datagram the peer framed for an open session with room is queued there as it was sent.\<close>

lemma packet_arrives:
  assumes "reg_ok rg" "rg_get rg sid = Some e" "en_recv_open e" "en_alive e" "en_semantics e"
    and "sid mod 4 = 0" "sid < 2 ^ 62" "length (en_incoming e) < PACKETS"
    and "en_incoming_bytes e + length payload \<le> SESSION_BYTES" "rg_incoming rg + length payload \<le> CONNECTION_BYTES"
    and "rg_receive D rg (dc_encode D sid payload) = (r, rg', bad, ws)"
  shows "recv_queue rg' sid = recv_queue rg sid @ [payload] \<and> r = Inr () \<and> bad = None \<and> WakeReceived sid \<in> set ws"
proof -
  have "\<not> length payload > SESSION_BYTES - en_incoming_bytes e" "\<not> length payload > CONNECTION_BYTES - rg_incoming rg"
    using assms(9,10) by arith+
  then show ?thesis using assms
    by (auto simp: rg_receive_def decode_encode_datagram Let_def usize_sub_def recv_queue_def rg_put_def update_conv')
qed

end

text \<open>C20.  However senders, readers, the peer and the driver interleave on a connection, the counters of the
  datagram registry are the bytes queued, at most 1 MiB per connection and direction; a session holds at
  most 64 packets and 128 KiB per direction; the sessions in the ready queue are those with packets to
  send, each once.\<close>

theorem registry_budgets:
  assumes "datagram_framing D" "dg_run D mx tr rg"
  shows "rg_incoming rg = stream_sum (sum_list \<circ> map length \<circ> en_incoming) (rg_streams rg) \<and> rg_incoming rg \<le> 1048576 \<and>
    rg_outgoing rg = stream_sum (sum_list \<circ> map length \<circ> en_outgoing) (rg_streams rg) \<and> rg_outgoing rg \<le> 1048576 \<and>
    (\<forall>sid. length (send_queue rg sid) \<le> 64 \<and> length (recv_queue rg sid) \<le> 64 \<and>
       sum_list (map length (send_queue rg sid)) \<le> 131072 \<and> sum_list (map length (recv_queue rg sid)) \<le> 131072) \<and>
    distinct (rg_ready rg) \<and> set (rg_ready rg) = {sid. send_queue rg sid \<noteq> []}"
proof -
  have ok: "reg_ok rg" using assms by (rule datagram_framing.dg_run_ok)
  have "entry_ok e" if "(sid, e) \<in> set (rg_streams rg)" for sid e
    using ok that by (auto simp: reg_ok_def map_of_eq_Some_iff)
  then have "stream_sum en_incoming_bytes (rg_streams rg) = stream_sum (sum_list \<circ> map length \<circ> en_incoming) (rg_streams rg)"
      "stream_sum en_outgoing_bytes (rg_streams rg) = stream_sum (sum_list \<circ> map length \<circ> en_outgoing) (rg_streams rg)"
    by (auto simp: stream_sum_def entry_ok_def queue_ok_def intro!: arg_cong [of _ _ sum_list] map_cong)
  moreover have "length (send_queue rg sid) \<le> 64 \<and> length (recv_queue rg sid) \<le> 64 \<and>
       sum_list (map length (send_queue rg sid)) \<le> 131072 \<and> sum_list (map length (recv_queue rg sid)) \<le> 131072" for sid
    using reg_ok_entry [OF ok, of sid]
    by (auto simp: send_queue_def recv_queue_def entry_ok_def queue_ok_def dg_limits split: option.split)
  moreover have "set (rg_ready rg) = {sid. send_queue rg sid \<noteq> []}"
    using ok by (auto simp: reg_ok_def has_outgoing_def send_queue_def split: option.split_asm)
  ultimately show ?thesis using ok by (auto simp: reg_ok_def dg_limits)
qed

text \<open>C22.  The senders take turns: from any state a connection reaches, as many calls of
  \<^verbatim>\<open>next\<close> as there are ready sessions take the first packet of every one of them, in the order of the
  ready queue, whatever the lengths of their queues.\<close>

theorem sessions_fair:
  assumes "datagram_framing D" "dg_run D mx tr rg"
  shows "fst (dg_nexts (length (rg_ready rg)) rg) = map (\<lambda>sid. Some (sid, hd (send_queue rg sid))) (rg_ready rg)"
proof -
  have ok: "reg_ok rg" using assms by (rule datagram_framing.dg_run_ok)
  have "map (\<lambda>sid. Some (sid, first_packet rg sid)) (rg_ready rg) = map (\<lambda>sid. Some (sid, hd (send_queue rg sid))) (rg_ready rg)"
    using ok by (auto simp: reg_ok_def has_outgoing_def first_packet_def send_queue_def)
  then show ?thesis using nexts_fair [OF ok, of "rg_ready rg" "[]"] by simp
qed

text \<open>C21.  Each session sees two queues.  What the driver takes for it and what is still queued is, in order,
  what \<^verbatim>\<open>try_send\<close> accepted, exactly so until its sending side is closed; and what its reader is given,
  with what still waits, is a subsequence of the payloads that arrived for it: datagrams may be dropped,
  never reordered, duplicated or given to another session.\<close>

theorem datagrams_in_order:
  assumes "datagram_framing D" "dg_run D mx tr rg"
  shows "subseq (dg_taken sid tr @ send_queue rg sid) (dg_accepted D sid tr) \<and>
    (list_all (\<lambda>(p, r). \<not> dg_discards sid p) tr \<longrightarrow> dg_taken sid tr @ send_queue rg sid = dg_accepted D sid tr) \<and>
    subseq (dg_delivered sid tr @ recv_queue rg sid) (dg_arrived D sid tr)"
  using assms by (rule datagram_framing.run_queues)


text \<open>C24.  A poll of the driver is a run of the registry's operations, so every guarantee of the registry
  survives it.  When it goes to sleep without having asked to be polled again, the transport has no
  datagram to receive and knows to wake it, and either nothing is left to send or the transport took the
  waker for the packet it refused.\<close>

theorem driver_sleeps_safely:
  assumes "datagram_framing D" "dg_run D mx tr (dv_registry dv)" "drive_poll Q D dv = (res, dv')"
  shows "(\<exists>tr'. dg_run D mx (tr @ tr') (dv_registry dv')) \<and>
    (res = Pending \<and> \<not> dv_woken dv' \<longrightarrow>
      (\<exists>r. qd_poll_recv Q r = (Pending, dv_receiver dv')) \<and>
      (dv_pending dv' = None \<and> rg_ready (dv_registry dv') = [] \<or>
       (\<exists>s sid packet. dv_pending dv' = Some (sid, packet) \<and> qd_poll_send Q s packet = (Pending, dv_sender dv'))))"
proof -
  have "reg_ok (dv_registry dv)" using assms(1,2) by (rule datagram_framing.dg_run_ok)
  then show ?thesis
    using continues_run [OF assms(2) drive_poll_continues [OF assms(3)]] drive_poll_sleeps assms(3) by blast
qed

lemmas dg_exec_defs = rg_register_def rg_set_negotiated_def rq_try_send_buf_def rg_receive_def rg_next_def rg_put_def
  prefix_size_def dg_no_room_def usize_sub_def usize_add_def dg_limits entry_new_def registry_new_def

lemma rfc9297_demo: "dc_encode rfc9297_codec 0 payload = 0 # payload" "dc_encode rfc9297_codec 4 payload = 1 # payload"
    "dc_decode rfc9297_codec [1, 9] = Inr (4, [9])"
  by (simp_all add: rfc9297_codec_def) code_simp+

lemma dg_demo_execs: "dg_execs rfc9297_codec dg_demo_ops (registry_new (Some 200000)) = Some (dg_demo_trace, dg_demo)"
  by (simp add: dg_demo_ops_def dg_demo_trace_def dg_demo_def dg_exec_defs rfc9297_demo Let_def)

lemma dg_demo_run: "dg_run rfc9297_codec (Some 200000) dg_demo_trace dg_demo"
  using dg_execs_run [OF dg_start dg_demo_execs] by simp

lemma dg_demo_get: "rg_get dg_demo 0 = Some ((entry_new True)\<lparr>en_outgoing := [[0, 1], [0, 3]], en_outgoing_bytes := 4\<rparr>)"
    "rg_get dg_demo 4 = Some ((entry_new True)\<lparr>en_outgoing := [[1, 2]], en_outgoing_bytes := 2, en_incoming := [[9]], en_incoming_bytes := 1\<rparr>)"
    "rg_ready dg_demo = [0, 4]"
  by (simp_all add: dg_demo_def)

theorem registry_budgets_witness:
  "datagram_framing rfc9297_codec \<and> dg_run rfc9297_codec (Some 200000) dg_demo_trace dg_demo \<and>
   rg_outgoing dg_demo = 6 \<and> rg_outgoing dg_demo = stream_sum (sum_list \<circ> map length \<circ> en_outgoing) (rg_streams dg_demo)"
  using registry_budgets [OF rfc9297.datagram_framing_axioms dg_demo_run] rfc9297.datagram_framing_axioms dg_demo_run
  by (simp add: dg_demo_def)

theorem sessions_fair_witness:
  "dg_run rfc9297_codec (Some 200000) dg_demo_trace dg_demo \<and>
   fst (dg_nexts (length (rg_ready dg_demo)) dg_demo) = [Some (0, [0, 1]), Some (4, [1, 2])]"
  using sessions_fair [OF rfc9297.datagram_framing_axioms dg_demo_run] dg_demo_run
  by (simp add: dg_demo_get send_queue_def)

theorem datagrams_in_order_witness:
  "dg_run rfc9297_codec (Some 200000) dg_demo_trace dg_demo \<and> list_all (\<lambda>(p, r). \<not> dg_discards 0 p) dg_demo_trace \<and>
   dg_accepted rfc9297_codec 0 dg_demo_trace = [[0, 1], [0, 3]] \<and>
   dg_taken 0 dg_demo_trace @ send_queue dg_demo 0 = dg_accepted rfc9297_codec 0 dg_demo_trace"
proof -
  have "list_all (\<lambda>(p, r). \<not> dg_discards 0 p) dg_demo_trace" "dg_accepted rfc9297_codec 0 dg_demo_trace = [[0, 1], [0, 3]]"
    by (simp_all add: dg_demo_trace_def dg_demo_ops_def rfc9297_demo)
  then show ?thesis using datagrams_in_order [OF rfc9297.datagram_framing_axioms dg_demo_run, of 0] dg_demo_run by blast
qed


theorem driver_sleeps_safely_witness:
  "\<exists>dv' tr'. drive_poll idle_quic rfc9297_codec idle_driver = (Pending, dv') \<and> \<not> dv_woken dv' \<and>
     dv_pending dv' = Some (0, [0, 1]) \<and> dg_run rfc9297_codec (Some 200000) (dg_demo_trace @ tr') (dv_registry dv')"
proof -
  have s: "drive_receive Q D 32 dv = drive_receive Q D (Suc 31) dv" "drive_send Q 32 dv = drive_send Q (Suc 31) dv" for Q D dv by simp_all
  let ?p = "drive_poll idle_quic rfc9297_codec idle_driver"
  have p: "fst ?p = Pending" "\<not> dv_woken (snd ?p)" "dv_pending (snd ?p) = Some (0, [0, 1])"
    by (simp_all add: drive_poll_def s idle_quic_def idle_driver_def drive_max_size_def drive_take_def dg_demo_def
        dg_exec_defs Let_def del: Suc_numeral)
  have "dg_run rfc9297_codec (Some 200000) dg_demo_trace (dv_registry idle_driver)"
    using dg_demo_run by (simp add: idle_driver_def)
  then show ?thesis
    using driver_sleeps_safely [OF rfc9297.datagram_framing_axioms, of _ _ idle_driver idle_quic "fst ?p" "snd ?p"] p
    by (metis prod.collapse)
qed

end
