(* ===== verification/Float64.thy ===== *)
theory Float64
  imports Complex_Main "HOL-Library.Log_Nat"
begin

text \<open>
  Arithmetic of \<^verbatim>\<open>f64\<close>: a value is a rational number, and every operation rounds its exact result to
  the nearest number of 53 significant bits, ties to even.  The quantities it is used for, seconds,
  bytes and bytes per second, stay far from the ends of the exponent range, so subnormal numbers,
  infinities and NaN do not arise.  Rounding is monotone and leaves its results alone, and a step of
  an eighth of the way towards a sample does not overshoot.
\<close>

section \<open>Definitions\<close>

definition round_half_even :: "rat \<Rightarrow> int" where
  "round_half_even y =
     (let f = \<lfloor>y\<rfloor>; r = y - of_int f in
      if r < 1 / 2 then f else if r > 1 / 2 then f + 1 else if even f then f else f + 1)"

definition rat_exponent :: "rat \<Rightarrow> int" where
  "rat_exponent x =
     (let (n, d) = quotient_of \<bar>x\<bar>; k = bitlen n - bitlen d in
      if 2 powi k \<le> \<bar>x\<bar> then k else k - 1)"

definition f64_round :: "rat \<Rightarrow> rat" where
  "f64_round x =
     (if x = 0 then 0
      else let u = 2 powi (rat_exponent x - 52) in of_int (round_half_even (x / u)) * u)"

type_synonym f64 = rat

definition f64_of_nat :: "nat \<Rightarrow> f64" where "f64_of_nat n = f64_round (of_nat n)"

definition f64_add :: "f64 \<Rightarrow> f64 \<Rightarrow> f64" where "f64_add x y = f64_round (x + y)"

definition f64_sub :: "f64 \<Rightarrow> f64 \<Rightarrow> f64" where "f64_sub x y = f64_round (x - y)"

definition f64_mul :: "f64 \<Rightarrow> f64 \<Rightarrow> f64" where "f64_mul x y = f64_round (x * y)"

definition f64_div :: "f64 \<Rightarrow> f64 \<Rightarrow> f64" where "f64_div x y = f64_round (x / y)"

definition is_f64 :: "rat \<Rightarrow> bool" where "is_f64 x \<longleftrightarrow> f64_round x = x"

lemma round_half_even_int [simp]: "round_half_even (of_int k) = k"
  by (simp add: round_half_even_def)

lemma round_half_even_mono:
  assumes "x \<le> y"
  shows "round_half_even x \<le> round_half_even y"
proof (cases "\<lfloor>x\<rfloor> = \<lfloor>y\<rfloor>")
  case True
  then show ?thesis using assms by (auto simp: round_half_even_def Let_def)
next
  case False
  then have "\<lfloor>x\<rfloor> + 1 \<le> \<lfloor>y\<rfloor>" using floor_mono [OF assms] by simp
  moreover have "round_half_even x \<le> \<lfloor>x\<rfloor> + 1" "\<lfloor>y\<rfloor> \<le> round_half_even y"
    by (auto simp: round_half_even_def Let_def)
  ultimately show ?thesis by simp
qed

lemma bitlen_bounds':
  assumes "0 < n"
  shows "2 powi (bitlen n - 1) \<le> (of_int n :: rat) \<and> of_int n < (2 powi bitlen n :: rat)"
proof -
  obtain m where b: "bitlen n = int m + 1"
    using bitlen_nonneg [of n] bitlen_eq_zero_iff [of n] assms by (metis add.commute diff_add_cancel int_nat_eq linorder_not_less zle_diff1_eq nat_int order.order_iff_strict)
  have "2 ^ m \<le> n" "n < 2 ^ (m + 1)"
    using bitlen_bounds [OF assms] unfolding b by (simp_all add: nat_add_distrib)
  then have "of_int (2 ^ m) \<le> (of_int n :: rat)" "of_int n < (of_int (2 ^ (m + 1)) :: rat)"
    unfolding of_int_le_iff of_int_less_iff by blast+
  moreover have "(2 powi (int m + 1) :: rat) = 2 ^ (m + 1)" using power_int_of_nat [of "2 :: rat" "m + 1"] by (simp add: add.commute)
  ultimately show ?thesis unfolding b by simp
qed

lemma rat_exponent_bounds:
  assumes "x \<noteq> 0"
  shows "2 powi rat_exponent x \<le> \<bar>x\<bar> \<and> \<bar>x\<bar> < 2 powi (rat_exponent x + 1)"
proof -
  obtain n d where q: "quotient_of \<bar>x\<bar> = (n, d)" by fastforce
  have x: "\<bar>x\<bar> = of_int n / of_int d" and d: "0 < d" using quotient_of_div [OF q] quotient_of_denom_pos [OF q] by auto
  have n: "0 < n" using x d assms by (metis abs_eq_0 abs_ge_zero div_0 le_less of_int_0 of_int_0_less_iff zero_less_divide_iff not_less of_int_less_0_iff)
  let ?k = "bitlen n - bitlen d"
  have b: "2 powi (bitlen n - 1) \<le> (of_int n :: rat)" "(of_int n :: rat) < 2 powi bitlen n"
      "2 powi (bitlen d - 1) \<le> (of_int d :: rat)" "(of_int d :: rat) < 2 powi bitlen d"
    using bitlen_bounds' [OF n] bitlen_bounds' [OF d] by auto
  have "\<bar>x\<bar> < 2 powi bitlen n / 2 powi (bitlen d - 1)" unfolding x using b d n by (intro frac_less) auto
  also have "\<dots> = 2 powi (?k + 1)" by (simp add: power_int_diff power_int_add)
  finally have hi: "\<bar>x\<bar> < 2 powi (?k + 1)" .
  have "2 powi (?k - 1) = (2 powi (bitlen n - 1) / 2 powi bitlen d :: rat)" by (simp add: power_int_diff)
  also have "\<dots> \<le> \<bar>x\<bar>" unfolding x using b d n by (intro frac_le) auto
  finally have lo: "2 powi (?k - 1) \<le> \<bar>x\<bar>" .
  show ?thesis using hi lo by (auto simp: rat_exponent_def q Let_def)
qed

lemma powi_less_cancel: "(2 :: rat) powi a < 2 powi b \<Longrightarrow> a < b"
  by (metis linorder_not_less one_le_numeral power_int_increasing)

lemma rat_exponent_unique:
  assumes "2 powi k \<le> \<bar>x\<bar>" "\<bar>x\<bar> < 2 powi (k + 1)"
  shows "rat_exponent x = k"
proof -
  have "x \<noteq> 0" using assms(1) by (metis abs_0 linorder_not_less zero_less_numeral zero_less_power_int)
  note b = rat_exponent_bounds [OF this]
  have "k < rat_exponent x + 1" "rat_exponent x < k + 1"
    using b assms by (meson le_less_trans powi_less_cancel)+
  then show ?thesis by simp
qed

lemma f64_round_range:
  assumes "0 < x"
  shows "2 powi rat_exponent x \<le> f64_round x \<and> f64_round x \<le> 2 powi (rat_exponent x + 1)"
proof -
  let ?e = "rat_exponent x" and ?u = "2 powi (rat_exponent x - 52) :: rat"
  have u: "0 < ?u" by simp
  have e: "(2 powi ?e :: rat) = of_int (2 ^ 52) * ?u" "(2 powi (?e + 1) :: rat) = of_int (2 ^ 53) * ?u"
    by (simp_all add: power_int_diff power_int_add)
  have "of_int (2 ^ 52) \<le> x / ?u" "x / ?u \<le> of_int (2 ^ 53)"
    using rat_exponent_bounds [of x] assms e u by (simp_all add: pos_le_divide_eq pos_divide_le_eq)
  then have "2 ^ 52 \<le> round_half_even (x / ?u)" "round_half_even (x / ?u) \<le> 2 ^ 53"
    using round_half_even_mono round_half_even_int by metis+
  then have "of_int (2 ^ 52) * ?u \<le> of_int (round_half_even (x / ?u)) * ?u"
      "of_int (round_half_even (x / ?u)) * ?u \<le> of_int (2 ^ 53) * ?u"
    using u by (metis mult_le_cancel_right_pos of_int_le_iff)+
  then show ?thesis using assms e by (simp add: f64_round_def Let_def)
qed

lemma f64_round_zero [simp]: "f64_round 0 = 0"
  by (simp add: f64_round_def)

lemma f64_round_pos: "0 < x \<Longrightarrow> 0 < f64_round x"
  using f64_round_range [of x] by (meson less_le_trans zero_less_numeral zero_less_power_int)

lemma rat_exponent_minus [simp]: "rat_exponent (- x) = rat_exponent x"
  by (simp add: rat_exponent_def)

lemma round_half_even_minus: "round_half_even (- y) = - round_half_even y"
proof (cases "y = of_int \<lfloor>y\<rfloor>")
  case True
  then have "- y = of_int (- \<lfloor>y\<rfloor>)" by simp
  then show ?thesis using True round_half_even_int by metis
next
  case False
  then have "\<lfloor>- y\<rfloor> = - \<lfloor>y\<rfloor> - 1" using floor_correct [of y] by (intro floor_unique) (auto simp: less_le)
  then show ?thesis by (auto simp: round_half_even_def Let_def)
qed

lemma f64_round_minus: "f64_round (- x) = - f64_round x"
  by (simp add: f64_round_def Let_def round_half_even_minus)

lemma f64_round_mono_pos:
  assumes "0 < x" "x \<le> y"
  shows "f64_round x \<le> f64_round y"
proof (cases "rat_exponent x = rat_exponent y")
  case True
  have "round_half_even (x / 2 powi (rat_exponent y - 52)) \<le> round_half_even (y / 2 powi (rat_exponent y - 52))"
    using assms(2) by (intro round_half_even_mono) (simp add: divide_right_mono)
  then show ?thesis using assms True by (simp add: f64_round_def Let_def)
next
  case False
  have "(2 :: rat) powi rat_exponent x < 2 powi (rat_exponent y + 1)"
    using rat_exponent_bounds [of x] rat_exponent_bounds [of y] assms by simp
  then have "rat_exponent x < rat_exponent y + 1" by (rule powi_less_cancel)
  then have "(2 :: rat) powi (rat_exponent x + 1) \<le> 2 powi rat_exponent y"
    using False by (intro power_int_increasing) auto
  then show ?thesis using f64_round_range [of x] f64_round_range [of y] assms by linarith
qed

lemma f64_round_mono:
  assumes "x \<le> y"
  shows "f64_round x \<le> f64_round y"
proof -
  consider "0 < x" | "x \<le> 0" "0 \<le> y" | "y < 0" using assms by linarith
  then show ?thesis
  proof cases
    case 2
    have "f64_round x \<le> 0" using f64_round_pos [of "- x"] 2 by (cases "x = 0") (auto simp: f64_round_minus)
    moreover have "0 \<le> f64_round y" using f64_round_pos [of y] 2 by (cases "y = 0") auto
    ultimately show ?thesis by simp
  next
    case 3
    then show ?thesis using f64_round_mono_pos [of "- y" "- x"] assms by (simp add: f64_round_minus)
  qed (simp add: f64_round_mono_pos assms)
qed

lemma f64_round_scaled:
  assumes "2 ^ 52 \<le> m" "m \<le> 2 ^ 53"
  shows "f64_round (of_int m * 2 powi k) = of_int m * 2 powi k"
proof (cases "m = 2 ^ 53")
  case True
  have "rat_exponent (of_int m * 2 powi k) = k + 53"
    by (rule rat_exponent_unique) (simp_all add: True power_int_add)
  then show ?thesis using True by (simp add: f64_round_def Let_def power_int_add power_int_diff)
     (metis of_int_numeral of_int_power round_half_even_int)
next
  case False
  have m: "(2 ^ 52 :: rat) \<le> of_int m" "of_int m < (2 ^ 53 :: rat)"
    using assms False by (metis of_int_le_iff of_int_numeral of_int_power, metis le_less of_int_less_iff of_int_numeral of_int_power)
  have "rat_exponent (of_int m * 2 powi k) = k + 52"
    by (rule rat_exponent_unique) (use m in \<open>simp_all add: power_int_add abs_mult\<close>)
  then show ?thesis using m by (simp add: f64_round_def Let_def)
qed

lemma f64_round_positive_form:
  assumes "0 < x"
  shows "is_f64 (f64_round x)"
proof -
  let ?k = "rat_exponent x - 52"
  let ?m = "round_half_even (x / 2 powi ?k)"
  have f: "f64_round x = of_int ?m * 2 powi ?k" using assms by (simp add: f64_round_def Let_def)
  have "of_int (2 ^ 52) * 2 powi ?k \<le> (of_int ?m * 2 powi ?k :: rat)" "of_int ?m * 2 powi ?k \<le> (of_int (2 ^ 53) * 2 powi ?k :: rat)"
    using f64_round_range [OF assms] unfolding f by (simp_all add: power_int_diff power_int_add)
  then have "2 ^ 52 \<le> ?m" "?m \<le> 2 ^ 53"
    by (simp_all only: mult_le_cancel_right_pos zero_less_power_int zero_less_numeral of_int_le_iff)
  then show ?thesis unfolding is_f64_def f by (rule f64_round_scaled)
qed

lemma f64_round_round [simp, intro]: "is_f64 (f64_round x)"
proof -
  consider "x = 0" | "0 < x" | "0 < - x" by linarith
  then show ?thesis
  proof cases
    case 1
    then show ?thesis by (simp add: is_f64_def)
  next
    case 3
    then show ?thesis using f64_round_positive_form [of "- x"] by (simp add: is_f64_def f64_round_minus)
  qed (rule f64_round_positive_form)
qed

lemma f64_round_le: "x \<le> y \<Longrightarrow> is_f64 y \<Longrightarrow> f64_round x \<le> y"
  using f64_round_mono [of x y] by (simp add: is_f64_def)

lemma f64_round_ge: "x \<le> y \<Longrightarrow> is_f64 x \<Longrightarrow> x \<le> f64_round y"
  using f64_round_mono [of x y] by (simp add: is_f64_def)

lemma f64_round_twice:
  assumes "0 \<le> x"
  shows "f64_round x \<le> 2 * x \<and> 0 \<le> f64_round x"
proof (cases "x = 0")
  case False
  then show ?thesis
    using assms f64_round_range [of x] rat_exponent_bounds [of x] f64_round_pos [of x] by (auto simp: power_int_add)
qed simp

text \<open>A step of an eighth of the difference towards a sample stays between the estimate and the sample.\<close>

lemma f64_step_up:
  assumes "is_f64 a" "is_f64 r" "a \<le> r"
  shows "a \<le> f64_add a (f64_mul (f64_sub r a) (1 / 8)) \<and> f64_add a (f64_mul (f64_sub r a) (1 / 8)) \<le> r"
proof -
  let ?d = "f64_sub r a" and ?s = "f64_mul (f64_sub r a) (1 / 8)"
  have d: "0 \<le> ?d" "?d \<le> 2 * (r - a)" using f64_round_twice [of "r - a"] assms(3) by (simp_all add: f64_sub_def)
  have s: "0 \<le> ?s" "?s \<le> 2 * (?d * (1 / 8))" using f64_round_twice [of "?d * (1 / 8)"] d(1) by (simp_all add: f64_mul_def)
  have le: "s \<le> r - a" if "s \<le> 2 * (d * (1 / 8))" "d \<le> 2 * (r - a)" for s d :: rat
    using that assms(3) by simp
  have "a \<le> a + ?s" "a + ?s \<le> r" using s(1) le [OF s(2) d(2)] by simp_all
  then show ?thesis using assms(1,2) f64_round_le f64_round_ge by (simp add: f64_add_def)
qed

lemma f64_step_down:
  assumes "is_f64 a" "is_f64 r" "r \<le> a"
  shows "r \<le> f64_add a (f64_mul (f64_sub r a) (1 / 8)) \<and> f64_add a (f64_mul (f64_sub r a) (1 / 8)) \<le> a"
proof -
  have m: "is_f64 (- a)" "is_f64 (- r)" using assms(1,2) by (simp_all add: is_f64_def f64_round_minus)
  have sub: "f64_sub (- r) (- a) = - f64_sub r a" using f64_round_minus [of "r - a"] by (simp add: f64_sub_def)
  have mul: "f64_mul (- f64_sub r a) (1 / 8) = - f64_mul (f64_sub r a) (1 / 8)"
    using f64_round_minus [of "f64_sub r a * (1 / 8)"] by (simp add: f64_mul_def)
  have add: "f64_add (- a) (- f64_mul (f64_sub r a) (1 / 8)) = - f64_add a (f64_mul (f64_sub r a) (1 / 8))"
    using f64_round_minus [of "a + f64_mul (f64_sub r a) (1 / 8)"] by (simp add: f64_add_def)
  show ?thesis using f64_step_up [OF m] assms(3) by (simp add: sub mul add)
qed

end
