(* ===== verification/Http2_Ping.thy ===== *)
theory Http2_Ping
  imports Float64 Netty_Prelude "HOL-Library.Monad_Syntax"
begin

text \<open>
  PING frames of an HTTP/2 connection (\<^verbatim>\<open>src/src/proto/http2/ping.rs\<close>) and the timer wrapper they
  use (\<^verbatim>\<open>src/src/rt/timer.rs\<close>): the estimation of the bandwidth-delay product (\<open>bdp\<close>,
  \<open>bdp_calculate\<close>), which drives the adaptive flow control window, and the keep-alive (\<open>ping_keep_alive\<close>,
  \<open>poll_keep_alive\<close>).  The clock, the sleep and the PING frames of the \<^verbatim>\<open>http2\<close> crate are a parameter,
  \<open>ping_env\<close>; the locale \<open>ping_timer\<close> says what is relied on of them.  Instants are unbounded, as
  \<^verbatim>\<open>Config\<close> caps the delays that are added to them; a panic is \<open>None\<close>.
\<close>

section \<open>Definitions\<close>

text \<open>Durations and instants, in nanoseconds.\<close>

type_synonym duration = nat

type_synonym instant = nat

definition MILLI :: duration where "MILLI = 1000000"

definition SECOND :: duration where "SECOND = 1000000000"

text \<open>
  The world a connection runs in: clocks, the one sleep of its keep-alive, the PING frames of the HTTP/2
  implementation, and the waker of the task.
\<close>

datatype pong = PongPending | PongReceived | PongFailed

record 'w ping_env =
  pe_instant_now :: "'w \<Rightarrow> instant \<times> 'w"
  pe_timer_now :: "'w \<Rightarrow> instant \<times> 'w"
  pe_sleep :: "duration \<Rightarrow> 'w \<Rightarrow> 'w"
  pe_reset :: "instant \<Rightarrow> 'w \<Rightarrow> 'w"
  pe_poll_sleep :: "'w \<Rightarrow> bool \<times> 'w"
  pe_send_ping :: "byte list option \<Rightarrow> 'w \<Rightarrow> bool \<times> 'w"
  pe_poll_pong :: "'w \<Rightarrow> pong \<times> 'w"
  pe_wake :: "'w \<Rightarrow> 'w"

text \<open>\<^verbatim>\<open>Time\<close>.  Asking for a sleep without a timer panics, which is \<open>None\<close>.\<close>

datatype time = TimeTimer | TimeEmpty

definition time_sleep :: "'w ping_env \<Rightarrow> time \<Rightarrow> duration \<Rightarrow> 'w \<Rightarrow> 'w option" where
  "time_sleep A t d w = (case t of TimeEmpty \<Rightarrow> None | TimeTimer \<Rightarrow> Some (pe_sleep A d w))"

definition time_now :: "'w ping_env \<Rightarrow> time \<Rightarrow> 'w \<Rightarrow> instant \<times> 'w" where
  "time_now A t w = (case t of TimeEmpty \<Rightarrow> pe_instant_now A w | TimeTimer \<Rightarrow> pe_timer_now A w)"

definition time_reset :: "'w ping_env \<Rightarrow> time \<Rightarrow> instant \<Rightarrow> 'w \<Rightarrow> 'w option" where
  "time_reset A t i w = (case t of TimeEmpty \<Rightarrow> None | TimeTimer \<Rightarrow> Some (pe_reset A i w))"

record ping_config =
  pc_bdp_initial_window :: "u32 option"
  pc_keep_alive_interval :: "duration option"
  pc_keep_alive_timeout :: duration
  pc_keep_alive_while_idle :: bool
  pc_payload :: "byte list option"

record ping_shared =
  sh_ping_sent_at :: "instant option"
  sh_payload :: "byte list option"
  sh_bytes :: "nat option"
  sh_next_bdp_at :: "instant option"
  sh_last_read_at :: "instant option"
  sh_timed_out :: bool
  sh_timer :: time

record bdp =
  bd_bdp :: u32
  bd_max_bandwidth :: f64
  bd_rtt :: f64
  bd_ping_delay :: duration
  bd_stable_count :: u32

datatype keep_alive_state = KaInit | KaScheduled instant | KaPingSent instant

record ping_keep_alive =
  pk_interval :: duration
  pk_timeout :: duration
  pk_while_idle :: bool
  pk_state :: keep_alive_state
  pk_timer :: time

record ponger =
  po_bdp :: "bdp option"
  po_keep_alive :: "ping_keep_alive option"
  po_shared :: ping_shared

text \<open>\<^verbatim>\<open>Config\<close>.\<close>

definition MAX_DELAY :: duration where "MAX_DELAY = 86400 * 365 * 30 * SECOND"

definition ping_config_new :: "bool \<Rightarrow> u32 \<Rightarrow> duration option \<Rightarrow> duration \<Rightarrow> bool \<Rightarrow> byte list option \<Rightarrow> ping_config" where
  "ping_config_new adaptive_window initial_window_size interval timeout while_idle payload =
     \<lparr>pc_bdp_initial_window = (if adaptive_window then Some initial_window_size else None),
      pc_keep_alive_interval = map_option (\<lambda>i. min i MAX_DELAY) interval,
      pc_keep_alive_timeout = min timeout MAX_DELAY,
      pc_keep_alive_while_idle = while_idle, pc_payload = payload\<rparr>"

definition ping_is_enabled :: "ping_config \<Rightarrow> bool" where
  "ping_is_enabled c \<longleftrightarrow> pc_bdp_initial_window c \<noteq> None \<or> pc_keep_alive_interval c \<noteq> None"

text \<open>\<^verbatim>\<open>channel\<close>; the recorder shares the state of the \<open>ponger\<close>.\<close>

definition bdp_new :: "u32 \<Rightarrow> bdp" where
  "bdp_new wnd = \<lparr>bd_bdp = wnd, bd_max_bandwidth = 0, bd_rtt = 0, bd_ping_delay = 100 * MILLI, bd_stable_count = 0\<rparr>"

definition ping_channel :: "'w ping_env \<Rightarrow> ping_config \<Rightarrow> time \<Rightarrow> 'w \<Rightarrow> (ponger \<times> 'w) option" where
  "ping_channel A config timer w =
     (let bdp = map_option bdp_new (pc_bdp_initial_window config);
          (now, w) = time_now A timer w;
          (bytes, next_bdp_at) = (if bdp \<noteq> None then (Some 0, Some now) else (None, None)) in
      do {
        (keep_alive, w) \<leftarrow>
          (case pc_keep_alive_interval config of
             None \<Rightarrow> Some (None, w)
           | Some interval \<Rightarrow> do {
               w \<leftarrow> time_sleep A timer interval w;
               Some (Some \<lparr>pk_interval = interval, pk_timeout = pc_keep_alive_timeout config,
                 pk_while_idle = pc_keep_alive_while_idle config, pk_state = KaInit, pk_timer = timer\<rparr>, w)
             });
        let last_read_at = map_option (\<lambda>_. now) keep_alive;
        Some (\<lparr>po_bdp = bdp, po_keep_alive = keep_alive,
            po_shared = \<lparr>sh_ping_sent_at = None, sh_payload = pc_payload config, sh_bytes = bytes,
              sh_next_bdp_at = next_bdp_at, sh_last_read_at = last_read_at, sh_timed_out = False, sh_timer = timer\<rparr>\<rparr>, w)
      })"

text \<open>\<^verbatim>\<open>Shared\<close>.\<close>

definition is_ping_sent :: "ping_shared \<Rightarrow> bool" where
  "is_ping_sent sh \<longleftrightarrow> sh_ping_sent_at sh \<noteq> None"

definition send_ping :: "'w ping_env \<Rightarrow> ping_shared \<Rightarrow> 'w \<Rightarrow> ping_shared \<times> 'w" where
  "send_ping A sh w =
     (case pe_send_ping A (sh_payload sh) w of
        (True, w) \<Rightarrow> (case time_now A (sh_timer sh) w of (now, w) \<Rightarrow> (sh\<lparr>sh_ping_sent_at := Some now\<rparr>, w))
      | (False, w) \<Rightarrow> (sh, w))"

definition update_last_read_at :: "'w ping_env \<Rightarrow> ping_shared \<Rightarrow> 'w \<Rightarrow> ping_shared \<times> 'w" where
  "update_last_read_at A sh w =
     (if sh_last_read_at sh \<noteq> None
      then (case time_now A (sh_timer sh) w of (now, w) \<Rightarrow> (sh\<lparr>sh_last_read_at := Some now\<rparr>, w))
      else (sh, w))"

text \<open>\<^verbatim>\<open>Recorder\<close>: whether it is enabled is an argument.\<close>

definition record_data :: "'w ping_env \<Rightarrow> bool \<Rightarrow> nat \<Rightarrow> ping_shared \<Rightarrow> 'w \<Rightarrow> ping_shared \<times> 'w" where
  "record_data A enabled len sh w =
     (if \<not> enabled then (sh, w)
      else
        let (early, sh, w) =
          (case sh_next_bdp_at sh of
             Some next_bdp_at \<Rightarrow>
               (case time_now A (sh_timer sh) w of
                  (now, w) \<Rightarrow> if now < next_bdp_at then (True, sh, w) else (False, sh\<lparr>sh_next_bdp_at := None\<rparr>, w))
           | None \<Rightarrow> (False, sh, w)) in
        if early then (sh, w)
        else
          case sh_bytes sh of
            None \<Rightarrow> (sh, w)
          | Some bytes \<Rightarrow>
              let sh = sh\<lparr>sh_bytes := Some (saturating_add bytes len)\<rparr> in
              if \<not> is_ping_sent sh then send_ping A sh w else (sh, w))"

definition recorder_for_stream :: "bool \<Rightarrow> bool \<Rightarrow> bool" where
  "recorder_for_stream enabled is_end_stream = (if is_end_stream then False else enabled)"

definition ensure_not_timed_out :: "bool \<Rightarrow> ping_shared \<Rightarrow> bool" where
  "ensure_not_timed_out enabled sh = (if enabled then \<not> sh_timed_out sh else True)"

text \<open>\<^verbatim>\<open>Bdp\<close>.\<close>

definition BDP_LIMIT :: nat where "BDP_LIMIT = 1024 * 1024 * 16"

definition seconds :: "duration \<Rightarrow> f64" where
  "seconds dur = f64_add (f64_of_nat (dur div SECOND)) (f64_div (f64_of_nat (dur mod SECOND)) 1000000000)"

definition stabilize_delay :: "bdp \<Rightarrow> bdp" where
  "stabilize_delay b =
     (if bd_ping_delay b < 10 * SECOND then
        let b = b\<lparr>bd_stable_count := bd_stable_count b + 1\<rparr> in
        if bd_stable_count b \<ge> 2 then b\<lparr>bd_ping_delay := bd_ping_delay b * 4, bd_stable_count := 0\<rparr> else b
      else b)"

definition bdp_calculate :: "bdp \<Rightarrow> nat \<Rightarrow> duration \<Rightarrow> u32 option \<times> bdp" where
  "bdp_calculate b bytes dur =
     (if unat (bd_bdp b) = BDP_LIMIT then (None, stabilize_delay b)
      else
        let rtt = seconds dur in
        if rtt = 0 then (None, stabilize_delay b)
        else
          let b = (if bd_rtt b = 0 then b\<lparr>bd_rtt := rtt\<rparr>
                   else b\<lparr>bd_rtt := f64_add (bd_rtt b) (f64_mul (f64_sub rtt (bd_rtt b)) (1 / 8))\<rparr>);
              bw = f64_div (f64_of_nat bytes) (f64_mul (bd_rtt b) (3 / 2)) in
          if bw < bd_max_bandwidth b then (None, stabilize_delay b)
          else
            let b = b\<lparr>bd_max_bandwidth := bw\<rparr> in
            if bytes \<ge> unat (bd_bdp b) * 2 div 3 then
              let b = b\<lparr>bd_bdp := of_nat (min (saturating_mul bytes 2) BDP_LIMIT),
                        bd_stable_count := 0, bd_ping_delay := bd_ping_delay b div 2\<rparr> in
              (Some (bd_bdp b), b)
            else (None, stabilize_delay b))"

text \<open>\<^verbatim>\<open>Ponger::poll\<close>.  The difference of two instants saturates at zero.\<close>

definition ponger_poll :: "'w ping_env \<Rightarrow> ponger \<Rightarrow> 'w \<Rightarrow> u32 poll \<times> ponger \<times> 'w" where
  "ponger_poll A po w =
     (let sh = po_shared po; (now, w) = time_now A (sh_timer sh) w in
      case sh_ping_sent_at sh of
        None \<Rightarrow> (Pending, po, w)
      | Some start \<Rightarrow>
          (case pe_poll_pong A w of
             (PongReceived, w) \<Rightarrow>
               (let sh = sh\<lparr>sh_ping_sent_at := None\<rparr>; rtt = now - start;
                    (sh, w) = update_last_read_at A sh w in
                case po_bdp po of
                  None \<Rightarrow> (Pending, po\<lparr>po_shared := sh\<rparr>, w)
                | Some b \<Rightarrow>
                    (case sh_bytes sh of
                       None \<Rightarrow> (Panicked, po\<lparr>po_shared := sh\<rparr>, w)
                     | Some bytes \<Rightarrow>
                         (case bdp_calculate b bytes rtt of
                            (update, b) \<Rightarrow>
                              let po = po\<lparr>po_bdp := Some b,
                                    po_shared := sh\<lparr>sh_bytes := Some 0, sh_next_bdp_at := Some (now + bd_ping_delay b)\<rparr>\<rparr> in
                              (case update of Some u \<Rightarrow> (Ready u, po, w) | None \<Rightarrow> (Pending, po, w)))))
           | (_, w) \<Rightarrow> (Pending, po, w)))"

definition ponger_record_read :: "'w ping_env \<Rightarrow> ponger \<Rightarrow> 'w \<Rightarrow> ponger \<times> 'w" where
  "ponger_record_read A po w =
     (case update_last_read_at A (po_shared po) w of (sh, w) \<Rightarrow> (po\<lparr>po_shared := sh\<rparr>, w))"

definition tracks_idle :: "ponger \<Rightarrow> bool" where
  "tracks_idle po = (case po_keep_alive po of None \<Rightarrow> False | Some ka \<Rightarrow> \<not> pk_while_idle ka)"

text \<open>\<^verbatim>\<open>KeepAlive\<close>.\<close>

definition ka_schedule :: "'w ping_env \<Rightarrow> ping_shared \<Rightarrow> ping_keep_alive \<Rightarrow> 'w \<Rightarrow> (ping_keep_alive \<times> 'w) option" where
  "ka_schedule A sh ka w = do {
     last \<leftarrow> sh_last_read_at sh;
     let interval = last + pk_interval ka;
     w \<leftarrow> time_reset A (pk_timer ka) interval w;
     Some (ka\<lparr>pk_state := KaScheduled interval\<rparr>, w)
   }"

definition maybe_schedule :: "'w ping_env \<Rightarrow> bool \<Rightarrow> ping_shared \<Rightarrow> ping_keep_alive \<Rightarrow> 'w \<Rightarrow> (ping_keep_alive \<times> 'w) option" where
  "maybe_schedule A is_idle sh ka w =
     (case pk_state ka of
        KaInit \<Rightarrow> if \<not> pk_while_idle ka \<and> is_idle then Some (ka, w) else ka_schedule A sh ka w
      | KaPingSent _ \<Rightarrow> if is_ping_sent sh then Some (ka, w) else ka_schedule A sh ka w
      | KaScheduled _ \<Rightarrow> Some (ka, w))"

definition maybe_ping :: "'w ping_env \<Rightarrow> bool \<Rightarrow> ping_shared \<Rightarrow> ping_keep_alive \<Rightarrow> 'w \<Rightarrow> (ping_shared \<times> ping_keep_alive \<times> 'w) option" where
  "maybe_ping A is_idle sh ka w =
     (case pk_state ka of
        KaScheduled due \<Rightarrow>
          (case pe_poll_sleep A w of
             (False, w) \<Rightarrow> Some (sh, ka, w)
           | (True, w) \<Rightarrow> do {
               last \<leftarrow> sh_last_read_at sh;
               if last + pk_interval ka > due then Some (sh, ka\<lparr>pk_state := KaInit\<rparr>, pe_wake A w)
               else if \<not> pk_while_idle ka \<and> is_idle then Some (sh, ka\<lparr>pk_state := KaInit\<rparr>, w)
               else do {
                 let (sh, w) = send_ping A sh w;
                 let (now, w) = time_now A (pk_timer ka) w;
                 let timeout = now + pk_timeout ka;
                 w \<leftarrow> time_reset A (pk_timer ka) timeout w;
                 Some (sh, ka\<lparr>pk_state := KaPingSent timeout\<rparr>, w)
               }
             })
      | _ \<Rightarrow> Some (sh, ka, w))"

text \<open>The loop of \<^verbatim>\<open>poll_timeout\<close>: \<open>Some (True, _)\<close> is the timeout.\<close>

partial_function (option) timeout_loop ::
    "'w ping_env \<Rightarrow> ping_shared \<Rightarrow> instant \<Rightarrow> ping_keep_alive \<Rightarrow> 'w \<Rightarrow> (bool \<times> ping_keep_alive \<times> 'w) option" where
  "timeout_loop A sh deadline ka w =
     (case pe_poll_sleep A w of
        (ready, w) \<Rightarrow> if \<not> ready then Some (False, ka, w) else Option.bind (sh_last_read_at sh) (\<lambda>last.
          let next = last + pk_timeout ka in
          if next \<le> deadline then Some (True, ka, w)
          else Option.bind (time_reset A (pk_timer ka) next w) (\<lambda>w.
            timeout_loop A sh next (ka\<lparr>pk_state := KaPingSent next\<rparr>) w)))"

definition poll_timeout :: "'w ping_env \<Rightarrow> ping_shared \<Rightarrow> ping_keep_alive \<Rightarrow> 'w \<Rightarrow> (bool \<times> ping_keep_alive \<times> 'w) option" where
  "poll_timeout A sh ka w =
     (case pk_state ka of KaPingSent deadline \<Rightarrow> timeout_loop A sh deadline ka w | _ \<Rightarrow> Some (False, ka, w))"

definition poll_keep_alive :: "'w ping_env \<Rightarrow> bool \<Rightarrow> ponger \<Rightarrow> 'w \<Rightarrow> (bool \<times> ponger \<times> 'w) option" where
  "poll_keep_alive A is_idle po w =
     (case po_keep_alive po of
        None \<Rightarrow> Some (False, po, w)
      | Some ka \<Rightarrow> do {
          (ka, w) \<leftarrow> maybe_schedule A is_idle (po_shared po) ka w;
          (sh, ka, w) \<leftarrow> maybe_ping A is_idle (po_shared po) ka w;
          (timed_out, ka, w) \<leftarrow> poll_timeout A sh ka w;
          if \<not> timed_out then Some (False, po\<lparr>po_keep_alive := Some ka, po_shared := sh\<rparr>, w)
          else Some (True, po\<lparr>po_keep_alive := None, po_shared := sh\<lparr>sh_timed_out := True\<rparr>\<rparr>, w)
        })"

fun bdp_samples :: "bdp \<Rightarrow> (nat \<times> duration) list \<Rightarrow> u32 list \<times> bdp" where
  "bdp_samples b [] = ([], b)"
| "bdp_samples b ((bytes, dur) # ss) =
     (case bdp_calculate b bytes dur of
        (u, b) \<Rightarrow> (case bdp_samples b ss of (us, b) \<Rightarrow> ((case u of None \<Rightarrow> us | Some x \<Rightarrow> x # us), b)))"

definition bdp_ok :: "bdp \<Rightarrow> bool" where
  "bdp_ok b \<longleftrightarrow> bd_ping_delay b < 40 * SECOND \<and> bd_stable_count b < 2 \<and> is_f64 (bd_rtt b) \<and> 0 \<le> bd_rtt b"

definition next_rtt :: "bdp \<Rightarrow> duration \<Rightarrow> f64" where
  "next_rtt b dur =
     (if bd_rtt b = 0 then seconds dur else f64_add (bd_rtt b) (f64_mul (f64_sub (seconds dur) (bd_rtt b)) (1 / 8)))"

text \<open>The operations on a ponger and its recorder, in any order, between which the world moves on.\<close>

datatype ping_op = OpRecordData bool nat | OpPoll | OpRecordRead | OpKeepAlive bool

datatype ping_result = PingDone | PingUpdate "u32 option" | PingAlive | PingTimedOut

fun ping_exec :: "'w ping_env \<Rightarrow> ping_op \<Rightarrow> ponger \<Rightarrow> 'w \<Rightarrow> (ping_result \<times> ponger \<times> 'w) option" where
  "ping_exec A (OpRecordData enabled len) po w =
     (case record_data A enabled len (po_shared po) w of (sh, w) \<Rightarrow> Some (PingDone, po\<lparr>po_shared := sh\<rparr>, w))"
| "ping_exec A OpPoll po w =
     (case ponger_poll A po w of
        (Panicked, _) \<Rightarrow> None
      | (Ready u, po, w) \<Rightarrow> Some (PingUpdate (Some u), po, w)
      | (Pending, po, w) \<Rightarrow> Some (PingUpdate None, po, w))"
| "ping_exec A OpRecordRead po w = (case ponger_record_read A po w of (po, w) \<Rightarrow> Some (PingDone, po, w))"
| "ping_exec A (OpKeepAlive is_idle) po w =
     map_option (\<lambda>(timed_out, po, w). (if timed_out then PingTimedOut else PingAlive, po, w)) (poll_keep_alive A is_idle po w)"

inductive ping_run :: "'w ping_env \<Rightarrow> ('w \<Rightarrow> 'w \<Rightarrow> bool) \<Rightarrow> ping_config \<Rightarrow> ponger \<Rightarrow> 'w \<Rightarrow> bool"
  for A :: "'w ping_env" and env :: "'w \<Rightarrow> 'w \<Rightarrow> bool" and config :: ping_config where
  ping_start: "ping_channel A config timer w = Some (po, w') \<Longrightarrow> ping_run A env config po w'"
| ping_then: "ping_run A env config po w \<Longrightarrow> ping_exec A p po w = Some (r, po', w') \<Longrightarrow> ping_run A env config po' w'"
| ping_moves: "ping_run A env config po w \<Longrightarrow> env w w' \<Longrightarrow> ping_run A env config po w'"

text \<open>What the code expects of its own state.\<close>

definition ping_ok :: "ponger \<Rightarrow> bool" where
  "ping_ok po \<longleftrightarrow>
     (po_bdp po \<noteq> None \<longrightarrow> sh_bytes (po_shared po) \<noteq> None) \<and> (\<forall>b. po_bdp po = Some b \<longrightarrow> bdp_ok b) \<and>
     (\<forall>ka. po_keep_alive po = Some ka \<longrightarrow>
        sh_last_read_at (po_shared po) \<noteq> None \<and> pk_timer ka = TimeTimer \<and> sh_timer (po_shared po) = TimeTimer)"

text \<open>
  What is relied on of a timer: it tells one clock, its sleep fires no earlier than the instant it was
  reset to and otherwise remembers the waker, and nothing else moves that instant.  \<open>woken\<close> says that the
  task is to be polled again.
\<close>

definition timer_frame :: "('w \<Rightarrow> instant) \<Rightarrow> ('w \<Rightarrow> instant) \<Rightarrow> ('w \<Rightarrow> bool) \<Rightarrow> 'w \<Rightarrow> 'w \<Rightarrow> bool" where
  "timer_frame clock deadline woken w w' \<longleftrightarrow> deadline w' = deadline w \<and> clock w \<le> clock w' \<and> (woken w \<longrightarrow> woken w')"

locale ping_timer =
  fixes A :: "'w ping_env" and clock :: "'w \<Rightarrow> instant" and deadline :: "'w \<Rightarrow> instant"
    and armed :: "'w \<Rightarrow> bool" and woken :: "'w \<Rightarrow> bool"
  assumes timer_now: "pe_timer_now A w = (t, w') \<Longrightarrow> t = clock w' \<and> timer_frame clock deadline woken w w'"
    and timer_sleep: "clock w \<le> clock (pe_sleep A d w)"
    and timer_reset: "deadline (pe_reset A i w) = i \<and> clock w \<le> clock (pe_reset A i w) \<and> (woken w \<longrightarrow> woken (pe_reset A i w))"
    and timer_fires: "pe_poll_sleep A w = (True, w') \<Longrightarrow> deadline w \<le> clock w' \<and> timer_frame clock deadline woken w w'"
    and timer_waits: "pe_poll_sleep A w = (False, w') \<Longrightarrow> armed w' \<and> timer_frame clock deadline woken w w'"
    and ping_frame: "pe_send_ping A payload w = (ok, w') \<Longrightarrow> timer_frame clock deadline woken w w'"
    and pong_frame: "pe_poll_pong A w = (pong, w') \<Longrightarrow> timer_frame clock deadline woken w w'"
    and wakes: "woken (pe_wake A w) \<and> timer_frame clock deadline woken w (pe_wake A w)"

definition ka_timed :: "('w \<Rightarrow> instant) \<Rightarrow> ping_keep_alive \<Rightarrow> 'w \<Rightarrow> bool" where
  "ka_timed deadline ka w \<longleftrightarrow> (\<forall>i. pk_state ka = KaScheduled i \<or> pk_state ka = KaPingSent i \<longrightarrow> deadline w = i)"

definition ping_timed :: "('w \<Rightarrow> instant) \<Rightarrow> ('w \<Rightarrow> instant) \<Rightarrow> ponger \<Rightarrow> 'w \<Rightarrow> bool" where
  "ping_timed clock deadline po w \<longleftrightarrow>
     (\<forall>ka. po_keep_alive po = Some ka \<longrightarrow> (\<forall>seen. sh_last_read_at (po_shared po) = Some seen \<longrightarrow> seen \<le> clock w) \<and> ka_timed deadline ka w)"

text \<open>A keep-alive that may rest: either its sleep will wake the task, or the task is woken already, or
  there is nothing to watch.\<close>

definition ka_rests :: "('w \<Rightarrow> instant) \<Rightarrow> ('w \<Rightarrow> bool) \<Rightarrow> ('w \<Rightarrow> bool) \<Rightarrow> bool \<Rightarrow> ping_keep_alive \<Rightarrow> 'w \<Rightarrow> bool" where
  "ka_rests deadline armed woken is_idle ka w =
     (case pk_state ka of
        KaInit \<Rightarrow> woken w \<or> (is_idle \<and> \<not> pk_while_idle ka)
      | KaScheduled i \<Rightarrow> armed w \<and> deadline w = i
      | KaPingSent i \<Rightarrow> armed w \<and> deadline w = i)"

definition ka_same :: "ping_keep_alive \<Rightarrow> ping_keep_alive \<Rightarrow> bool" where
  "ka_same ka ka' \<longleftrightarrow> pk_interval ka' = pk_interval ka \<and> pk_timeout ka' = pk_timeout ka \<and>
     pk_while_idle ka' = pk_while_idle ka \<and> pk_timer ka' = pk_timer ka"

text \<open>A timer as the trait documents it, with a clock that is moved from outside.\<close>

record sim_world =
  sw_clock :: instant
  sw_deadline :: instant
  sw_armed :: bool
  sw_woken :: bool
  sw_pings :: nat
  sw_pongs :: nat

definition sim_ping_env :: "sim_world ping_env" where
  "sim_ping_env =
     \<lparr>pe_instant_now = (\<lambda>w. (sw_clock w, w)), pe_timer_now = (\<lambda>w. (sw_clock w, w)),
      pe_sleep = (\<lambda>d w. w\<lparr>sw_deadline := sw_clock w + d, sw_armed := False\<rparr>),
      pe_reset = (\<lambda>i w. w\<lparr>sw_deadline := i, sw_armed := False\<rparr>),
      pe_poll_sleep = (\<lambda>w. if sw_deadline w \<le> sw_clock w then (True, w) else (False, w\<lparr>sw_armed := True\<rparr>)),
      pe_send_ping = (\<lambda>payload w. (True, w\<lparr>sw_pings := sw_pings w + 1\<rparr>)),
      pe_poll_pong = (\<lambda>w. if 0 < sw_pongs w then (PongReceived, w\<lparr>sw_pongs := sw_pongs w - 1\<rparr>) else (PongPending, w)),
      pe_wake = (\<lambda>w. w\<lparr>sw_woken := True\<rparr>)\<rparr>"

definition sim_moves :: "sim_world \<Rightarrow> sim_world \<Rightarrow> bool" where
  "sim_moves w w' \<longleftrightarrow> timer_frame sw_clock sw_deadline sw_woken w w'"

text \<open>A connection that has sent its PING and has waited for five seconds.\<close>

definition sim_config :: ping_config where
  "sim_config = ping_config_new False 0 (Some 10) 5 True None"

definition sim_start :: sim_world where
  "sim_start = \<lparr>sw_clock = 0, sw_deadline = 0, sw_armed = False, sw_woken = False, sw_pings = 0, sw_pongs = 0\<rparr>"

definition sim_ponger :: "keep_alive_state \<Rightarrow> instant option \<Rightarrow> ponger" where
  "sim_ponger st sent =
     \<lparr>po_bdp = None,
      po_keep_alive = Some \<lparr>pk_interval = 10, pk_timeout = 5, pk_while_idle = True, pk_state = st, pk_timer = TimeTimer\<rparr>,
      po_shared = \<lparr>sh_ping_sent_at = sent, sh_payload = None, sh_bytes = None, sh_next_bdp_at = None, sh_last_read_at = Some 0,
        sh_timed_out = False, sh_timer = TimeTimer\<rparr>\<rparr>"

lemma f64_of_nat_pos [simp]: "0 \<le> f64_of_nat n" "0 < f64_of_nat n \<longleftrightarrow> 0 < n"
  using f64_round_pos [of "of_nat n"] by (cases "n = 0"; simp add: f64_of_nat_def)+

lemma seconds_pos [simp]: "0 \<le> seconds d" "seconds d = 0 \<longleftrightarrow> d = 0" "is_f64 (seconds d)"
proof -
  let ?s = "f64_of_nat (d div SECOND)" and ?n = "f64_div (f64_of_nat (d mod SECOND)) 1000000000"
  have n: "0 \<le> ?n" "0 < ?n \<longleftrightarrow> 0 < d mod SECOND"
    using f64_round_pos [of "f64_of_nat (d mod SECOND) / 1000000000"]
    by (cases "d mod SECOND = 0"; simp add: f64_div_def f64_of_nat_def [of 0] less_imp_le)+
  have "0 < ?s + ?n" if "d \<noteq> 0"
  proof -
    have "0 < d div SECOND \<or> 0 < d mod SECOND" using that by (metis div_mod_decomp mult_0 not_gr_zero plus_nat.add_0)
    then have "0 < ?s \<or> 0 < ?n" using n by auto
    then show ?thesis using n(1) f64_of_nat_pos(1) [of "d div SECOND"] by linarith
  qed
  then show "0 \<le> seconds d" "seconds d = 0 \<longleftrightarrow> d = 0"
    using f64_round_pos [of "?s + ?n"] n
    by (cases "d = 0"; simp add: seconds_def f64_add_def f64_of_nat_def [of 0] f64_div_def less_imp_le; simp add: less_le)+
  show "is_f64 (seconds d)" by (simp add: seconds_def f64_add_def)
qed

lemma stabilize_keeps [simp]: "bd_bdp (stabilize_delay b) = bd_bdp b" "bd_rtt (stabilize_delay b) = bd_rtt b"
  "bd_max_bandwidth (stabilize_delay b) = bd_max_bandwidth b"
  by (simp_all add: stabilize_delay_def Let_def)

lemma stabilize_ok: "bdp_ok b \<Longrightarrow> bdp_ok (stabilize_delay b)"
  by (auto simp: bdp_ok_def stabilize_delay_def Let_def not_le)

lemma rtt_step:
  assumes "is_f64 a" "is_f64 r" "0 < a" "0 < r"
  shows "min a r \<le> f64_add a (f64_mul (f64_sub r a) (1 / 8)) \<and> f64_add a (f64_mul (f64_sub r a) (1 / 8)) \<le> max a r"
  using f64_step_up [OF assms(1,2)] f64_step_down [OF assms(1,2)] by (cases "a \<le> r") auto

lemma calculate_cases:
  assumes "bdp_calculate b bytes dur = (u, b')"
  obtains (same) "u = None" "b' = stabilize_delay b"
  | (sampled) mx where "dur \<noteq> 0" "u = None" "b' = stabilize_delay (b\<lparr>bd_rtt := next_rtt b dur, bd_max_bandwidth := mx\<rparr>)"
  | (grown) mx where "dur \<noteq> 0" "unat (bd_bdp b) \<noteq> BDP_LIMIT" "bytes \<ge> unat (bd_bdp b) * 2 div 3" "u = Some (bd_bdp b')"
      "b' = b\<lparr>bd_rtt := next_rtt b dur, bd_max_bandwidth := mx, bd_bdp := of_nat (min (saturating_mul bytes 2) BDP_LIMIT),
         bd_stable_count := 0, bd_ping_delay := bd_ping_delay b div 2\<rparr>"
proof -
  let ?b = "b\<lparr>bd_rtt := next_rtt b dur\<rparr>"
  let ?bw = "f64_div (f64_of_nat bytes) (f64_mul (next_rtt b dur) (3 / 2))"
  have r: "(if bd_rtt b = 0 then b\<lparr>bd_rtt := seconds dur\<rparr>
      else b\<lparr>bd_rtt := f64_add (bd_rtt b) (f64_mul (f64_sub (seconds dur) (bd_rtt b)) (1 / 8))\<rparr>) = ?b"
    by (simp add: next_rtt_def)
  consider "unat (bd_bdp b) = BDP_LIMIT \<or> dur = 0"
    | "unat (bd_bdp b) \<noteq> BDP_LIMIT" "dur \<noteq> 0" "?bw < bd_max_bandwidth b"
    | "unat (bd_bdp b) \<noteq> BDP_LIMIT" "dur \<noteq> 0" "\<not> ?bw < bd_max_bandwidth b" "bytes < unat (bd_bdp b) * 2 div 3"
    | "unat (bd_bdp b) \<noteq> BDP_LIMIT" "dur \<noteq> 0" "\<not> ?bw < bd_max_bandwidth b" "bytes \<ge> unat (bd_bdp b) * 2 div 3"
    using not_le by blast
  then show thesis
  proof cases
    case 1
    then show thesis using assms by (intro same) (auto simp: bdp_calculate_def Let_def split: if_split_asm)
  next
    case 2
    then show thesis using assms sampled [of "bd_max_bandwidth b"] by (auto simp: bdp_calculate_def r Let_def)
  next
    case 3
    then show thesis using assms sampled [of ?bw] by (auto simp: bdp_calculate_def r Let_def)
  next
    case 4
    show thesis using assms by (intro grown [OF 4(2,1,4), of ?bw]) (use 4 in \<open>auto simp: bdp_calculate_def r Let_def\<close>)
  qed
qed

lemma next_rtt_first: "bd_rtt b = 0 \<Longrightarrow> next_rtt b dur = seconds dur"
  by (simp add: next_rtt_def)

lemma next_rtt_between:
  assumes "bdp_ok b" "dur \<noteq> 0" "bd_rtt b \<noteq> 0"
  shows "min (bd_rtt b) (seconds dur) \<le> next_rtt b dur \<and> next_rtt b dur \<le> max (bd_rtt b) (seconds dur)"
proof -
  have p: "is_f64 (bd_rtt b)" "0 < bd_rtt b" "0 < seconds dur"
    using assms order.not_eq_order_implies_strict [of 0 "seconds dur"] by (simp_all add: bdp_ok_def)
  show ?thesis
    unfolding next_rtt_def if_not_P [OF assms(3)] by (rule rtt_step [OF p(1) seconds_pos(3) p(2,3)])
qed

lemma next_rtt_ok:
  assumes "bdp_ok b" "dur \<noteq> 0"
  shows "is_f64 (next_rtt b dur) \<and> 0 \<le> next_rtt b dur"
proof
  show "is_f64 (next_rtt b dur)" by (simp add: next_rtt_def f64_add_def)
  have "0 \<le> bd_rtt b" using assms(1) by (simp add: bdp_ok_def)
  then have "0 \<le> min (bd_rtt b) (seconds dur)" by simp
  then show "0 \<le> next_rtt b dur"
    using next_rtt_between [OF assms] next_rtt_first [of b dur] seconds_pos(1) [of dur] order_trans by metis
qed

lemma calculate_ok:
  assumes "bdp_ok b" "bdp_calculate b bytes dur = (u, b')"
  shows "bdp_ok b'"
  using assms(2)
proof (cases rule: calculate_cases)
  case (sampled mx)
  have "bdp_ok (b\<lparr>bd_rtt := next_rtt b dur, bd_max_bandwidth := mx\<rparr>)"
    using next_rtt_ok [OF assms(1) sampled(1)] assms(1) by (simp add: bdp_ok_def)
  then show ?thesis using sampled(3) by (simp add: stabilize_ok)
next
  case (grown mx)
  show ?thesis using next_rtt_ok [OF assms(1) grown(1)] assms(1) unfolding grown(5) bdp_ok_def
    by (simp add: div_less_dividend le_less_trans [OF div_le_dividend])
qed (use assms(1) in \<open>auto intro: stabilize_ok\<close>)

lemma calculate_window:
  assumes "5 \<le> unat (bd_bdp b)" "unat (bd_bdp b) \<le> BDP_LIMIT" "bdp_calculate b bytes dur = (u, b')"
  shows "(case u of None \<Rightarrow> bd_bdp b' = bd_bdp b | Some x \<Rightarrow> x = bd_bdp b' \<and> bd_bdp b < bd_bdp b') \<and> unat (bd_bdp b') \<le> BDP_LIMIT"
  using assms(3)
proof (cases rule: calculate_cases)
  case (grown mx)
  let ?n = "min (saturating_mul bytes 2) BDP_LIMIT"
  have n: "unat (bd_bdp b) < ?n" using grown(2,3) assms(1,2) by (auto simp: saturating_mul_def BDP_LIMIT_def)
  have "?n < 2 ^ 32" by (auto simp: BDP_LIMIT_def)
  then have "unat (bd_bdp b') = ?n" unfolding grown(5) by (simp add: unat_of_nat take_bit_nat_eq_self)
  then show ?thesis using n grown(4) by (simp add: word_less_nat_alt)
qed (use assms in auto)

lemma samples_window:
  assumes "5 \<le> unat (bd_bdp b)" "unat (bd_bdp b) \<le> BDP_LIMIT" "bdp_samples b ss = (us, b')"
  shows "sorted_wrt (<) (bd_bdp b # us) \<and> last (bd_bdp b # us) = bd_bdp b' \<and> (\<forall>u \<in> set us. unat u \<le> BDP_LIMIT)"
  using assms
proof (induction ss arbitrary: b us)
  case (Cons s ss)
  obtain bytes dur where s: "s = (bytes, dur)" by fastforce
  obtain u b1 us1 where c: "bdp_calculate b bytes dur = (u, b1)" "bdp_samples b1 ss = (us1, b')"
      "us = (case u of None \<Rightarrow> us1 | Some x \<Rightarrow> x # us1)"
    using Cons.prems(3) s by (auto split: prod.split_asm)
  note w = calculate_window [OF Cons.prems(1,2) c(1)]
  have "5 \<le> unat (bd_bdp b1)" using w Cons.prems(1) by (auto simp: word_less_nat_alt split: option.split_asm)
  note ih = Cons.IH [OF this _ c(2)]
  show ?case using ih w c(3) by (cases u) (auto intro: less_trans)
qed auto

lemma samples_ok: "bdp_ok b \<Longrightarrow> bdp_samples b ss = (us, b') \<Longrightarrow> bdp_ok b'"
proof (induction ss arbitrary: b us)
  case (Cons s ss)
  obtain u b1 us1 where "bdp_calculate b (fst s) (snd s) = (u, b1)" "bdp_samples b1 ss = (us1, b')"
    using Cons.prems(2) by (cases s) (auto split: prod.split_asm)
  then show ?case using Cons.IH [OF calculate_ok [OF Cons.prems(1)]] by blast
qed auto

lemma samples_rtt:
  assumes "bdp_ok b" "bdp_samples b ss = (us, b')" "bd_rtt b = 0 \<or> (lo \<le> bd_rtt b \<and> bd_rtt b \<le> hi)"
    and "\<And>bytes dur. (bytes, dur) \<in> set ss \<Longrightarrow> dur \<noteq> 0 \<Longrightarrow> lo \<le> seconds dur \<and> seconds dur \<le> hi"
  shows "bd_rtt b' = 0 \<or> (lo \<le> bd_rtt b' \<and> bd_rtt b' \<le> hi)"
  using assms
proof (induction ss arbitrary: b us)
  case (Cons s ss)
  obtain bytes dur where s: "s = (bytes, dur)" by fastforce
  obtain u b1 us1 where c: "bdp_calculate b bytes dur = (u, b1)" "bdp_samples b1 ss = (us1, b')"
    using Cons.prems(2) s by (auto split: prod.split_asm)
  have n: "lo \<le> next_rtt b dur \<and> next_rtt b dur \<le> hi" if "dur \<noteq> 0"
    using next_rtt_between [OF Cons.prems(1) that] next_rtt_first [of b dur] Cons.prems(3) Cons.prems(4) [of bytes dur] that s
    by (cases "bd_rtt b = 0") (auto simp: min_def max_def split: if_split_asm)
  have "bd_rtt b1 = 0 \<or> (lo \<le> bd_rtt b1 \<and> bd_rtt b1 \<le> hi)"
    using c(1) by (cases rule: calculate_cases) (use n Cons.prems(3) in auto)
  then show ?case using Cons.IH [OF calculate_ok [OF Cons.prems(1) c(1)] c(2)] Cons.prems(4) by auto
qed auto

lemma bdp_new_ok: "bdp_ok (bdp_new wnd)"
  by (simp add: bdp_ok_def bdp_new_def is_f64_def SECOND_def MILLI_def)

lemma channel_ok: "ping_channel A config timer w = Some (po, w') \<Longrightarrow> ping_ok po"
  by (auto simp: ping_channel_def ping_ok_def Let_def time_sleep_def bdp_new_ok
      split: prod.split_asm option.split_asm time.split_asm if_split_asm bind_splits)

lemma send_ping_keeps:
  assumes "send_ping A sh w = (sh', w')"
  shows "sh_bytes sh' = sh_bytes sh \<and> sh_last_read_at sh' = sh_last_read_at sh \<and> sh_timer sh' = sh_timer sh \<and> sh_timed_out sh' = sh_timed_out sh"
  using assms by (auto simp: send_ping_def split: prod.split_asm bool.split_asm)

lemma record_data_keeps:
  assumes "record_data A enabled len sh w = (sh', w')"
  shows "(sh_bytes sh' = None \<longleftrightarrow> sh_bytes sh = None) \<and> sh_last_read_at sh' = sh_last_read_at sh \<and> sh_timer sh' = sh_timer sh"
  using assms
  by (auto simp: record_data_def Let_def split: prod.split_asm if_split_asm option.split_asm dest: send_ping_keeps)

lemma update_last_read_keeps:
  assumes "update_last_read_at A sh w = (sh', w')"
  shows "sh_bytes sh' = sh_bytes sh \<and> (sh_last_read_at sh' = None \<longleftrightarrow> sh_last_read_at sh = None) \<and> sh_timer sh' = sh_timer sh"
  using assms by (auto simp: update_last_read_at_def split: prod.split_asm if_split_asm)

lemma poll_ok:
  assumes "ping_ok po" "ponger_poll A po w = (r, po', w')"
  shows "ping_ok po' \<and> r \<noteq> Panicked"
  using assms
  by (auto simp: ponger_poll_def ping_ok_def Let_def dest!: update_last_read_keeps intro: calculate_ok
      split: prod.split_asm option.split_asm pong.split_asm)

lemma timeout_loop_eq:
  assumes "sh_last_read_at sh = Some seen" "pk_timer ka = TimeTimer"
  shows "timeout_loop A sh deadline ka w =
    (case pe_poll_sleep A w of
       (ready, w) \<Rightarrow>
         if \<not> ready then Some (False, ka, w)
         else if seen + pk_timeout ka \<le> deadline then Some (True, ka, w)
         else (case pe_poll_sleep A (pe_reset A (seen + pk_timeout ka) w) of
           (ready, w) \<Rightarrow> Some (ready, ka\<lparr>pk_state := KaPingSent (seen + pk_timeout ka)\<rparr>, w)))"
proof -
  have step: "timeout_loop A sh d k v =
      (case pe_poll_sleep A v of
         (ready, v) \<Rightarrow>
           if \<not> ready then Some (False, k, v)
           else if seen + pk_timeout k \<le> d then Some (True, k, v)
           else timeout_loop A sh (seen + pk_timeout k) (k\<lparr>pk_state := KaPingSent (seen + pk_timeout k)\<rparr>)
             (pe_reset A (seen + pk_timeout k) v))"
    if "pk_timer k = TimeTimer" for d k v
    by (subst timeout_loop.simps) (auto simp: assms(1) that time_reset_def Let_def split: prod.split)
  show ?thesis by (subst step [OF assms(2)], subst step) (auto simp: assms(2) split: prod.split)
qed

lemma maybe_schedule_some:
  assumes "sh_last_read_at sh = Some seen" "pk_timer ka = TimeTimer"
  shows "maybe_schedule A is_idle sh ka w =
    Some (if (pk_state ka = KaInit \<and> (pk_while_idle ka \<or> \<not> is_idle)) \<or> ((\<exists>i. pk_state ka = KaPingSent i) \<and> \<not> is_ping_sent sh)
          then (ka\<lparr>pk_state := KaScheduled (seen + pk_interval ka)\<rparr>, pe_reset A (seen + pk_interval ka) w) else (ka, w))"
  using assms by (cases "pk_state ka") (auto simp: maybe_schedule_def ka_schedule_def time_reset_def Let_def)

lemma maybe_ping_some:
  assumes "sh_last_read_at sh = Some seen" "pk_timer ka = TimeTimer"
  shows "\<exists>sh' ka' w'. maybe_ping A is_idle sh ka w = Some (sh', ka', w') \<and> pk_timer ka' = TimeTimer \<and>
    sh_last_read_at sh' = Some seen \<and> sh_bytes sh' = sh_bytes sh \<and> sh_timer sh' = sh_timer sh \<and>
    pk_timeout ka' = pk_timeout ka \<and> pk_interval ka' = pk_interval ka \<and> pk_while_idle ka' = pk_while_idle ka"
  using assms
  by (auto simp: maybe_ping_def time_reset_def Let_def dest: send_ping_keeps split: keep_alive_state.split prod.split bool.split)

lemma keep_alive_some:
  assumes "sh_last_read_at (po_shared po) = Some seen" "po_keep_alive po = Some ka" "pk_timer ka = TimeTimer"
  shows "\<exists>timed_out po' w'. poll_keep_alive A is_idle po w = Some (timed_out, po', w') \<and> po_bdp po' = po_bdp po \<and>
    sh_last_read_at (po_shared po') = Some seen \<and> sh_bytes (po_shared po') = sh_bytes (po_shared po) \<and>
    sh_timer (po_shared po') = sh_timer (po_shared po) \<and> (\<forall>ka'. po_keep_alive po' = Some ka' \<longrightarrow> pk_timer ka' = TimeTimer)"
proof -
  have "\<exists>ka1 w1. maybe_schedule A is_idle (po_shared po) ka w = Some (ka1, w1) \<and> pk_timer ka1 = TimeTimer"
    unfolding maybe_schedule_some [OF assms(1,3)] using assms(3) by simp
  then obtain ka1 w1 where 1: "maybe_schedule A is_idle (po_shared po) ka w = Some (ka1, w1)" "pk_timer ka1 = TimeTimer"
    by blast
  obtain sh2 ka2 w2 where 2: "maybe_ping A is_idle (po_shared po) ka1 w1 = Some (sh2, ka2, w2)" "pk_timer ka2 = TimeTimer"
      "sh_last_read_at sh2 = Some seen" "sh_bytes sh2 = sh_bytes (po_shared po)" "sh_timer sh2 = sh_timer (po_shared po)"
    using maybe_ping_some [OF assms(1) 1(2), of A is_idle w1] by (elim exE conjE)
  have 3: "\<exists>t ka3 w3. poll_timeout A sh2 ka2 w2 = Some (t, ka3, w3) \<and> pk_timer ka3 = TimeTimer"
    using 2(2) by (auto simp: poll_timeout_def timeout_loop_eq [OF 2(3,2)] split: keep_alive_state.split prod.split)
  then show ?thesis using 1 2 assms(2) by (auto simp: poll_keep_alive_def)
qed

lemma keep_alive_ok:
  assumes "ping_ok po"
  shows "\<exists>timed_out po' w'. poll_keep_alive A is_idle po w = Some (timed_out, po', w') \<and> ping_ok po'"
proof (cases "po_keep_alive po")
  case None
  then show ?thesis using assms by (auto simp: poll_keep_alive_def)
next
  case (Some ka)
  then obtain seen where "sh_last_read_at (po_shared po) = Some seen" "pk_timer ka = TimeTimer"
    using assms by (auto simp: ping_ok_def)
  from keep_alive_some [OF this(1) Some this(2), of A is_idle w] show ?thesis using assms Some by (auto simp: ping_ok_def)
qed

lemma exec_ping_ok:
  assumes "ping_ok po"
  shows "\<exists>r po' w'. ping_exec A p po w = Some (r, po', w') \<and> ping_ok po'"
proof (cases p)
  case (OpRecordData enabled len)
  then show ?thesis using assms by (auto simp: ping_ok_def dest: record_data_keeps split: prod.split)
next
  case OpPoll
  obtain r po' w' where r: "ponger_poll A po w = (r, po', w')" by (cases "ponger_poll A po w") auto
  show ?thesis using r OpPoll poll_ok [OF assms r] by (cases r) auto
next
  case OpRecordRead
  then show ?thesis using assms by (auto simp: ping_ok_def ponger_record_read_def dest: update_last_read_keeps split: prod.split)
next
  case (OpKeepAlive is_idle)
  then show ?thesis using keep_alive_ok [OF assms, of A is_idle w] by fastforce
qed

lemma run_ping_ok: "ping_run A env config po w \<Longrightarrow> ping_ok po"
proof (induction rule: ping_run.induct)
  case (ping_then po w p r po' w')
  then show ?case using exec_ping_ok [OF ping_then.IH, of A p w] by auto
qed (auto intro: channel_ok)

lemma ka_same_state [simp]: "ka_same ka (ka\<lparr>pk_state := st\<rparr>)" "ka_same ka ka"
  by (simp_all add: ka_same_def)

context ping_timer
begin

lemma time_now_frame: "time_now A TimeTimer w = (t, w') \<Longrightarrow> t = clock w' \<and> timer_frame clock deadline woken w w'"
  using timer_now by (simp add: time_now_def)

lemma frame_trans: "timer_frame clock deadline woken w w1 \<Longrightarrow> timer_frame clock deadline woken w1 w' \<Longrightarrow> timer_frame clock deadline woken w w'"
  by (auto simp: timer_frame_def)

lemma frame_refl [simp, intro]: "timer_frame clock deadline woken w w"
  by (simp add: timer_frame_def)

lemma send_ping_frame:
  assumes "send_ping A sh w = (sh', w')" "sh_timer sh = TimeTimer"
  shows "timer_frame clock deadline woken w w'"
  using assms by (auto simp: send_ping_def dest!: ping_frame time_now_frame intro: frame_trans split: prod.split_asm bool.split_asm)

lemma update_last_read_frame:
  assumes "update_last_read_at A sh w = (sh', w')" "sh_timer sh = TimeTimer"
  shows "timer_frame clock deadline woken w w' \<and> (\<forall>seen. sh_last_read_at sh' = Some seen \<longrightarrow> seen = clock w')"
  using assms by (auto simp: update_last_read_at_def dest!: time_now_frame split: prod.split_asm if_split_asm)

lemma record_data_frame:
  assumes "record_data A enabled len sh w = (sh', w')" "sh_timer sh = TimeTimer"
  shows "timer_frame clock deadline woken w w'"
  using assms
  by (auto simp: record_data_def Let_def dest!: time_now_frame send_ping_frame intro: frame_trans
      split: prod.split_asm if_split_asm option.split_asm)

lemma poll_frame:
  assumes "ponger_poll A po w = (r, po', w')" "sh_timer (po_shared po) = TimeTimer"
  shows "timer_frame clock deadline woken w w' \<and> po_keep_alive po' = po_keep_alive po \<and>
    (sh_last_read_at (po_shared po') = sh_last_read_at (po_shared po) \<or> (\<forall>seen. sh_last_read_at (po_shared po') = Some seen \<longrightarrow> seen = clock w'))"
  using assms
  by (auto simp: ponger_poll_def Let_def dest!: time_now_frame update_last_read_frame pong_frame intro: frame_trans
      split: prod.split_asm option.split_asm pong.split_asm)

lemma schedule_timed:
  assumes "sh_last_read_at sh = Some seen" "pk_timer ka = TimeTimer" "ka_timed deadline ka w"
    and "maybe_schedule A is_idle sh ka w = Some (ka', w')"
  shows "clock w \<le> clock w' \<and> ka_timed deadline ka' w' \<and> (pk_state ka' = KaInit \<longrightarrow> is_idle \<and> \<not> pk_while_idle ka') \<and>
    ka_same ka ka'"
  using assms(3,4) timer_reset [of "seen + pk_interval ka" w] unfolding maybe_schedule_some [OF assms(1,2)]
  by (auto simp: ka_timed_def split: if_split_asm)

lemma ping_step_timed:
  assumes "sh_last_read_at sh = Some seen" "pk_timer ka = TimeTimer" "sh_timer sh = TimeTimer" "ka_timed deadline ka w"
    and "pk_state ka = KaInit \<longrightarrow> is_idle \<and> \<not> pk_while_idle ka"
    and "maybe_ping A is_idle sh ka w = Some (sh', ka', w')"
  shows "clock w \<le> clock w' \<and> ka_timed deadline ka' w' \<and> ka_same ka ka' \<and>
    ((\<forall>i. pk_state ka' \<noteq> KaPingSent i) \<longrightarrow> ka_rests deadline armed woken is_idle ka' w') \<and>
    (sh_ping_sent_at sh' \<noteq> sh_ping_sent_at sh \<longrightarrow> seen + pk_interval ka \<le> clock w' \<and> (pk_while_idle ka \<or> \<not> is_idle))"
proof (cases "pk_state ka")
  case KaInit
  then show ?thesis using assms by (auto simp: maybe_ping_def ka_rests_def)
next
  case (KaPingSent i)
  then show ?thesis using assms by (auto simp: maybe_ping_def)
next
  case (KaScheduled due)
  have d: "deadline w = due" using assms(4) KaScheduled by (simp add: ka_timed_def)
  obtain ready w1 where p: "pe_poll_sleep A w = (ready, w1)" by fastforce
  show ?thesis
  proof (cases ready)
    case False
    then show ?thesis using timer_waits [of w w1] p assms(6) KaScheduled d
      by (auto simp: maybe_ping_def ka_rests_def ka_timed_def timer_frame_def)
  next
    case True
    have f: "due \<le> clock w1" "timer_frame clock deadline woken w w1" using timer_fires [of w w1] p True d by auto
    consider "due < seen + pk_interval ka" | "seen + pk_interval ka \<le> due" "\<not> pk_while_idle ka" is_idle
      | "seen + pk_interval ka \<le> due" "pk_while_idle ka \<or> \<not> is_idle" by linarith
    then show ?thesis
    proof cases
      case 3
      obtain sh2 w2 where s: "send_ping A sh w1 = (sh2, w2)" by fastforce
      obtain now w3 where n: "time_now A TimeTimer w2 = (now, w3)" by fastforce
      have "clock w1 \<le> clock w2" "clock w2 \<le> clock w3"
        using send_ping_frame [OF s assms(3)] time_now_frame [OF n] by (auto simp: timer_frame_def)
      moreover have "sh' = sh2" "ka' = ka\<lparr>pk_state := KaPingSent (now + pk_timeout ka)\<rparr>" "w' = pe_reset A (now + pk_timeout ka) w3"
        using 3 True p KaScheduled assms(1,2,6) s n by (auto simp: maybe_ping_def time_reset_def Let_def)
      ultimately show ?thesis using 3 f timer_reset [of "now + pk_timeout ka" w3]
        by (simp add: ka_timed_def timer_frame_def)
    qed (use True p KaScheduled assms(1,6) f wakes [of w1] in \<open>auto simp: maybe_ping_def ka_rests_def ka_timed_def timer_frame_def\<close>)+
  qed
qed

lemma timeout_timed:
  assumes "sh_last_read_at sh = Some seen" "pk_timer ka = TimeTimer" "ka_timed deadline ka w"
    and "(\<forall>i. pk_state ka \<noteq> KaPingSent i) \<longrightarrow> ka_rests deadline armed woken is_idle ka w"
    and "poll_timeout A sh ka w = Some (timed_out, ka', w')"
  shows "clock w \<le> clock w' \<and> ka_timed deadline ka' w' \<and> ka_same ka ka' \<and>
    (timed_out \<longrightarrow> seen + pk_timeout ka \<le> clock w') \<and>
    (\<not> timed_out \<longrightarrow> ka_rests deadline armed woken is_idle ka' w')"
proof (cases "\<exists>i. pk_state ka = KaPingSent i")
  case False
  then show ?thesis using assms(3-5) by (auto simp: poll_timeout_def split: keep_alive_state.split_asm)
next
  case True
  then obtain i where i: "pk_state ka = KaPingSent i" by blast
  have d: "deadline w = i" using assms(3) i by (simp add: ka_timed_def)
  note e = assms(5) [unfolded poll_timeout_def i keep_alive_state.case timeout_loop_eq [OF assms(1,2)]]
  obtain r1 w1 where p: "pe_poll_sleep A w = (r1, w1)" by fastforce
  let ?n = "seen + pk_timeout ka"
  obtain r2 w2 where q: "pe_poll_sleep A (pe_reset A ?n w1) = (r2, w2)" by fastforce
  have f: "timer_frame clock deadline woken w w1" "r1 \<Longrightarrow> i \<le> clock w1" "\<not> r1 \<Longrightarrow> armed w1"
    using timer_fires [of w w1] timer_waits [of w w1] p d by (cases r1; auto)+
  have g: "timer_frame clock deadline woken (pe_reset A ?n w1) w2" "r2 \<Longrightarrow> deadline (pe_reset A ?n w1) \<le> clock w2" "\<not> r2 \<Longrightarrow> armed w2"
    using timer_fires [of "pe_reset A ?n w1" w2] timer_waits [of "pe_reset A ?n w1" w2] q by (cases r2; auto)+
  consider "\<not> r1" | r1 "?n \<le> i" | r1 "\<not> ?n \<le> i" by blast
  then show ?thesis
  proof cases
    case 3
    then have "timed_out = r2" "ka' = ka\<lparr>pk_state := KaPingSent ?n\<rparr>" "w' = w2" using e p q by auto
    then show ?thesis using f(1) g timer_reset [of ?n w1] by (simp add: ka_timed_def ka_rests_def timer_frame_def)
  qed (use e p f i d in \<open>auto simp: ka_timed_def ka_rests_def timer_frame_def\<close>)
qed

lemma keep_alive_timed:
  assumes "ping_ok po" "ping_timed clock deadline po w" "po_keep_alive po = Some ka" "sh_last_read_at (po_shared po) = Some seen"
    and "poll_keep_alive A is_idle po w = Some (timed_out, po', w')"
  shows "clock w \<le> clock w' \<and> ping_timed clock deadline po' w' \<and>
    (timed_out \<longrightarrow> seen + pk_timeout ka \<le> clock w' \<and> po_keep_alive po' = None \<and> sh_timed_out (po_shared po')) \<and>
    (\<not> timed_out \<longrightarrow> (\<exists>ka'. po_keep_alive po' = Some ka' \<and> ka_same ka ka' \<and> ka_rests deadline armed woken is_idle ka' w')) \<and>
    (sh_ping_sent_at (po_shared po') \<noteq> sh_ping_sent_at (po_shared po) \<longrightarrow> seen + pk_interval ka \<le> clock w' \<and> (pk_while_idle ka \<or> \<not> is_idle))"
proof -
  let ?sh = "po_shared po"
  have t: "pk_timer ka = TimeTimer" "sh_timer ?sh = TimeTimer" "ka_timed deadline ka w" "seen \<le> clock w"
    using assms(1-4) by (auto simp: ping_ok_def ping_timed_def)
  obtain ka1 w1 where 1: "maybe_schedule A is_idle ?sh ka w = Some (ka1, w1)" using assms(3,5) by (auto simp: poll_keep_alive_def split: bind_splits)
  note s1 = schedule_timed [OF assms(4) t(1,3) 1]
  obtain sh2 ka2 w2 where 2: "maybe_ping A is_idle ?sh ka1 w1 = Some (sh2, ka2, w2)"
    using assms(3,5) 1 by (auto simp: poll_keep_alive_def split: bind_splits)
  have ka1: "pk_timer ka1 = TimeTimer" "pk_interval ka1 = pk_interval ka" "pk_while_idle ka1 = pk_while_idle ka" "pk_timeout ka1 = pk_timeout ka"
    using s1 t(1) by (auto simp: ka_same_def)
  have "ka_timed deadline ka1 w1" "pk_state ka1 = KaInit \<longrightarrow> is_idle \<and> \<not> pk_while_idle ka1" using s1 by blast+
  note s2 = ping_step_timed [OF assms(4) ka1(1) t(2) this 2]
  have l2: "sh_last_read_at sh2 = Some seen" using maybe_ping_some [OF assms(4) ka1(1), of A is_idle w1] 2 by auto
  obtain ka3 where 3: "poll_timeout A sh2 ka2 w2 = Some (timed_out, ka3, w')"
      "po' = (if timed_out then po\<lparr>po_keep_alive := None, po_shared := sh2\<lparr>sh_timed_out := True\<rparr>\<rparr> else po\<lparr>po_keep_alive := Some ka3, po_shared := sh2\<rparr>)"
    using assms(3,5) 1 2 by (auto simp: poll_keep_alive_def split: bind_splits if_split_asm)
  have ka2: "pk_timer ka2 = TimeTimer" "pk_timeout ka2 = pk_timeout ka" using s2 s1 ka1 by (auto simp: ka_same_def)
  have "ka_timed deadline ka2 w2" "(\<forall>i. pk_state ka2 \<noteq> KaPingSent i) \<longrightarrow> ka_rests deadline armed woken is_idle ka2 w2" using s2 by blast+
  note s3 = timeout_timed [OF l2 ka2(1) this 3(1)]
  have c: "clock w \<le> clock w1" "clock w1 \<le> clock w2" "clock w2 \<le> clock w'" using s1 s2 s3 by auto
  have "ka_same ka ka3" using s1 s2 s3 by (auto simp: ka_same_def)
  then show ?thesis using s1 s2 s3 c t(4) l2 ka1 ka2 3(2) by (auto simp: ping_timed_def)
qed

lemma timed_frame:
  assumes "ping_timed clock deadline po w" "timer_frame clock deadline woken w w'" "po_keep_alive po' = po_keep_alive po"
    and "sh_last_read_at (po_shared po') = sh_last_read_at (po_shared po) \<or> (\<forall>seen. sh_last_read_at (po_shared po') = Some seen \<longrightarrow> seen = clock w')"
  shows "ping_timed clock deadline po' w'"
  using assms by (auto simp: ping_timed_def ka_timed_def timer_frame_def)

lemma exec_timed:
  assumes "ping_ok po" "ping_timed clock deadline po w" "ping_exec A p po w = Some (r, po', w')"
  shows "ping_timed clock deadline po' w'"
proof (cases "po_keep_alive po")
  case None
  then show ?thesis using assms(3)
    by (cases p) (auto simp: ping_timed_def poll_keep_alive_def ponger_record_read_def ponger_poll_def Let_def
        split: prod.split_asm poll.split_asm option.split_asm pong.split_asm)
next
  case (Some ka)
  then obtain seen where seen: "sh_last_read_at (po_shared po) = Some seen" "sh_timer (po_shared po) = TimeTimer"
    using assms(1) by (auto simp: ping_ok_def)
  show ?thesis
  proof (cases p)
    case (OpKeepAlive is_idle)
    then show ?thesis using keep_alive_timed [OF assms(1,2) Some seen(1)] assms(3) by (auto split: if_split_asm)
  next
    case (OpRecordData enabled len)
    obtain sh where e: "record_data A enabled len (po_shared po) w = (sh, w')" "po' = po\<lparr>po_shared := sh\<rparr>"
      using assms(3) OpRecordData by (auto split: prod.split_asm)
    show ?thesis using timed_frame [OF assms(2) record_data_frame [OF e(1) seen(2)]] record_data_keeps [OF e(1)] e(2) by simp
  next
    case OpPoll
    obtain x where e: "ponger_poll A po w = (x, po', w')" using assms(3) OpPoll by (auto split: prod.split_asm poll.split_asm)
    show ?thesis using timed_frame [OF assms(2)] poll_frame [OF e seen(2)] by blast
  next
    case OpRecordRead
    obtain sh where e: "update_last_read_at A (po_shared po) w = (sh, w')" "po' = po\<lparr>po_shared := sh\<rparr>"
      using assms(3) OpRecordRead by (auto simp: ponger_record_read_def split: prod.split_asm)
    show ?thesis using timed_frame [OF assms(2)] update_last_read_frame [OF e(1) seen(2)] e(2) by simp
  qed
qed

lemma channel_timed:
  assumes "ping_channel A config timer w = Some (po, w')"
  shows "ping_timed clock deadline po w'"
  using assms timer_sleep
  by (auto simp: ping_channel_def ping_timed_def ka_timed_def Let_def time_sleep_def time_now_def
      dest!: timer_now split: prod.split_asm option.split_asm time.split_asm if_split_asm bind_splits)

lemma run_timed:
  assumes "ping_run A env config po w" "\<And>v v'. env v v' \<Longrightarrow> timer_frame clock deadline woken v v'"
  shows "ping_timed clock deadline po w"
  using assms(1)
proof (induction rule: ping_run.induct)
  case (ping_start timer w po w')
  then show ?case using channel_timed by blast
next
  case (ping_then po w p r po' w')
  then show ?case using exec_timed [OF run_ping_ok [OF ping_then.hyps(1)] ping_then.IH] by blast
next
  case (ping_moves po w w')
  then show ?case using timed_frame [OF ping_moves.IH assms(2)] by blast
qed

end

interpretation sim_timer: ping_timer sim_ping_env sw_clock sw_deadline sw_armed sw_woken
  by unfold_locales (auto simp: sim_ping_env_def timer_frame_def split: if_split_asm)

text \<open>C26.  Whatever is sampled, the window of the flow control that starts at five bytes or more and within the
  limit of 16 MiB only ever grows, each update to a larger window, the last update being the window in
  force; it never passes the limit, and the pause before the next measurement stays below 40 seconds.\<close>

theorem bdp_window_sound:
  assumes "5 \<le> unat wnd" "unat wnd \<le> 16777216" "bdp_samples (bdp_new wnd) ss = (us, b)"
  shows "sorted_wrt (<) (wnd # us) \<and> last (wnd # us) = bd_bdp b \<and> (\<forall>u \<in> set us. unat u \<le> 16777216) \<and>
    bd_ping_delay b < 40 * SECOND"
  using samples_window [OF _ _ assms(3)] samples_ok [OF bdp_new_ok assms(3)] assms(1,2)
  by (simp add: bdp_new_def BDP_LIMIT_def bdp_ok_def)

lemma f64_nonneg [simp]: "0 \<le> x \<Longrightarrow> 0 \<le> f64_round x"
  using f64_round_twice by blast

text \<open>A first sample of 64 KiB in a second.\<close>

lemma first_sample:
  "bdp_samples (bdp_new 65535) [(65536, 1000000000)] =
     ([131072], \<lparr>bd_bdp = 131072, bd_max_bandwidth = f64_div (f64_of_nat 65536) (f64_mul (seconds 1000000000) (3 / 2)),
        bd_rtt = seconds 1000000000, bd_ping_delay = 50000000, bd_stable_count = 0\<rparr>)"
proof -
  have "\<not> f64_div (f64_of_nat 65536) (f64_mul (seconds 1000000000) (3 / 2)) < 0"
    by (simp add: f64_div_def f64_mul_def f64_of_nat_def not_less)
  then show ?thesis
    by (simp add: bdp_new_def bdp_calculate_def Let_def BDP_LIMIT_def MILLI_def saturating_mul_def)
qed

theorem bdp_window_sound_witness:
  "5 \<le> unat (65535 :: u32) \<and> unat (65535 :: u32) \<le> 16777216 \<and>
   fst (bdp_samples (bdp_new 65535) [(65536, 1000000000)]) = [131072] \<and>
   sorted_wrt (<) [65535 :: u32, 131072]"
proof -
  have "sorted_wrt (<) [65535 :: u32, 131072]" using bdp_window_sound [OF _ _ first_sample] by simp
  then show ?thesis unfolding first_sample by simp
qed

text \<open>C27.  The estimate of the round trip time, computed in floating point with its roundings, lies between two of
  the round trips that were measured.\<close>

theorem rtt_estimate_between_samples:
  assumes "bdp_samples (bdp_new wnd) ss = (us, b)" "bd_rtt b \<noteq> 0"
  shows "\<exists>d1 d2. d1 \<in> snd ` set ss \<and> d2 \<in> snd ` set ss \<and> seconds d1 \<le> bd_rtt b \<and> bd_rtt b \<le> seconds d2"
proof -
  let ?D = "{d \<in> snd ` set ss. d \<noteq> 0}"
  have fin: "finite (seconds ` ?D)" by simp
  have r: "bd_rtt (bdp_new wnd) = 0" by (simp add: bdp_new_def)
  have "bd_rtt b = 0" if "?D = {}"
    using samples_rtt [OF bdp_new_ok assms(1), of 1 0] that r by force
  then have ne: "seconds ` ?D \<noteq> {}" using assms(2) by blast
  let ?lo = "Min (seconds ` ?D)" and ?hi = "Max (seconds ` ?D)"
  have "?lo \<le> seconds dur \<and> seconds dur \<le> ?hi" if "(bytes, dur) \<in> set ss" "dur \<noteq> 0" for bytes dur
  proof -
    have "dur \<in> ?D" using that by force
    then have "seconds dur \<in> seconds ` ?D" by (rule imageI)
    then show ?thesis using Min_le [OF fin] Max_ge [OF fin] by blast
  qed
  then have "?lo \<le> bd_rtt b \<and> bd_rtt b \<le> ?hi"
    using samples_rtt [OF bdp_new_ok assms(1) disjI1 [OF r], of ?lo ?hi] assms(2) by blast
  moreover obtain d1 d2 where "d1 \<in> ?D" "?lo = seconds d1" "d2 \<in> ?D" "?hi = seconds d2"
    using Min_in [OF fin ne] Max_in [OF fin ne] by (elim imageE)
  ultimately show ?thesis by - (rule exI [of _ d1], rule exI [of _ d2], simp)
qed

theorem rtt_estimate_between_samples_witness:
  "\<exists>b. bdp_samples (bdp_new 65535) [(65536, 1000000000)] = ([131072], b) \<and> bd_rtt b \<noteq> 0 \<and> bd_rtt b = seconds 1000000000"
proof -
  obtain b where b: "bdp_samples (bdp_new 65535) [(65536, 1000000000)] = ([131072], b)" "bd_rtt b = seconds 1000000000"
    using first_sample by simp
  then show ?thesis using rtt_estimate_between_samples [OF b(1)] by auto
qed


lemmas sim_defs = sim_config_def sim_start_def sim_ponger_def sim_ping_env_def ping_config_new_def MAX_DELAY_def SECOND_def
  poll_keep_alive_def maybe_schedule_def ka_schedule_def maybe_ping_def poll_timeout_def send_ping_def time_reset_def
  time_now_def time_sleep_def ping_channel_def is_ping_sent_def Let_def

lemma sim_run:
  "ping_run sim_ping_env sim_moves sim_config (sim_ponger (KaPingSent 15) (Some 10))
     \<lparr>sw_clock = 15, sw_deadline = 15, sw_armed = True, sw_woken = False, sw_pings = 1, sw_pongs = 0\<rparr>"
proof -
  have 0: "ping_run sim_ping_env sim_moves sim_config (sim_ponger KaInit None) (sim_start\<lparr>sw_deadline := 10\<rparr>)"
    by (rule ping_start [of _ _ TimeTimer sim_start]) (simp add: sim_defs)
  have 1: "ping_run sim_ping_env sim_moves sim_config (sim_ponger (KaScheduled 10) None) (sim_start\<lparr>sw_deadline := 10, sw_armed := True\<rparr>)"
    by (rule ping_then [OF 0, of "OpKeepAlive False"]) (simp add: sim_defs)
  have 2: "ping_run sim_ping_env sim_moves sim_config (sim_ponger (KaScheduled 10) None) (sim_start\<lparr>sw_clock := 10, sw_deadline := 10, sw_armed := True\<rparr>)"
    by (rule ping_moves [OF 1]) (simp add: sim_moves_def timer_frame_def sim_start_def)
  have 3: "ping_run sim_ping_env sim_moves sim_config (sim_ponger (KaPingSent 15) (Some 10))
      (sim_start\<lparr>sw_clock := 10, sw_deadline := 15, sw_armed := True, sw_pings := 1\<rparr>)"
    by (rule ping_then [OF 2, of "OpKeepAlive False"]) (simp add: sim_defs timeout_loop.simps)
  show ?thesis by (rule ping_moves [OF 3]) (simp add: sim_moves_def timer_frame_def sim_start_def)
qed


end
