(* ===== verification/Http1_Dispatch.thy ===== *)
theory Http1_Dispatch
  imports Http1_Wire Body_Channel "HOL-Library.Multiset"
begin

text \<open>
  The dispatcher of an HTTP/1 connection (\<^verbatim>\<open>proto/http1/dispatch.rs\<close>) and the channel that brings it requests
  (\<^verbatim>\<open>dispatch.rs\<close>): the loop that reads heads and bodies, takes requests and writes them, flushes, and
  decides when it is done, over the connection of \<^verbatim>\<open>Http1_Conn\<close> and the body channel of \<^verbatim>\<open>Body_Channel\<close>.

  The world of the user is a parameter, a record of what the dispatcher calls: the queue of requests and
  the signal of demand, the callers' one-shot channels, the request bodies and the waker.  The locale
  \<open>dispatch_world\<close> states what is relied on of it.  The loops of \<^verbatim>\<open>poll_read\<close> and \<^verbatim>\<open>poll_write\<close> run as long
  as the peer and the user keep them busy, so they are given a number of turns and the facts hold for
  every number; \<^verbatim>\<open>poll_loop\<close> has its own sixteen rounds.

  Shown: the dispatcher never panics, every operation of the connection that it starts is enabled and
  returns, and the exchanges alternate; every caller whose request was taken is answered exactly once, at
  the latest when the task is dropped; and the task does not go to sleep on output that it could send.
\<close>

section \<open>Definitions\<close>

text \<open>
  Errors as the dispatcher reports them: those of the connection, the failure it tells a body, an error
  of the user's body, a request that was never sent with its reason, and the end of the task.
\<close>

datatype 'x disp_error =
    ConnError http_error
  | BodyConnectionError
  | UserBodyError 'x
  | CanceledWith "'x disp_error"
  | CanceledClosed
  | DispatchGone

text \<open>\<^verbatim>\<open>Incoming\<close> as a response carries it, and the answer a caller gets: \<^verbatim>\<open>TrySendError\<close> has the error and
  the request when it was never sent.\<close>

datatype incoming_body = IncomingEmpty | IncomingH1 decoded_length

datatype ('m, 'bd, 'x) answer =
    Answered "'m response_head" incoming_body "on_upgrade option"
  | Failed "'x disp_error" "('m request_head \<times> 'bd) option"

datatype ('b, 'm) user_frame = UserData 'b | UserTrailers 'm | UserOther

text \<open>
  The world of the user, which acts on its own between any two calls: the lock of the body channel in use,
  the queue of requests (\<^verbatim>\<open>mpsc\<close>), the signal of demand (\<^verbatim>\<open>want\<close>), the callers' \<^verbatim>\<open>oneshot\<close> channels,
  the request bodies and the waker of the task.
\<close>

type_synonym ('m, 'bd, 'cb) envelope = "('m request_head \<times> 'bd) \<times> 'cb"

record ('b, 'm, 'bd, 'cb, 'x, 'u) user_api =
  ua_chan :: "'u \<Rightarrow> ('x disp_error, 'm) channel \<times> 'u"
  ua_put_chan :: "('x disp_error, 'm) channel \<Rightarrow> bool \<Rightarrow> 'u \<Rightarrow> 'u"
  ua_new_chan :: "('x disp_error, 'm) channel \<Rightarrow> 'u \<Rightarrow> 'u"
  ua_mpsc_poll_recv :: "'u \<Rightarrow> ('m, 'bd, 'cb) envelope option poll \<times> 'u"
  ua_mpsc_recv_now :: "'u \<Rightarrow> ('m, 'bd, 'cb) envelope option \<times> 'u"
  ua_mpsc_close :: "'u \<Rightarrow> 'u"
  ua_mpsc_drop :: "'u \<Rightarrow> ('m, 'bd, 'cb) envelope list \<times> 'u"
  ua_mpsc_send :: "('m, 'bd, 'cb) envelope \<Rightarrow> 'u \<Rightarrow> bool \<times> 'u"
  ua_want :: "'u \<Rightarrow> 'u"
  ua_cancel_want :: "'u \<Rightarrow> 'u"
  ua_give :: "'u \<Rightarrow> bool \<times> 'u"
  ua_is_wanting :: "'u \<Rightarrow> bool"
  ua_poll_want :: "'u \<Rightarrow> (unit + unit) poll \<times> 'u"
  ua_is_giver_canceled :: "'u \<Rightarrow> bool"
  ua_poll_closed :: "'cb \<Rightarrow> 'u \<Rightarrow> bool \<times> 'u"
  ua_oneshot_send :: "'cb \<Rightarrow> ('m, 'bd, 'x) answer \<Rightarrow> 'u \<Rightarrow> 'u"
  ua_is_end_stream :: "'bd \<Rightarrow> bool"
  ua_size_exact :: "'bd \<Rightarrow> u64 option"
  ua_poll_frame :: "'bd \<Rightarrow> 'u \<Rightarrow> ('x + ('b, 'm) user_frame) option poll \<times> 'bd \<times> 'u"
  ua_wake :: "'u \<Rightarrow> 'u"

text \<open>\<^bold>\<open>The request channel.\<close>\<close>

text \<open>\<^verbatim>\<open>dispatch.rs\<close>.  The receiver, the callback and the envelope.\<close>

definition dc_poll_recv :: "('b, 'm, 'bd, 'cb, 'x, 'u) user_api \<Rightarrow> 'u \<Rightarrow> ('m, 'bd, 'cb) envelope option poll \<times> 'u" where
  "dc_poll_recv U u =
     (case ua_mpsc_poll_recv U u of
        (Pending, u) \<Rightarrow> (Pending, ua_want U u)
      | (r, u) \<Rightarrow> (r, u))"

definition dc_close :: "('b, 'm, 'bd, 'cb, 'x, 'u) user_api \<Rightarrow> 'u \<Rightarrow> 'u" where
  "dc_close U u = ua_mpsc_close U (ua_cancel_want U u)"

definition dc_try_recv :: "('b, 'm, 'bd, 'cb, 'x, 'u) user_api \<Rightarrow> 'u \<Rightarrow> ('m, 'bd, 'cb) envelope option \<times> 'u" where
  "dc_try_recv U u = ua_mpsc_recv_now U u"

definition callback_poll_canceled :: "('b, 'm, 'bd, 'cb, 'x, 'u) user_api \<Rightarrow> 'cb \<Rightarrow> 'u \<Rightarrow> bool \<times> 'u" where
  "callback_poll_canceled U cb u = ua_poll_closed U cb u"

definition callback_send :: "('b, 'm, 'bd, 'cb, 'x, 'u) user_api \<Rightarrow> 'cb \<Rightarrow> ('m, 'bd, 'x) answer \<Rightarrow> 'u \<Rightarrow> 'u" where
  "callback_send U cb v u = ua_oneshot_send U cb v u"

definition callback_drop :: "('b, 'm, 'bd, 'cb, 'x, 'u) user_api \<Rightarrow> 'cb \<Rightarrow> 'u \<Rightarrow> 'u" where
  "callback_drop U cb u = ua_oneshot_send U cb (Failed DispatchGone None) u"

definition envelope_drop :: "('b, 'm, 'bd, 'cb, 'x, 'u) user_api \<Rightarrow> ('m, 'bd, 'cb) envelope \<Rightarrow> 'u \<Rightarrow> 'u" where
  "envelope_drop U env u = (case env of (req, cb) \<Rightarrow> callback_send U cb (Failed CanceledClosed (Some req)) u)"

definition dc_receiver_drop :: "('b, 'm, 'bd, 'cb, 'x, 'u) user_api \<Rightarrow> 'u \<Rightarrow> 'u" where
  "dc_receiver_drop U u =
     (case ua_mpsc_drop U (ua_cancel_want U u) of (envs, u) \<Rightarrow> fold (envelope_drop U) envs u)"

text \<open>The senders: the answer of a refused \<^verbatim>\<open>try_send\<close> is the request.\<close>

definition dc_sender_poll_ready :: "('b, 'm, 'bd, 'cb, 'x, 'u) user_api \<Rightarrow> 'u \<Rightarrow> (http_error + unit) poll \<times> 'u" where
  "dc_sender_poll_ready U u =
     (case ua_poll_want U u of
        (Ready (Inl _), u) \<Rightarrow> (Ready (Inl ChannelClosed), u)
      | (Ready (Inr _), u) \<Rightarrow> (Ready (Inr ()), u)
      | (Pending, u) \<Rightarrow> (Pending, u)
      | (Panicked, u) \<Rightarrow> (Panicked, u))"

definition dc_sender_is_ready :: "('b, 'm, 'bd, 'cb, 'x, 'u) user_api \<Rightarrow> 'u \<Rightarrow> bool" where
  "dc_sender_is_ready U u = ua_is_wanting U u"

definition dc_unbounded_try_send ::
    "('b, 'm, 'bd, 'cb, 'x, 'u) user_api \<Rightarrow> 'm request_head \<times> 'bd \<Rightarrow> 'cb \<Rightarrow> 'u \<Rightarrow> (('m request_head \<times> 'bd) + 'cb) \<times> 'u" where
  "dc_unbounded_try_send U val cb u =
     (case ua_mpsc_send U (val, cb) u of (True, u) \<Rightarrow> (Inr cb, u) | (False, u) \<Rightarrow> (Inl val, u))"

definition dc_try_send ::
    "('b, 'm, 'bd, 'cb, 'x, 'u) user_api \<Rightarrow> bool \<Rightarrow> 'm request_head \<times> 'bd \<Rightarrow> 'cb \<Rightarrow> 'u \<Rightarrow>
     (('m request_head \<times> 'bd) + 'cb) \<times> bool \<times> 'u" where
  "dc_try_send U buffered_once val cb u =
     (case ua_give U u of
        (given, u) \<Rightarrow>
          if given \<or> \<not> buffered_once
          then (case dc_unbounded_try_send U val cb u of (r, u) \<Rightarrow> (r, True, u))
          else (Inl val, buffered_once, u))"

definition dc_unbounded_is_ready :: "('b, 'm, 'bd, 'cb, 'x, 'u) user_api \<Rightarrow> 'u \<Rightarrow> bool" where
  "dc_unbounded_is_ready U u = (\<not> ua_is_giver_canceled U u)"

definition dc_unbounded_is_closed :: "('b, 'm, 'bd, 'cb, 'x, 'u) user_api \<Rightarrow> 'u \<Rightarrow> bool" where
  "dc_unbounded_is_closed U u = ua_is_giver_canceled U u"

text \<open>\<^bold>\<open>The body channel in use.\<close>\<close>

definition body_poll_ready :: "('b, 'm, 'bd, 'cb, 'x, 'u) user_api \<Rightarrow> 'u \<Rightarrow> (closed + unit) poll \<times> 'u" where
  "body_poll_ready U u = (case ua_chan U u of (ch, u) \<Rightarrow> (sender_poll_ready ch, u))"

definition body_send_data :: "('b, 'm, 'bd, 'cb, 'x, 'u) user_api \<Rightarrow> byte list \<Rightarrow> 'u \<Rightarrow> (byte list + unit) \<times> 'u" where
  "body_send_data U chunk u =
     (case ua_chan U u of (ch, u) \<Rightarrow> (case sender_send_data chunk ch of (r, ch, wk) \<Rightarrow> (r, ua_put_chan U ch wk u)))"

definition body_send_trailers :: "('b, 'm, 'bd, 'cb, 'x, 'u) user_api \<Rightarrow> 'm \<Rightarrow> 'u \<Rightarrow> ('m option + unit) \<times> 'u" where
  "body_send_trailers U trailers u =
     (case ua_chan U u of (ch, u) \<Rightarrow> (case sender_send_trailers trailers ch of (r, ch, wk) \<Rightarrow> (r, ua_put_chan U ch wk u)))"

definition body_send_error :: "('b, 'm, 'bd, 'cb, 'x, 'u) user_api \<Rightarrow> 'x disp_error \<Rightarrow> 'u \<Rightarrow> 'u" where
  "body_send_error U err u =
     (case ua_chan U u of (ch, u) \<Rightarrow> (case sender_send_error err ch of (ch, wk) \<Rightarrow> ua_put_chan U ch wk u))"

definition body_drop :: "('b, 'm, 'bd, 'cb, 'x, 'u) user_api \<Rightarrow> 'u \<Rightarrow> 'u" where
  "body_drop U u = (case ua_chan U u of (ch, u) \<Rightarrow> (case sender_drop ch of (ch, wk) \<Rightarrow> ua_put_chan U ch wk u))"

text \<open>The receiving end is dropped with a response that nobody takes.\<close>

definition incoming_drop :: "('b, 'm, 'bd, 'cb, 'x, 'u) user_api \<Rightarrow> incoming_body \<Rightarrow> 'u \<Rightarrow> 'u" where
  "incoming_drop U body u =
     (case body of
        IncomingEmpty \<Rightarrow> u
      | IncomingH1 _ \<Rightarrow> (case ua_chan U u of (ch, u) \<Rightarrow> (case receiver_drop ch of (ch, wk) \<Rightarrow> ua_put_chan U ch wk u)))"

text \<open>\<^bold>\<open>The client.\<close>\<close>

text \<open>The dispatcher and its \<^verbatim>\<open>Client\<close>: \<open>di_body_tx\<close> says whether it owns the sender of the body channel in
  use.\<close>

record ('io, 'b, 'm, 'bd, 'cb, 'u) dispatcher =
  di_conn :: "('io, 'b, 'm) conn"
  di_callback :: "'cb option"
  di_rx_closed :: bool
  di_body_tx :: bool
  di_body_rx :: "'bd option"
  di_is_closing :: bool
  di_is_aborted :: bool
  di_user :: 'u

definition dispatcher_new :: "('io, 'b, 'm) conn \<Rightarrow> 'u \<Rightarrow> ('io, 'b, 'm, 'bd, 'cb, 'u) dispatcher" where
  "dispatcher_new c u =
     \<lparr>di_conn = c, di_callback = None, di_rx_closed = False, di_body_tx = False, di_body_rx = None,
      di_is_closing = False, di_is_aborted = False, di_user = u\<rparr>"

definition client_poll_msg ::
    "('b, 'm, 'bd, 'cb, 'x, 'u) user_api \<Rightarrow> ('io, 'b, 'm, 'bd, 'cb, 'u) dispatcher \<Rightarrow>
     ('m request_head \<times> 'bd) option poll \<times> ('io, 'b, 'm, 'bd, 'cb, 'u) dispatcher" where
  "client_poll_msg U d =
     (case dc_poll_recv U (di_user d) of
        (Ready (Some (req, cb)), u) \<Rightarrow>
          (case callback_poll_canceled U cb u of
             (True, u) \<Rightarrow> (Ready None, d\<lparr>di_user := callback_drop U cb u\<rparr>)
           | (False, u) \<Rightarrow> (Ready (Some req), d\<lparr>di_user := u, di_callback := Some cb\<rparr>))
      | (Ready None, u) \<Rightarrow> (Ready None, d\<lparr>di_user := u, di_rx_closed := True\<rparr>)
      | (Pending, u) \<Rightarrow> (Pending, d\<lparr>di_user := u\<rparr>)
      | (Panicked, u) \<Rightarrow> (Panicked, d\<lparr>di_user := u\<rparr>))"

definition client_recv_ok ::
    "('b, 'm, 'bd, 'cb, 'x, 'u) user_api \<Rightarrow> 'm response_head \<Rightarrow> incoming_body \<Rightarrow> on_upgrade option \<Rightarrow>
     ('io, 'b, 'm, 'bd, 'cb, 'u) dispatcher \<Rightarrow> ('x disp_error + unit) \<times> ('io, 'b, 'm, 'bd, 'cb, 'u) dispatcher" where
  "client_recv_ok U msg body upgrade d =
     (case di_callback d of
        Some cb \<Rightarrow>
          (Inr (), d\<lparr>di_callback := None, di_user := callback_send U cb (Answered msg body upgrade) (di_user d)\<rparr>)
      | None \<Rightarrow> (Inl (ConnError UnexpectedMessage), d\<lparr>di_user := incoming_drop U body (di_user d)\<rparr>))"

definition client_recv_err ::
    "('b, 'm, 'bd, 'cb, 'x, 'u) user_api \<Rightarrow> 'x disp_error \<Rightarrow> ('io, 'b, 'm, 'bd, 'cb, 'u) dispatcher \<Rightarrow>
     ('x disp_error + unit) \<times> ('io, 'b, 'm, 'bd, 'cb, 'u) dispatcher" where
  "client_recv_err U err d =
     (case di_callback d of
        Some cb \<Rightarrow> (Inr (), d\<lparr>di_callback := None, di_user := callback_send U cb (Failed err None) (di_user d)\<rparr>)
      | None \<Rightarrow>
          if \<not> di_rx_closed d then
            (case dc_try_recv U (dc_close U (di_user d)) of
               (Some (req, cb), u) \<Rightarrow>
                 (Inr (), d\<lparr>di_user := callback_send U cb (Failed (CanceledWith err) (Some req)) u\<rparr>)
             | (None, u) \<Rightarrow> (Inl err, d\<lparr>di_user := u\<rparr>))
          else (Inl err, d))"

definition client_poll_ready ::
    "('b, 'm, 'bd, 'cb, 'x, 'u) user_api \<Rightarrow> ('io, 'b, 'm, 'bd, 'cb, 'u) dispatcher \<Rightarrow>
     bool \<times> ('io, 'b, 'm, 'bd, 'cb, 'u) dispatcher" where
  "client_poll_ready U d =
     (case di_callback d of
        Some cb \<Rightarrow> (case callback_poll_canceled U cb (di_user d) of (canceled, u) \<Rightarrow> (\<not> canceled, d\<lparr>di_user := u\<rparr>))
      | None \<Rightarrow> (False, d))"

definition should_poll :: "('io, 'b, 'm, 'bd, 'cb, 'u) dispatcher \<Rightarrow> bool" where
  "should_poll d = (di_callback d = None)"

text \<open>\<^bold>\<open>The dispatcher.\<close>\<close>

text \<open>
  What a call has come to.  \<open>Turning\<close>: it has not returned within the turns that its loops were given, the
  argument \<open>n\<close>; \<open>Stuck\<close>: an operation of the connection does not return.
\<close>

datatype 'a progress = Return "'a poll" | Turning | Stuck

definition di_set_conn :: "('io, 'b, 'm) conn \<Rightarrow> ('io, 'b, 'm, 'bd, 'cb, 'u) dispatcher \<Rightarrow> ('io, 'b, 'm, 'bd, 'cb, 'u) dispatcher" where
  "di_set_conn c d = d\<lparr>di_conn := c\<rparr>"

definition di_close :: "('io, 'b, 'm, 'bd, 'cb, 'u) dispatcher \<Rightarrow> ('io, 'b, 'm, 'bd, 'cb, 'u) dispatcher" where
  "di_close d = d\<lparr>di_is_closing := True, di_conn := close_write (close_read (di_conn d))\<rparr>"

definition di_drop_body :: "('b, 'm, 'bd, 'cb, 'x, 'u) user_api \<Rightarrow> ('io, 'b, 'm, 'bd, 'cb, 'u) dispatcher \<Rightarrow> ('io, 'b, 'm, 'bd, 'cb, 'u) dispatcher" where
  "di_drop_body U d = d\<lparr>di_user := body_drop U (di_user d)\<rparr>"

text \<open>\<^verbatim>\<open>SenderGuard::set\<close>: a sender that is replaced is dropped.\<close>

definition di_new_body ::
    "('b, 'm, 'bd, 'cb, 'x, 'u) user_api \<Rightarrow> bool \<Rightarrow> ('io, 'b, 'm, 'bd, 'cb, 'u) dispatcher \<Rightarrow> ('io, 'b, 'm, 'bd, 'cb, 'u) dispatcher" where
  "di_new_body U wanter d =
     (let d = (if di_body_tx d then di_drop_body U d else d) in
      d\<lparr>di_body_tx := True, di_user := ua_new_chan U (body_channel wanter) (di_user d)\<rparr>)"

definition di_poll_flush ::
    "('io, 'b, 'm) conn_env \<Rightarrow> ('io, 'b, 'm, 'bd, 'cb, 'u) dispatcher \<Rightarrow>
     ('x disp_error + unit) progress \<times> ('io, 'b, 'm, 'bd, 'cb, 'u) dispatcher" where
  "di_poll_flush E d =
     (case conn_poll_flush E (di_conn d) of
        None \<Rightarrow> (Stuck, d)
      | Some (Pending, c) \<Rightarrow> (Return Pending, di_set_conn c d)
      | Some (Panicked, c) \<Rightarrow> (Return Panicked, di_set_conn c d)
      | Some (Ready (Inr _), c) \<Rightarrow> (Return (Ready (Inr ())), di_set_conn c d)
      | Some (Ready (Inl e), c) \<Rightarrow> (Return (Ready (Inl (ConnError (ErrBodyWrite e)))), di_set_conn c d))"

definition di_poll_read_head ::
    "('io, 'b, 'm) conn_env \<Rightarrow> ('b, 'm, 'bd, 'cb, 'x, 'u) user_api \<Rightarrow> ('io, 'b, 'm, 'bd, 'cb, 'u) dispatcher \<Rightarrow>
     ('x disp_error + unit) progress \<times> ('io, 'b, 'm, 'bd, 'cb, 'u) dispatcher" where
  "di_poll_read_head E U d =
     (case client_poll_ready U d of
        (False, d) \<Rightarrow> (Return (Ready (Inr ())), di_close (d\<lparr>di_is_aborted := True\<rparr>))
      | (True, d) \<Rightarrow>
          (case poll_read_head E (di_conn d) of
             None \<Rightarrow> (Stuck, d)
           | Some (Pending, c) \<Rightarrow> (Return Pending, di_set_conn c d)
           | Some (Panicked, c) \<Rightarrow> (Return Panicked, di_set_conn c d)
           | Some (Ready (Some (Inr (head, body_len, wants))), c) \<Rightarrow>
               (let d = di_set_conn c d;
                    (body, d) = (if body_len = ZERO then (IncomingEmpty, d)
                                 else (IncomingH1 body_len, di_new_body U (wants_contains wants WANTS_EXPECT) d));
                    (upgrade, d) = (if wants_contains wants WANTS_UPGRADE
                                    then (case conn_on_upgrade (di_conn d) of (up, c) \<Rightarrow> (Some up, di_set_conn c d))
                                    else (None, d)) in
                case client_recv_ok U head body upgrade d of (r, d) \<Rightarrow> (Return (Ready r), d))
           | Some (Ready (Some (Inl err)), c) \<Rightarrow>
               (case client_recv_err U (ConnError err) (di_set_conn c d) of
                  (Inl e, d) \<Rightarrow> (Return (Ready (Inl e)), d)
                | (Inr _, d) \<Rightarrow> (Return (Ready (Inr ())), di_close d))
           | Some (Ready None, c) \<Rightarrow>
               (let d = di_set_conn c d in
                (Return (Ready (Inr ())), if is_write_closed (cn_state c) then di_close d else d))))"

text \<open>A frame of the response body goes to the body channel; one turn of the loop of \<^verbatim>\<open>poll_read\<close> with the
  sender in hand.  \<open>None\<close> goes on with the loop.\<close>

definition di_close_body ::
    "('b, 'm, 'bd, 'cb, 'x, 'u) user_api \<Rightarrow> ('io, 'b, 'm, 'bd, 'cb, 'u) dispatcher \<Rightarrow> ('io, 'b, 'm, 'bd, 'cb, 'u) dispatcher" where
  "di_close_body U d =
     di_drop_body U (if can_read_body (di_conn d) then di_set_conn (close_read (di_conn d)) d else d)"

definition di_read_body ::
    "('io, 'b, 'm) conn_env \<Rightarrow> ('b, 'm, 'bd, 'cb, 'x, 'u) user_api \<Rightarrow> ('io, 'b, 'm, 'bd, 'cb, 'u) dispatcher \<Rightarrow>
     ('x disp_error + unit) progress option \<times> ('io, 'b, 'm, 'bd, 'cb, 'u) dispatcher" where
  "di_read_body E U d =
     (let d = d\<lparr>di_body_tx := False\<rparr> in
      if can_read_body (di_conn d) then
        (case body_poll_ready U (di_user d) of
           (Pending, u) \<Rightarrow> (Some (Return Pending), d\<lparr>di_user := u, di_body_tx := True\<rparr>)
         | (Panicked, u) \<Rightarrow> (Some (Return Panicked), d\<lparr>di_user := u\<rparr>)
         | (Ready (Inl _), u) \<Rightarrow>
             (let d = d\<lparr>di_user := u\<rparr> in
              case poll_drain_or_close_read E (di_conn d) of
                None \<Rightarrow> (Some Stuck, d)
              | Some None \<Rightarrow> (Some (Return Panicked), d)
              | Some (Some c) \<Rightarrow> (None, di_drop_body U (di_set_conn c d)))
         | (Ready (Inr _), u) \<Rightarrow>
             (let d = d\<lparr>di_user := u\<rparr> in
              case poll_read_body E (di_conn d) of
                None \<Rightarrow> (Some Stuck, d)
              | Some (Panicked, c) \<Rightarrow> (Some (Return Panicked), di_set_conn c d)
              | Some (Pending, c) \<Rightarrow> (Some (Return Pending), (di_set_conn c d)\<lparr>di_body_tx := True\<rparr>)
              | Some (Ready None, c) \<Rightarrow> (None, di_drop_body U (di_set_conn c d))
              | Some (Ready (Some (Inl e)), c) \<Rightarrow>
                  (let d = di_set_conn c d in
                   (None, di_drop_body U (d\<lparr>di_user := body_send_error U (ConnError (ErrBody e)) (di_user d)\<rparr>)))
              | Some (Ready (Some (Inr (Data chunk))), c) \<Rightarrow>
                  (let d = di_set_conn c d in
                   case body_send_data U chunk (di_user d) of
                     (Inr _, u) \<Rightarrow> (None, d\<lparr>di_user := u, di_body_tx := True\<rparr>)
                   | (Inl _, u) \<Rightarrow> (None, di_close_body U (d\<lparr>di_user := u\<rparr>)))
              | Some (Ready (Some (Inr (Trailers trailers))), c) \<Rightarrow>
                  (let d = di_set_conn c d in
                   case body_send_trailers U trailers (di_user d) of
                     (Inr _, u) \<Rightarrow> (None, d\<lparr>di_user := u, di_body_tx := True\<rparr>)
                   | (Inl _, u) \<Rightarrow> (None, di_close_body U (d\<lparr>di_user := u\<rparr>)))))
      else (None, di_drop_body U d))"

fun di_poll_read ::
    "('io, 'b, 'm) conn_env \<Rightarrow> ('b, 'm, 'bd, 'cb, 'x, 'u) user_api \<Rightarrow> nat \<Rightarrow> ('io, 'b, 'm, 'bd, 'cb, 'u) dispatcher \<Rightarrow>
     ('x disp_error + unit) progress \<times> ('io, 'b, 'm, 'bd, 'cb, 'u) dispatcher" where
  "di_poll_read E U 0 d = (Turning, d)"
| "di_poll_read E U (Suc n) d =
     (if di_is_closing d then (Return (Ready (Inr ())), d)
      else if can_read_head (di_conn d) then
        (case di_poll_read_head E U d of
           (Return (Ready (Inr _)), d) \<Rightarrow> di_poll_read E U n d
         | r \<Rightarrow> r)
      else if di_body_tx d then
        (case di_read_body E U d of
           (None, d) \<Rightarrow> di_poll_read E U n d
         | (Some r, d) \<Rightarrow> (r, d))
      else
        (case poll_read_keep_alive E (di_conn d) of
           (Pending, c) \<Rightarrow> (Return Pending, di_set_conn c d)
         | (Panicked, c) \<Rightarrow> (Return Panicked, di_set_conn c d)
         | (Ready (Inl e), c) \<Rightarrow> (Return (Ready (Inl (ConnError e))), di_set_conn c d)
         | (Ready (Inr _), c) \<Rightarrow> (Return (Ready (Inr ())), di_set_conn c d)))"

text \<open>One turn of \<^verbatim>\<open>poll_write\<close> that takes a request, and one that takes a frame of the body of a request.\<close>

definition di_write_msg ::
    "('io, 'b, 'm) conn_env \<Rightarrow> ('b, 'm, 'bd, 'cb, 'x, 'u) user_api \<Rightarrow> ('io, 'b, 'm, 'bd, 'cb, 'u) dispatcher \<Rightarrow>
     ('x disp_error + unit) progress option \<times> ('io, 'b, 'm, 'bd, 'cb, 'u) dispatcher" where
  "di_write_msg E U d =
     (case client_poll_msg U d of
        (Pending, d) \<Rightarrow> (Some (Return Pending), d)
      | (Panicked, d) \<Rightarrow> (Some (Return Panicked), d)
      | (Ready None, d) \<Rightarrow> (Some (Return (Ready (Inr ()))), di_close d)
      | (Ready (Some (head, body)), d) \<Rightarrow>
          (let (body_type, d) =
             (if ua_is_end_stream U body then (None, d\<lparr>di_body_rx := None\<rparr>)
              else (Some (case ua_size_exact U body of Some n \<Rightarrow> Known n | None \<Rightarrow> Unknown), d\<lparr>di_body_rx := Some body\<rparr>)) in
           case write_head E (di_conn d) head body_type of
             None \<Rightarrow> (Some (Return Panicked), d)
           | Some c \<Rightarrow> (None, di_set_conn c d)))"

text \<open>The result of an operation of the connection that does not poll.\<close>

definition di_did ::
    "('io, 'b, 'm) conn option option \<Rightarrow> ('io, 'b, 'm, 'bd, 'cb, 'u) dispatcher \<Rightarrow>
     ('x disp_error + unit) progress option \<times> ('io, 'b, 'm, 'bd, 'cb, 'u) dispatcher" where
  "di_did r d =
     (case r of
        None \<Rightarrow> (Some Stuck, d)
      | Some None \<Rightarrow> (Some (Return Panicked), d)
      | Some (Some c) \<Rightarrow> (None, di_set_conn c d))"

definition di_end_body ::
    "('io, 'b, 'm) conn_env \<Rightarrow> ('io, 'b, 'm, 'bd, 'cb, 'u) dispatcher \<Rightarrow>
     ('x disp_error + unit) progress option \<times> ('io, 'b, 'm, 'bd, 'cb, 'u) dispatcher" where
  "di_end_body E d =
     (case end_body E (di_conn d) of
        None \<Rightarrow> (Some Stuck, d)
      | Some None \<Rightarrow> (Some (Return Panicked), d)
      | Some (Some (Inl e, c)) \<Rightarrow> (Some (Return (Ready (Inl (ConnError e)))), di_set_conn c d)
      | Some (Some (Inr _, c)) \<Rightarrow> (None, di_set_conn c d))"

definition di_write_frame ::
    "('io, 'b, 'm) conn_env \<Rightarrow> ('b, 'm, 'bd, 'cb, 'x, 'u) user_api \<Rightarrow> 'bd \<Rightarrow> ('io, 'b, 'm, 'bd, 'cb, 'u) dispatcher \<Rightarrow>
     ('x disp_error + unit) progress option \<times> ('io, 'b, 'm, 'bd, 'cb, 'u) dispatcher" where
  "di_write_frame E U body d =
     (case ua_poll_frame U body (di_user d) of
        (item, body, u) \<Rightarrow>
          (let d = d\<lparr>di_user := u, di_body_rx := Some body\<rparr>; cleared = d\<lparr>di_body_rx := None\<rparr> in
           case item of
             Pending \<Rightarrow> (Some (Return Pending), d)
           | Panicked \<Rightarrow> (Some (Return Panicked), d)
           | Ready None \<Rightarrow> di_end_body E cleared
           | Ready (Some (Inl e)) \<Rightarrow> (Some (Return (Ready (Inl (UserBodyError e)))), cleared)
           | Ready (Some (Inr (UserData chunk))) \<Rightarrow>
               (if ua_is_end_stream U body then
                  (if bf_remaining (ce_buf E) chunk = 0 then di_end_body E cleared
                   else di_did (write_body_and_end E (di_conn d) chunk) cleared)
                else if bf_remaining (ce_buf E) chunk = 0 then (None, d)
                else di_did (write_body E (di_conn d) chunk) d)
           | Ready (Some (Inr (UserTrailers trailers))) \<Rightarrow>
               di_did (write_trailers E (di_conn d) trailers) cleared
           | Ready (Some (Inr UserOther)) \<Rightarrow> (None, d)))"

definition di_write_turn ::
    "('io, 'b, 'm) conn_env \<Rightarrow> ('b, 'm, 'bd, 'cb, 'x, 'u) user_api \<Rightarrow> ('io, 'b, 'm, 'bd, 'cb, 'u) dispatcher \<Rightarrow>
     ('x disp_error + unit) progress option \<times> ('io, 'b, 'm, 'bd, 'cb, 'u) dispatcher" where
  "di_write_turn E U d =
     (if di_is_closing d then (Some (Return (Ready (Inr ()))), d)
      else if di_body_rx d = None \<and> can_write_head (di_conn d) \<and> should_poll d then di_write_msg E U d
      else if \<not> can_buffer_body (di_conn d) then
        (case di_poll_flush E d of
           (Return (Ready (Inr _)), d) \<Rightarrow> (None, d)
         | (r, d) \<Rightarrow> (Some r, d))
      else
        (case di_body_rx d of
           Some body \<Rightarrow>
             (if \<not> can_write_body (di_conn d) then (None, d\<lparr>di_body_rx := None\<rparr>)
              else di_write_frame E U body d)
         | None \<Rightarrow>
             (if can_write_body (di_conn d) then di_end_body E d else (Some (Return Pending), d))))"

fun di_poll_write ::
    "('io, 'b, 'm) conn_env \<Rightarrow> ('b, 'm, 'bd, 'cb, 'x, 'u) user_api \<Rightarrow> nat \<Rightarrow> ('io, 'b, 'm, 'bd, 'cb, 'u) dispatcher \<Rightarrow>
     ('x disp_error + unit) progress \<times> ('io, 'b, 'm, 'bd, 'cb, 'u) dispatcher" where
  "di_poll_write E U 0 d = (Turning, d)"
| "di_poll_write E U (Suc n) d =
     (case di_write_turn E U d of
        (None, d) \<Rightarrow> di_poll_write E U n d
      | (Some r, d) \<Rightarrow> (r, d))"

definition can_write_again :: "('io, 'b, 'm, 'bd, 'cb, 'u) dispatcher \<Rightarrow> bool" where
  "can_write_again d = (\<not> di_is_closing d \<and> di_body_rx d \<noteq> None \<and> can_write_body (di_conn d))"

definition di_is_done :: "('io, 'b, 'm, 'bd, 'cb, 'u) dispatcher \<Rightarrow> bool" where
  "di_is_done d =
     (if di_is_closing d then True
      else
        let read_done = is_read_closed (cn_state (di_conn d)) in
        if read_done then True
        else
          let write_done = is_write_closed (cn_state (di_conn d)) \<or> (\<not> should_poll d \<and> di_body_rx d = None) in
          read_done \<and> write_done)"

text \<open>The operator \<^verbatim>\<open>?\<close> on a poll: an error, a panic and a call that has not returned end the caller; otherwise
  the flag says whether the poll was ready.\<close>

definition di_try ::
    "('x disp_error + unit) progress \<times> 'd \<Rightarrow> (bool \<Rightarrow> 'd \<Rightarrow> ('x disp_error + 'a) progress \<times> 'd) \<Rightarrow> ('x disp_error + 'a) progress \<times> 'd" where
  "di_try r f =
     (case r of
        (Return (Ready (Inl e)), d) \<Rightarrow> (Return (Ready (Inl e)), d)
      | (Return (Ready (Inr _)), d) \<Rightarrow> f True d
      | (Return Pending, d) \<Rightarrow> f False d
      | (Return Panicked, d) \<Rightarrow> (Return Panicked, d)
      | (Turning, d) \<Rightarrow> (Turning, d)
      | (Stuck, d) \<Rightarrow> (Stuck, d))"

text \<open>\<^verbatim>\<open>poll_loop\<close>, with the rounds that are left of its sixteen.\<close>

fun di_poll_loop ::
    "('io, 'b, 'm) conn_env \<Rightarrow> ('b, 'm, 'bd, 'cb, 'x, 'u) user_api \<Rightarrow> nat \<Rightarrow> nat \<Rightarrow> ('io, 'b, 'm, 'bd, 'cb, 'u) dispatcher \<Rightarrow>
     ('x disp_error + unit) progress \<times> ('io, 'b, 'm, 'bd, 'cb, 'u) dispatcher" where
  "di_poll_loop E U n 0 d = (Return Pending, d\<lparr>di_user := ua_wake U (di_user d)\<rparr>)"
| "di_poll_loop E U n (Suc rounds) d =
     di_try (di_poll_read E U n d) (\<lambda>_ d.
     di_try (di_poll_write E U n d) (\<lambda>write_ready d.
     di_try (di_poll_flush E d) (\<lambda>flush_ready d.
       (let wants_write_again = can_write_again d \<and> (write_ready \<or> flush_ready);
            wants_again = fst (wants_read_again (di_conn d));
            d = di_set_conn (snd (wants_read_again (di_conn d))) d in
        if \<not> (wants_write_again \<or> wants_again) then (Return (Ready (Inr ())), d)
        else if \<not> wants_again \<and> wants_write_again then
          di_try (di_poll_write E U n d) (\<lambda>ready d.
            if \<not> ready then
              (if conn_has_buffered_write (di_conn d)
               then di_try (di_poll_flush E d) (\<lambda>_ d. (Return (Ready (Inr ())), d))
               else (Return (Ready (Inr ())), d))
            else di_poll_loop E U n rounds d)
        else di_poll_loop E U n rounds d))))"

datatype dispatched = DispatchedShutdown | DispatchedUpgrade upgrade_pending

definition di_finish ::
    "('io, 'b, 'm, 'bd, 'cb, 'u) dispatcher \<Rightarrow> dispatched \<Rightarrow>
     ('x disp_error + dispatched) progress \<times> ('io, 'b, 'm, 'bd, 'cb, 'u) dispatcher" where
  "di_finish d result =
     (case take_error (di_conn d) of
        (Inl e, c) \<Rightarrow> (Return (Ready (Inl (ConnError e))), di_set_conn c d)
      | (Inr _, c) \<Rightarrow> (Return (Ready (Inr result)), di_set_conn c d))"

definition di_poll_inner ::
    "('io, 'b, 'm) conn_env \<Rightarrow> ('b, 'm, 'bd, 'cb, 'x, 'u) user_api \<Rightarrow> nat \<Rightarrow> bool \<Rightarrow> ('io, 'b, 'm, 'bd, 'cb, 'u) dispatcher \<Rightarrow>
     ('x disp_error + dispatched) progress \<times> ('io, 'b, 'm, 'bd, 'cb, 'u) dispatcher" where
  "di_poll_inner E U n should_shutdown d =
     di_try (di_poll_loop E U n 16 d) (\<lambda>ready d.
       if \<not> ready then (Return Pending, d)
       else if di_is_done d then
         (case pending_upgrade (di_conn d) of
            (Some pending, c) \<Rightarrow> di_finish (di_set_conn c d) (DispatchedUpgrade pending)
          | (None, c) \<Rightarrow>
              (let d = di_set_conn c d in
               if should_shutdown \<and> \<not> di_is_aborted d \<and> \<not> can_write_body (di_conn d) then
                 (case conn_poll_shutdown E (di_conn d) of
                    None \<Rightarrow> (Stuck, d)
                  | Some (Pending, c) \<Rightarrow> (Return Pending, di_set_conn c d)
                  | Some (Panicked, c) \<Rightarrow> (Return Panicked, di_set_conn c d)
                  | Some (Ready (Inl e), c) \<Rightarrow> (Return (Ready (Inl (ConnError (ErrShutdown e)))), di_set_conn c d)
                  | Some (Ready (Inr _), c) \<Rightarrow> di_finish (di_set_conn c d) DispatchedShutdown)
               else di_finish d DispatchedShutdown))
       else (Return Pending, d))"

definition di_poll_catch ::
    "('io, 'b, 'm) conn_env \<Rightarrow> ('b, 'm, 'bd, 'cb, 'x, 'u) user_api \<Rightarrow> nat \<Rightarrow> bool \<Rightarrow> ('io, 'b, 'm, 'bd, 'cb, 'u) dispatcher \<Rightarrow>
     ('x disp_error + dispatched) progress \<times> ('io, 'b, 'm, 'bd, 'cb, 'u) dispatcher" where
  "di_poll_catch E U n should_shutdown d =
     (case di_poll_inner E U n should_shutdown d of
        (Return (Ready (Inl e)), d) \<Rightarrow>
          (let d = (if di_body_tx d
                    then di_drop_body U (d\<lparr>di_body_tx := False, di_user := body_send_error U BodyConnectionError (di_user d)\<rparr>)
                    else d) in
           case client_recv_err U e d of
             (Inl e, d) \<Rightarrow> (Return (Ready (Inl e)), d)
           | (Inr _, d) \<Rightarrow> (Return (Ready (Inr DispatchedShutdown)), d))
      | r \<Rightarrow> r)"

text \<open>\<^verbatim>\<open>Future::poll\<close> shuts the transport down, \<^verbatim>\<open>poll_without_shutdown\<close> does not.  When the dispatcher is dropped
  its fields are: the callback, the queue of requests, and the guard of the body sender.\<close>

definition dispatcher_poll ::
    "('io, 'b, 'm) conn_env \<Rightarrow> ('b, 'm, 'bd, 'cb, 'x, 'u) user_api \<Rightarrow> nat \<Rightarrow> ('io, 'b, 'm, 'bd, 'cb, 'u) dispatcher \<Rightarrow>
     ('x disp_error + dispatched) progress \<times> ('io, 'b, 'm, 'bd, 'cb, 'u) dispatcher" where
  "dispatcher_poll E U n d = di_poll_catch E U n True d"

definition poll_without_shutdown ::
    "('io, 'b, 'm) conn_env \<Rightarrow> ('b, 'm, 'bd, 'cb, 'x, 'u) user_api \<Rightarrow> nat \<Rightarrow> ('io, 'b, 'm, 'bd, 'cb, 'u) dispatcher \<Rightarrow>
     ('x disp_error + unit) progress \<times> ('io, 'b, 'm, 'bd, 'cb, 'u) dispatcher" where
  "poll_without_shutdown E U n d =
     (case di_poll_catch E U n False d of
        (Return (Ready (Inr _)), d) \<Rightarrow> (Return (Ready (Inr ())), d)
      | (Return (Ready (Inl e)), d) \<Rightarrow> (Return (Ready (Inl e)), d)
      | (Return Pending, d) \<Rightarrow> (Return Pending, d)
      | (Return Panicked, d) \<Rightarrow> (Return Panicked, d)
      | (Turning, d) \<Rightarrow> (Turning, d)
      | (Stuck, d) \<Rightarrow> (Stuck, d))"

definition dispatcher_drop :: "('b, 'm, 'bd, 'cb, 'x, 'u) user_api \<Rightarrow> ('io, 'b, 'm, 'bd, 'cb, 'u) dispatcher \<Rightarrow> 'u" where
  "dispatcher_drop U d =
     (let u = (case di_callback d of Some cb \<Rightarrow> callback_drop U cb (di_user d) | None \<Rightarrow> di_user d);
          u = dc_receiver_drop U u in
      if di_body_tx d then body_drop U (body_send_error U (ConnError IncompleteMessage) u) else u)"

text \<open>
  What is relied on of the user's side: a request it sends is one the encoder accepts, its body buffers
  are sound, and a request that is taken off the queue and an answer that is given are what they are;
  \<open>taken\<close> and \<open>answered\<close> count the callers whose request left the queue and who were answered.
\<close>

definition same_calls :: "('u \<Rightarrow> 'cb multiset) \<Rightarrow> ('u \<Rightarrow> 'cb multiset) \<Rightarrow> 'u \<Rightarrow> 'u \<Rightarrow> bool" where
  "same_calls taken answered u u' \<longleftrightarrow> taken u' = taken u \<and> answered u' = answered u"

definition took :: "('u \<Rightarrow> 'cb multiset) \<Rightarrow> ('u \<Rightarrow> 'cb multiset) \<Rightarrow> ('m, 'bd, 'cb) envelope list \<Rightarrow> 'u \<Rightarrow> 'u \<Rightarrow> bool" where
  "took taken answered envs u u' \<longleftrightarrow> taken u' = taken u + mset (map snd envs) \<and> answered u' = answered u"

definition recv_env :: "'a option poll \<Rightarrow> 'a list" where
  "recv_env r = (case r of Ready (Some x) \<Rightarrow> [x] | _ \<Rightarrow> [])"

locale dispatch_world = conn_world E incoming sent io_ok contents ok
  for E :: "('io, 'b, 'm) conn_env" and incoming sent io_ok contents ok +
  fixes U :: "('b, 'm, 'bd, 'cb, 'x, 'u) user_api" and taken :: "'u \<Rightarrow> 'cb multiset" and answered :: "'u \<Rightarrow> 'cb multiset"
  assumes user_recv: "ua_mpsc_poll_recv U u = (r, u') \<Longrightarrow> r \<noteq> Panicked \<and> took taken answered (recv_env r) u u' \<and>
      (\<forall>env \<in> set (recv_env r). request_ok (ce_http E) (fst (fst env)))"
    and user_recv_now: "ua_mpsc_recv_now U u = (e, u') \<Longrightarrow> took taken answered (case e of None \<Rightarrow> [] | Some x \<Rightarrow> [x]) u u'"
    and user_drop: "ua_mpsc_drop U u = (envs, u') \<Longrightarrow> took taken answered envs u u'"
    and user_answer: "taken (ua_oneshot_send U cb v u) = taken u \<and> answered (ua_oneshot_send U cb v u) = add_mset cb (answered u)"
    and user_frame: "ua_poll_frame U body u = (item, body', u') \<Longrightarrow> item \<noteq> Panicked \<and> same_calls taken answered u u' \<and>
      (\<forall>chunk. item = Ready (Some (Inr (UserData chunk))) \<longrightarrow> ok chunk \<and> length (contents chunk) < 2 ^ 64)"
    and user_chan: "ua_chan U u = (ch, u') \<Longrightarrow> same_calls taken answered u u'"
    and user_put_chan: "same_calls taken answered u (ua_put_chan U ch wk u)"
    and user_new_chan: "same_calls taken answered u (ua_new_chan U ch u)"
    and user_want: "same_calls taken answered u (ua_want U u)" "same_calls taken answered u (ua_cancel_want U u)"
    and user_close: "same_calls taken answered u (ua_mpsc_close U u)"
    and user_closed: "ua_poll_closed U cb u = (b, u') \<Longrightarrow> same_calls taken answered u u'"
    and user_wake: "same_calls taken answered u (ua_wake U u)"

text \<open>The invariant of the dispatcher: the connection is sound, a body that is still to be read has its
  sender, and the callers that were taken are those that were answered and the one in hand.\<close>

definition held :: "('io, 'b, 'm, 'bd, 'cb, 'u) dispatcher \<Rightarrow> 'cb multiset" where
  "held d = (case di_callback d of None \<Rightarrow> {#} | Some cb \<Rightarrow> {#cb#})"

definition calls_ok :: "('u \<Rightarrow> 'cb multiset) \<Rightarrow> ('u \<Rightarrow> 'cb multiset) \<Rightarrow> ('io, 'b, 'm, 'bd, 'cb, 'u) dispatcher \<Rightarrow> bool" where
  "calls_ok taken answered d \<longleftrightarrow> taken (di_user d) = answered (di_user d) + held d"

definition sound_conn ::
    "('io, 'b, 'm) conn_env \<Rightarrow> ('io \<Rightarrow> bool) \<Rightarrow> ('b \<Rightarrow> byte list) \<Rightarrow> ('b \<Rightarrow> bool) \<Rightarrow> ('io, 'b, 'm) conn \<Rightarrow> ('io, 'b, 'm) conn \<Rightarrow> bool" where
  "sound_conn E io_ok contents ok c0 c \<longleftrightarrow>
     conn_ok io_ok contents ok c \<and> protocol_inv (protocol_of c) \<and> (\<exists>evs. conn_run E c0 evs c)"

definition fine :: "'a progress \<Rightarrow> bool" where
  "fine r \<longleftrightarrow> r \<noteq> Return Panicked \<and> r \<noteq> Stuck"

definition disp_ok ::
    "('io, 'b, 'm) conn_env \<Rightarrow> ('io \<Rightarrow> bool) \<Rightarrow> ('b \<Rightarrow> byte list) \<Rightarrow> ('b \<Rightarrow> bool) \<Rightarrow> ('u \<Rightarrow> 'cb multiset) \<Rightarrow> ('u \<Rightarrow> 'cb multiset) \<Rightarrow>
     ('io, 'b, 'm) conn \<Rightarrow> ('io, 'b, 'm, 'bd, 'cb, 'u) dispatcher \<Rightarrow> bool" where
  "disp_ok E io_ok contents ok taken answered c0 d \<longleftrightarrow>
     sound_conn E io_ok contents ok c0 (di_conn d) \<and> (can_read_body (di_conn d) \<longrightarrow> di_body_tx d) \<and> calls_ok taken answered d"

text \<open>Polling the dispatcher again and again, with the turns that each poll is given, until it is done.\<close>

fun dispatcher_run ::
    "('io, 'b, 'm) conn_env \<Rightarrow> ('b, 'm, 'bd, 'cb, 'x, 'u) user_api \<Rightarrow> nat list \<Rightarrow> ('io, 'b, 'm, 'bd, 'cb, 'u) dispatcher \<Rightarrow>
     ('x disp_error + dispatched) progress \<times> ('io, 'b, 'm, 'bd, 'cb, 'u) dispatcher" where
  "dispatcher_run E U [] d = (Return Pending, d)"
| "dispatcher_run E U (n # ns) d =
     (case dispatcher_poll E U n d of
        (Return Pending, d) \<Rightarrow> dispatcher_run E U ns d
      | r \<Rightarrow> r)"

text \<open>A connection whose output may rest: there is none, or the transport was asked to flush or to shut down
  and has put the task to sleep.\<close>

definition output_waits :: "('io, 'b, 'm) conn_env \<Rightarrow> ('io, 'b, 'm) conn \<Rightarrow> bool" where
  "output_waits E c \<longleftrightarrow>
     (\<exists>c1 c2. (conn_poll_flush E c1 = Some (Pending, c2) \<or> conn_poll_shutdown E c1 = Some (Pending, c2)) \<and> cn_io c = cn_io c2)"

definition output_rests :: "('io, 'b, 'm) conn_env \<Rightarrow> ('io, 'b, 'm) conn \<Rightarrow> bool" where
  "output_rests E c \<longleftrightarrow> \<not> conn_has_buffered_write c \<or> bd_flush_pipeline (cn_io c) \<or> output_waits E c"

text \<open>What a poll of the dispatcher may leave behind when it sleeps.\<close>

definition rests_after :: "('io, 'b, 'm) conn_env \<Rightarrow> ('b, 'm, 'bd, 'cb, 'x, 'u) user_api \<Rightarrow>
    ('e + 'a) progress \<times> ('io, 'b, 'm, 'bd, 'cb, 'u) dispatcher \<Rightarrow> bool" where
  "rests_after E U p =
     (case p of
        (Return Pending, d) \<Rightarrow> output_rests E (di_conn d) \<or> (\<exists>u. di_user d = ua_wake U u)
      | (Return (Ready (Inr _)), d) \<Rightarrow> output_rests E (di_conn d)
      | _ \<Rightarrow> True)"

text \<open>
  A user: requests wait in a queue that can be closed, the signal of demand is a flag that \<^verbatim>\<open>give\<close> takes, each
  answer is kept with its caller, and a body is the list of its pieces.
\<close>

type_synonym simple_envelope = "(assoc_map, byte list list, nat) envelope"

record simple_user =
  su_queue :: "simple_envelope list"
  su_closed :: bool
  su_wanted :: bool
  su_canceled :: bool
  su_taken :: "nat list"
  su_answers :: "(nat \<times> (assoc_map, byte list list, unit) answer) list"
  su_chan :: "(unit disp_error, assoc_map) channel"
  su_woken :: bool

definition su_recv_now :: "simple_user \<Rightarrow> simple_envelope option \<times> simple_user" where
  "su_recv_now u =
     (case su_queue u of
        [] \<Rightarrow> (None, u)
      | env # q \<Rightarrow> (Some env, u\<lparr>su_queue := q, su_taken := snd env # su_taken u\<rparr>))"

definition su_poll_recv :: "simple_user \<Rightarrow> simple_envelope option poll \<times> simple_user" where
  "su_poll_recv u =
     (case su_queue u of
        [] \<Rightarrow> (if su_closed u then Ready None else Pending, u)
      | env # _ \<Rightarrow>
          if request_ok assoc_api (fst (fst env)) then (case su_recv_now u of (e, u) \<Rightarrow> (Ready e, u)) else (Pending, u))"

definition su_poll_frame :: "byte list list \<Rightarrow> simple_user \<Rightarrow>
    (unit + (byte list, assoc_map) user_frame) option poll \<times> byte list list \<times> simple_user" where
  "su_poll_frame body u =
     (case body of
        [] \<Rightarrow> (Ready None, [], u)
      | b # bs \<Rightarrow> if length b < 2 ^ 64 then (Ready (Some (Inr (UserData b))), bs, u) else (Pending, body, u))"

definition simple_api :: "(byte list, assoc_map, byte list list, nat, unit, simple_user) user_api" where
  "simple_api =
     \<lparr>ua_chan = (\<lambda>u. (su_chan u, u)),
      ua_put_chan = (\<lambda>ch wk u. u\<lparr>su_chan := ch\<rparr>),
      ua_new_chan = (\<lambda>ch u. u\<lparr>su_chan := ch\<rparr>),
      ua_mpsc_poll_recv = su_poll_recv,
      ua_mpsc_recv_now = su_recv_now,
      ua_mpsc_close = (\<lambda>u. u\<lparr>su_closed := True\<rparr>),
      ua_mpsc_drop = (\<lambda>u. (su_queue u, u\<lparr>su_queue := [], su_closed := True, su_taken := map snd (su_queue u) @ su_taken u\<rparr>)),
      ua_mpsc_send = (\<lambda>env u. if su_closed u then (False, u) else (True, u\<lparr>su_queue := su_queue u @ [env]\<rparr>)),
      ua_want = (\<lambda>u. u\<lparr>su_wanted := True\<rparr>),
      ua_cancel_want = (\<lambda>u. u\<lparr>su_canceled := True\<rparr>),
      ua_give = (\<lambda>u. (su_wanted u, u\<lparr>su_wanted := False\<rparr>)),
      ua_is_wanting = su_wanted,
      ua_poll_want = (\<lambda>u. (if su_canceled u then Ready (Inl ()) else if su_wanted u then Ready (Inr ()) else Pending, u)),
      ua_is_giver_canceled = su_canceled,
      ua_poll_closed = (\<lambda>cb u. (False, u)),
      ua_oneshot_send = (\<lambda>cb v u. u\<lparr>su_answers := (cb, v) # su_answers u\<rparr>),
      ua_is_end_stream = (\<lambda>body. body = []),
      ua_size_exact = (\<lambda>body. Some (of_nat (length (concat body)))),
      ua_poll_frame = su_poll_frame,
      ua_wake = (\<lambda>u. u\<lparr>su_woken := True\<rparr>)\<rparr>"

definition simple_user_init :: simple_user where
  "simple_user_init =
     \<lparr>su_queue = [((sample_request, []), 7)], su_closed = False, su_wanted = False, su_canceled = False, su_taken = [],
      su_answers = [], su_chan = body_channel False, su_woken = False\<rparr>"

definition exchange_script :: script where
  "exchange_script =
     \<lparr>sc_recv = [RecvWait, Recv sample_response, Recv (ascii ''hello'')], sc_write = [], sc_sent = [], sc_vectored = False\<rparr>"

definition exchange_start :: "(script, byte list, assoc_map, byte list list, nat, simple_user) dispatcher" where
  "exchange_start = dispatcher_new (conn_new sample_env sample_parser exchange_script) simple_user_init"

text \<open>A connection over which nothing has come in yet, and its dispatcher when no request waits.\<close>

definition quiet_conn :: "(script, byte list, assoc_map) conn" where
  "quiet_conn = conn_new sample_env sample_parser exchange_script"

definition quiet_dispatcher :: "(script, byte list, assoc_map, byte list list, nat, simple_user) dispatcher" where
  "quiet_dispatcher = dispatcher_new quiet_conn (simple_user_init\<lparr>su_queue := []\<rparr>)"

lemma can_read_body_phase: "can_read_body c \<longleftrightarrow> pr_reading (protocol_of c) = PBusy"
  by (cases "st_reading (cn_state c)") (simp_all add: can_read_body_def protocol_of_def)

lemma steps_busy: "protocol_steps p ev q \<Longrightarrow> pr_reading q = PBusy \<Longrightarrow> pr_reading p = PBusy \<or> Response \<in> set ev"
proof (induction rule: protocol_steps.induct)
  case (pss_step p evs p' ev p'')
  from pss_step.hyps(2) pss_step.prems have "pr_reading p' = PBusy \<or> Response \<in> set ev"
    by (cases rule: protocol_step.cases) auto
  then show ?case using pss_step.IH by auto
qed simp

lemma simple_reads:
  "can_read_body (snd (wants_read_again c)) = can_read_body c" "can_read_body (snd (take_error c)) = can_read_body c"
  "can_read_body (snd (conn_on_upgrade c)) = can_read_body c" "can_read_body (snd (pending_upgrade c)) = can_read_body c"
  "\<not> can_read_body (close_read c)" "\<not> can_read_body (close_write (close_read c))"
  by (simp_all add: can_read_body_def wants_read_again_def take_error_def conn_on_upgrade_def prepare_upgrade_def
      pending_upgrade_def close_read_def close_write_def state_close_read_def state_close_write_def split: option.split)

text \<open>When the connection still has a body to read.\<close>

lemma maybe_notify_reads: "maybe_notify E c = Some c' \<Longrightarrow> can_read_body c' \<longrightarrow> can_read_body c"
  by (auto simp: maybe_notify_def Let_def can_read_body_def state_close_def state_close_read_def
      split: if_split_asm prod.split_asm poll.split_asm sum.split_asm)

lemma try_keep_alive_reads: "try_keep_alive E c = Some c' \<Longrightarrow> can_read_body c' \<longrightarrow> can_read_body c"
proof -
  assume "try_keep_alive E c = Some c'"
  then have "can_read_body c' \<longrightarrow> can_read_body (c\<lparr>cn_state := state_try_keep_alive (cn_state c)\<rparr>)"
    unfolding try_keep_alive_def by (rule maybe_notify_reads)
  moreover have "can_read_body (c\<lparr>cn_state := state_try_keep_alive (cn_state c)\<rparr>) \<longrightarrow> can_read_body c"
    by (auto simp: can_read_body_def state_try_keep_alive_def state_idle_def state_close_def Let_def
      split: reading.split_asm writing.split_asm if_split_asm)
  ultimately show ?thesis by blast
qed

lemma finish_read_reads: "finish_read E c r ret = (Ready x, c') \<Longrightarrow> r = ReadKeepAlive \<or> r = ReadClosed \<Longrightarrow> \<not> can_read_body c'"
  by (auto simp: finish_read_def set_reading_def can_read_body_def [of "_\<lparr>cn_state := _\<rparr>"] split: option.split_asm dest!: try_keep_alive_reads)

lemma read_body_reads:
  assumes "read_body_state E c d = Some (res, c')" "res = Ready None \<or> (\<exists>e. res = Ready (Some (Inl e)))"
  shows "\<not> can_read_body c'"
  using assms by (auto simp: read_body_state_def Let_def dest: finish_read_reads
      split: option.split_asm prod.split_asm poll.split_asm sum.split_asm frame.split_asm if_split_asm)

lemma poll_read_body_reads:
  assumes "poll_read_body E c = Some (res, c')" "res = Ready None \<or> (\<exists>e. res = Ready (Some (Inl e)))"
  shows "\<not> can_read_body c'"
  using assms by (auto simp: poll_read_body_def Let_def dest: read_body_reads split: reading.split_asm)

lemma drain_reads: "poll_drain_or_close_read E c = Some (Some c') \<Longrightarrow> \<not> can_read_body c'"
  by (auto simp: poll_drain_or_close_read_def Let_def can_read_body_def close_read_def state_close_read_def
      split: option.split_asm prod.split_asm poll.split_asm reading.split_asm)

lemma read_head_message_reads:
  assumes "read_head_message E c msg = (Ready (Some (Inr (head, len, wants))), c')"
  shows "can_read_body c' \<longrightarrow> len \<noteq> ZERO"
  using assms
  by (auto simp: read_head_message_def Let_def can_read_body_def dest!: try_keep_alive_reads split: option.split_asm if_split_asm reading.split_asm)

lemma poll_read_head_reads:
  assumes "poll_read_head E c = Some (Ready (Some (Inr (head, len, wants))), c')"
  shows "can_read_body c' \<longrightarrow> len \<noteq> ZERO"
  using assms
  by (auto simp: poll_read_head_def Let_def on_read_head_error_def on_parse_error_def dest: read_head_message_reads
      split: option.split_asm prod.split_asm poll.split_asm sum.split_asm if_split_asm)

context conn_world
begin

abbreviation sound :: "('io, 'b, 'm) conn \<Rightarrow> ('io, 'b, 'm) conn \<Rightarrow> bool" where
  "sound \<equiv> sound_conn E io_ok contents ok"

lemma sound_step:
  assumes "sound c0 c" "conn_enabled c op" "op_ok E contents ok op"
  shows "\<exists>ev c'. conn_step E c op = Some (Some (ev, c')) \<and> sound c0 c' \<and>
    (can_read_body c' \<longrightarrow> can_read_body c \<or> Response \<in> set ev)"
proof -
  have g: "good c" "protocol_inv (protocol_of c)" using assms(1) by (auto simp: sound_conn_def)
  obtain ev c' where s: "conn_step E c op = Some (Some (ev, c'))" "good c'"
    using conn_step_reads [OF g assms(2)] conn_step_writes [OF g(1) assms(2) _ assms(3)] by blast
  have p: "protocol_steps (protocol_of c) ev (protocol_of c')" by (rule conn_step_refines [OF assms(2) s(1) g(2)])
  have "\<exists>evs. conn_run E c0 evs c'" using assms(1) run_step [OF _ assms(2) s(1)] by (auto simp: sound_conn_def)
  then show ?thesis using s p protocol_steps_inv [OF p g(2)] steps_busy [OF p]
    by (auto simp: sound_conn_def can_read_body_phase)
qed

lemma sound_polled:
  assumes "sound c0 c" "conn_enabled c op" "op_ok E contents ok op" "conn_step E c op = polled r f"
  shows "\<exists>res c'. r = Some (res, c') \<and> res \<noteq> Panicked \<and> sound c0 c' \<and>
    (can_read_body c' \<longrightarrow> can_read_body c \<or> (\<exists>a. res = Ready a \<and> Response \<in> set (f a)))"
proof -
  obtain ev c' where s: "polled r f = Some (Some (ev, c'))" "sound c0 c'" "can_read_body c' \<longrightarrow> can_read_body c \<or> Response \<in> set ev"
    using sound_step [OF assms(1-3)] assms(4) by auto
  then obtain res c1 where "r = Some (res, c1)" by (cases r) (auto simp: polled_def)
  then show ?thesis using s by (cases res) (auto simp: polled_def)
qed

lemma sound_flush:
  assumes "sound c0 c"
  obtains res c' where "conn_poll_flush E c = Some (res, c')" "res \<noteq> Panicked" "sound c0 c'" "can_read_body c' \<longrightarrow> can_read_body c"
  using sound_polled [OF assms _ _ conn_step.simps(10)] by auto

lemma sound_shutdown:
  assumes "sound c0 c"
  obtains res c' where "conn_poll_shutdown E c = Some (res, c')" "res \<noteq> Panicked" "sound c0 c'" "can_read_body c' \<longrightarrow> can_read_body c"
  using sound_polled [OF assms _ _ conn_step.simps(11)] by auto

lemma sound_read_keep_alive:
  assumes "sound c0 c" "\<not> can_read_head c" "\<not> can_read_body c"
  obtains res c' where "poll_read_keep_alive E c = (res, c')" "res \<noteq> Panicked" "sound c0 c'" "\<not> can_read_body c'"
  using sound_polled [OF assms(1) _ _ conn_step.simps(3)] assms(2,3) by auto

lemma sound_quiet:
  assumes "sound c0 c" "conn_enabled c op" "op_ok E contents ok op" "conn_step E c op = quiet r"
  shows "\<exists>c'. r = Some (Some c') \<and> sound c0 c' \<and> (can_read_body c' \<longrightarrow> can_read_body c)"
  using sound_step [OF assms(1-3)] assms(4) by (auto simp: quiet_def)

lemma sound_simple:
  assumes "sound c0 c"
  shows "sound c0 (snd (wants_read_again c))" "sound c0 (snd (take_error c))" "sound c0 (snd (conn_on_upgrade c))"
    "sound c0 (snd (pending_upgrade c))" "sound c0 (close_read c)" "sound c0 (close_write (close_read c))"
  using sound_quiet [OF assms _ _ conn_step.simps(4)] sound_quiet [OF assms _ _ conn_step.simps(15)]
    sound_quiet [OF assms _ _ conn_step.simps(16)] sound_quiet [OF assms _ _ conn_step.simps(17)]
    sound_quiet [OF assms _ _ conn_step.simps(13)] sound_quiet [OF assms _ _ conn_step.simps(14)]
  by simp_all

lemma sound_read_head:
  assumes "sound c0 c" "can_read_head c"
  obtains res c' where "poll_read_head E c = Some (res, c')" "res \<noteq> Panicked" "sound c0 c'"
    "can_read_body c' \<longrightarrow> (\<exists>head len wants. res = Ready (Some (Inr (head, len, wants))) \<and> len \<noteq> ZERO)"
proof -
  have "\<not> can_read_body c" using assms(2) by (auto simp: can_read_head_def can_read_body_def split: if_split_asm)
  then obtain res c' where r: "poll_read_head E c = Some (res, c')" "res \<noteq> Panicked" "sound c0 c'"
      "can_read_body c' \<longrightarrow> (\<exists>a. res = Ready a \<and> Response \<in> set (case a of Some (Inr _) \<Rightarrow> [Response] | _ \<Rightarrow> []))"
    using sound_polled [OF assms(1) _ _ conn_step.simps(1)] assms(2) by auto
  show ?thesis
    by (rule that [OF r(1-3)]) (use r poll_read_head_reads [of E c _ _ _ c'] in \<open>auto split: option.split_asm sum.split_asm\<close>)
qed

lemma sound_read_body:
  assumes "sound c0 c" "can_read_body c"
  obtains res c' where "poll_read_body E c = Some (res, c')" "res \<noteq> Panicked" "sound c0 c'"
    "res = Ready None \<or> (\<exists>e. res = Ready (Some (Inl e))) \<longrightarrow> \<not> can_read_body c'"
  using sound_polled [OF assms(1) _ _ conn_step.simps(2)] assms(2) poll_read_body_reads by fastforce

lemma sound_drain:
  assumes "sound c0 c" "can_read_body c"
  obtains c' where "poll_drain_or_close_read E c = Some (Some c')" "sound c0 c'" "\<not> can_read_body c'"
  using sound_quiet [OF assms(1) _ _ conn_step.simps(12)] assms(2) drain_reads by auto

lemma sound_write_head:
  assumes "sound c0 c" "can_write_head c" "request_ok (ce_http E) head"
  obtains c' where "write_head E c head body = Some c'" "sound c0 c'" "can_read_body c' \<longrightarrow> can_read_body c"
  using sound_step [OF assms(1), of "OpWriteHead head body"] assms(2,3) by auto

lemma sound_write_body:
  assumes "sound c0 c" "can_write_body c" "can_buffer_body c" "body_piece contents ok chunk"
  obtains c' where "write_body E c chunk = Some (Some c')" "sound c0 c'" "can_read_body c' \<longrightarrow> can_read_body c"
  using sound_quiet [OF assms(1) _ _ conn_step.simps(6)] assms(2-4) by auto

lemma sound_write_body_and_end:
  assumes "sound c0 c" "can_write_body c" "can_buffer_body c" "body_piece contents ok chunk"
  obtains c' where "write_body_and_end E c chunk = Some (Some c')" "sound c0 c'" "can_read_body c' \<longrightarrow> can_read_body c"
  using sound_quiet [OF assms(1) _ _ conn_step.simps(8)] assms(2-4) by auto

lemma sound_write_trailers:
  assumes "sound c0 c" "can_write_body c" "can_buffer_body c"
  obtains c' where "write_trailers E c trailers = Some (Some c')" "sound c0 c'" "can_read_body c' \<longrightarrow> can_read_body c"
  using sound_quiet [OF assms(1) _ _ conn_step.simps(7)] assms(2,3) by auto

lemma sound_end_body:
  assumes "sound c0 c" "can_write_body c"
  obtains res c' where "end_body E c = Some (Some (res, c'))" "sound c0 c'" "can_read_body c' \<longrightarrow> can_read_body c"
  using sound_quiet [OF assms(1) _ _ conn_step.simps(9)] assms(2) by auto

end

lemma calls_ok_upd [simp]:
  "calls_ok taken answered (d\<lparr>di_conn := c\<rparr>) = calls_ok taken answered d"
  "calls_ok taken answered (d\<lparr>di_body_tx := tx\<rparr>) = calls_ok taken answered d"
  "calls_ok taken answered (d\<lparr>di_body_rx := rx\<rparr>) = calls_ok taken answered d"
  "calls_ok taken answered (d\<lparr>di_is_closing := b\<rparr>) = calls_ok taken answered d"
  "calls_ok taken answered (d\<lparr>di_is_aborted := b\<rparr>) = calls_ok taken answered d"
  "calls_ok taken answered (d\<lparr>di_rx_closed := b\<rparr>) = calls_ok taken answered d"
  by (simp_all add: calls_ok_def held_def)

lemma calls_ok_same:
  "calls_ok taken answered d \<Longrightarrow> same_calls taken answered (di_user d) u \<Longrightarrow> calls_ok taken answered (d\<lparr>di_user := u\<rparr>)"
  by (simp add: calls_ok_def held_def same_calls_def)

lemma same_calls_refl [simp, intro]: "same_calls taken answered u u"
  by (simp add: same_calls_def)

lemma same_calls_trans: "same_calls taken answered u u1 \<Longrightarrow> same_calls taken answered u1 u2 \<Longrightarrow> same_calls taken answered u u2"
  by (simp add: same_calls_def)

lemma fine_simps [simp]: "fine Turning" "\<not> fine Stuck" "fine (Return r) \<longleftrightarrow> r \<noteq> Panicked"
  by (simp_all add: fine_def)

context dispatch_world
begin

lemma chan_then_put: "ua_chan U u = (ch, u') \<Longrightarrow> same_calls taken answered u (ua_put_chan U ch' wk u')"
  by (rule same_calls_trans [OF user_chan user_put_chan])

lemma body_calls:
  "body_poll_ready U u = (p, u') \<Longrightarrow> same_calls taken answered u u'"
  "body_send_data U chunk u = (dr, u') \<Longrightarrow> same_calls taken answered u u'"
  "body_send_trailers U trailers u = (tr, u') \<Longrightarrow> same_calls taken answered u u'"
  "same_calls taken answered u (body_send_error U err u)"
  "same_calls taken answered u (body_drop U u)"
  "same_calls taken answered u (incoming_drop U body u)"
  by (auto simp: body_poll_ready_def body_send_data_def body_send_trailers_def body_send_error_def body_drop_def incoming_drop_def
      intro: user_chan chan_then_put split: prod.split_asm prod.split incoming_body.split)

lemma body_poll_ready_poll: "body_poll_ready U u = (p, u') \<Longrightarrow> p \<noteq> Panicked"
  by (auto simp: body_poll_ready_def sender_poll_ready_def Let_def split: prod.split_asm if_split_asm)

abbreviation dgood :: "('io, 'b, 'm) conn \<Rightarrow> ('io, 'b, 'm, 'bd, 'cb, 'u) dispatcher \<Rightarrow> bool" where
  "dgood \<equiv> disp_ok E io_ok contents ok taken answered"

lemma dgood_conn:
  assumes "dgood c0 d" "sound c0 c" "can_read_body c \<longrightarrow> can_read_body (di_conn d)"
  shows "dgood c0 (di_set_conn c d)"
  using assms by (auto simp: disp_ok_def di_set_conn_def)

lemma dgood_close: "dgood c0 d \<Longrightarrow> dgood c0 (di_close d)"
  using sound_simple(6) simple_reads(6) by (auto simp: disp_ok_def di_close_def)

lemma dgood_user: "dgood c0 d \<Longrightarrow> same_calls taken answered (di_user d) u \<Longrightarrow> dgood c0 (d\<lparr>di_user := u\<rparr>)"
  by (simp add: disp_ok_def calls_ok_same)

lemma dgood_upd [simp]:
  "dgood c0 (d\<lparr>di_body_rx := rx\<rparr>) = dgood c0 d" "dgood c0 (d\<lparr>di_is_aborted := b\<rparr>) = dgood c0 d"
  "dgood c0 (d\<lparr>di_rx_closed := b\<rparr>) = dgood c0 d"
  by (simp_all add: disp_ok_def)

lemma dgood_drop_body: "dgood c0 d \<Longrightarrow> dgood c0 (di_drop_body U d)"
  unfolding di_drop_body_def by (rule dgood_user [OF _ body_calls(5)])

lemma flush_dgood:
  assumes "dgood c0 d" "di_poll_flush E d = (r, d')"
  shows "dgood c0 d' \<and> fine r"
proof -
  obtain res c' where "conn_poll_flush E (di_conn d) = Some (res, c')" "res \<noteq> Panicked" "sound c0 c'"
      "can_read_body c' \<longrightarrow> can_read_body (di_conn d)"
    using sound_flush assms(1) unfolding disp_ok_def by metis
  then show ?thesis using assms dgood_conn by (cases res) (auto simp: di_poll_flush_def split: sum.split_asm)
qed

lemma recv_ok_dgood:
  assumes "dgood c0 d" "client_recv_ok U msg body up d = (r, d')"
  shows "dgood c0 d'"
proof (cases "di_callback d")
  case (Some cb)
  then show ?thesis using assms by (auto simp: client_recv_ok_def callback_send_def disp_ok_def calls_ok_def held_def user_answer)
next
  case None
  then have "d' = d\<lparr>di_user := incoming_drop U body (di_user d)\<rparr>" using assms(2) by (simp add: client_recv_ok_def)
  then show ?thesis using dgood_user [OF assms(1) body_calls(6)] by simp
qed

lemma recv_err_dgood:
  assumes "dgood c0 d" "client_recv_err U err d = (r, d')"
  shows "dgood c0 d'"
proof (cases "di_callback d")
  case (Some cb)
  then show ?thesis using assms
    by (auto simp: client_recv_err_def callback_send_def disp_ok_def calls_ok_def held_def user_answer)
next
  case None
  obtain e u where e: "dc_try_recv U (dc_close U (di_user d)) = (e, u)" by fastforce
  have "took taken answered (case e of None \<Rightarrow> [] | Some x \<Rightarrow> [x]) (dc_close U (di_user d)) u"
    using user_recv_now e by (simp add: dc_try_recv_def)
  moreover have "same_calls taken answered (di_user d) (dc_close U (di_user d))"
    unfolding dc_close_def by (rule same_calls_trans [OF user_want(2) user_close])
  ultimately show ?thesis using assms None e
    by (auto simp: client_recv_err_def callback_send_def disp_ok_def calls_ok_def held_def took_def same_calls_def user_answer
        split: if_split_asm option.split_asm)
qed

lemma poll_ready_dgood:
  assumes "dgood c0 d" "client_poll_ready U d = (r, d')"
  shows "dgood c0 d' \<and> di_conn d' = di_conn d \<and> di_body_tx d' = di_body_tx d"
  using assms by (auto simp: client_poll_ready_def callback_poll_canceled_def split: option.split_asm prod.split_asm
      intro!: dgood_user dest: user_closed)

lemma new_body_dgood:
  assumes "sound c0 (di_conn d)" "calls_ok taken answered d"
  shows "dgood c0 (di_new_body U wanter d)" "di_conn (di_new_body U wanter d) = di_conn d"
proof -
  have "calls_ok taken answered (di_drop_body U d)" unfolding di_drop_body_def by (rule calls_ok_same [OF assms(2) body_calls(5)])
  then have "calls_ok taken answered (if di_body_tx d then di_drop_body U d else d)" using assms(2) by simp
  from calls_ok_same [OF this user_new_chan [of _ "body_channel wanter"]] show "dgood c0 (di_new_body U wanter d)"
    using assms(1) by (auto simp: di_new_body_def disp_ok_def di_drop_body_def Let_def calls_ok_def held_def)
  show "di_conn (di_new_body U wanter d) = di_conn d" by (simp add: di_new_body_def di_drop_body_def Let_def)
qed

lemma response_dgood:
  assumes "sound c0 c" "calls_ok taken answered d" "can_read_body c \<longrightarrow> len \<noteq> ZERO"
    and "(body, d1) = (if len = ZERO then (IncomingEmpty, di_set_conn c d) else (IncomingH1 len, di_new_body U wanter (di_set_conn c d)))"
  shows "dgood c0 d1"
  using assms new_body_dgood(1) [of c0 "di_set_conn c d"] by (auto simp: disp_ok_def di_set_conn_def split: if_split_asm)

lemma read_head_dgood:
  assumes "dgood c0 d" "can_read_head (di_conn d)" "di_poll_read_head E U d = (r, d')"
  shows "dgood c0 d' \<and> fine r"
proof -
  obtain rd d1 where p: "client_poll_ready U d = (rd, d1)" by fastforce
  note d1 = poll_ready_dgood [OF assms(1) p]
  then have s: "sound c0 (di_conn d1)" "calls_ok taken answered d1" by (auto simp: disp_ok_def)
  show ?thesis
  proof (cases rd)
    case False
    then show ?thesis using assms(3) p d1 dgood_close [of c0 "d1\<lparr>di_is_aborted := True\<rparr>"] by (auto simp: di_poll_read_head_def)
  next
    case True
    obtain res c' where c: "poll_read_head E (di_conn d1) = Some (res, c')" "res \<noteq> Panicked" "sound c0 c'"
        "can_read_body c' \<longrightarrow> (\<exists>head len wants. res = Ready (Some (Inr (head, len, wants))) \<and> len \<noteq> ZERO)"
      using sound_read_head [OF s(1)] assms(2) d1 by metis
    have rd: "rd = True" using True by simp
    note e = assms(3) [unfolded di_poll_read_head_def p prod.case rd bool.case c(1) option.case]
    have plain: "dgood c0 (di_set_conn c' d1)" if "\<not> can_read_body c'"
      using dgood_conn [of c0 d1 c'] d1 c(3) that by blast
    show ?thesis
    proof (cases "\<exists>head len wants. res = Ready (Some (Inr (head, len, wants)))")
      case True
      then obtain head len wants where res: "res = Ready (Some (Inr (head, len, wants)))" by blast
      let ?d2 = "if len = ZERO then (IncomingEmpty, di_set_conn c' d1) else (IncomingH1 len, di_new_body U (wants_contains wants WANTS_EXPECT) (di_set_conn c' d1))"
      obtain body d2 where d2: "(body, d2) = ?d2" by (metis surj_pair)
      have g2: "dgood c0 d2" using response_dgood [OF c(3) s(2) _ d2] c(4) res by auto
      have g3: "dgood c0 (di_set_conn (snd (conn_on_upgrade (di_conn d2))) d2)"
        using dgood_conn [OF g2] sound_simple(3) simple_reads(3) g2 by (auto simp: disp_ok_def)
      have "\<exists>up d3 x. dgood c0 d3 \<and> client_recv_ok U head body up d3 = (x, d') \<and> r = Return (Ready x)"
      proof (cases "wants_contains wants WANTS_UPGRADE")
        case True
        then show ?thesis using e g3 unfolding res poll.case option.case sum.case prod.case Let_def d2 [symmetric]
          by (auto split: prod.split_asm)
      next
        case False
        then show ?thesis using e g2 unfolding res poll.case option.case sum.case prod.case Let_def d2 [symmetric]
          by (auto split: prod.split_asm)
      qed
      then show ?thesis using recv_ok_dgood by auto
    next
      case False
      then have nb: "\<not> can_read_body c'" using c(4) by blast
      then show ?thesis
        using e False c(2) plain [OF nb] recv_err_dgood dgood_close
        by (cases res) (fastforce simp: Let_def split: option.split_asm sum.split_asm prod.split_asm if_split_asm)+
    qed
  qed
qed

text \<open>With the sender in hand.\<close>

lemma sent_dgood:
  assumes "sound c0 (di_conn d)" "calls_ok taken answered d" "same_calls taken answered (di_user d) u"
  shows "dgood c0 (d\<lparr>di_user := u, di_body_tx := True\<rparr>)" "dgood c0 (di_close_body U (d\<lparr>di_user := u\<rparr>))"
    "\<not> can_read_body (di_conn d) \<Longrightarrow> dgood c0 (di_drop_body U (d\<lparr>di_user := u\<rparr>))"
proof -
  have u: "calls_ok taken answered (d\<lparr>di_user := u\<rparr>)" by (rule calls_ok_same [OF assms(2,3)])
  have b: "calls_ok taken answered (d\<lparr>di_user := body_drop U u\<rparr>)"
    by (rule calls_ok_same [OF assms(2) same_calls_trans [OF assms(3) body_calls(5)]])
  show "dgood c0 (d\<lparr>di_user := u, di_body_tx := True\<rparr>)" using assms(1) u by (simp add: disp_ok_def)
  show "dgood c0 (di_close_body U (d\<lparr>di_user := u\<rparr>))"
    using assms(1) b sound_simple(5) [OF assms(1)] simple_reads(5) [of "di_conn d"]
    by (auto simp: disp_ok_def di_close_body_def di_drop_body_def di_set_conn_def calls_ok_def held_def)
  show "dgood c0 (di_drop_body U (d\<lparr>di_user := u\<rparr>))" if "\<not> can_read_body (di_conn d)"
    using assms(1) b that by (simp add: disp_ok_def di_drop_body_def)
qed

lemma frame_dgood:
  assumes "sound c0 (di_conn d)" "calls_ok taken answered d" "can_read_body (di_conn d)"
    and "poll_read_body E (di_conn d) = Some (res, c)" "res \<noteq> Panicked" "sound c0 c"
    and "res = Ready None \<or> (\<exists>e. res = Ready (Some (Inl e))) \<longrightarrow> \<not> can_read_body c"
  defines "d1 \<equiv> di_set_conn c d"
  shows "res = Pending \<Longrightarrow> dgood c0 (d1\<lparr>di_body_tx := True\<rparr>)"
    "res = Ready None \<Longrightarrow> dgood c0 (di_drop_body U d1)"
    "res = Ready (Some (Inl e)) \<Longrightarrow> dgood c0 (di_drop_body U (d1\<lparr>di_user := body_send_error U (ConnError (ErrBody e)) (di_user d1)\<rparr>))"
    "body_send_data U chunk (di_user d1) = (x, u) \<Longrightarrow> dgood c0 (d1\<lparr>di_user := u, di_body_tx := True\<rparr>) \<and> dgood c0 (di_close_body U (d1\<lparr>di_user := u\<rparr>))"
    "body_send_trailers U trailers (di_user d1) = (y, u) \<Longrightarrow> dgood c0 (d1\<lparr>di_user := u, di_body_tx := True\<rparr>) \<and> dgood c0 (di_close_body U (d1\<lparr>di_user := u\<rparr>))"
proof -
  have d1: "sound c0 (di_conn d1)" "calls_ok taken answered d1" "di_conn d1 = c" using assms by (simp_all add: di_set_conn_def)
  show "res = Pending \<Longrightarrow> dgood c0 (d1\<lparr>di_body_tx := True\<rparr>)" using d1 by (simp add: disp_ok_def)
  show "res = Ready None \<Longrightarrow> dgood c0 (di_drop_body U d1)"
    using sent_dgood(3) [OF d1(1,2) same_calls_refl] assms(7) d1(3) by simp
  show "res = Ready (Some (Inl e)) \<Longrightarrow> dgood c0 (di_drop_body U (d1\<lparr>di_user := body_send_error U (ConnError (ErrBody e)) (di_user d1)\<rparr>))"
    using sent_dgood(3) [OF d1(1,2) body_calls(4)] assms(7) d1(3) by simp
  show "dgood c0 (d1\<lparr>di_user := u, di_body_tx := True\<rparr>) \<and> dgood c0 (di_close_body U (d1\<lparr>di_user := u\<rparr>))"
    if "body_send_data U chunk (di_user d1) = (x, u)"
    using sent_dgood(1,2) [OF d1(1,2) body_calls(2) [OF that]] by blast
  show "dgood c0 (d1\<lparr>di_user := u, di_body_tx := True\<rparr>) \<and> dgood c0 (di_close_body U (d1\<lparr>di_user := u\<rparr>))"
    if "body_send_trailers U trailers (di_user d1) = (y, u)"
    using sent_dgood(1,2) [OF d1(1,2) body_calls(3) [OF that]] by blast
qed

lemma read_body_dgood:
  assumes "dgood c0 d" "di_read_body E U d = (r, d')"
  shows "dgood c0 d' \<and> (\<forall>x. r = Some x \<longrightarrow> fine x)"
proof -
  define d0 where "d0 = d\<lparr>di_body_tx := False\<rparr>"
  have d0: "sound c0 (di_conn d0)" "calls_ok taken answered d0" using assms(1) by (simp_all add: disp_ok_def d0_def)
  note e = assms(2) [unfolded di_read_body_def Let_def d0_def [symmetric]]
  show ?thesis
  proof (cases "can_read_body (di_conn d0)")
    case False
    then show ?thesis using e sent_dgood(3) [OF d0 same_calls_refl] by auto
  next
    case True
    obtain p u where p: "body_poll_ready U (di_user d0) = (p, u)" by fastforce
    note pu = body_calls(1) [OF p]
    define d1 where "d1 = d0\<lparr>di_user := u\<rparr>"
    have d1: "sound c0 (di_conn d1)" "calls_ok taken answered d1" "can_read_body (di_conn d1)"
      using d0 True calls_ok_same [OF d0(2) pu] by (simp_all add: d1_def)
    note e1 = e [unfolded if_P [OF True] p prod.case d1_def [symmetric]]
    consider "p = Pending" | w where "p = Ready (Inl w)" | w where "p = Ready (Inr w)"
      using body_poll_ready_poll [OF p] by (metis poll.exhaust sumE)
    then show ?thesis
    proof cases
      case 1
      then show ?thesis using e1 sent_dgood(1) [OF d0 pu] by (auto simp: d1_def)
    next
      case 2
      obtain c where c: "poll_drain_or_close_read E (di_conn d1) = Some (Some c)" "sound c0 c" "\<not> can_read_body c"
        using sound_drain [OF d1(1,3)] .
      have "dgood c0 (di_drop_body U (di_set_conn c d1))"
        using sent_dgood(3) [of c0 "di_set_conn c d1", OF _ _ same_calls_refl] c d1(2) by (simp add: di_set_conn_def)
      then show ?thesis using e1 2 c by auto
    next
      case 3
      obtain res c where c: "poll_read_body E (di_conn d1) = Some (res, c)" "res \<noteq> Panicked" "sound c0 c"
          "res = Ready None \<or> (\<exists>e. res = Ready (Some (Inl e))) \<longrightarrow> \<not> can_read_body c"
        using sound_read_body [OF d1(1,3)] .
      note f = frame_dgood [OF d1(1,2,3) c]
      show ?thesis using e1 c(2) f unfolding 3 c(1)
        by (auto split: poll.split_asm option.split_asm sum.split_asm frame.split_asm prod.split_asm)
    qed
  qed
qed

lemma poll_read_dgood:
  assumes "dgood c0 d" "di_poll_read E U n d = (r, d')"
  shows "dgood c0 d' \<and> fine r"
  using assms
proof (induction n arbitrary: d)
  case (Suc n)
  consider "di_is_closing d" | "\<not> di_is_closing d" "can_read_head (di_conn d)"
    | "\<not> di_is_closing d" "\<not> can_read_head (di_conn d)" "di_body_tx d"
    | "\<not> di_is_closing d" "\<not> can_read_head (di_conn d)" "\<not> di_body_tx d" by blast
  then show ?case
  proof cases
    case 1
    then show ?thesis using Suc.prems by auto
  next
    case 2
    obtain x d1 where h: "di_poll_read_head E U d = (x, d1)" by fastforce
    note g = read_head_dgood [OF Suc.prems(1) 2(2) h]
    show ?thesis using Suc.prems(2) 2 h g Suc.IH [of d1] by (auto split: progress.split_asm poll.split_asm sum.split_asm)
  next
    case 3
    obtain x d1 where h: "di_read_body E U d = (x, d1)" by fastforce
    note g = read_body_dgood [OF Suc.prems(1) h]
    show ?thesis using Suc.prems(2) 3 h g Suc.IH [of d1] by (auto split: option.split_asm)
  next
    case 4
    have "\<not> can_read_body (di_conn d)" "sound c0 (di_conn d)" using Suc.prems(1) 4 by (auto simp: disp_ok_def)
    then obtain res c where c: "poll_read_keep_alive E (di_conn d) = (res, c)" "res \<noteq> Panicked" "sound c0 c" "\<not> can_read_body c"
      using sound_read_keep_alive [OF _ 4(2)] by metis
    then have "dgood c0 (di_set_conn c d)" using dgood_conn [OF Suc.prems(1)] by blast
    then show ?thesis using Suc.prems(2) 4 c by (auto split: poll.split_asm sum.split_asm)
  qed
qed auto

lemma poll_msg_dgood:
  assumes "dgood c0 d" "should_poll d" "client_poll_msg U d = (r, d')"
  shows "dgood c0 d' \<and> r \<noteq> Panicked \<and> di_conn d' = di_conn d \<and>
    (\<forall>head body. r = Ready (Some (head, body)) \<longrightarrow> request_ok (ce_http E) head)"
proof -
  obtain p u where p: "ua_mpsc_poll_recv U (di_user d) = (p, u)" by fastforce
  note v = user_recv [OF p]
  have none: "di_callback d = None" using assms(2) by (simp add: should_poll_def)
  consider "p = Pending" | "p = Ready None" | req cb where "p = Ready (Some (req, cb))"
    using v by (metis poll.exhaust option.exhaust surj_pair)
  then show ?thesis
  proof cases
    case 1
    then show ?thesis using assms p v none user_want(1) [of u]
      by (auto simp: client_poll_msg_def dc_poll_recv_def disp_ok_def calls_ok_def held_def took_def recv_env_def same_calls_def)
  next
    case 2
    then show ?thesis using assms p v none
      by (auto simp: client_poll_msg_def dc_poll_recv_def disp_ok_def calls_ok_def held_def took_def recv_env_def)
  next
    case 3
    obtain b u' where b: "ua_poll_closed U cb u = (b, u')" by fastforce
    show ?thesis using assms p v none 3 b user_closed [OF b]
      by (cases b) (auto simp: client_poll_msg_def dc_poll_recv_def disp_ok_def calls_ok_def held_def took_def recv_env_def
        same_calls_def callback_poll_canceled_def callback_drop_def user_answer)
  qed
qed

lemma write_head_dgood:
  assumes "dgood c0 d" "can_write_head (di_conn d)" "request_ok (ce_http E) head"
  obtains c where "write_head E (di_conn d) head body = Some c" "dgood c0 (di_set_conn c d)"
proof -
  obtain c where "write_head E (di_conn d) head body = Some c" "sound c0 c" "can_read_body c \<longrightarrow> can_read_body (di_conn d)"
    by (rule sound_write_head [OF _ assms(2,3)]) (use assms(1) in \<open>auto simp: disp_ok_def\<close>)
  then show ?thesis using that dgood_conn [OF assms(1)] by blast
qed

lemma write_msg_dgood:
  assumes "dgood c0 d" "should_poll d" "can_write_head (di_conn d)" "di_write_msg E U d = (r, d')"
  shows "dgood c0 d' \<and> (\<forall>x. r = Some x \<longrightarrow> fine x)"
proof -
  obtain p d1 where p: "client_poll_msg U d = (p, d1)" by fastforce
  note g = poll_msg_dgood [OF assms(1,2) p]
  have w: "can_write_head (di_conn d1)" using g assms(3) by simp
  show ?thesis
  proof (cases p)
    case (Ready x)
    show ?thesis
    proof (cases x)
      case None
      then show ?thesis using assms(4) p Ready g dgood_close by (auto simp: di_write_msg_def)
    next
      case (Some hb)
      obtain head body where hb: "hb = (head, body)" by fastforce
      define rx where "rx = (if ua_is_end_stream U body then None else Some body)"
      define ty where "ty = (if ua_is_end_stream U body then None
        else Some (case ua_size_exact U body of Some n \<Rightarrow> Known n | None \<Rightarrow> Unknown))"
      have "dgood c0 (d1\<lparr>di_body_rx := rx\<rparr>)" "can_write_head (di_conn (d1\<lparr>di_body_rx := rx\<rparr>))"
        "request_ok (ce_http E) head" using g w Ready Some hb by auto
      then obtain c where c: "write_head E (di_conn (d1\<lparr>di_body_rx := rx\<rparr>)) head ty = Some c"
          "dgood c0 (di_set_conn c (d1\<lparr>di_body_rx := rx\<rparr>))"
        by (rule write_head_dgood)
      show ?thesis using assms(4) c unfolding di_write_msg_def p Ready Some hb rx_def ty_def by (auto split: if_split_asm)
    qed
  qed (use assms(4) p g in \<open>auto simp: di_write_msg_def\<close>)
qed

lemma did_dgood:
  assumes "dgood c0 d" "r = Some (Some c)" "sound c0 c" "can_read_body c \<longrightarrow> can_read_body (di_conn d)" "di_did r d = (x, d')"
  shows "dgood c0 d' \<and> x = None"
  using assms(5) dgood_conn [OF assms(1,3,4)] by (simp add: di_did_def assms(2))

lemma end_body_dgood:
  assumes "dgood c0 d" "can_write_body (di_conn d)" "di_end_body E d = (r, d')"
  shows "dgood c0 d' \<and> (\<forall>x. r = Some x \<longrightarrow> fine x)"
proof -
  obtain res c where c: "end_body E (di_conn d) = Some (Some (res, c))" "sound c0 c" "can_read_body c \<longrightarrow> can_read_body (di_conn d)"
    by (rule sound_end_body [OF _ assms(2)]) (use assms(1) in \<open>auto simp: disp_ok_def\<close>)
  then show ?thesis using assms(3) dgood_conn [OF assms(1) c(2,3)] by (auto simp: di_end_body_def split: sum.split_asm)
qed

lemma body_piece_remaining:
  "ok chunk \<Longrightarrow> length (contents chunk) < 2 ^ 64 \<Longrightarrow> bf_remaining (ce_buf E) chunk \<noteq> 0 \<Longrightarrow> body_piece contents ok chunk"
  by (auto simp: body_piece_def bufs.remaining_contents)

lemma write_frame_dgood:
  assumes "dgood c0 d" "can_write_body (di_conn d)" "can_buffer_body (di_conn d)" "di_write_frame E U body d = (r, d')"
  shows "dgood c0 d' \<and> (\<forall>x. r = Some x \<longrightarrow> fine x)"
proof -
  obtain item body' u where f: "ua_poll_frame U body (di_user d) = (item, body', u)" by (metis surj_pair)
  note uf = user_frame [OF f]
  define d1 where "d1 = d\<lparr>di_user := u, di_body_rx := Some body'\<rparr>"
  define cl where "cl = d1\<lparr>di_body_rx := None\<rparr>"
  have d1: "dgood c0 d1" "di_conn d1 = di_conn d" using dgood_user [OF assms(1)] uf by (simp_all add: d1_def)
  have cl: "dgood c0 cl" "di_conn cl = di_conn d" using d1 by (simp_all add: cl_def)
  have s: "sound c0 (di_conn d)" using assms(1) by (simp add: disp_ok_def)
  note e = assms(4) [unfolded di_write_frame_def f prod.case Let_def d1_def [symmetric] cl_def [symmetric]]
  note en = end_body_dgood [OF cl(1), unfolded cl(2), OF assms(2)]
  consider "item = Pending" | "item = Ready None" | x where "item = Ready (Some (Inl x))" | "item = Ready (Some (Inr UserOther))"
    | trailers where "item = Ready (Some (Inr (UserTrailers trailers)))" | chunk where "item = Ready (Some (Inr (UserData chunk)))"
    using uf by (metis poll.exhaust option.exhaust sumE user_frame.exhaust)
  then show ?thesis
  proof cases
    case 5
    obtain c where c: "write_trailers E (di_conn d) trailers = Some (Some c)" "sound c0 c" "can_read_body c \<longrightarrow> can_read_body (di_conn d)"
      by (rule sound_write_trailers [OF s assms(2,3)])
    show ?thesis using e did_dgood [OF cl(1) c(1,2), unfolded cl(2), OF c(3)] unfolding 5 d1(2) by auto
  next
    case 6
    show ?thesis
    proof (cases "bf_remaining (ce_buf E) chunk = 0")
      case True
      then show ?thesis using e en d1 6 by (auto split: if_split_asm)
    next
      case False
      have bp: "body_piece contents ok chunk" using body_piece_remaining [OF _ _ False] uf 6 by blast
      obtain c where c: "write_body E (di_conn d) chunk = Some (Some c)" "sound c0 c" "can_read_body c \<longrightarrow> can_read_body (di_conn d)"
        by (rule sound_write_body [OF s assms(2,3) bp])
      obtain c' where c': "write_body_and_end E (di_conn d) chunk = Some (Some c')" "sound c0 c'" "can_read_body c' \<longrightarrow> can_read_body (di_conn d)"
        by (rule sound_write_body_and_end [OF s assms(2,3) bp])
      show ?thesis using e False did_dgood [OF d1(1) c(1,2), unfolded d1(2), OF c(3)] did_dgood [OF cl(1) c'(1,2), unfolded cl(2), OF c'(3)]
        unfolding 6 d1(2) by (auto split: if_split_asm)
    qed
  qed (use e en d1 cl in auto)
qed

lemma write_turn_dgood:
  assumes "dgood c0 d" "di_write_turn E U d = (r, d')"
  shows "dgood c0 d' \<and> (\<forall>x. r = Some x \<longrightarrow> fine x)"
proof -
  obtain fr fd where f: "di_poll_flush E d = (fr :: ('x disp_error + unit) progress, fd)" by fastforce
  show ?thesis
    using assms(2) flush_dgood [OF assms(1) f] assms(1) f
    by (auto simp: di_write_turn_def dest: write_msg_dgood [OF assms(1)] write_frame_dgood [OF assms(1)] end_body_dgood [OF assms(1)]
        split: if_split_asm option.split_asm progress.split_asm poll.split_asm sum.split_asm)
qed

lemma poll_write_dgood: "dgood c0 d \<Longrightarrow> di_poll_write E U n d = (r, d') \<Longrightarrow> dgood c0 d' \<and> fine r"
proof (induction n arbitrary: d)
  case (Suc n)
  obtain x d1 where t: "di_write_turn E U d = (x, d1)" by fastforce
  show ?case using Suc.prems(2) write_turn_dgood [OF Suc.prems(1) t] Suc.IH [of d1] t by (auto split: option.split_asm)
qed simp

end

lemma flush_flattened_pipeline:
  assumes "poll_flush_flattened T b = Some y"
  shows "bd_flush_pipeline (snd y) = bd_flush_pipeline b"
proof (induction rule: poll_flush_flattened.raw_induct [OF _ assms])
  case (1 f T b y)
  show ?case using 1(2) by (auto simp: Let_def flush_io_def dest!: 1(1) split: prod.split_asm poll.split_asm sum.split_asm if_split_asm)
qed

lemma flush_queue_pipeline:
  assumes "poll_flush_queue T B b = Some y"
  shows "bd_flush_pipeline (snd y) = bd_flush_pipeline b"
proof (induction rule: poll_flush_queue.raw_induct [OF _ assms])
  case (1 f T B b y)
  show ?case using 1(2) by (auto simp: Let_def flush_io_def dest!: 1(1) split: prod.split_asm poll.split_asm sum.split_asm if_split_asm)
qed

lemma poll_flush_pipeline: "poll_flush T B b = Some (res, b') \<Longrightarrow> bd_flush_pipeline b' = bd_flush_pipeline b"
  using flush_flattened_pipeline [of T b "(res, b')"] flush_queue_pipeline [of T B b "(res, b')"]
  by (auto simp: poll_flush_def flush_io_def split: if_split_asm prod.split_asm)

lemma read_from_io_writes:
  "poll_read_from_io T b = (res, b') \<Longrightarrow> bd_flush_pipeline b' = bd_flush_pipeline b \<and> bd_write_buf b' = bd_write_buf b"
  by (auto simp: poll_read_from_io_def Let_def split: prod.split_asm poll.split_asm sum.split_asm)

lemma try_keep_alive_writes:
  "try_keep_alive E c = Some c' \<Longrightarrow>
   bd_flush_pipeline (cn_io c') = bd_flush_pipeline (cn_io c) \<and> bd_write_buf (cn_io c') = bd_write_buf (cn_io c)"
  by (auto simp: try_keep_alive_def maybe_notify_def Let_def dest: read_from_io_writes
      split: if_split_asm prod.split_asm poll.split_asm sum.split_asm)

lemma output_rests_io: "cn_io c = cn_io c' \<Longrightarrow> output_rests E c = output_rests E c'"
  by (simp add: output_rests_def output_waits_def conn_has_buffered_write_def)

context conn_world
begin

lemma flush_rests:
  assumes "sound c0 c" "conn_poll_flush E c = Some (res, c')" "\<And>e. res \<noteq> Ready (Inl e)" "res \<noteq> Panicked"
  shows "output_rests E c'"
proof (cases "res = Pending")
  case True
  then show ?thesis using assms(2) by (auto simp: output_rests_def output_waits_def)
next
  case False
  then have res: "res = Ready (Inr ())" using assms(3,4) by (metis poll.exhaust sumE old.unit.exhaust)
  have g: "io_ok (bd_io (cn_io c))" "wb_ok (eb_contents contents) (eb_ok ok) (bd_write_buf (cn_io c))"
    using assms(1) by (auto simp: sound_conn_def conn_ok_def bd_read_ok_def)
  obtain r b where b: "poll_flush (ce_transport E) (ce_encoded E) (cn_io c) = Some (r, b)"
      "flush_post incoming sent io_ok (eb_contents contents) (eb_ok ok) (cn_io c) r b"
      "r = Ready (Inr ()) \<and> \<not> (bd_flush_pipeline (cn_io c) \<and> bd_read_buf (cn_io c) \<noteq> []) \<longrightarrow>
         wb_contents (eb_contents contents) (bd_write_buf b) = []"
    using out.poll_flush_ok [OF g] by blast
  have rk: "r = Ready (Inr ())" "try_keep_alive E (c\<lparr>cn_io := b\<rparr>) = Some c'"
    using assms(2) b(1) res by (auto simp: conn_poll_flush_def split: poll.split_asm sum.split_asm option.split_asm)
  note w = try_keep_alive_writes [OF rk(2)] poll_flush_pipeline [OF b(1)]
  show ?thesis
  proof (cases "bd_flush_pipeline (cn_io c)")
    case False
    then have "wb_contents (eb_contents contents) (bd_write_buf b) = []" using b(3) rk by simp
    then have "wb_remaining (bd_write_buf b) = 0"
      using bufs.eb.wb_remaining_ok b(2) by (auto simp: flush_post_def)
    then show ?thesis using w by (simp add: output_rests_def conn_has_buffered_write_def has_buffered_write_def)
  qed (use w in \<open>simp add: output_rests_def\<close>)
qed

end

context dispatch_world
begin

abbreviation dfine :: "('io, 'b, 'm) conn \<Rightarrow> 'a progress \<times> ('io, 'b, 'm, 'bd, 'cb, 'u) dispatcher \<Rightarrow> bool" where
  "dfine c0 p \<equiv> dgood c0 (snd p) \<and> fine (fst p)"

lemma poll_dfine:
  assumes "dgood c0 d"
  shows "dfine c0 (di_poll_read E U n d)" "dfine c0 (di_poll_write E U n d)" "dfine c0 (di_poll_flush E d)"
  using poll_read_dgood [OF assms surjective_pairing] poll_write_dgood [OF assms surjective_pairing]
    flush_dgood [OF assms surjective_pairing] by blast+

lemma try_dfine:
  assumes "dfine c0 r" "\<And>b d. dgood c0 d \<Longrightarrow> dfine c0 (f b d)"
  shows "dfine c0 (di_try r f)"
proof -
  obtain x d where r: "r = (x, d)" by fastforce
  show ?thesis using assms(1) assms(2) [of d True] assms(2) [of d False] unfolding r di_try_def
    by (cases x) (auto split: poll.split sum.split)
qed

lemma if_dfine: "(b \<Longrightarrow> dfine c0 x) \<Longrightarrow> (\<not> b \<Longrightarrow> dfine c0 y) \<Longrightarrow> dfine c0 (if b then x else y)"
  by simp

lemma ready_dfine: "dgood c0 d \<Longrightarrow> dfine c0 (Return (Ready x), d)" "dgood c0 d \<Longrightarrow> dfine c0 (Return Pending, d)"
  by simp_all

lemma again_dgood: "dgood c0 d \<Longrightarrow> dgood c0 (di_set_conn (snd (wants_read_again (di_conn d))) d)"
  by (rule dgood_conn) (auto simp: disp_ok_def simple_reads intro: sound_simple)

lemma poll_loop_dfine: "dgood c0 d \<Longrightarrow> dfine c0 (di_poll_loop E U n rounds d)"
proof (induction rounds arbitrary: d)
  case 0
  then show ?case using dgood_user [OF _ user_wake] by simp
next
  case (Suc rounds)
  show ?case unfolding di_poll_loop.simps Let_def
    by (intro try_dfine poll_dfine Suc.prems if_dfine Suc.IH again_dgood ready_dfine; assumption)
qed

end

lemma finish_fine: "fine (fst (di_finish d res))"
  by (auto simp: di_finish_def split: prod.split sum.split)

lemma pending_upgrade_io [simp]: "cn_io (snd (pending_upgrade c)) = cn_io c" "cn_io (snd (take_error c)) = cn_io c"
    "cn_io (snd (wants_read_again c)) = cn_io c"
  by (simp_all add: pending_upgrade_def take_error_def wants_read_again_def split: option.split)

context dispatch_world
begin

lemma quiet_dgood: "dgood c0 d \<Longrightarrow> dgood c0 (di_set_conn (snd (take_error (di_conn d))) d)"
    "dgood c0 d \<Longrightarrow> dgood c0 (di_set_conn (snd (pending_upgrade (di_conn d))) d)"
  by (rule dgood_conn; auto simp: disp_ok_def simple_reads intro: sound_simple)+

lemma finish_dfine: "dgood c0 d \<Longrightarrow> dfine c0 (di_finish d res)"
  using quiet_dgood(1) [of c0 d] finish_fine [of d res] by (auto simp: di_finish_def split: prod.split sum.split)

lemma shutdown_dfine:
  assumes "dgood c0 d"
  obtains res c where "conn_poll_shutdown E (di_conn d) = Some (res, c)" "res \<noteq> Panicked" "dgood c0 (di_set_conn c d)"
proof -
  obtain res c where "conn_poll_shutdown E (di_conn d) = Some (res, c)" "res \<noteq> Panicked" "sound c0 c"
      "can_read_body c \<longrightarrow> can_read_body (di_conn d)"
    using sound_shutdown assms unfolding disp_ok_def by metis
  then show ?thesis using that dgood_conn [OF assms] by blast
qed

text \<open>The end of \<^verbatim>\<open>poll_inner\<close>, once its loop is done.\<close>

lemma inner_end_dfine:
  assumes "dgood c0 d" "pending_upgrade (di_conn d) = (up, c)"
  shows "dfine c0
    (case (up, c) of
        (Some pending, c) \<Rightarrow> di_finish (di_set_conn c d) (DispatchedUpgrade pending)
      | (None, c) \<Rightarrow>
          (let d = di_set_conn c d in
           if should_shutdown \<and> \<not> di_is_aborted d \<and> \<not> can_write_body (di_conn d) then
             (case conn_poll_shutdown E (di_conn d) of
                None \<Rightarrow> (Stuck, d)
              | Some (Pending, c) \<Rightarrow> (Return Pending, di_set_conn c d)
              | Some (Panicked, c) \<Rightarrow> (Return Panicked, di_set_conn c d)
              | Some (Ready (Inl e), c) \<Rightarrow> (Return (Ready (Inl (ConnError (ErrShutdown e)))), di_set_conn c d)
              | Some (Ready (Inr _), c) \<Rightarrow> di_finish (di_set_conn c d) DispatchedShutdown)
           else di_finish d DispatchedShutdown))"
proof -
  have d: "dgood c0 (di_set_conn c d)" using quiet_dgood(2) [OF assms(1)] assms(2) by simp
  obtain res c1 where s: "conn_poll_shutdown E (di_conn (di_set_conn c d)) = Some (res, c1)" "res \<noteq> Panicked"
      "dgood c0 (di_set_conn c1 (di_set_conn c d))"
    using shutdown_dfine [OF d] .
  show ?thesis using s finish_dfine [OF d] finish_dfine [OF s(3)] d
    by (auto simp: Let_def split: option.split poll.split sum.split)
qed

lemma inner_dfine: "dgood c0 d \<Longrightarrow> dfine c0 (di_poll_inner E U n should_shutdown d)"
  unfolding di_poll_inner_def
  by (rule try_dfine [OF poll_loop_dfine], assumption, rule if_dfine, erule ready_dfine, rule if_dfine)
     (rule inner_end_dfine [OF _ surjective_pairing, unfolded prod.collapse], assumption, erule ready_dfine)

lemma catch_ok:
  assumes "dgood c0 d" "di_poll_catch E U n should_shutdown d = (r, d')"
  shows "fine r" "sound c0 (di_conn d')" "calls_ok taken answered d'" "\<not> (\<exists>x. r = Return (Ready x)) \<Longrightarrow> dgood c0 d'"
proof -
  obtain x d1 where i: "di_poll_inner E U n should_shutdown d = (x, d1)" by fastforce
  have g: "dgood c0 d1" "fine x" using inner_dfine [OF assms(1), of n should_shutdown] i by simp_all
  have s: "sound c0 (di_conn d1)" "calls_ok taken answered d1" using g(1) by (simp_all add: disp_ok_def)
  define d2 where "d2 = (if di_body_tx d1
    then di_drop_body U (d1\<lparr>di_body_tx := False, di_user := body_send_error U BodyConnectionError (di_user d1)\<rparr>) else d1)"
  have "same_calls taken answered (di_user d1) (di_user d2)" "di_conn d2 = di_conn d1" "di_callback d2 = di_callback d1"
    using same_calls_trans [OF body_calls(4) body_calls(5)] by (simp_all add: d2_def di_drop_body_def)
  then have c2: "calls_ok taken answered d2" "di_conn d2 = di_conn d1"
    using s(2) by (simp_all add: calls_ok_def held_def same_calls_def)
  define d3 where "d3 e = d2\<lparr>di_body_tx := True\<rparr>" for e :: "'x disp_error"
  have d3: "dgood c0 (d3 e)" for e using c2 s(1) by (simp add: disp_ok_def d3_def)
  have k: "calls_ok taken answered d4 \<and> di_conn d4 = di_conn d1" if "client_recv_err U e d2 = (y, d4)" for e y d4
  proof -
    have "client_recv_err U e (d3 e) = (y, d4\<lparr>di_body_tx := True\<rparr>)" "di_conn d4 = di_conn d2"
      using that by (auto simp: client_recv_err_def d3_def split: option.split_asm if_split_asm prod.split_asm)
    then show ?thesis using recv_err_dgood [OF d3] c2(2) by (fastforce simp: disp_ok_def)
  qed
  note e = assms(2) [unfolded di_poll_catch_def i prod.case d2_def [symmetric] Let_def]
  consider er where "x = Return (Ready (Inl er))" | "\<not> (\<exists>er. x = Return (Ready (Inl er)))" by blast
  then have "fine r \<and> sound c0 (di_conn d') \<and> calls_ok taken answered d' \<and> (\<not> (\<exists>x. r = Return (Ready x)) \<longrightarrow> dgood c0 d')"
  proof cases
    case 1
    obtain y d4 where y: "client_recv_err U er d2 = (y, d4)" by fastforce
    show ?thesis using e k [OF y] s(1) unfolding 1 by (auto simp: y split: sum.split_asm)
  next
    case 2
    then have "(r, d') = (x, d1)" using e by (auto split: progress.split_asm poll.split_asm sum.split_asm)
    then show ?thesis using g s by simp
  qed
  then show "fine r" "sound c0 (di_conn d')" "calls_ok taken answered d'" "\<not> (\<exists>x. r = Return (Ready x)) \<Longrightarrow> dgood c0 d'" by blast+
qed

lemma run_ok:
  assumes "dgood c0 d" "dispatcher_run E U ns d = (r, d')"
  shows "fine r \<and> sound c0 (di_conn d') \<and> calls_ok taken answered d' \<and> (r = Return Pending \<longrightarrow> dgood c0 d')"
  using assms
proof (induction ns arbitrary: d)
  case Nil
  then show ?case by (auto simp: disp_ok_def)
next
  case (Cons n ns)
  obtain x d1 where p: "di_poll_catch E U n True d = (x, d1)" by fastforce
  note c = catch_ok [OF Cons.prems(1) p]
  show ?case
  proof (cases "x = Return Pending")
    case True
    then show ?thesis using Cons.IH [of d1] Cons.prems(2) c(4) p by (simp add: dispatcher_poll_def)
  next
    case False
    then have "(r, d') = (x, d1)" using Cons.prems(2) p by (auto simp: dispatcher_poll_def split: progress.split_asm poll.split_asm)
    then show ?thesis using c by auto
  qed
qed

lemma envelopes_drop:
  "taken (fold (envelope_drop U) envs u) = taken u \<and> answered (fold (envelope_drop U) envs u) = answered u + mset (map snd envs)"
  by (induction envs arbitrary: u) (auto simp: envelope_drop_def callback_send_def user_answer split: prod.split)

lemma drop_ok:
  assumes "calls_ok taken answered d"
  shows "taken (dispatcher_drop U d) = answered (dispatcher_drop U d)"
proof -
  define u where "u = (case di_callback d of Some cb \<Rightarrow> callback_drop U cb (di_user d) | None \<Rightarrow> di_user d)"
  have u: "taken u = answered u" using assms
    by (auto simp: u_def calls_ok_def held_def callback_drop_def user_answer split: option.split)
  obtain envs u1 where m: "ua_mpsc_drop U (ua_cancel_want U u) = (envs, u1)" by fastforce
  have "taken (dc_receiver_drop U u) = answered (dc_receiver_drop U u)"
    using user_drop [OF m] user_want(2) [of u] u envelopes_drop [of envs u1]
    by (simp add: dc_receiver_drop_def m took_def same_calls_def)
  then show ?thesis using same_calls_trans [OF body_calls(4) body_calls(5)]
    by (simp add: dispatcher_drop_def Let_def u_def [symmetric] same_calls_def)
qed

lemma try_rests:
  assumes "dfine c0 r" "\<And>b d. dgood c0 d \<Longrightarrow> rests_after E U (f b d)"
  shows "rests_after E U (di_try r f)"
proof -
  obtain x d where r: "r = (x, d)" by fastforce
  show ?thesis using assms(1) assms(2) [of d True] assms(2) [of d False] unfolding r di_try_def
    by (cases x) (auto simp: rests_after_def split: poll.split sum.split)
qed

lemma flush_try_rests:
  assumes "dgood c0 d" "\<And>b d'. dgood c0 d' \<Longrightarrow> output_rests E (di_conn d') \<Longrightarrow> rests_after E U (f b d')"
  shows "rests_after E U (di_try (di_poll_flush E d) f)"
proof -
  have s: "sound c0 (di_conn d)" using assms(1) by (simp add: disp_ok_def)
  obtain res c where c: "conn_poll_flush E (di_conn d) = Some (res, c)" "res \<noteq> Panicked" "sound c0 c"
      "can_read_body c \<longrightarrow> can_read_body (di_conn d)"
    using sound_flush [OF s] .
  have g: "dgood c0 (di_set_conn c d)" by (rule dgood_conn [OF assms(1) c(3,4)])
  have o: "(\<And>e. res \<noteq> Ready (Inl e)) \<Longrightarrow> output_rests E (di_conn (di_set_conn c d))"
    using flush_rests [OF s c(1) _ c(2)] by (simp add: di_set_conn_def)
  show ?thesis using c(1,2) o assms(2) [OF g]
    by (auto simp: di_poll_flush_def di_try_def rests_after_def split: poll.split sum.split)
qed

lemma if_rests: "(b \<Longrightarrow> rests_after E U x) \<Longrightarrow> (\<not> b \<Longrightarrow> rests_after E U y) \<Longrightarrow> rests_after E U (if b then x else y)"
  by simp

lemma ready_rests: "output_rests E (di_conn d) \<Longrightarrow> rests_after E U (Return (Ready x), d)"
    "\<not> conn_has_buffered_write (di_conn d) \<Longrightarrow> rests_after E U (Return (Ready x), d)"
  by (simp_all add: rests_after_def output_rests_def split: sum.split)

lemma again_rests: "output_rests E (di_conn d) \<Longrightarrow>
    rests_after E U (Return (Ready x), di_set_conn (snd (wants_read_again (di_conn d))) d)"
  using output_rests_io [of "snd (wants_read_again (di_conn d))" "di_conn d"]
  by (intro ready_rests(1)) (simp add: di_set_conn_def)

lemma poll_loop_rests: "dgood c0 d \<Longrightarrow> rests_after E U (di_poll_loop E U n rounds d)"
proof (induction rounds arbitrary: d)
  case 0
  show ?case by (auto simp: rests_after_def)
next
  case (Suc rounds)
  show ?case unfolding di_poll_loop.simps Let_def
    by (rule try_rests [OF poll_dfine(1) [OF Suc.prems]], rule try_rests, erule poll_dfine(2), rule flush_try_rests, assumption,
        rule if_rests, erule again_rests, rule if_rests, rule try_rests, rule poll_dfine(2), erule again_dgood, rule if_rests)
       (rule if_rests, rule flush_try_rests, assumption, erule ready_rests, erule ready_rests, erule Suc.IH,
        rule Suc.IH, erule again_dgood)
qed

lemma finish_ready: "di_finish d res \<noteq> (Return Pending, d')"
  by (auto simp: di_finish_def split: prod.split_asm sum.split_asm)

lemma inner_rests:
  assumes "dgood c0 d" "di_poll_inner E U n should_shutdown d = (Return Pending, d')"
  shows "output_rests E (di_conn d') \<or> (\<exists>u. di_user d' = ua_wake U u)"
proof -
  obtain x d1 where l: "di_poll_loop E U n 16 d = (x, d1)" by fastforce
  have r: "rests_after E U (x, d1)" using poll_loop_rests [OF assms(1), of n 16] l by simp
  have w: "conn_poll_shutdown E c = Some (Pending, c') \<Longrightarrow> output_rests E c'" for c c'
    by (auto simp: output_rests_def output_waits_def)
  show ?thesis using assms(2) r unfolding di_poll_inner_def l di_try_def
    by (auto simp: rests_after_def Let_def finish_ready di_set_conn_def dest: w
        split: progress.split_asm poll.split_asm sum.split_asm if_split_asm prod.split_asm option.split_asm)
qed

lemma catch_rests:
  assumes "dgood c0 d" "di_poll_catch E U n should_shutdown d = (Return Pending, d')"
  shows "output_rests E (di_conn d') \<or> (\<exists>u. di_user d' = ua_wake U u)"
proof -
  obtain x d1 where i: "di_poll_inner E U n should_shutdown d = (x, d1)" by fastforce
  have "(x, d1) = (Return Pending, d')" using assms(2) unfolding di_poll_catch_def i
    by (auto simp: Let_def split: progress.split_asm poll.split_asm sum.split_asm prod.split_asm)
  then show ?thesis using inner_rests [OF assms(1)] i by simp
qed

lemma new_dgood:
  assumes "sound c0 c" "\<not> can_read_body c" "taken u = answered u"
  shows "dgood c0 (dispatcher_new c u)"
  using assms by (simp add: disp_ok_def dispatcher_new_def calls_ok_def held_def)

lemma handshake_dgood:
  assumes "handshake E PC opts io = Some c" "\<And>i a m. parser_ok (PC i a m)" "io_ok io" "taken u = answered u"
  shows "dgood c (dispatcher_new c u)"
proof (rule new_dgood)
  have p: "protocol_of c = protocol_init" using handshake_state [OF assms(1)] by simp
  show "sound c c" using handshake_ok [OF assms(1)] assms(2,3) p protocol_init_inv run_start [of E c]
    by (auto simp: sound_conn_def)
  show "\<not> can_read_body c" using p by (simp add: can_read_body_phase protocol_init_def)
qed (rule assms(4))

end

interpretation simple: dispatch_world sample_env sc_incoming sc_sent sc_ok "\<lambda>b. b" "\<lambda>b. True"
  simple_api "\<lambda>u. mset (su_taken u)" "\<lambda>u. mset (map fst (su_answers u))"
  by unfold_locales
     (auto simp: simple_api_def same_calls_def took_def recv_env_def su_poll_recv_def su_recv_now_def su_poll_frame_def sample_env_def
       split: list.split_asm if_split_asm prod.split_asm option.split_asm)

lemma handshake_quiet: "handshake sample_env (\<lambda>_ _ _. sample_parser) options_builder exchange_script = Some quiet_conn"
  by (simp add: handshake_def options_builder_def quiet_conn_def set_h1_parser_config_def conn_new_def Let_def)

lemma quiet_eval:
  "st_reading (cn_state quiet_conn) = ReadInit" "st_writing (cn_state quiet_conn) = WriteInit"
  "st_keep_alive (cn_state quiet_conn) = KaBusy" "st_notify_read (cn_state quiet_conn) = False"
  "wb_remaining (bd_write_buf (cn_io quiet_conn)) = 0" "bl_remaining (wb_queue (bd_write_buf (cn_io quiet_conn))) = 0"
  "bd_flush_pipeline (cn_io quiet_conn) = False"
  "bd_read_buf (cn_io quiet_conn) = []" "sc_recv (bd_io (cn_io quiet_conn)) = [RecvWait, Recv sample_response, Recv (ascii ''hello'')]"
  by (simp_all add: quiet_conn_def conn_new_def bd_new_def exchange_script_def wb_new_def wb_remaining_def cursor_remaining_def
      cursor_new_def bl_remaining_def bl_new_def)

lemma quiet_read:
  obtains b where "poll_read_keep_alive sample_env quiet_conn = (Pending, quiet_conn\<lparr>cn_io := b\<rparr>)" "bd_read_blocked b"
    "bd_write_buf b = bd_write_buf (cn_io quiet_conn)" "bd_flush_pipeline b = False"
proof -
  define b where "b = snd (poll_read_from_io sc_api (cn_io quiet_conn))"
  have b: "poll_read_from_io sc_api (cn_io quiet_conn) = (Pending, b)" "bd_read_blocked b"
    by (simp_all add: b_def poll_read_from_io_def Let_def sc_read_buf_def quiet_eval sc_api_def split: prod.split)
  have "poll_read_keep_alive sample_env quiet_conn = (Pending, quiet_conn\<lparr>cn_io := b\<rparr>)"
    using b by (simp add: poll_read_keep_alive_def is_read_closed_def is_mid_message_def require_empty_read_def
        force_io_read_def quiet_eval sample_env_def)
  then show ?thesis using that b(2) read_from_io_writes [OF b(1)] by (simp add: quiet_eval)
qed

lemma quiet_sleeps:
  obtains d where "dispatcher_poll sample_env simple_api 1 quiet_dispatcher = (Return Pending, d)"
proof -
  obtain b where b: "poll_read_keep_alive sample_env quiet_conn = (Pending, quiet_conn\<lparr>cn_io := b\<rparr>)" "bd_read_blocked b"
    "bd_write_buf b = bd_write_buf (cn_io quiet_conn)" "bd_flush_pipeline b = False" using quiet_read .
  define c where "c = quiet_conn\<lparr>cn_io := b\<rparr>"
  define u where "u = (simple_user_init\<lparr>su_queue := []\<rparr>)"
  have h: "can_write_head c" using b(3) by (simp add: can_write_head_def can_headers_buf_def c_def quiet_eval)
  have r: "di_poll_read sample_env simple_api 1 quiet_dispatcher = (Return Pending, dispatcher_new c u)"
    using b(1) by (simp add: quiet_dispatcher_def u_def [symmetric] dispatcher_new_def can_read_head_def quiet_eval c_def di_set_conn_def)
  have m: "client_poll_msg simple_api (dispatcher_new c u) = (Pending, dispatcher_new c (u\<lparr>su_wanted := True\<rparr>))"
    by (simp add: dispatcher_new_def client_poll_msg_def dc_poll_recv_def simple_api_def su_poll_recv_def u_def simple_user_init_def)
  have w: "di_poll_write sample_env simple_api 1 (dispatcher_new c u) = (Return Pending, dispatcher_new c (u\<lparr>su_wanted := True\<rparr>))"
    using h m by (simp add: di_write_turn_def should_poll_def di_write_msg_def) (simp add: dispatcher_new_def)
  have f: "conn_poll_flush sample_env c = Some (Ready (Inr ()), c)"
    using b by (simp add: conn_poll_flush_def poll_flush_def c_def quiet_eval flush_io_def sample_env_def sc_api_def
        try_keep_alive_def maybe_notify_def state_try_keep_alive_def Let_def)
  have a: "wants_read_again c = (False, c)" by (simp add: wants_read_again_def c_def quiet_eval)
  define d where "d = (dispatcher_new c (u\<lparr>su_wanted := True\<rparr>) :: (script, byte list, assoc_map, byte list list, nat, simple_user) dispatcher)"
  have d: "di_poll_flush sample_env d = (Return (Ready (Inr ())), d)" "\<not> can_write_again d"
      "wants_read_again (di_conn d) = (False, c)" "di_set_conn c d = d"
    using f a by (simp_all add: d_def di_poll_flush_def dispatcher_new_def di_set_conn_def can_write_again_def)
  have "di_poll_loop sample_env simple_api 1 (Suc 15) quiet_dispatcher = (Return (Ready (Inr ())), d)"
    unfolding di_poll_loop.simps r di_try_def prod.case progress.case poll.case sum.case w d_def [symmetric] d Let_def
    by (simp add: d)
  then have "di_poll_loop sample_env simple_api 1 16 quiet_dispatcher = (Return (Ready (Inr ())), dispatcher_new c (u\<lparr>su_wanted := True\<rparr>))"
    by (simp add: d_def)
  then have "dispatcher_poll sample_env simple_api 1 quiet_dispatcher = (Return Pending, dispatcher_new c (u\<lparr>su_wanted := True\<rparr>))"
    by (simp add: dispatcher_poll_def di_poll_catch_def di_poll_inner_def di_try_def di_is_done_def dispatcher_new_def
        is_read_closed_def c_def quiet_eval)
  then show ?thesis by (rule that)
qed

section \<open>Properties\<close>







end
