(* ===== verification/Spec2Isabelle.thy ===== *)
theory Spec2Isabelle
  imports Http1_Wire Masque_Capsule Body_Channel Proxy_Tunnel Socks_Udp Socks_Connect Masque_Template Http3_Datagram Http2_Ping Http1_Dispatch
begin

text \<open>
  netty is an HTTP client library in Rust.  This development models its HTTP/1 client protocol, from
  the bytes of the transport up to the connection that a dispatcher drives, and the framing of the
  proxy protocols, and proves what makes them correct.

  \<^bold>\<open>The program and its model.\<close>  A caller hands requests to a connection; the connection
  encodes the head and the body into a write buffer and flushes it to the transport; it reads the
  transport into a read buffer, parses the head of the response there and decodes the body from it.

  \<^item> \<open>Netty_Prelude\<close>: bytes and machine integers, the outcome of a poll (pending, ready, panicked),
    I/O errors, and the parts of the Rust standard library the sources use.
  \<^item> \<open>Http_Types\<close>: methods, versions, message heads (\<^verbatim>\<open>src/src/proto.rs\<close>) and errors
    (\<^verbatim>\<open>src/src/error.rs\<close>); the interface of the \<^verbatim>\<open>http\<close> crate is the record \<open>http_api\<close>, its
    documented laws the locale \<open>http_crate\<close>, association lists an instance.
  \<^item> \<open>Headers\<close>: \<^verbatim>\<open>src/src/proto/headers.rs\<close> and \<^verbatim>\<open>headers/multiplexed.rs\<close>.
  \<^item> \<open>Body_Length\<close>: \<^verbatim>\<open>DecodedLength\<close> of \<^verbatim>\<open>src/src/body/length.rs\<close>, with its sentinels at the
    top of 64 bits.
  \<^item> \<open>Http1_Decode\<close>: the body decoders of \<^verbatim>\<open>src/src/proto/http1/decode.rs\<close>, one definition per state of
    the chunked state machine; the reader is the locale \<open>mem_read\<close>.  \<open>Http1_Chunked\<close>: the grammar of
    chunked messages and the theorems about the decoders.
  \<^item> \<open>Http1_Buf\<close>: \<^verbatim>\<open>BufList\<close> (\<^verbatim>\<open>buf.rs\<close>), \<^verbatim>\<open>Cursor\<close> and \<^verbatim>\<open>WriteBuf\<close> (\<^verbatim>\<open>io.rs\<close>); buffers of other
    crates are the locale \<open>byte_buf\<close>.
  \<^item> \<open>Http1_Encode\<close>: the body encoders and the trailers of \<^verbatim>\<open>encode.rs\<close>; the adapters of the
    \<^verbatim>\<open>bytes\<close> crate are the locale \<open>encoded_bufs\<close>.
  \<^item> \<open>Http1_Role\<close>: \<^verbatim>\<open>Client\<close> of \<^verbatim>\<open>role.rs\<close>, which parses responses, chooses the framing and encodes
    requests; \<^verbatim>\<open>httparse\<close> is a parameter with the contract \<open>parser_ok\<close>.
  \<^item> \<open>Http1_Io\<close>: \<^verbatim>\<open>Buffered\<close> of \<^verbatim>\<open>io.rs\<close>, with its read strategy, parse loop and flush loops; the
    transport is the locale \<open>transport\<close>, a scripted transport an instance.
  \<^item> \<open>Http1_Conn\<close>: \<^verbatim>\<open>State\<close> and \<^verbatim>\<open>Conn\<close> of \<^verbatim>\<open>conn.rs\<close>, one definition per operation.
  \<^item> \<open>Http1_Session\<close>: the options (\<^verbatim>\<open>src/src/proto/http1.rs\<close>), the handshake
    (\<^verbatim>\<open>src/src/conn/http1.rs\<close>), sequences of operations, and the abstract request/response protocol.
  \<^item> \<open>Http1_Wire\<close>: the invariant of a connection and what every operation does to the bytes sent and
    received, in the locale \<open>conn_world\<close> that gathers the contracts above.
  \<^item> \<open>Masque_Capsule\<close>: the Capsule Protocol of \<^verbatim>\<open>src/src/proxy/masque/capsule.rs\<close>.

  \<^bold>\<open>Conventions.\<close>  State is passed explicitly; a \<^verbatim>\<open>Result\<close> is a sum with the error on the left.
  A Rust panic is a value (\<open>Panicked\<close>, or the inner \<open>None\<close>), so that its absence is proved.  A loop
  whose end is not obvious is a \<open>partial_function (option)\<close>: the outer \<open>None\<close> is non-termination, and
  that it does not occur is proved for each loop.  Fuel appears only in \<open>drain\<close>, which polls a decoder
  until its body ends: more polls than there are bytes and pending polls left are always enough, and
  the theorems assume no more.  Arithmetic wraps as in a release build, \<^verbatim>\<open>debug_assert!\<close> is not
  executed but is a precondition in \<open>conn_enabled\<close>.

  \<^bold>\<open>What is shown.\<close>
  \<^item> The connection as a whole: it never panics or loops under any schedule and any peer, its output
    only grows and its input is consumed in order, it refines the request/response protocol, requests
    and responses alternate, closing is final; what it writes for a request is exactly the head and
    the framed body, and a peer decodes the body it was given.
  \<^item> Receiving: decoders accept exactly the well-formed messages, independent of how the transport
    cuts the bytes, with bounded buffers; a body is complete when it is reported complete; the framing
    of a response is unambiguous; head parsing always ends within the limits.
  \<^item> Sending: framing headers agree with the encoder; the encoders round-trip with the decoders; write
    buffers are queues of bytes under both strategies, and flushing loses nothing.
  \<^item> Proxies: capsules round-trip under any fragmentation and the decoder's memory is bounded.
  \<^item> One deviation: only the first \<^verbatim>\<open>Connection\<close> line is consulted when connection-specific fields are
    stripped (\<open>strip_connection_second_line_kept\<close>).

  \<^bold>\<open>Not modelled.\<close>  The dispatcher and the channels between tasks, wakers and timers; HTTP/2 and
  HTTP/3, which drive other crates; the connectors of the proxies; upgrades, type-erased extensions,
  logging and the formatting of errors.  Callbacks for informational responses are the list of the
  heads they were called with.
\<close>

section \<open>Across components\<close>

text \<open>
  C2.  A body survives the trip.  What a client connection writes for a chunked body, over any
  transport, with any write strategy and any cut into buffers, is what a peer that reads it through
  its own buffered transport, in pieces of any size and with any pauses, decodes: the same bytes, no
  trailers, and nothing of what follows is consumed.
\<close>

theorem body_end_to_end:
  assumes "conn_world E incoming sent io_ok contents ok"
    and "conn_ok io_ok contents ok c" "st_writing (cn_state c) = WriteBody e" "encoder_is_chunked e"
    and "list_all (body_piece contents ok) bs"
    and "live_transport T incoming' sent' io_ok' waits" "bd_read_ok io_ok' b"
    and "length (bd_stream incoming' b) + waits (bd_io b) < fuel"
  shows "\<exists>c'. send_body E c bs = Some (Some c') \<and>
    wire_ok incoming sent contents c c' (render (message_of (map contents bs))) \<and>
    (bd_stream incoming' b = render (message_of (map contents bs)) @ rest \<longrightarrow>
     map_option (drained (bd_stream incoming')) (drain A P (read_mem T) fuel (decoder_new CHUNKED mh mb) b) =
       Some (concat (map contents bs), Inr (None, rest)))"
proof -
  let ?m = "message_of (map contents bs)"
  obtain c' where c': "send_body E c bs = Some (Some c')" "wire_ok incoming sent contents c c' (render ?m)"
    using conn_world.send_chunked [OF assms(1-5)] by blast
  have "buffered_transport T incoming' sent' io_ok'"
    using assms(6) by (simp add: buffered_transport.intro live_transport.axioms(1))
  then have live: "live_mem_read (read_mem T) (bd_stream incoming') (bd_read_ok io_ok') (\<lambda>b. waits (bd_io b))"
    using live_buffered.live_reader [OF live_buffered.intro] assms(6) by blast
  have "list_all (\<lambda>d. d \<noteq> [] \<and> length d < 2 ^ 64) (map contents bs)"
    using assms(5) by (auto simp: list_all_iff body_piece_def)
  note m = message_of_ok [OF this]
  have "bd_stream incoming' b = render ?m @ rest \<longrightarrow>
     map_option (drained (bd_stream incoming')) (drain A P (read_mem T) fuel (decoder_new CHUNKED mh mb) b) =
       Some (concat (map contents bs), Inr (None, rest))"
    using live_mem_read.drain_message [OF live assms(7,8) m, of rest A P]
    by (simp add: message_of_data trailer_section_def message_of_trailers del: map_option_eq_Some)
  then show ?thesis using c' by blast
qed

theorem body_end_to_end_witness:
  "\<exists>c'. send_body sample_env (set_writing (WriteBody encoder_chunked) sample_conn) [[7, 8], [9]] = Some (Some c') \<and>
    wire_ok sc_incoming sc_sent (\<lambda>b. b) (set_writing (WriteBody encoder_chunked) sample_conn) c'
      [50, 13, 10, 7, 8, 13, 10, 49, 13, 10, 9, 13, 10, 48, 13, 10, 13, 10] \<and>
    map_option (drained (bd_stream sc_incoming))
      (drain assoc_api sample_httparse (read_mem sc_api) 40 (decoder_new CHUNKED None None)
        (sample_buffered \<lparr>sc_recv = [Recv [50, 13, 10, 7], RecvWait, Recv [8, 13, 10, 49, 13, 10, 9, 13, 10, 48, 13, 10, 13, 10, 1]],
           sc_write = [], sc_sent = [], sc_vectored = False\<rparr>)) =
      Some ([7, 8, 9], Inr (None, [1]))"
proof -
  let ?c = "set_writing (WriteBody encoder_chunked) sample_conn"
  let ?s = "\<lparr>sc_recv = [Recv [50, 13, 10, 7], RecvWait, Recv [8, 13, 10, 49, 13, 10, 9, 13, 10, 48, 13, 10, 13, 10, 1]],
           sc_write = [], sc_sent = [], sc_vectored = False\<rparr>"
  have "sc_ok sample_script" by (simp add: sc_ok_def sample_script_def sample_response_def ascii_def)
  then have "conn_ok sc_ok (\<lambda>b. b) (\<lambda>b. True) sample_conn"
    using handshake_ok [OF handshake_sample] sample_parser_ok by blast
  then have ok: "conn_ok sc_ok (\<lambda>b. b) (\<lambda>b. True) ?c" "st_writing (cn_state ?c) = WriteBody encoder_chunked"
      "encoder_is_chunked encoder_chunked" "list_all (body_piece (\<lambda>b. b) (\<lambda>b. True)) [[7, 8], [9]]"
    by (simp_all add: conn_ok_def set_writing_def writing_ok_def encoder_chunked_def encoder_new_def encoder_is_eof_def
        encoder_is_chunked_def body_piece_def)
  have render: "render (message_of (map (\<lambda>b. b) [[7, 8], [9]])) =
      [50, 13, 10, 7, 8, 13, 10, 49, 13, 10, 9, 13, 10, 48, 13, 10, 13, 10]"
    by (simp add: message_of_def render_def render_chunk_def chunk_of_def render_line_def render_trailers_def
        hex_upper.simps hex_digit_def ext_bytes_def)
  have live: "bd_read_ok sc_live (sample_buffered ?s)" "bd_stream sc_incoming (sample_buffered ?s) =
      [50, 13, 10, 7, 8, 13, 10, 49, 13, 10, 9, 13, 10, 48, 13, 10, 13, 10] @ [1]" "sc_waits (bd_io (sample_buffered ?s)) = 1"
    by (simp_all add: sample_buffered_def bd_new_def bd_read_ok_def sc_live_def sc_ok_def bd_stream_def sc_incoming_def sc_waits_def)
  show ?thesis
    using body_end_to_end [OF sample_world.conn_world_axioms ok script_live live(1), of 40 "[1]" assoc_api sample_httparse None None]
    unfolding render live by simp
qed

end
